(* ===== verification/Kernel_Prelude.thy ===== *)
theory Kernel_Prelude
  imports Main "HOL-Library.Word"
begin

text \<open>
  Shared vocabulary of the PyramidOS development: the machine integer types, the result
  type of kernel functions (\<^emph>\<open>a value, or the reason why the machine stopped\<close>), the calls a
  component makes on the console, and the generic facts on words, lists and bytes that the
  component theories use.
\<close>

unbundle bit_operations_syntax

named_theorems kres_simps \<open>rewriting of the kernel result monad\<close>
named_theorems mem_simps \<open>reads after writes on byte memories\<close>

section \<open>Machine types\<close>

type_synonym u8 = "8 word"
type_synonym u16 = "16 word"
type_synonym u32 = "32 word"
type_synonym u64 = "64 word"

text \<open>
  Counters and indices that the code keeps in \<^verbatim>\<open>uint32_t\<close> variables are natural numbers in the
  model; \<open>wrap32\<close> is written wherever the C expression could leave the 32-bit range.
\<close>

definition wrap32 :: "nat \<Rightarrow> nat" where
  "wrap32 n = n mod 2 ^ 32"

lemma wrap32_id [simp]: "n < 4294967296 \<Longrightarrow> wrap32 n = n"
  by (simp add: wrap32_def)

lemma wrap32_less [simp]: "wrap32 n < 4294967296"
  by (simp add: wrap32_def)

section \<open>Results of kernel functions\<close>

text \<open>
  \<^verbatim>\<open>panic\<close> and \<^verbatim>\<open>pmm_panic_u32\<close> print their arguments and halt the processor for good, so a
  function that may panic returns either a value or the panic with what it prints. \<open>Hang\<close> stands
  for a loop that never ends.
\<close>

datatype stop =
    Panic string
  | Panic_u32 string u32
  | Hang

type_synonym 'a kres = "stop + 'a"

definition kbind :: "'a kres \<Rightarrow> ('a \<Rightarrow> 'b kres) \<Rightarrow> 'b kres" where
  "kbind m f = (case m of Inl e \<Rightarrow> Inl e | Inr x \<Rightarrow> f x)"

lemma kbind_Inl [simp, kres_simps]: "kbind (Inl e) f = Inl e"
  by (simp add: kbind_def)

lemma kbind_Inr [simp, kres_simps]: "kbind (Inr x) f = f x"
  by (simp add: kbind_def)

lemma kbind_eq_Inr_iff [kres_simps]:
  "kbind m f = Inr y \<longleftrightarrow> (\<exists>x. m = Inr x \<and> f x = Inr y)"
  by (cases m) auto

lemma kbind_eq_Inl_iff [kres_simps]:
  "kbind m f = Inl e \<longleftrightarrow> m = Inl e \<or> (\<exists>x. m = Inr x \<and> f x = Inl e)"
  by (cases m) auto

lemma kbind_cong [fundef_cong]:
  "m = m' \<Longrightarrow> (\<And>x. m' = Inr x \<Longrightarrow> f x = g x) \<Longrightarrow> kbind m f = kbind m' g"
  by (cases m') auto

text \<open>A loop over a list of indices whose body may stop the machine.\<close>

fun kfold :: "('i \<Rightarrow> 's \<Rightarrow> 's kres) \<Rightarrow> 'i list \<Rightarrow> 's \<Rightarrow> 's kres" where
  "kfold f [] s = Inr s"
| "kfold f (i # is) s = kbind (f i s) (kfold f is)"

lemma kfold_append [simp]: "kfold f (xs @ ys) s = kbind (kfold f xs s) (kfold f ys)"
proof (induction xs arbitrary: s)
  case (Cons x xs)
  then show ?case by (cases "f x s") simp_all
qed simp

text \<open>
  The invariant rule of such a loop: with \<open>P\<close> indexed by the part of the list already
  processed, a body that always succeeds and moves \<open>P\<close> on makes the loop succeed.
\<close>

lemma kfold_invariant:
  assumes "P [] s"
    and "\<And>xs i ys s. is = xs @ i # ys \<Longrightarrow> P xs s \<Longrightarrow> \<exists>s'. f i s = Inr s' \<and> P (xs @ [i]) s'"
  shows "\<exists>s'. kfold f is s = Inr s' \<and> P is s'"
  using assms
proof (induction "is" arbitrary: s P)
  case (Cons i "is")
  obtain s1 where s1: "f i s = Inr s1" "P [i] s1"
    using Cons.prems(2) [of "[]" i "is" s] Cons.prems(1) by auto
  have "\<exists>s'. kfold f is s1 = Inr s' \<and> P (i # is) s'"
  proof (rule Cons.IH [where P = "\<lambda>xs. P (i # xs)"])
    show "P [i] s1" by (rule s1)
    fix xs j ys t
    assume "is = xs @ j # ys" "P (i # xs) t"
    then show "\<exists>s'. f j t = Inr s' \<and> P (i # xs @ [j]) s'"
      using Cons.prems(2) [of "i # xs" j ys t] by simp
  qed
  then show ?case using s1 by simp
qed simp

section \<open>Console calls\<close>

text \<open>
  Components outside the terminal driver only ever call \<^verbatim>\<open>term_print\<close>, \<^verbatim>\<open>term_print_hex\<close> and
  \<^verbatim>\<open>term_clear\<close>. They record these calls, in order, in \<open>con_log\<close>.
\<close>

datatype con_call =
    TermPrint string u8
  | TermPrintHex u32 u8
  | TermClear

record kbase =
  con_log :: "con_call list"

definition term_call :: "con_call \<Rightarrow> 'a kbase_scheme \<Rightarrow> 'a kbase_scheme" where
  "term_call c s = s\<lparr>con_log := con_log s @ [c]\<rparr>"

section \<open>Bits and bytes\<close>

lemma bit_exhaust_word:
  fixes w :: "'a::len word"
  shows "w \<noteq> 0 \<longleftrightarrow> (\<exists>n < LENGTH('a). bit w n)"
  using bit_word_eqI [of w 0] bit_imp_le_length by (auto simp: not_le)

lemma unat_u32_less [simp]: "unat (w :: u32) < 4294967296"
proof -
  have "unat w < 2 ^ LENGTH(32)" by (rule unsigned_less)
  then show ?thesis by simp
qed

lemma unat_u64_less [simp]: "unat (w :: u64) < 18446744073709551616"
proof -
  have "unat w < 2 ^ LENGTH(64)" by (rule unsigned_less)
  then show ?thesis by simp
qed

lemma unat_of_nat_u32 [simp]: "n < 4294967296 \<Longrightarrow> unat (of_nat n :: u32) = n"
  by (simp add: unat_of_nat take_bit_nat_eq_self)

lemma sint_of_nat_u32: "n < 2147483648 \<Longrightarrow> sint (of_nat n :: u32) = int n"
  by (simp add: sint_uint uint_nat signed_take_bit_int_eq_self)

lemma from_word_index:
  assumes "(st :: nat) div 32 \<le> w"
  shows "(w = st div 32 \<longrightarrow> st mod 32 \<le> b) \<longleftrightarrow> st \<le> w * 32 + b"
proof -
  define q r where "q = st div 32" and "r = st mod 32"
  then have "st = q * 32 + r" "r < 32" "q \<le> w" using assms by simp_all
  then have "(w = q \<longrightarrow> r \<le> b) \<longleftrightarrow> st \<le> w * 32 + b" by (cases "w = q") auto
  then show ?thesis by (simp only: q_def r_def)
qed

lemma upto_word_index:
  assumes "w \<le> (l :: nat) div 32" "b < 32"
  shows "(w = l div 32 \<longrightarrow> b \<le> l mod 32) \<longleftrightarrow> w * 32 + b \<le> l"
proof -
  define q r where "q = l div 32" and "r = l mod 32"
  then have "l = q * 32 + r" "w \<le> q" using assms by simp_all
  then have "(w = q \<longrightarrow> b \<le> r) \<longleftrightarrow> w * 32 + b \<le> l" using assms(2) by (cases "w = q") auto
  then show ?thesis by (simp only: q_def r_def)
qed

lemma nat_div8_mod8 [simp]: "(n::nat) div 8 * 8 + n mod 8 = n"
  by simp

end
