(* ===== verification/Port_IO.thy ===== *)
theory Port_IO
  imports Kernel_Prelude
begin

text \<open>
  Port input and output (\<^verbatim>\<open>src/kernel/arch/i386/io.h\<close>). The devices behind the ports are a
  parameter: a \<open>bus\<close> says what each access returns and does to the state \<open>'h\<close> of the hardware. Every
  access is also recorded in \<open>io_log\<close>, so that statements can speak of the exact traffic a driver
  causes.
\<close>

section \<open>The bus\<close>

datatype io_event =
    In8 u16 u8
  | Out8 u16 u8
  | In16 u16 u16
  | Out16 u16 u16

record 'h bus =
  bus_in8 :: "u16 \<Rightarrow> 'h \<Rightarrow> u8 \<times> 'h"
  bus_out8 :: "u16 \<Rightarrow> u8 \<Rightarrow> 'h \<Rightarrow> 'h"
  bus_in16 :: "u16 \<Rightarrow> 'h \<Rightarrow> u16 \<times> 'h"
  bus_out16 :: "u16 \<Rightarrow> u16 \<Rightarrow> 'h \<Rightarrow> 'h"

record 'h ports =
  hw :: 'h
  io_log :: "io_event list"

definition outb :: "'h bus \<Rightarrow> u16 \<Rightarrow> u8 \<Rightarrow> ('h, 'a) ports_scheme \<Rightarrow> ('h, 'a) ports_scheme" where
  "outb B port val s = s\<lparr>hw := bus_out8 B port val (hw s), io_log := io_log s @ [Out8 port val]\<rparr>"

definition inb :: "'h bus \<Rightarrow> u16 \<Rightarrow> ('h, 'a) ports_scheme \<Rightarrow> u8 \<times> ('h, 'a) ports_scheme" where
  "inb B port s = (let (v, h) = bus_in8 B port (hw s)
     in (v, s\<lparr>hw := h, io_log := io_log s @ [In8 port v]\<rparr>))"

definition io_wait :: "'h bus \<Rightarrow> ('h, 'a) ports_scheme \<Rightarrow> ('h, 'a) ports_scheme" where
  "io_wait B = outb B 0x80 0"

text \<open>The string instructions move \<^verbatim>\<open>cnt\<close> words, one port access each, in order.\<close>

fun insw :: "'h bus \<Rightarrow> u16 \<Rightarrow> nat \<Rightarrow> ('h, 'a) ports_scheme \<Rightarrow> u16 list \<times> ('h, 'a) ports_scheme" where
  "insw B port 0 s = ([], s)"
| "insw B port (Suc cnt) s =
     (let (w, h) = bus_in16 B port (hw s);
          (ws, s) = insw B port cnt (s\<lparr>hw := h, io_log := io_log s @ [In16 port w]\<rparr>)
      in (w # ws, s))"

fun outsw :: "'h bus \<Rightarrow> u16 \<Rightarrow> u16 list \<Rightarrow> ('h, 'a) ports_scheme \<Rightarrow> ('h, 'a) ports_scheme" where
  "outsw B port [] s = s"
| "outsw B port (w # ws) s =
     outsw B port ws (s\<lparr>hw := bus_out16 B port w (hw s), io_log := io_log s @ [Out16 port w]\<rparr>)"

section \<open>Traffic\<close>

named_theorems io_simps \<open>hardware state and traffic after port accesses\<close>

text \<open>What a driver sent to the devices, in order.\<close>

fun port_writes :: "io_event list \<Rightarrow> (u16 \<times> u8) list" where
  "port_writes [] = []"
| "port_writes (Out8 p v # es) = (p, v) # port_writes es"
| "port_writes (_ # es) = port_writes es"

lemma port_writes_append [simp]: "port_writes (xs @ ys) = port_writes xs @ port_writes ys"
  by (induction xs rule: port_writes.induct) simp_all

definition port_count :: "u16 \<Rightarrow> io_event list \<Rightarrow> nat" where
  "port_count p es = length (filter (\<lambda>e. case e of In8 q _ \<Rightarrow> q = p | _ \<Rightarrow> False) es)"

lemma port_count_simps [simp]:
  "port_count p [] = 0" "port_count p (xs @ ys) = port_count p xs + port_count p ys"
  "port_count p (e # es) = (case e of In8 q _ \<Rightarrow> if q = p then 1 else 0 | _ \<Rightarrow> 0) + port_count p es"
  by (simp_all add: port_count_def split: io_event.split)

lemma outb_simps [io_simps]:
  "hw (outb B p v s) = bus_out8 B p v (hw s)"
  "io_log (outb B p v s) = io_log s @ [Out8 p v]"
  "ports.more (outb B p v s) = ports.more s"
  by (simp_all add: outb_def)

lemma inb_simps [io_simps]:
  "fst (inb B p s) = fst (bus_in8 B p (hw s))"
  "hw (snd (inb B p s)) = snd (bus_in8 B p (hw s))"
  "io_log (snd (inb B p s)) = io_log s @ [In8 p (fst (bus_in8 B p (hw s)))]"
  "ports.more (snd (inb B p s)) = ports.more s"
  by (simp_all add: inb_def case_prod_beta Let_def)

lemma inb_pair: "inb B p s = (fst (inb B p s), snd (inb B p s))"
  by simp

text \<open>
  The words a device delivers at a port, and the state it is left in: the string input instruction
  stores exactly these.
\<close>

fun bus_words :: "'h bus \<Rightarrow> u16 \<Rightarrow> nat \<Rightarrow> 'h \<Rightarrow> u16 list \<times> 'h" where
  "bus_words B p 0 h = ([], h)"
| "bus_words B p (Suc n) h =
     (let (w, h) = bus_in16 B p h; (ws, h) = bus_words B p n h in (w # ws, h))"

lemma insw_words [io_simps]:
  "fst (insw B p n s) = fst (bus_words B p n (hw s))"
  "hw (snd (insw B p n s)) = snd (bus_words B p n (hw s))"
  "ports.more (snd (insw B p n s)) = ports.more s"
  by (induction n arbitrary: s) (auto simp: case_prod_beta Let_def)

lemma insw_log [io_simps]:
  "io_log (snd (insw B p n s)) = io_log s @ map (In16 p) (fst (bus_words B p n (hw s)))"
  by (induction n arbitrary: s) (auto simp: case_prod_beta Let_def)

lemma length_bus_words [simp]: "length (fst (bus_words B p n h)) = n"
  by (induction n arbitrary: h) (auto simp: case_prod_beta Let_def)

lemma length_insw [simp]: "length (fst (insw B p n s)) = n"
  by (simp add: insw_words)

lemma port_writes_In16 [simp]: "port_writes (map (In16 p) ws) = []"
  by (induction ws) simp_all

lemma port_count_In16 [simp]: "port_count q (map (In16 p) ws) = 0"
  by (induction ws) simp_all

end
