(* ===== verification/Terminal.thy ===== *)
theory Terminal
  imports Port_IO
begin

text \<open>
  The VGA text terminal (\<^verbatim>\<open>src/kernel/drivers/terminal.c\<close>). The text buffer is a store of 16-bit cells
  indexed as the code indexes it, without a bound, so that a write outside the screen would show; the
  cursor variables are 16-bit words. The driver is shown to implement a screen of 2000 cells with one
  linear write position.
\<close>

section \<open>Model\<close>

abbreviation VGA_COLS :: nat where "VGA_COLS \<equiv> 80"
abbreviation VGA_ROWS :: nat where "VGA_ROWS \<equiv> 25"
abbreviation VGA_DEFAULT_ATTR :: u8 where "VGA_DEFAULT_ATTR \<equiv> 0x0F"

record 'h term_state = "'h ports" +
  g_vga_buffer :: "u32 \<Rightarrow> u16"
  g_cursor_x :: u16
  g_cursor_y :: u16

definition vga_cell :: "u8 \<Rightarrow> u8 \<Rightarrow> u16" where
  "vga_cell attr c = push_bit 8 (ucast attr) OR ucast c"

abbreviation vga_blank :: u16 where
  "vga_blank \<equiv> vga_cell VGA_DEFAULT_ATTR 0x20"

definition term_update_cursor :: "'h bus \<Rightarrow> u16 \<Rightarrow> u16 \<Rightarrow> ('h, 'a) ports_scheme \<Rightarrow> ('h, 'a) ports_scheme" where
  "term_update_cursor B x y s =
     (let pos = ucast ((ucast y :: u32) * 80 + ucast x) :: u16;
          s = outb B 0x3D4 0x0F s;
          s = outb B 0x3D5 (ucast (pos AND 0xFF)) s;
          s = outb B 0x3D4 0x0E s
      in outb B 0x3D5 (ucast (drop_bit 8 pos AND 0xFF)) s)"

definition term_clear :: "'h bus \<Rightarrow> ('h, 'a) term_state_scheme \<Rightarrow> ('h, 'a) term_state_scheme" where
  "term_clear B s =
     (let s = fold (\<lambda>i s. s\<lparr>g_vga_buffer := (g_vga_buffer s)(of_nat i := vga_blank)\<rparr>) [0..<VGA_COLS * VGA_ROWS] s;
          s = s\<lparr>g_cursor_x := 0, g_cursor_y := 0\<rparr>
      in term_update_cursor B (g_cursor_x s) (g_cursor_y s) s)"

definition term_init :: "'h bus \<Rightarrow> ('h, 'a) term_state_scheme \<Rightarrow> ('h, 'a) term_state_scheme" where
  "term_init B s = term_clear B (s\<lparr>g_cursor_x := 0, g_cursor_y := 0\<rparr>)"

text \<open>The body of the loop of \<^verbatim>\<open>term_print\<close>.\<close>

definition term_put :: "'h bus \<Rightarrow> u8 \<Rightarrow> char \<Rightarrow> ('h, 'a) term_state_scheme \<Rightarrow> ('h, 'a) term_state_scheme" where
  "term_put B color c s =
     (let s =
        (if c = CHR 0x0A then s\<lparr>g_cursor_x := 0, g_cursor_y := g_cursor_y s + 1\<rparr>
         else if c = CHR 0x08 then
           if g_cursor_x s > 0 then
             let s = s\<lparr>g_cursor_x := g_cursor_x s - 1\<rparr>;
                 index = (ucast (g_cursor_y s) :: u32) * 80 + ucast (g_cursor_x s)
             in s\<lparr>g_vga_buffer := (g_vga_buffer s)(index := vga_blank)\<rparr>
           else s
         else
           let index = (ucast (g_cursor_y s) :: u32) * 80 + ucast (g_cursor_x s)
           in s\<lparr>g_vga_buffer := (g_vga_buffer s)(index := vga_cell color (of_char c)), g_cursor_x := g_cursor_x s + 1\<rparr>);
          s = (if g_cursor_x s \<ge> 80 then s\<lparr>g_cursor_x := 0, g_cursor_y := g_cursor_y s + 1\<rparr> else s)
      in if g_cursor_y s \<ge> 25 then term_clear B (s\<lparr>g_cursor_y := 0\<rparr>) else s)"

definition term_print :: "'h bus \<Rightarrow> string option \<Rightarrow> u8 \<Rightarrow> ('h, 'a) term_state_scheme \<Rightarrow> ('h, 'a) term_state_scheme" where
  "term_print B str color s =
     (case str of None \<Rightarrow> s
      | Some cs \<Rightarrow>
          let s = fold (term_put B color) (takeWhile (\<lambda>c. c \<noteq> CHR 0x00) cs) s
          in term_update_cursor B (g_cursor_x s) (g_cursor_y s) s)"

definition hex_chars :: string where
  "hex_chars = ''0123456789ABCDEF''"

definition term_print_hex :: "'h bus \<Rightarrow> u32 \<Rightarrow> u8 \<Rightarrow> ('h, 'a) term_state_scheme \<Rightarrow> ('h, 'a) term_state_scheme" where
  "term_print_hex B n color s =
     fold (\<lambda>shift. term_print B (Some [hex_chars ! unat (drop_bit shift n AND 0xF)]) color)
       [28, 24, 20, 16, 12, 8, 4, 0] (term_print B (Some ''0x'') color s)"

text \<open>The calls that other components have recorded, carried out in order.\<close>

fun term_do :: "'h bus \<Rightarrow> con_call \<Rightarrow> ('h, 'a) term_state_scheme \<Rightarrow> ('h, 'a) term_state_scheme" where
  "term_do B (TermPrint str color) = term_print B (Some str) color"
| "term_do B (TermPrintHex n color) = term_print_hex B n color"
| "term_do B TermClear = term_clear B"

definition term_run :: "'h bus \<Rightarrow> con_call list \<Rightarrow> ('h, 'a) term_state_scheme \<Rightarrow> ('h, 'a) term_state_scheme" where
  "term_run B = fold (term_do B)"

section \<open>A screen with one write position\<close>

type_synonym screen = "nat \<times> u16 list"

definition screen_put :: "u8 \<Rightarrow> char \<Rightarrow> screen \<Rightarrow> screen" where
  "screen_put color c = (\<lambda>(p, cs).
     let (p, cs) =
       (if c = CHR 0x0A then (80 * (p div 80 + 1), cs)
        else if c = CHR 0x08 then if p mod 80 = 0 then (p, cs) else (p - 1, cs[p - 1 := vga_blank])
        else (p + 1, cs[p := vga_cell color (of_char c)]))
     in if p < 2000 then (p, cs) else (0, replicate 2000 vga_blank))"

definition hex_text :: "u32 \<Rightarrow> string" where
  "hex_text n = ''0x'' @ map (\<lambda>k. hex_chars ! (unat n div 16 ^ k mod 16)) [7, 6, 5, 4, 3, 2, 1, 0]"

fun screen_do :: "con_call \<Rightarrow> screen \<Rightarrow> screen" where
  "screen_do (TermPrint str color) = fold (screen_put color) (takeWhile (\<lambda>c. c \<noteq> CHR 0x00) str)"
| "screen_do (TermPrintHex n color) = fold (screen_put color) (hex_text n)"
| "screen_do TermClear = (\<lambda>_. (0, replicate 2000 vga_blank))"

text \<open>The screen that the variables of the driver stand for.\<close>

definition cursor_ok :: "('h, 'a) term_state_scheme \<Rightarrow> bool" where
  "cursor_ok s \<longleftrightarrow> unat (g_cursor_x s) < 80 \<and> unat (g_cursor_y s) < 25"

definition cursor_pos :: "('h, 'a) term_state_scheme \<Rightarrow> nat" where
  "cursor_pos s = 80 * unat (g_cursor_y s) + unat (g_cursor_x s)"

definition screen_of :: "('h, 'a) term_state_scheme \<Rightarrow> screen" where
  "screen_of s = (cursor_pos s, map (\<lambda>i. g_vga_buffer s (of_nat i)) [0..<2000])"

text \<open>The register writes that place the hardware cursor.\<close>

definition cursor_cmd :: "nat \<Rightarrow> (u16 \<times> u8) list" where
  "cursor_cmd p = [(0x3D4, 0x0F), (0x3D5, of_nat (p mod 256)), (0x3D4, 0x0E), (0x3D5, of_nat (p div 256))]"

text \<open>
  \<open>draws s s' scr\<close>: from \<open>s\<close> to \<open>s'\<close> only the screen changed, to \<open>scr\<close>, and only cursor registers were
  written.
\<close>

definition draws :: "('h, 'a) term_state_scheme \<Rightarrow> ('h, 'a) term_state_scheme \<Rightarrow> screen \<Rightarrow> bool" where
  "draws s s' scr \<longleftrightarrow> cursor_ok s' \<and> screen_of s' = scr \<and>
     (\<forall>i. 2000 \<le> unat i \<longrightarrow> g_vga_buffer s' i = g_vga_buffer s i) \<and> term_state.more s' = term_state.more s \<and>
     (\<exists>es. io_log s' = io_log s @ es \<and> fst ` set (port_writes es) \<subseteq> {0x3D4, 0x3D5})"

lemma unat_ucast_u16: "unat (ucast (w :: u16) :: u32) = unat w"
proof -
  have "unat w < 2 ^ LENGTH(16)" by (rule unsigned_less)
  then show ?thesis by (simp add: unsigned_ucast_eq take_bit_nat_eq_self)
qed

lemma low_byte: "(ucast (p AND 0xFF) :: u8) = of_nat (unat p mod 256)" for p :: u16
proof -
  have "p AND 0xFF = take_bit 8 p" by (simp add: take_bit_eq_mask mask_eq_exp_minus_1)
  then show ?thesis by (simp add: word_unat_eq_iff unsigned_ucast_eq unsigned_take_bit_eq unat_of_nat take_bit_eq_mod unat_mod_distrib)
qed

lemma high_byte: "(ucast (drop_bit 8 p AND 0xFF) :: u8) = of_nat (unat p div 256)" for p :: u16
proof -
  have "drop_bit 8 p AND 0xFF = take_bit 8 (drop_bit 8 p)" by (simp add: take_bit_eq_mask mask_eq_exp_minus_1)
  then show ?thesis
    by (simp add: word_unat_eq_iff unsigned_ucast_eq unsigned_take_bit_eq unsigned_drop_bit_eq unat_of_nat take_bit_eq_mod drop_bit_eq_div unat_mod_distrib unat_div_distrib)
qed

section \<open>The driver implements the screen\<close>

lemma cursor_index:
  assumes "cursor_ok s"
  shows "unat ((ucast (g_cursor_y s) :: u32) * 80 + ucast (g_cursor_x s)) = cursor_pos s" "cursor_pos s < 2000"
proof -
  have b: "unat (g_cursor_x s) < 80" "unat (g_cursor_y s) < 25" using assms by (simp_all add: cursor_ok_def)
  show "unat ((ucast (g_cursor_y s) :: u32) * 80 + ucast (g_cursor_x s)) = cursor_pos s"
    using b by (simp add: unat_word_ariths unat_ucast_u16 cursor_pos_def)
  show "cursor_pos s < 2000" using b by (simp add: cursor_pos_def)
qed

lemma update_cursor_eq:
  fixes s :: "('h, 'a) term_state_scheme"
  assumes "cursor_ok s"
  shows "\<exists>h. term_update_cursor B (g_cursor_x s) (g_cursor_y s) s =
     s\<lparr>hw := h, io_log := io_log s @ map (\<lambda>(p, v). Out8 p v) (cursor_cmd (cursor_pos s))\<rparr>"
proof -
  let ?w = "(ucast (g_cursor_y s) :: u32) * 80 + ucast (g_cursor_x s)"
  have w: "?w = of_nat (cursor_pos s)" unfolding cursor_index(1) [OF assms, symmetric] by simp
  define p where "p = (of_nat (cursor_pos s) :: u16)"
  have p: "unat p = cursor_pos s" using cursor_index(2) [OF assms] by (simp add: p_def unat_of_nat take_bit_nat_eq_self)
  have "(ucast ?w :: u16) = p"
    unfolding w p_def using cursor_index(2) [OF assms] by (simp add: word_unat_eq_iff unsigned_ucast_eq unat_of_nat take_bit_nat_eq_self)
  moreover note low_byte [of p, unfolded p] high_byte [of p, unfolded p]
  ultimately show ?thesis by (auto simp: term_update_cursor_def Let_def outb_def cursor_cmd_def)
qed


lemma draws_cursor:
  fixes B :: "'h bus" and s :: "('h, 'a) term_state_scheme"
  assumes "cursor_ok s"
  defines "s' \<equiv> term_update_cursor B (g_cursor_x s) (g_cursor_y s) s"
  shows "draws s s' (screen_of s)" "g_cursor_x s' = g_cursor_x s" "g_cursor_y s' = g_cursor_y s" "g_vga_buffer s' = g_vga_buffer s"
    "port_writes (io_log s') = port_writes (io_log s) @ cursor_cmd (cursor_pos s')"
proof -
  obtain h where h: "s' = s\<lparr>hw := h, io_log := io_log s @ map (\<lambda>(p, v). Out8 p v) (cursor_cmd (cursor_pos s))\<rparr>"
    using update_cursor_eq [OF assms(1), of B] unfolding s'_def by blast
  have w: "port_writes (map (\<lambda>(p, v). Out8 p v) ws) = ws" for ws by (induction ws) auto
  show "g_cursor_x s' = g_cursor_x s" "g_cursor_y s' = g_cursor_y s" "g_vga_buffer s' = g_vga_buffer s" by (simp_all add: h)
  show "port_writes (io_log s') = port_writes (io_log s) @ cursor_cmd (cursor_pos s')" by (simp add: h w cursor_pos_def)
  show "draws s s' (screen_of s)"
    using assms(1) by (auto simp: draws_def h w cursor_ok_def screen_of_def cursor_pos_def cursor_cmd_def)
qed

lemma draws_trans: "draws s t scr \<Longrightarrow> draws t u scr' \<Longrightarrow> draws s u scr'"
  by (fastforce simp: draws_def)

lemma clear_fold:
  fixes c :: u16 and s :: "('h, 'a) term_state_scheme"
  defines "f \<equiv> \<lambda>i (s :: ('h, 'a) term_state_scheme). s\<lparr>g_vga_buffer := (g_vga_buffer s)(of_nat i := c)\<rparr>"
  assumes "n \<le> 4294967296"
  shows "fold f [0..<n] s = s\<lparr>g_vga_buffer := (\<lambda>i. if unat i < n then c else g_vga_buffer s i)\<rparr>"
  using assms(2)
proof (induction n)
  case (Suc n)
  have "(\<lambda>i. if unat i < n then c else g_vga_buffer s i)(of_nat n := c) = (\<lambda>i. if unat i < Suc n then c else g_vga_buffer s i)"
    using Suc.prems by (auto simp: fun_eq_iff less_Suc_eq)
  moreover have "fold f [0..<Suc n] s = f n (s\<lparr>g_vga_buffer := (\<lambda>i. if unat i < n then c else g_vga_buffer s i)\<rparr>)"
    using Suc by simp
  ultimately show ?case by (simp add: f_def)
qed simp

lemma screen_blank:
  assumes "\<And>i. unat i < 2000 \<Longrightarrow> g_vga_buffer s i = c"
  shows "map (\<lambda>i. g_vga_buffer s (of_nat i)) [0..<2000] = replicate 2000 c"
  using assms by (auto simp: list_eq_iff_nth_eq)

lemma draws_clear:
  fixes s :: "('h, 'a) term_state_scheme"
  shows "draws s (term_clear B s) (0, replicate 2000 vga_blank)"
    "\<exists>ws. port_writes (io_log (term_clear B s)) = ws @ cursor_cmd 0"
proof -
  define t where "t = s\<lparr>g_vga_buffer := (\<lambda>i. if unat i < 2000 then vga_blank else g_vga_buffer s i), g_cursor_x := 0, g_cursor_y := 0\<rparr>"
  have c: "term_clear B s = term_update_cursor B (g_cursor_x t) (g_cursor_y t) t"
    by (simp add: term_clear_def Let_def clear_fold t_def)
  have ok: "cursor_ok t" "cursor_pos t = 0" by (simp_all add: t_def cursor_ok_def cursor_pos_def)
  have "screen_of t = (0, replicate 2000 vga_blank)"
    using ok(2) screen_blank [of t vga_blank] by (simp add: screen_of_def t_def)
  moreover have "draws s t (screen_of t)" using ok(1) by (auto simp: draws_def t_def)
  ultimately show "draws s (term_clear B s) (0, replicate 2000 vga_blank)"
    using draws_trans [OF _ draws_cursor(1) [OF ok(1), of B]] unfolding c by simp
  show "\<exists>ws. port_writes (io_log (term_clear B s)) = ws @ cursor_cmd 0"
    using draws_cursor(2,3,5) [OF ok(1), of B] ok(2) unfolding c by (auto simp: cursor_pos_def)
qed

lemma screen_of_write:
  fixes f :: "u32 \<Rightarrow> u16"
  assumes "p < 2000" "unat w = p"
  shows "map (\<lambda>i. (f(w := c)) (of_nat i)) [0..<2000] = (map (\<lambda>i. f (of_nat i)) [0..<2000])[p := c]"
proof (rule nth_equalityI)
  fix i assume "i < length (map (\<lambda>i. (f(w := c)) (of_nat i)) [0..<2000])"
  then have i: "i < 2000" by simp
  have "of_nat i = w \<longleftrightarrow> i = p" using i assms unat_of_nat_u32 [of i] by (auto simp: word_unat_eq_iff)
  then show "map (\<lambda>i. (f(w := c)) (of_nat i)) [0..<2000] ! i = (map (\<lambda>i. f (of_nat i)) [0..<2000])[p := c] ! i"
    using i assms(1) by (simp add: nth_list_update)
qed simp

lemma unat_u16_Suc: "unat (w :: u16) < 100 \<Longrightarrow> unat (w + 1) = unat w + 1"
  by (simp add: unat_word_ariths)

text \<open>Moving on after a character: to the next line at the end of a row, and to a blank screen at the end of the last.\<close>

lemma draws_wrap:
  fixes s :: "('h, 'a) term_state_scheme"
  assumes "unat (g_cursor_x s) \<le> 80" "unat (g_cursor_y s) \<le> 25" "g_cursor_y s = 25 \<Longrightarrow> g_cursor_x s = 0" 
  defines "t \<equiv> if g_cursor_x s \<ge> 80 then s\<lparr>g_cursor_x := 0, g_cursor_y := g_cursor_y s + 1\<rparr> else s"
  shows "draws s (if g_cursor_y t \<ge> 25 then term_clear B (t\<lparr>g_cursor_y := 0\<rparr>) else t)
    (if cursor_pos s < 2000 then screen_of s else (0, replicate 2000 vga_blank))"
proof -
  have t: "cursor_pos t = cursor_pos s" "g_vga_buffer t = g_vga_buffer s" "term_state.more t = term_state.more s" "io_log t = io_log s"
    "unat (g_cursor_x t) < 80"
    using assms(1,2) unat_u16_Suc [of "g_cursor_y s"] by (auto simp: t_def cursor_pos_def word_le_nat_alt)
  show ?thesis
  proof (cases "g_cursor_y t \<ge> 25")
    case True
    have "draws s (t\<lparr>g_cursor_y := 0\<rparr>) (screen_of (t\<lparr>g_cursor_y := 0\<rparr>))" using t by (auto simp: draws_def cursor_ok_def intro: exI [of _ "[]"])
    moreover have "\<not> cursor_pos s < 2000" using True t(1) by (simp add: cursor_pos_def word_le_nat_alt)
    ultimately show ?thesis using True draws_trans [OF _ draws_clear(1), of s "t\<lparr>g_cursor_y := 0\<rparr>"] by simp
  next
    case False
    then have ok: "cursor_ok t" using t(5) by (simp add: cursor_ok_def word_le_nat_alt)
    then have "cursor_pos s < 2000" using cursor_index(2) t(1) by metis
    then show ?thesis using False ok t by (auto simp: draws_def screen_of_def)
  qed
qed

lemma draws_from:
  assumes "draws u r scr" "\<And>i. 2000 \<le> unat i \<Longrightarrow> g_vga_buffer u i = g_vga_buffer s i" "io_log u = io_log s" "term_state.more u = term_state.more s"
  shows "draws s r scr"
  using assms by (simp add: draws_def)

lemma draws_put:
  fixes s :: "('h, 'a) term_state_scheme"
  assumes ok: "cursor_ok s"
  shows "draws s (term_put B color c s) (screen_put color c (screen_of s))"
proof -
  have b: "unat (g_cursor_x s) < 80" "unat (g_cursor_y s) < 25" using ok by (simp_all add: cursor_ok_def)
  note i = cursor_index [OF ok]
  define u where "u =
        (if c = CHR 0x0A then s\<lparr>g_cursor_x := 0, g_cursor_y := g_cursor_y s + 1\<rparr>
         else if c = CHR 0x08 then
           if g_cursor_x s > 0 then
             let s = s\<lparr>g_cursor_x := g_cursor_x s - 1\<rparr>;
                 index = (ucast (g_cursor_y s) :: u32) * 80 + ucast (g_cursor_x s)
             in s\<lparr>g_vga_buffer := (g_vga_buffer s)(index := vga_blank)\<rparr>
           else s
         else
           let index = (ucast (g_cursor_y s) :: u32) * 80 + ucast (g_cursor_x s)
           in s\<lparr>g_vga_buffer := (g_vga_buffer s)(index := vga_cell color (of_char c)), g_cursor_x := g_cursor_x s + 1\<rparr>)"
  have put: "term_put B color c s = (let t = (if g_cursor_x u \<ge> 80 then u\<lparr>g_cursor_x := 0, g_cursor_y := g_cursor_y u + 1\<rparr> else u)
      in if g_cursor_y t \<ge> 25 then term_clear B (t\<lparr>g_cursor_y := 0\<rparr>) else t)"
    unfolding term_put_def u_def by (simp only: Let_def)
  let ?cs = "map (\<lambda>i. g_vga_buffer s (of_nat i)) [0..<2000]"
  obtain p cs where pc: "screen_put color c (screen_of s) = (if p < 2000 then (p, cs) else (0, replicate 2000 vga_blank))"
    "cursor_pos u = p" "map (\<lambda>i. g_vga_buffer u (of_nat i)) [0..<2000] = cs"
    "unat (g_cursor_x u) \<le> 80" "unat (g_cursor_y u) \<le> 25" "g_cursor_y u = 25 \<Longrightarrow> g_cursor_x u = 0"
    "\<And>i. 2000 \<le> unat i \<Longrightarrow> g_vga_buffer u i = g_vga_buffer s i"
  proof (cases "c = CHR 0x0A")
    case True
    have "cursor_pos s div 80 = unat (g_cursor_y s)" using b by (simp add: cursor_pos_def)
    then show thesis
      using True b unat_u16_Suc [of "g_cursor_y s"]
      by (intro that [of "80 * (cursor_pos s div 80 + 1)" ?cs]) (simp_all add: u_def screen_put_def screen_of_def cursor_pos_def)
  next
    case False
    have y: "g_cursor_y s \<noteq> 25" using b by auto
    have m: "cursor_pos s mod 80 = unat (g_cursor_x s)" using b by (simp add: cursor_pos_def)
    show thesis
    proof (cases "c = CHR 0x08")
      case bs: True
      show thesis
      proof (cases "g_cursor_x s > 0")
        case True
        let ?s = "s\<lparr>g_cursor_x := g_cursor_x s - 1\<rparr>"
        have x: "unat (g_cursor_x s - 1) = unat (g_cursor_x s) - 1" "0 < unat (g_cursor_x s)"
          using True by (simp_all add: unat_sub_if_size word_le_nat_alt word_less_nat_alt)
        then have ok': "cursor_ok ?s" "cursor_pos ?s = cursor_pos s - 1" using b by (simp_all add: cursor_ok_def cursor_pos_def)
        note i' = cursor_index [OF ok'(1)]
        have cs: "map (\<lambda>i. g_vga_buffer u (of_nat i)) [0..<2000] = ?cs[cursor_pos s - 1 := vga_blank]"
          using screen_of_write [OF i'(2,1), of "g_vga_buffer s" vga_blank] True False bs ok'(2) by (simp add: u_def Let_def)
        show thesis
          using True False bs x b m y i' ok'(2) cs
          by (intro that [of "cursor_pos s - 1" "?cs[cursor_pos s - 1 := vga_blank]"])
            (auto simp: u_def screen_put_def screen_of_def Let_def cursor_pos_def)
      next
        case x0: False
        then have "g_cursor_x s = 0" by (simp add: word_greater_zero_iff)
        then show thesis using False bs b m y i(2)
          by (intro that [of "cursor_pos s" ?cs]) (simp_all add: u_def screen_put_def screen_of_def)
      qed
    next
      case chr: False
      have cs: "map (\<lambda>i. g_vga_buffer u (of_nat i)) [0..<2000] = ?cs[cursor_pos s := vga_cell color (of_char c)]"
        using screen_of_write [OF i(2,1), of "g_vga_buffer s" "vga_cell color (of_char c)"] False chr by (simp add: u_def Let_def)
      show thesis using False chr b y i cs unat_u16_Suc [of "g_cursor_x s"]
        by (intro that [of "cursor_pos s + 1" "?cs[cursor_pos s := vga_cell color (of_char c)]"])
          (auto simp: u_def screen_put_def screen_of_def Let_def cursor_pos_def)
    qed
  qed
  have "screen_put color c (screen_of s) = (if cursor_pos u < 2000 then screen_of u else (0, replicate 2000 vga_blank))"
    using pc(1-3) by (simp add: screen_of_def)
  then have "draws u (term_put B color c s) (screen_put color c (screen_of s))"
    using draws_wrap [OF pc(4-6), of B] unfolding put Let_def by (simp only:)
  moreover have "io_log u = io_log s" "term_state.more u = term_state.more s" by (simp_all add: u_def Let_def)
  ultimately show ?thesis using draws_from pc(7) by blast
qed

lemma draws_ok: "draws s t scr \<Longrightarrow> cursor_ok t" "draws s t scr \<Longrightarrow> screen_of t = scr"
  by (simp_all add: draws_def)

lemma draws_refl: "cursor_ok s \<Longrightarrow> draws s s (screen_of s)"
  by (auto simp: draws_def)

lemma draws_fold:
  assumes step: "\<And>x t. cursor_ok t \<Longrightarrow> draws t (f x t) (g x (screen_of t))"
  shows "cursor_ok s \<Longrightarrow> draws s (fold f xs s) (fold g xs (screen_of s))"
proof (induction xs arbitrary: s)
  case (Cons x xs)
  have d: "draws s (f x s) (g x (screen_of s))" using Cons.prems by (rule step)
  from Cons.IH [OF draws_ok(1) [OF d]] show ?case using draws_trans [OF d] draws_ok(2) [OF d] by simp
qed (simp add: draws_refl)

text \<open>After a call the hardware cursor stands where the next character goes.\<close>

definition cursor_shown :: "('h, 'a) term_state_scheme \<Rightarrow> bool" where
  "cursor_shown s \<longleftrightarrow> (\<exists>ws. port_writes (io_log s) = ws @ cursor_cmd (cursor_pos s))"

lemma draws_print:
  fixes s :: "('h, 'a) term_state_scheme"
  assumes "cursor_ok s"
  shows "draws s (term_print B (Some str) color s) (fold (screen_put color) (takeWhile (\<lambda>c. c \<noteq> CHR 0x00) str) (screen_of s))"
    "cursor_shown (term_print B (Some str) color s)"
proof -
  define t where "t = fold (term_put B color) (takeWhile (\<lambda>c. c \<noteq> CHR 0x00) str) s"
  have p: "term_print B (Some str) color s = term_update_cursor B (g_cursor_x t) (g_cursor_y t) t"
    by (simp add: term_print_def t_def Let_def)
  have d: "draws s t (fold (screen_put color) (takeWhile (\<lambda>c. c \<noteq> CHR 0x00) str) (screen_of s))"
    unfolding t_def using draws_put assms by (rule draws_fold)
  note c = draws_cursor [OF draws_ok(1) [OF d], of B]
  show "draws s (term_print B (Some str) color s) (fold (screen_put color) (takeWhile (\<lambda>c. c \<noteq> CHR 0x00) str) (screen_of s))"
    using draws_trans [OF d c(1)] draws_ok(2) [OF d] unfolding p by simp
  show "cursor_shown (term_print B (Some str) color s)" using c(5) unfolding cursor_shown_def p by blast
qed

lemma hex_digit:
  fixes n :: u32
  shows "unat (drop_bit k n AND 0xF) = unat n div 2 ^ k mod 16"
proof -
  have "drop_bit k n AND 0xF = take_bit 4 (drop_bit k n)" by (simp add: take_bit_eq_mask mask_eq_exp_minus_1)
  then have "unat (drop_bit k n AND 0xF) = take_bit 4 (drop_bit k (take_bit LENGTH(32) (unat n)))"
    by (simp only: unsigned_take_bit_eq unsigned_drop_bit_eq)
  then show ?thesis by (simp add: take_bit_eq_mod drop_bit_eq_div)
qed

lemma hex_char_nonzero: "i < 16 \<Longrightarrow> hex_chars ! i \<noteq> CHR 0x00"
  by (auto simp: hex_chars_def less_Suc_eq numeral_eq_Suc)

lemma term_print_hex_fold:
  "term_print_hex B n color s =
     fold (\<lambda>c. term_print B (Some [c]) color) (drop 2 (hex_text n)) (term_print B (Some ''0x'') color s)"
  by (simp add: term_print_hex_def hex_text_def hex_digit)

lemma draws_chars:
  fixes s :: "('h, 'a) term_state_scheme"
  assumes "\<forall>c \<in> set cs. c \<noteq> CHR 0x00" "cursor_ok s" "cursor_shown s"
  shows "draws s (fold (\<lambda>c. term_print B (Some [c]) color) cs s) (fold (screen_put color) cs (screen_of s)) \<and>
    cursor_shown (fold (\<lambda>c. term_print B (Some [c]) color) cs s)"
  using assms
proof (induction cs arbitrary: s)
  case (Cons c cs)
  let ?t = "term_print B (Some [c]) color s"
  have d: "draws s ?t (screen_put color c (screen_of s))" "cursor_shown ?t"
    using draws_print [OF Cons.prems(2), of B "[c]" color] Cons.prems(1) by simp_all
  show ?case using Cons.IH [OF _ draws_ok(1) [OF d(1)] d(2)] Cons.prems(1) draws_trans [OF d(1)] draws_ok(2) [OF d(1)] by simp
qed (simp add: draws_refl)

lemma draws_hex:
  fixes s :: "('h, 'a) term_state_scheme"
  assumes "cursor_ok s"
  shows "draws s (term_print_hex B n color s) (fold (screen_put color) (hex_text n) (screen_of s))"
    "cursor_shown (term_print_hex B n color s)"
proof -
  let ?ds = "drop 2 (hex_text n)" and ?t = "term_print B (Some ''0x'') color s"
  have h: "hex_text n = ''0x'' @ ?ds" by (simp add: hex_text_def)
  have nz: "\<forall>c \<in> set ?ds. c \<noteq> CHR 0x00" by (simp add: hex_text_def hex_char_nonzero)
  have d: "draws s ?t (fold (screen_put color) ''0x'' (screen_of s))" "cursor_shown ?t"
    using draws_print [OF assms, of B "''0x''" color] by simp_all
  note D = draws_chars [OF nz draws_ok(1) [OF d(1)] d(2), of B color]
  show "draws s (term_print_hex B n color s) (fold (screen_put color) (hex_text n) (screen_of s))"
    using draws_trans [OF d(1) conjunct1 [OF D]] draws_ok(2) [OF d(1)]
    unfolding term_print_hex_fold by (subst h) (simp only: fold_append o_apply)
  show "cursor_shown (term_print_hex B n color s)" using D unfolding term_print_hex_fold by blast
qed

lemma draws_do:
  fixes s :: "('h, 'a) term_state_scheme"
  assumes "cursor_ok s"
  shows "draws s (term_do B c s) (screen_do c (screen_of s)) \<and> cursor_shown (term_do B c s)"
proof (cases c)
  case (TermPrint str color)
  then show ?thesis using draws_print [OF assms] by simp
next
  case (TermPrintHex n color)
  then show ?thesis using draws_hex [OF assms] by simp
next
  case TermClear
  have "cursor_pos (term_clear B s) = 0" using draws_ok(2) [OF draws_clear(1), of B s] by (simp add: screen_of_def)
  then show ?thesis using TermClear draws_clear(1) [of s B] draws_clear(2) [of B s] by (simp add: cursor_shown_def)
qed

section \<open>Properties\<close>

text \<open>
  C36. Whatever the components of the kernel print, in any order, the terminal behaves as a screen of 2000
  cells with one write position: characters fill it in order, a newline moves to the next row, a backspace
  erases inside its row, hexadecimal numbers appear as eight digits, and past the last row the screen
  becomes blank. No cell outside the screen is written, the cursor stays on the screen, only the two
  cursor ports are written, and after each call the hardware cursor stands at the write position.
\<close>

theorem term_run_refines:
  fixes s :: "('h, 'a) term_state_scheme"
  assumes "cursor_ok s"
  shows "draws s (term_run B calls s) (fold screen_do calls (screen_of s)) \<and>
    (calls \<noteq> [] \<longrightarrow> cursor_shown (term_run B calls s))"
proof (cases calls rule: rev_cases)
  case Nil
  then show ?thesis using assms by (simp add: term_run_def draws_refl)
next
  case (snoc cs c)
  have d: "draws s (term_run B xs s) (fold screen_do xs (screen_of s))" for xs
    unfolding term_run_def using draws_do assms by (intro draws_fold) blast+
  have "term_run B calls s = term_do B c (term_run B cs s)" by (simp add: snoc term_run_def)
  then show ?thesis using d [of calls] draws_do [OF draws_ok(1) [OF d [of cs]]] by metis
qed

definition sample_term :: "unit term_state" where
  "sample_term = \<lparr>hw = (), io_log = [], g_vga_buffer = (\<lambda>_. vga_blank), g_cursor_x = 78, g_cursor_y = 24\<rparr>"

definition sample_term_bus :: "unit bus" where
  "sample_term_bus = \<lparr>bus_in8 = (\<lambda>_ h. (0, h)), bus_out8 = (\<lambda>_ _ h. h), bus_in16 = (\<lambda>_ h. (0, h)), bus_out16 = (\<lambda>_ _ h. h)\<rparr>"

theorem term_run_refines_witness:
  "let s' = term_run sample_term_bus [TermPrint ''abc'' 0x07] sample_term in
     fst (screen_of s') = 1 \<and> snd (screen_of s') ! 0 = vga_cell 0x07 0x63 \<and> cursor_shown s'"
proof -
  have ok: "cursor_ok sample_term" by (simp add: cursor_ok_def sample_term_def)
  have p: "screen_of sample_term = (1998, replicate 2000 vga_blank)"
    using screen_blank [of sample_term vga_blank] by (simp add: screen_of_def sample_term_def cursor_pos_def)
  have "screen_put 7 (CHR ''c'') (screen_put 7 (CHR ''b'') (screen_put 7 (CHR ''a'') (1998, replicate 2000 vga_blank))) =
      (1, (replicate 2000 vga_blank)[0 := vga_cell 7 0x63])"
    by (simp add: screen_put_def)
  then show ?thesis
    using term_run_refines [OF ok, of sample_term_bus "[TermPrint ''abc'' 0x07]"] unfolding p by (simp add: draws_def Let_def)
qed

end
