(* ===== verification/CString.thy ===== *)
theory CString
  imports Kernel_Prelude
begin

text \<open>
  The byte memory of the machine and the C library of the kernel
  (\<^verbatim>\<open>src/kernel/lib/string.c\<close>). Memory is a total function from 32-bit addresses to bytes, and
  pointer arithmetic wraps. Loops that run to a terminating NUL are
  \<^theory_text>\<open>partial_function (option)\<close>s: \<open>None\<close> means that the loop never ends. Each memory
  routine is related to a routine on lists of characters, which is what the components that only
  compare names use.
\<close>

section \<open>Memory\<close>

type_synonym mem = "u32 \<Rightarrow> u8"

definition read16 :: "mem \<Rightarrow> u32 \<Rightarrow> u16" where
  "read16 m a = ucast (m a) OR push_bit 8 (ucast (m (a + 1)))"

definition read32 :: "mem \<Rightarrow> u32 \<Rightarrow> u32" where
  "read32 m a = ucast (m a) OR push_bit 8 (ucast (m (a + 1)))
     OR push_bit 16 (ucast (m (a + 2))) OR push_bit 24 (ucast (m (a + 3)))"

definition read64 :: "mem \<Rightarrow> u32 \<Rightarrow> u64" where
  "read64 m a = ucast (read32 m a) OR push_bit 32 (ucast (read32 m (a + 4)))"

definition write32 :: "mem \<Rightarrow> u32 \<Rightarrow> u32 \<Rightarrow> mem" where
  "write32 m a w = m(a := ucast w, a + 1 := ucast (drop_bit 8 w),
     a + 2 := ucast (drop_bit 16 w), a + 3 := ucast (drop_bit 24 w))"

lemma bytes_of_word:
  fixes w :: u32
  shows "(ucast (ucast w :: u8) OR push_bit 8 (ucast (ucast (drop_bit 8 w) :: u8))
     OR push_bit 16 (ucast (ucast (drop_bit 16 w) :: u8))
     OR push_bit 24 (ucast (ucast (drop_bit 24 w) :: u8)) :: u32) = w"
proof (rule bit_word_eqI)
  fix n assume n: "n < LENGTH(32)"
  consider "n < 8" | "8 \<le> n" "n < 16" | "16 \<le> n" "n < 24" | "24 \<le> n" by linarith
  then show "bit (ucast (ucast w :: u8) OR push_bit 8 (ucast (ucast (drop_bit 8 w) :: u8))
     OR push_bit 16 (ucast (ucast (drop_bit 16 w) :: u8))
     OR push_bit 24 (ucast (ucast (drop_bit 24 w) :: u8)) :: u32) n = bit w n"
    using n by cases (auto simp: bit_simps)
qed

lemma read32_write32 [simp, mem_simps]: "read32 (write32 m a w) a = w"
  by (simp add: read32_def write32_def bytes_of_word)

text \<open>
  Cells at different addresses that are multiples of four do not overlap.
\<close>

definition aligned4 :: "u32 \<Rightarrow> bool" where
  "aligned4 a \<longleftrightarrow> 4 dvd unat a"

lemma aligned4_byte:
  assumes "aligned4 a" and "unat k < 4"
  shows "unat (a + k) = unat a + unat k"
proof -
  have "unat a \<noteq> 4294967295 \<and> unat a \<noteq> 4294967294 \<and> unat a \<noteq> 4294967293"
    using assms(1) by (auto simp: aligned4_def)
  then have "unat a + unat k < 4294967296"
    using assms(2) unat_u32_less [of a] by linarith
  then show ?thesis by (simp add: unat_plus_if_size word_size)
qed

lemma aligned4_disjoint:
  assumes "aligned4 a" "aligned4 b" "a \<noteq> b" "unat k < 4" "unat j < 4"
  shows "a + k \<noteq> b + j"
proof
  assume "a + k = b + j"
  then have "unat a + unat k = unat b + unat j"
    using assms by (metis aligned4_byte)
  then have "unat a = unat b"
    using assms unfolding aligned4_def by presburger
  then show False using assms(3) by (simp add: word_unat_eq_iff)
qed

lemma write32_outside:
  "(\<And>k. k < 4 \<Longrightarrow> b \<noteq> a + k) \<Longrightarrow> write32 m a w b = m b"
  using word_sless_alt by (force simp: write32_def)

lemma read32_cong:
  assumes "\<And>k. k < 4 \<Longrightarrow> m (a + k) = m' (a + k)"
  shows "read32 m a = read32 m' a"
  using assms [of 0] assms [of 1] assms [of 2] assms [of 3] by (simp add: read32_def)

lemma read32_write32_other [mem_simps]:
  assumes "aligned4 a" "aligned4 b" "a \<noteq> b"
  shows "read32 (write32 m a w) b = read32 m b"
proof (rule read32_cong)
  fix k :: u32 assume k: "k < 4"
  show "write32 m a w (b + k) = m (b + k)"
  proof (rule write32_outside)
    fix j :: u32 assume "j < 4"
    with k have "unat k < 4" "unat j < 4" by (simp_all add: word_less_nat_alt)
    with assms show "b + k \<noteq> a + j" by (metis aligned4_disjoint)
  qed
qed

section \<open>memset and memcpy\<close>

fun memset :: "mem \<Rightarrow> u32 \<Rightarrow> u8 \<Rightarrow> nat \<Rightarrow> mem" where
  "memset m ptr v 0 = m"
| "memset m ptr v (Suc len) = memset (m(ptr := v)) (ptr + 1) v len"

fun memcpy :: "mem \<Rightarrow> u32 \<Rightarrow> u32 \<Rightarrow> nat \<Rightarrow> mem" where
  "memcpy m d s 0 = m"
| "memcpy m d s (Suc len) = memcpy (m(d := m s)) (d + 1) (s + 1) len"

lemma unat_sub_Suc:
  fixes a d :: u32
  assumes "n < 4294967296"
  shows "unat (a - d) < Suc n \<longleftrightarrow> a = d \<or> unat (a - (d + 1)) < n"
proof (cases "a = d")
  case False
  then have "unat (a - d - 1) = unat (a - d) - 1"
    by (simp add: unat_minus_one)
  moreover have "0 < unat (a - d)"
    using False by (simp add: unat_gt_0)
  ultimately have "unat (a - (d + 1)) = unat (a - d) - 1"
    by (simp add: diff_diff_eq)
  with False \<open>0 < unat (a - d)\<close> show ?thesis by auto
qed simp

text \<open>What \<^verbatim>\<open>memset\<close> leaves behind, at any address and any length.\<close>

lemma memset_at:
  "n \<le> 4294967296 \<Longrightarrow> memset m d v n a = (if unat (a - d) < n then v else m a)"
proof (induction n arbitrary: m d)
  case (Suc n)
  then have "memset m d v (Suc n) a = (if unat (a - (d + 1)) < n then v else (m(d := v)) a)"
    by simp
  also have "\<dots> = (if unat (a - d) < Suc n then v else m a)"
    using Suc.prems unat_sub_Suc [of n a d] by auto
  finally show ?case .
qed simp

text \<open>
  \<^verbatim>\<open>memcpy\<close> copies forwards, so it is right whenever the destination does not start strictly
  inside the source range.
\<close>

lemma memcpy_at:
  assumes "n \<le> 4294967296" and "\<And>k. 0 < k \<Longrightarrow> k < n \<Longrightarrow> d \<noteq> s + of_nat k"
  shows "memcpy m d s n a = (if unat (a - d) < n then m (s + (a - d)) else m a)"
  using assms
proof (induction n arbitrary: m d s)
  case (Suc n)
  let ?m = "m(d := m s)"
  have "memcpy ?m (d + 1) (s + 1) n a
      = (if unat (a - (d + 1)) < n then ?m (s + 1 + (a - (d + 1))) else ?m a)"
  proof (rule Suc.IH)
    show "n \<le> 4294967296" using Suc.prems by simp
    fix k assume "0 < k" "k < n"
    then show "d + 1 \<noteq> s + 1 + of_nat k"
      using Suc.prems(2) [of k] by (simp add: algebra_simps)
  qed
  also have "s + 1 + (a - (d + 1)) = s + (a - d)" by simp
  also have "(if unat (a - (d + 1)) < n then ?m (s + (a - d)) else ?m a)
      = (if unat (a - d) < Suc n then m (s + (a - d)) else m a)"
  proof (cases "a = d")
    case False
    have "d \<noteq> s + (a - d)" if "unat (a - (d + 1)) < n"
    proof -
      have "unat (a - d) < Suc n"
        using that unat_sub_Suc [of n a d] Suc.prems by simp
      moreover have "0 < unat (a - d)"
        using False by (simp add: unat_gt_0)
      ultimately show ?thesis
        using Suc.prems(2) [of "unat (a - d)"] by simp
    qed
    then show ?thesis
      using False unat_sub_Suc [of n a d] Suc.prems by auto
  qed simp
  finally show ?case by (simp only: memcpy.simps)
qed simp

section \<open>Strings in memory\<close>

text \<open>
  \<open>cstr_at m p cs\<close>: the bytes \<open>cs\<close>, none of them zero, stand at \<open>p\<close> and a NUL follows them.
\<close>

fun cstr_at :: "mem \<Rightarrow> u32 \<Rightarrow> u8 list \<Rightarrow> bool" where
  "cstr_at m p [] \<longleftrightarrow> m p = 0"
| "cstr_at m p (c # cs) \<longleftrightarrow> c \<noteq> 0 \<and> m p = c \<and> cstr_at m (p + 1) cs"

lemma cstr_at_functional: "cstr_at m p xs \<Longrightarrow> cstr_at m p ys \<Longrightarrow> xs = ys"
proof (induction xs arbitrary: p ys)
  case Nil then show ?case by (cases ys) auto
next
  case (Cons x xs) then show ?case by (cases ys) auto
qed

lemma cstr_at_nth: "cstr_at m p cs \<Longrightarrow> i < length cs \<Longrightarrow> m (p + of_nat i) = cs ! i \<and> cs ! i \<noteq> 0"
proof (induction cs arbitrary: p i)
  case (Cons c cs)
  show ?case
  proof (cases i)
    case (Suc j)
    then show ?thesis using Cons.IH [of "p + 1" j] Cons.prems by (simp add: add.assoc)
  qed (use Cons.prems in auto)
qed simp

lemma cstr_at_end: "cstr_at m p cs \<Longrightarrow> m (p + of_nat (length cs)) = 0"
proof (induction cs arbitrary: p)
  case (Cons c cs)
  then show ?case using Cons.IH [of "p + 1"] by (simp add: add.assoc)
qed simp

lemma cstr_at_cong:
  "(\<And>i. i \<le> length cs \<Longrightarrow> m (p + of_nat i) = m' (p + of_nat i)) \<Longrightarrow> cstr_at m p cs = cstr_at m' p cs"
proof (induction cs arbitrary: p)
  case Nil
  from Nil [of 0] show ?case by simp
next
  case (Cons c cs)
  have "cstr_at m (p + 1) cs = cstr_at m' (p + 1) cs"
  proof (rule Cons.IH)
    fix i assume "i \<le> length cs"
    then show "m (p + 1 + of_nat i) = m' (p + 1 + of_nat i)"
      using Cons.prems [of "Suc i"] by (simp add: algebra_simps)
  qed
  moreover have "m p = m' p" using Cons.prems [of 0] by simp
  ultimately show ?case by simp
qed

partial_function (option) strlen_loop :: "mem \<Rightarrow> u32 \<Rightarrow> u32 \<Rightarrow> u32 option" where
  "strlen_loop m str len = (if m (str + len) \<noteq> 0 then strlen_loop m str (len + 1) else Some len)"

definition strlen_mem :: "mem \<Rightarrow> u32 \<Rightarrow> u32 option" where
  "strlen_mem m str = strlen_loop m str 0"

partial_function (option) strcmp_mem :: "mem \<Rightarrow> u32 \<Rightarrow> u32 \<Rightarrow> int option" where
  "strcmp_mem m s1 s2 =
     (if m s1 \<noteq> 0 \<and> m s1 = m s2 then strcmp_mem m (s1 + 1) (s2 + 1)
      else Some (uint (m s1) - uint (m s2)))"

fun strncmp_mem :: "mem \<Rightarrow> u32 \<Rightarrow> u32 \<Rightarrow> nat \<Rightarrow> int" where
  "strncmp_mem m s1 s2 0 = 0"
| "strncmp_mem m s1 s2 (Suc n) =
     (if m s1 \<noteq> 0 \<and> m s1 = m s2 then strncmp_mem m (s1 + 1) (s2 + 1) n
      else uint (m s1) - uint (m s2))"

partial_function (option) strcpy_loop :: "mem \<Rightarrow> u32 \<Rightarrow> u32 \<Rightarrow> mem option" where
  "strcpy_loop m dest src =
     (if m src \<noteq> 0 then strcpy_loop (m(dest := m src)) (dest + 1) (src + 1)
      else Some (m(dest := 0)))"

definition strcpy_mem :: "mem \<Rightarrow> u32 \<Rightarrow> u32 \<Rightarrow> (u32 \<times> mem) option" where
  "strcpy_mem m dest src = map_option (\<lambda>m'. (dest, m')) (strcpy_loop m dest src)"

partial_function (option) strcat_seek :: "mem \<Rightarrow> u32 \<Rightarrow> u32 option" where
  "strcat_seek m dest = (if m dest \<noteq> 0 then strcat_seek m (dest + 1) else Some dest)"

definition strcat_mem :: "mem \<Rightarrow> u32 \<Rightarrow> u32 \<Rightarrow> (u32 \<times> mem) option" where
  "strcat_mem m dest src =
     (case strcat_seek m dest of
        None \<Rightarrow> None
      | Some d \<Rightarrow> map_option (\<lambda>m'. (dest, m')) (strcpy_loop m d src))"

lemma strlen_loop_cstr:
  "cstr_at m (str + len) cs \<Longrightarrow> strlen_loop m str len = Some (len + of_nat (length cs))"
proof (induction cs arbitrary: len)
  case Nil
  then show ?case by (simp add: strlen_loop.simps)
next
  case (Cons c cs)
  then have "cstr_at m (str + (len + 1)) cs" "m (str + len) \<noteq> 0"
    by (simp_all add: algebra_simps)
  then show ?case
    using Cons.IH [of "len + 1"] by (simp add: strlen_loop.simps [of m str len] algebra_simps)
qed

lemma strlen_mem_cstr: "cstr_at m p cs \<Longrightarrow> strlen_mem m p = Some (of_nat (length cs))"
  using strlen_loop_cstr [of m p 0 cs] by (simp add: strlen_mem_def)

lemma strcat_seek_cstr: "cstr_at m p cs \<Longrightarrow> strcat_seek m p = Some (p + of_nat (length cs))"
proof (induction cs arbitrary: p)
  case Nil
  then show ?case by (simp add: strcat_seek.simps)
next
  case (Cons c cs)
  then show ?case
    using Cons.IH [of "p + 1"] by (simp add: strcat_seek.simps [of m p] algebra_simps)
qed

text \<open>
  Copying a string whose bytes the copy does not overwrite: the copy succeeds, the destination
  holds the string, and nothing else changes.
\<close>

lemma strcpy_loop_cstr:
  assumes "cstr_at m src cs" "length cs < 4294967296"
    and "\<And>i j. i \<le> length cs \<Longrightarrow> j \<le> length cs \<Longrightarrow> dest + of_nat i \<noteq> src + of_nat j"
  shows "\<exists>m'. strcpy_loop m dest src = Some m' \<and> cstr_at m' dest cs \<and>
    (\<forall>a. length cs < unat (a - dest) \<longrightarrow> m' a = m a)"
  using assms
proof (induction cs arbitrary: m dest src)
  case Nil
  then show ?case by (auto simp: strcpy_loop.simps)
next
  case (Cons c cs)
  let ?m = "m(dest := c)"
  have sep: "dest + of_nat i \<noteq> src + of_nat j" if "i \<le> Suc (length cs)" "j \<le> Suc (length cs)" for i j
    using Cons.prems(3) [of i j] that by auto
  have src: "cstr_at ?m (src + 1) cs"
  proof (subst cstr_at_cong [of cs ?m "src + 1" m])
    fix i assume "i \<le> length cs"
    then show "?m (src + 1 + of_nat i) = m (src + 1 + of_nat i)"
      using sep [of 0 "Suc i"] by (auto simp: algebra_simps)
  qed (use Cons.prems in simp)
  have "\<exists>m'. strcpy_loop ?m (dest + 1) (src + 1) = Some m' \<and> cstr_at m' (dest + 1) cs \<and>
    (\<forall>a. length cs < unat (a - (dest + 1)) \<longrightarrow> m' a = ?m a)"
  proof (rule Cons.IH [OF src])
    show "length cs < 4294967296" using Cons.prems by simp
    fix i j assume "i \<le> length cs" "j \<le> length cs"
    then show "dest + 1 + of_nat i \<noteq> src + 1 + of_nat j"
      using sep [of "Suc i" "Suc j"] by (simp add: algebra_simps)
  qed
  then obtain m' where m': "strcpy_loop ?m (dest + 1) (src + 1) = Some m'"
      "cstr_at m' (dest + 1) cs" "\<And>a. length cs < unat (a - (dest + 1)) \<Longrightarrow> m' a = ?m a"
    by blast
  have "unat (dest - (dest + 1)) = 4294967295" by (simp add: unsigned_minus_1_eq_mask mask_eq_exp_minus_1)
  then have "m' dest = c"
    using m'(3) [of dest] Cons.prems(2) by simp
  moreover have "m' a = m a" if "Suc (length cs) < unat (a - dest)" for a
    using m'(3) [of a] that unat_sub_Suc [of "length cs" a dest]
      unat_sub_Suc [of "Suc (length cs)" a dest] Cons.prems(2) by (auto split: if_splits)
  moreover have "strcpy_loop m dest src = Some m'"
    using Cons.prems(1) m'(1) by (simp add: strcpy_loop.simps [of m dest src])
  ultimately show ?case using m'(2) Cons.prems(1) by auto
qed

lemma cstr_at_append:
  "cstr_at m (p + of_nat (length xs)) ys \<Longrightarrow> (\<And>i. i < length xs \<Longrightarrow> m (p + of_nat i) = xs ! i \<and> xs ! i \<noteq> 0) \<Longrightarrow>
   cstr_at m p (xs @ ys)"
proof (induction xs arbitrary: p)
  case (Cons x xs)
  have "m p = x \<and> x \<noteq> 0" using Cons.prems(2) [of 0] by simp
  moreover have "cstr_at m (p + 1) (xs @ ys)"
  proof (rule Cons.IH)
    show "cstr_at m (p + 1 + of_nat (length xs)) ys" using Cons.prems(1) by (simp add: algebra_simps)
    show "m (p + 1 + of_nat i) = xs ! i \<and> xs ! i \<noteq> 0" if "i < length xs" for i
      using Cons.prems(2) [of "Suc i"] that by (simp add: algebra_simps)
  qed
  ultimately show ?case by simp
qed simp

text \<open>
  \<^verbatim>\<open>strcat\<close> of two strings in separate memory returns the destination, which then holds the
  concatenation, and changes no byte outside the space after the first string that the second one
  and its terminator take.
\<close>

theorem strcat_concat:
  assumes "cstr_at m dest ds" "cstr_at m src cs" "length ds + length cs < 4294967295"
    and "\<And>i j. i \<le> length ds + length cs \<Longrightarrow> j \<le> length cs \<Longrightarrow> dest + of_nat i \<noteq> src + of_nat j"
  shows "\<exists>m'. strcat_mem m dest src = Some (dest, m') \<and> cstr_at m' dest (ds @ cs) \<and>
    (\<forall>a. length cs < unat (a - (dest + of_nat (length ds))) \<longrightarrow> m' a = m a)"
proof -
  let ?d = "dest + of_nat (length ds)"
  have "?d + of_nat i \<noteq> src + of_nat j" if "i \<le> length cs" "j \<le> length cs" for i j
    using assms(4) [of "length ds + i" j] that by (simp add: add.assoc)
  then obtain m' where m': "strcpy_loop m ?d src = Some m'" "cstr_at m' ?d cs"
      "\<And>a. length cs < unat (a - ?d) \<Longrightarrow> m' a = m a"
    using strcpy_loop_cstr [OF assms(2), of ?d] assms(3) by auto
  have "m' (dest + of_nat i) = ds ! i \<and> ds ! i \<noteq> 0" if i: "i < length ds" for i
  proof -
    have e: "dest + of_nat i - ?d = 0 - of_nat (length ds - i)" using i by (simp add: of_nat_diff)
    have "unat (of_nat (length ds - i) :: u32) = length ds - i" using assms(3) i by (intro unat_of_nat_u32) simp
    then have "unat (dest + of_nat i - ?d) = 4294967296 - (length ds - i)"
      using i unat_sub_if_size [of 0 "of_nat (length ds - i) :: u32"] unfolding e by (simp add: word_size)
    then show ?thesis using m'(3) [of "dest + of_nat i"] cstr_at_nth [OF assms(1) i] assms(3) i by simp
  qed
  then have "cstr_at m' dest (ds @ cs)" by (rule cstr_at_append [OF m'(2)])
  then show ?thesis
    using m' strcat_seek_cstr [OF assms(1)] by (auto simp: strcat_mem_def)
qed

theorem strcat_concat_witness:
  "\<exists>m'. strcat_mem ((\<lambda>_. 0)(100 := 7, 200 := 8)) 100 200 = Some (100, m') \<and> cstr_at m' 100 [7, 8]"
proof -
  have "(100 :: u32) + of_nat i \<noteq> 200 + of_nat j" if "i \<le> 2" "j \<le> 1" for i j
  proof -
    have "i = 0 \<or> i = 1 \<or> i = 2" "j = 0 \<or> j = 1" using that by auto
    then show ?thesis by auto
  qed
  then show ?thesis
    using strcat_concat [of "(\<lambda>_. 0)(100 := 7, 200 := 8)" 100 "[7]" 200 "[8]"] by auto
qed

section \<open>Strings as character lists\<close>

text \<open>
  Components that hold names rather than memory use strings: the characters before the NUL. The
  three comparison routines on strings agree with the memory routines wherever the strings are in
  memory.
\<close>

definition NUL :: char where
  "NUL = CHR 0x00"

definition byte_of :: "char \<Rightarrow> u8" where
  "byte_of c = word_of_int (of_char c)"

definition bytes_of :: "string \<Rightarrow> u8 list" where
  "bytes_of s = map byte_of s"

definition cstring :: "string \<Rightarrow> bool" where
  "cstring s \<longleftrightarrow> NUL \<notin> set s"

fun strcmp :: "string \<Rightarrow> string \<Rightarrow> int" where
  "strcmp (c # cs) (d # ds) = (if c = d then strcmp cs ds else of_char c - of_char d)"
| "strcmp (c # cs) [] = of_char c"
| "strcmp [] (d # ds) = - of_char d"
| "strcmp [] [] = 0"

fun strncmp :: "string \<Rightarrow> string \<Rightarrow> nat \<Rightarrow> int" where
  "strncmp s1 s2 0 = 0"
| "strncmp (c # cs) (d # ds) (Suc n) = (if c = d then strncmp cs ds n else of_char c - of_char d)"
| "strncmp (c # cs) [] (Suc n) = of_char c"
| "strncmp [] (d # ds) (Suc n) = - of_char d"
| "strncmp [] [] (Suc n) = 0"

lemma cstring_simps [simp]:
  "cstring []" "cstring (c # cs) \<longleftrightarrow> c \<noteq> NUL \<and> cstring cs"
  "cstring (xs @ ys) \<longleftrightarrow> cstring xs \<and> cstring ys"
  by (auto simp: cstring_def)

lemma of_char_NUL [simp]: "of_char NUL = (0 :: int)"
  by (simp add: NUL_def)

lemma of_char_eq_0 [simp]: "(of_char c :: int) = 0 \<longleftrightarrow> c = NUL"
  using of_char_eq_iff [of c NUL, where 'a = int] by simp

lemma uint_byte_of [simp]: "uint (byte_of c) = of_char c"
proof -
  have "uint (byte_of c) = of_char c mod 256"
    unfolding byte_of_def by (subst uint_word_of_int) simp
  then show ?thesis by (simp only: of_char_mod_256)
qed

lemma byte_of_inj [simp]: "byte_of c = byte_of d \<longleftrightarrow> c = d"
  by (metis uint_byte_of of_char_eq_iff)

lemma byte_of_eq_0 [simp]: "byte_of c = 0 \<longleftrightarrow> c = NUL"
  by (metis uint_byte_of of_char_eq_0 uint_0_iff)

lemma bytes_of_simps [simp]:
  "bytes_of [] = []" "bytes_of (c # cs) = byte_of c # bytes_of cs"
  "length (bytes_of s) = length s"
  by (simp_all add: bytes_of_def)

lemma strcmp_eq_0 [simp]: "cstring s \<Longrightarrow> cstring t \<Longrightarrow> strcmp s t = 0 \<longleftrightarrow> s = t"
  by (induction s t rule: strcmp.induct) auto

lemma strncmp_prefix:
  "cstring s \<Longrightarrow> cstring t \<Longrightarrow> strncmp s t (length t) = 0 \<longleftrightarrow> take (length t) s = t"
proof (induction t arbitrary: s)
  case (Cons d ds)
  then show ?case by (cases s) auto
qed simp

lemma strcmp_mem_refines:
  "cstr_at m p (bytes_of s) \<Longrightarrow> cstr_at m q (bytes_of t) \<Longrightarrow> strcmp_mem m p q = Some (strcmp s t)"
proof (induction s t arbitrary: p q rule: strcmp.induct)
  case (1 c cs d ds)
  then show ?case
    by (cases "c = d") (simp_all add: strcmp_mem.simps [of m p q])
qed (auto simp: strcmp_mem.simps)

lemma strncmp_mem_refines:
  "cstr_at m p (bytes_of s) \<Longrightarrow> cstr_at m q (bytes_of t) \<Longrightarrow> strncmp_mem m p q n = strncmp s t n"
  by (induction s t n arbitrary: p q rule: strncmp.induct) auto

section \<open>atoi\<close>

text \<open>
  \<^verbatim>\<open>atoi\<close> accumulates in a 32-bit \<^verbatim>\<open>int\<close>. Signed overflow is undefined in C, so the model checks
  every intermediate value and returns \<open>None\<close> where the code would overflow.
\<close>

definition int32 :: "int \<Rightarrow> int option" where
  "int32 x = (if - 2147483648 \<le> x \<and> x \<le> 2147483647 then Some x else None)"

fun atoi_loop :: "string \<Rightarrow> int \<Rightarrow> int option" where
  "atoi_loop [] res = Some res"
| "atoi_loop (c # cs) res =
     (if of_char CHR ''0'' \<le> (of_char c :: int) \<and> of_char c \<le> (of_char CHR ''9'' :: int) then
        (case int32 (res * 10) of None \<Rightarrow> None
         | Some a \<Rightarrow> (case int32 (a + of_char c) of None \<Rightarrow> None
           | Some b \<Rightarrow> (case int32 (b - of_char CHR ''0'') of None \<Rightarrow> None
             | Some r \<Rightarrow> atoi_loop cs r)))
      else Some res)"

definition atoi :: "string \<Rightarrow> int option" where
  "atoi str = (case str of
       [] \<Rightarrow> atoi_loop [] 0
     | c # cs \<Rightarrow>
        if c = CHR ''-'' then (case atoi_loop cs 0 of None \<Rightarrow> None | Some r \<Rightarrow> int32 (- r))
        else atoi_loop str 0)"

text \<open>The decimal rendering that \<^verbatim>\<open>atoi\<close> inverts.\<close>

definition digit_char :: "nat \<Rightarrow> char" where
  "digit_char d = char_of (48 + d)"

fun dec_string :: "nat \<Rightarrow> string" where
  "dec_string n = (if n < 10 then [digit_char n] else dec_string (n div 10) @ [digit_char (n mod 10)])"

declare dec_string.simps [simp del]

lemma of_char_digit [simp]: "d < 10 \<Longrightarrow> (of_char (digit_char d) :: int) = 48 + int d"
proof -
  assume "d < 10"
  have "(of_char (char_of (48 + d)) :: nat) = (48 + d) mod 256" by (rule of_char_of)
  also have "\<dots> = 48 + d" using \<open>d < 10\<close> by simp
  finally have "int (of_char (char_of (48 + d))) = int (48 + d)" by (simp only:)
  then show ?thesis unfolding digit_char_def by (simp only: of_nat_of_char)
qed

lemma atoi_loop_digit:
  assumes "d < 10" "0 \<le> r" "r * 10 + int d \<le> 2147483599"
  shows "atoi_loop (digit_char d # cs) r = atoi_loop cs (r * 10 + int d)"
  using assms by (simp add: int32_def)

lemma dec_string_not_Nil [simp]: "dec_string n \<noteq> []"
  by (subst dec_string.simps) simp

lemma dec_string_hd: "\<exists>d < 10. \<exists>cs. dec_string n = digit_char d # cs"
proof (induction n rule: dec_string.induct)
  case (1 n)
  show ?case
  proof (cases "n < 10")
    case True
    then show ?thesis by (subst dec_string.simps) auto
  next
    case False
    from "1.IH" [OF False] obtain d cs where "d < 10" "dec_string (n div 10) = digit_char d # cs"
      by blast
    with False show ?thesis by (subst dec_string.simps) auto
  qed
qed

lemma atoi_loop_dec_string:
  "n \<le> 2147483599 \<Longrightarrow> atoi_loop (dec_string n @ cs) 0 = atoi_loop cs (int n)"
proof (induction n arbitrary: cs rule: dec_string.induct)
  case (1 n)
  show ?case
  proof (cases "n < 10")
    case True
    with atoi_loop_digit [of n 0 cs] show ?thesis by (subst dec_string.simps) simp
  next
    case False
    have n: "int (n div 10) * 10 + int (n mod 10) = int n"
      by (simp add: zdiv_int zmod_int)
    have "atoi_loop (dec_string n @ cs) 0
        = atoi_loop (dec_string (n div 10) @ digit_char (n mod 10) # cs) 0"
      using False by (subst dec_string.simps) simp
    also have "\<dots> = atoi_loop (digit_char (n mod 10) # cs) (int (n div 10))"
      using "1.IH" [OF False] "1.prems" by simp
    also have "\<dots> = atoi_loop cs (int (n div 10) * 10 + int (n mod 10))"
      using "1.prems" n by (intro atoi_loop_digit) simp_all
    finally show ?thesis unfolding n .
  qed
qed

lemma digit_char_not_minus: "d < 10 \<Longrightarrow> digit_char d \<noteq> CHR ''-''"
proof
  assume "d < 10" "digit_char d = CHR ''-''"
  then have "(of_char (digit_char d) :: int) = of_char CHR ''-''" by simp
  with of_char_digit [OF \<open>d < 10\<close>] show False by simp
qed

lemma atoi_minus_dec:
  assumes "n \<le> 2147483599"
  shows "atoi (CHR ''-'' # dec_string n) = Some (- int n)"
  using assms atoi_loop_dec_string [OF assms, of "[]"] by (simp add: atoi_def int32_def)

lemma atoi_loop_space [simp]: "atoi_loop (CHR '' '' # rest) r = Some r"
  by simp

text \<open>
  C33. \<^verbatim>\<open>atoi\<close> inverts decimal rendering, with either sign, for every magnitude up to
  2147483599: no intermediate value overflows, and parsing stops at the first character that is not
  a digit (here a space and any rest).
\<close>

theorem atoi_dec_string:
  assumes "n \<le> 2147483599"
  shows "atoi (dec_string n) = Some (int n) \<and> atoi (CHR ''-'' # dec_string n) = Some (- int n)
    \<and> atoi (dec_string n @ CHR '' '' # rest) = Some (int n)"
proof -
  obtain d cs where d: "d < 10" "dec_string n = digit_char d # cs"
    using dec_string_hd by blast
  have loop: "atoi_loop (dec_string n @ xs) 0 = atoi_loop xs (int n)" for xs
    using assms by (rule atoi_loop_dec_string)
  have "atoi (dec_string n @ xs) = atoi_loop (dec_string n @ xs) 0" for xs
    using d digit_char_not_minus [OF d(1)] by (simp add: atoi_def del: atoi_loop.simps)
  then show ?thesis
    using assms loop [of "[]"] loop [of "CHR '' '' # rest"]
      atoi_minus_dec [OF assms] atoi_loop_space
    by (metis append_Nil2 atoi_loop.simps(1))
qed

theorem atoi_dec_string_witness:
  "atoi (dec_string 2047) = Some 2047 \<and> atoi (CHR ''-'' # dec_string 2047) = Some (- 2047) \<and>
   atoi (dec_string 2047 @ CHR '' '' # ''x'') = Some 2047"
  using atoi_dec_string [of 2047 "''x''"] by simp

end
