(* ===== verification/PMM.thy ===== *)
theory PMM
  imports CString
begin

text \<open>
  The physical memory manager (\<^verbatim>\<open>src/kernel/core/pmm.c\<close>, \<^verbatim>\<open>pmm.h\<close>) and the boot information it
  reads (\<^verbatim>\<open>bootinfo.h\<close>). The bitmap is where the code keeps it: in physical memory, from
  \<open>PMM_BITMAP_BASE\<close> on, one bit per 4 KiB frame. The state is an extensible record, so that the
  later components extend it with their own fields and call these operations unchanged.
\<close>

section \<open>State and constants\<close>

record pmm_state = kbase +
  phys :: mem
  total_blocks :: nat
  used_blocks :: nat
  bitmap_size :: nat
  last_free_index :: nat
  last_free_index_low :: nat

abbreviation PMM_PAGE_SIZE :: nat where
  "PMM_PAGE_SIZE \<equiv> 4096"

abbreviation PMM_BITMAP_BASE :: u32 where
  "PMM_BITMAP_BASE \<equiv> 0x20000"

abbreviation PMM_WORD_BITS :: nat where
  "PMM_WORD_BITS \<equiv> 32"

abbreviation PMM_WORD_FULL :: u32 where
  "PMM_WORD_FULL \<equiv> 0xFFFFFFFF"

record e820_entry =
  e820_base :: u64
  e820_length :: u64
  e820_type :: u32
  e820_acpi_attr :: u32

record boot_info =
  bi_magic :: u32
  bi_version :: u16
  bi_boot_drive :: u8
  bi_reserved :: u8
  bi_kernel_load_addr :: u32
  bi_kernel_size :: u32
  bi_mmap_count :: u32
  bi_mmap_addr :: u32

text \<open>The two packed structures, read from memory field by field (24 bytes each).\<close>

definition e820_at :: "mem \<Rightarrow> u32 \<Rightarrow> nat \<Rightarrow> e820_entry" where
  "e820_at m mmap i = (let p = mmap + 24 * of_nat i in
     \<lparr>e820_base = read64 m p, e820_length = read64 m (p + 8),
      e820_type = read32 m (p + 16), e820_acpi_attr = read32 m (p + 20)\<rparr>)"

definition boot_info_at :: "mem \<Rightarrow> u32 \<Rightarrow> boot_info" where
  "boot_info_at m p =
     \<lparr>bi_magic = read32 m p, bi_version = read16 m (p + 4), bi_boot_drive = m (p + 6),
      bi_reserved = m (p + 7), bi_kernel_load_addr = read32 m (p + 8),
      bi_kernel_size = read32 m (p + 12), bi_mmap_count = read32 m (p + 16),
      bi_mmap_addr = read32 m (p + 20)\<rparr>"

section \<open>Bits of the bitmap\<close>

definition bitmap_byte :: "'a pmm_state_scheme \<Rightarrow> nat \<Rightarrow> u8" where
  "bitmap_byte s idx = phys s (PMM_BITMAP_BASE + of_nat idx)"

definition bitmap_write :: "nat \<Rightarrow> u8 \<Rightarrow> 'a pmm_state_scheme \<Rightarrow> 'a pmm_state_scheme" where
  "bitmap_write idx b s = s\<lparr>phys := (phys s)(PMM_BITMAP_BASE + of_nat idx := b)\<rparr>"

definition pmm_panic_u32 :: "string \<Rightarrow> u32 \<Rightarrow> 'a kres" where
  "pmm_panic_u32 msg v = Inl (Panic_u32 msg v)"

definition pmm_set :: "nat \<Rightarrow> 'a pmm_state_scheme \<Rightarrow> 'a pmm_state_scheme kres" where
  "pmm_set frame s =
     (if frame \<ge> total_blocks s then pmm_panic_u32 ''pmm_set: frame out of range'' (of_nat frame)
      else let idx = frame div 8; off = frame mod 8 in
        if bitmap_byte s idx AND push_bit off 1 = 0 then
          Inr ((bitmap_write idx (bitmap_byte s idx OR push_bit off 1) s)
            \<lparr>used_blocks := wrap32 (used_blocks s + 1)\<rparr>)
        else Inr s)"

definition pmm_unset :: "nat \<Rightarrow> 'a pmm_state_scheme \<Rightarrow> 'a pmm_state_scheme kres" where
  "pmm_unset frame s =
     (if frame \<ge> total_blocks s then pmm_panic_u32 ''pmm_unset: frame out of range'' (of_nat frame)
      else let idx = frame div 8; off = frame mod 8 in
        if bitmap_byte s idx AND push_bit off 1 \<noteq> 0 then
          let s' = bitmap_write idx (bitmap_byte s idx AND NOT (push_bit off 1)) s in
          if used_blocks s' = 0
          then pmm_panic_u32 ''pmm_unset: used_blocks underflow'' (of_nat frame)
          else Inr (s'\<lparr>used_blocks := used_blocks s' - 1\<rparr>)
        else Inr s)"

definition pmm_test :: "nat \<Rightarrow> 'a pmm_state_scheme \<Rightarrow> u8" where
  "pmm_test frame s = bitmap_byte s (frame div 8) AND push_bit (frame mod 8) 1"

section \<open>Searching for a free frame\<close>

text \<open>
  The four bytes of one bitmap word, least significant first; bytes past the end of the bitmap read
  as \<^verbatim>\<open>0xFF\<close>.
\<close>

definition pmm_word_byte :: "'a pmm_state_scheme \<Rightarrow> nat \<Rightarrow> u8" where
  "pmm_word_byte s i = (if i < bitmap_size s then bitmap_byte s i else 0xFF)"

definition pmm_bitmap_word :: "nat \<Rightarrow> 'a pmm_state_scheme \<Rightarrow> u32" where
  "pmm_bitmap_word word_index s = (let byte_index = wrap32 (word_index * 4) in
     ucast (pmm_word_byte s byte_index)
     OR push_bit 8 (ucast (pmm_word_byte s (wrap32 (byte_index + 1))))
     OR push_bit 16 (ucast (pmm_word_byte s (wrap32 (byte_index + 2))))
     OR push_bit 24 (ucast (pmm_word_byte s (wrap32 (byte_index + 3)))))"

fun pmm_ffs_loop :: "u32 \<Rightarrow> nat \<Rightarrow> nat \<Rightarrow> int" where
  "pmm_ffs_loop v b 0 = - 1"
| "pmm_ffs_loop v b (Suc n) = (if v AND push_bit b 1 \<noteq> 0 then int b else pmm_ffs_loop v (Suc b) n)"

definition pmm_find_first_set_bit :: "u32 \<Rightarrow> int" where
  "pmm_find_first_set_bit v = pmm_ffs_loop v 0 PMM_WORD_BITS"

definition pmm_scan_mask :: "nat \<Rightarrow> nat \<Rightarrow> nat \<Rightarrow> u32" where
  "pmm_scan_mask start_frame end_frame word_index =
     (let start_word = start_frame div PMM_WORD_BITS;
          end_word = (end_frame - 1) div PMM_WORD_BITS;
          start_bit = start_frame mod PMM_WORD_BITS;
          end_bit = (end_frame - 1) mod PMM_WORD_BITS;
          m0 = PMM_WORD_FULL;
          m1 = (if word_index = start_word \<and> start_bit \<noteq> 0
                then m0 AND push_bit start_bit PMM_WORD_FULL else m0)
      in if word_index = end_word \<and> end_bit \<noteq> PMM_WORD_BITS - 1
         then m1 AND (push_bit (end_bit + 1) 1 - 1) else m1)"

text \<open>
  The scan from \<^verbatim>\<open>word_index\<close> over the given number of words: one recursive call per iteration of
  the \<^verbatim>\<open>for\<close> loop. The result is a signed 32-bit value, -1 for none.
\<close>

fun pmm_scan_words :: "'a pmm_state_scheme \<Rightarrow> nat \<Rightarrow> nat \<Rightarrow> nat \<Rightarrow> nat \<Rightarrow> int" where
  "pmm_scan_words s start_frame end_frame word_index 0 = - 1"
| "pmm_scan_words s start_frame end_frame word_index (Suc n) =
     (let word = pmm_bitmap_word word_index s;
          mask = pmm_scan_mask start_frame end_frame word_index;
          candidates = NOT word AND mask;
          b = pmm_find_first_set_bit candidates
      in if candidates \<noteq> 0 \<and> b \<ge> 0
         then sint (of_nat (word_index * PMM_WORD_BITS) + word_of_int b :: u32)
         else pmm_scan_words s start_frame end_frame (word_index + 1) n)"

definition pmm_find_free_in_range :: "'a pmm_state_scheme \<Rightarrow> nat \<Rightarrow> nat \<Rightarrow> int" where
  "pmm_find_free_in_range s start_frame end_frame =
     (if start_frame \<ge> end_frame then - 1
      else let start_word = start_frame div PMM_WORD_BITS;
               end_word = (end_frame - 1) div PMM_WORD_BITS
           in pmm_scan_words s start_frame end_frame start_word (end_word + 1 - start_word))"

text \<open>Result and new value of the cursor.\<close>

definition pmm_first_free_from :: "'a pmm_state_scheme \<Rightarrow> nat \<Rightarrow> nat \<Rightarrow> int \<times> nat" where
  "pmm_first_free_from s cursor end_frame =
     (let cursor = (if cursor \<ge> end_frame then 0 else cursor);
          frame = pmm_find_free_in_range s cursor end_frame
      in if frame \<ge> 0 then (frame, cursor) else (pmm_find_free_in_range s 0 cursor, cursor))"

definition pmm_first_free :: "'a pmm_state_scheme \<Rightarrow> int \<times> 'a pmm_state_scheme" where
  "pmm_first_free s =
     (if used_blocks s \<ge> total_blocks s then (- 1, s)
      else let (frame, c) = pmm_first_free_from s (last_free_index s) (total_blocks s)
           in (frame, s\<lparr>last_free_index := c\<rparr>))"

definition pmm_first_free_low :: "nat \<Rightarrow> 'a pmm_state_scheme \<Rightarrow> int \<times> 'a pmm_state_scheme" where
  "pmm_first_free_low max_frame s =
     (if used_blocks s \<ge> total_blocks s then (- 1, s)
      else let (frame, c) = pmm_first_free_from s (last_free_index_low s) max_frame
           in (frame, s\<lparr>last_free_index_low := c\<rparr>))"

section \<open>Interface\<close>

definition pmm_alloc_page :: "'a pmm_state_scheme \<Rightarrow> (u32 \<times> 'a pmm_state_scheme) kres" where
  "pmm_alloc_page s =
     (let (frame, s) = pmm_first_free s in
      if frame = - 1 then Inr (0, s)
      else kbind (pmm_set (unat (word_of_int frame :: u32)) s) (\<lambda>s.
        let next = wrap32 (unat (word_of_int frame :: u32) + 1) in
        Inr (word_of_int frame * of_nat PMM_PAGE_SIZE,
             s\<lparr>last_free_index := (if next \<ge> total_blocks s then 0 else next)\<rparr>)))"

definition pmm_alloc_page_low :: "u32 \<Rightarrow> 'a pmm_state_scheme \<Rightarrow> (u32 \<times> 'a pmm_state_scheme) kres" where
  "pmm_alloc_page_low max_addr s =
     (let max_frame = unat max_addr div PMM_PAGE_SIZE in
      if max_frame = 0 then Inr (0, s)
      else let max_frame = (if max_frame > total_blocks s then total_blocks s else max_frame);
               (frame, s) = pmm_first_free_low max_frame s in
        if frame = - 1 then Inr (0, s)
        else kbind (pmm_set (unat (word_of_int frame :: u32)) s) (\<lambda>s.
          let next = wrap32 (unat (word_of_int frame :: u32) + 1) in
          Inr (word_of_int frame * of_nat PMM_PAGE_SIZE,
               s\<lparr>last_free_index_low := (if next \<ge> max_frame then 0 else next)\<rparr>)))"

definition pmm_free_page :: "u32 \<Rightarrow> 'a pmm_state_scheme \<Rightarrow> 'a pmm_state_scheme kres" where
  "pmm_free_page addr s =
     (if addr = 0 then Inr s
      else if unat addr mod PMM_PAGE_SIZE \<noteq> 0
      then pmm_panic_u32 ''pmm_free_page: unaligned address'' addr
      else let frame = unat addr div PMM_PAGE_SIZE in
        if frame \<ge> total_blocks s then pmm_panic_u32 ''pmm_free_page: address out of range'' addr
        else if pmm_test frame s = 0
        then pmm_panic_u32 ''pmm_free_page: double free or corrupt frame'' (of_nat frame)
        else kbind (pmm_unset frame s) (\<lambda>s.
          let s = (if frame < last_free_index s then s\<lparr>last_free_index := frame\<rparr> else s) in
          Inr (if frame < last_free_index_low s then s\<lparr>last_free_index_low := frame\<rparr> else s)))"

text \<open>
  The frames a region touches: the start rounded down, the end rounded up (in 64-bit arithmetic,
  which wraps) and clipped to the managed range.
\<close>

definition pmm_region_frames :: "u64 \<Rightarrow> u64 \<Rightarrow> nat \<Rightarrow> nat list" where
  "pmm_region_frames base len tot =
     (let start_frame = base div 4096;
          end_frame = (base + len + (4096 - 1)) div 4096
      in [unat start_frame ..< (if unat end_frame > tot then tot else unat end_frame)])"

definition pmm_mark_region_used :: "u64 \<Rightarrow> u64 \<Rightarrow> 'a pmm_state_scheme \<Rightarrow> 'a pmm_state_scheme kres" where
  "pmm_mark_region_used base len s =
     (if len = 0 then Inr s
      else kfold (\<lambda>frame. pmm_set (wrap32 frame)) (pmm_region_frames base len (total_blocks s)) s)"

definition pmm_mark_region_free :: "u64 \<Rightarrow> u64 \<Rightarrow> 'a pmm_state_scheme \<Rightarrow> 'a pmm_state_scheme kres" where
  "pmm_mark_region_free base len s =
     (if len = 0 then Inr s
      else kfold (\<lambda>frame. pmm_unset (wrap32 frame)) (pmm_region_frames base len (total_blocks s)) s)"

definition pmm_get_free_memory :: "'a pmm_state_scheme \<Rightarrow> u32" where
  "pmm_get_free_memory s = (of_nat (total_blocks s) - of_nat (used_blocks s)) * of_nat PMM_PAGE_SIZE"

definition pmm_get_total_memory :: "'a pmm_state_scheme \<Rightarrow> u32" where
  "pmm_get_total_memory s = of_nat (total_blocks s) * of_nat PMM_PAGE_SIZE"

section \<open>Initialisation\<close>

text \<open>
  The entry count is read once: the only caller passes \<^verbatim>\<open>BOOT_INFO_ADDRESS\<close>, which lies below the
  bitmap, the only memory that initialisation writes. The map entries themselves are read from
  memory as it is in each iteration.
\<close>

fun pmm_highest :: "mem \<Rightarrow> u32 \<Rightarrow> nat list \<Rightarrow> u64 \<Rightarrow> u64" where
  "pmm_highest m mmap [] highest_addr = highest_addr"
| "pmm_highest m mmap (i # is) highest_addr =
     (let e = e820_at m mmap i; top = e820_base e + e820_length e in
      pmm_highest m mmap is
        (if e820_type e = 1 \<and> top > highest_addr then top else highest_addr))"

definition pmm_free_entry :: "u32 \<Rightarrow> nat \<Rightarrow> 'a pmm_state_scheme \<Rightarrow> 'a pmm_state_scheme kres" where
  "pmm_free_entry mmap i s =
     (let e = e820_at (phys s) mmap i in
      if e820_type e = 1 then pmm_mark_region_free (e820_base e) (e820_length e) s else Inr s)"

definition pmm_reset :: "u64 \<Rightarrow> 'a pmm_state_scheme \<Rightarrow> 'a pmm_state_scheme" where
  "pmm_reset highest_addr s =
     (let tot = unat (ucast ((highest_addr + (4096 - 1)) div 4096) :: u32);
          size = wrap32 (tot + 7) div 8
      in s\<lparr>total_blocks := tot, bitmap_size := size, last_free_index := 0,
           last_free_index_low := 0, phys := memset (phys s) PMM_BITMAP_BASE 0xFF size,
           used_blocks := tot\<rparr>)"

definition pmm_init :: "u32 \<Rightarrow> 'a pmm_state_scheme \<Rightarrow> 'a pmm_state_scheme kres" where
  "pmm_init boot_info s =
     (let mmap = bi_mmap_addr (boot_info_at (phys s) boot_info);
          count = unat (bi_mmap_count (boot_info_at (phys s) boot_info));
          s = pmm_reset (pmm_highest (phys s) mmap [0..<count] 0) s in
      kbind (kfold (pmm_free_entry mmap) [0..<count] s) (\<lambda>s.
      kbind (pmm_mark_region_used 0x0 0x1000 s) (\<lambda>s.
      kbind (pmm_mark_region_used 0x10000 (ucast (bi_kernel_size (boot_info_at (phys s) boot_info))) s) (\<lambda>s.
      kbind (pmm_mark_region_used (ucast PMM_BITMAP_BASE) (of_nat (bitmap_size s)) s) (\<lambda>s.
      pmm_mark_region_used 0x5000 0x1000 s)))))"

section \<open>The set of used frames\<close>

text \<open>
  The abstract value of the manager: which of the frames it manages are in use. The invariant says
  that the counter agrees with the bitmap.
\<close>

definition frame_used :: "'a pmm_state_scheme \<Rightarrow> nat \<Rightarrow> bool" where
  "frame_used s f \<longleftrightarrow> bit (bitmap_byte s (f div 8)) (f mod 8)"

definition used_set :: "'a pmm_state_scheme \<Rightarrow> nat set" where
  "used_set s = {f. f < total_blocks s \<and> frame_used s f}"

definition pmm_inv :: "'a pmm_state_scheme \<Rightarrow> bool" where
  "pmm_inv s \<longleftrightarrow> total_blocks s < 2 ^ 31 \<and> bitmap_size s = (total_blocks s + 7) div 8
     \<and> used_blocks s = card (used_set s)"

definition in_bitmap :: "'a pmm_state_scheme \<Rightarrow> u32 \<Rightarrow> bool" where
  "in_bitmap s a \<longleftrightarrow> unat (a - PMM_BITMAP_BASE) < bitmap_size s"

text \<open>
  \<open>pmm_step s s'\<close>: going from \<open>s\<close> to \<open>s'\<close> changed at most the bitmap bytes, the counter and the
  two cursors. Every field another component adds to the record is untouched.
\<close>

definition pmm_step :: "'a pmm_state_scheme \<Rightarrow> 'a pmm_state_scheme \<Rightarrow> bool" where
  "pmm_step s s' \<longleftrightarrow> (\<exists>p u c cl. s' = s\<lparr>phys := p, used_blocks := u, last_free_index := c,
     last_free_index_low := cl\<rparr> \<and> (\<forall>a. \<not> in_bitmap s a \<longrightarrow> p a = phys s a))"

lemma used_set_finite [simp]: "finite (used_set s)"
  by (simp add: used_set_def)

lemma used_set_subset: "used_set s \<subseteq> {..<total_blocks s}"
  by (auto simp: used_set_def)

lemma card_used_le: "card (used_set s) \<le> total_blocks s"
  using card_mono [OF _ used_set_subset, of s] by simp

lemma card_used_less_iff: "card (used_set s) < total_blocks s \<longleftrightarrow> (\<exists>f < total_blocks s. \<not> frame_used s f)"
proof
  assume "card (used_set s) < total_blocks s"
  then have "used_set s \<noteq> {..<total_blocks s}"
    by (metis card_lessThan less_irrefl)
  then show "\<exists>f < total_blocks s. \<not> frame_used s f" by (auto simp: used_set_def)
next
  assume "\<exists>f < total_blocks s. \<not> frame_used s f"
  then have "used_set s \<subset> {..<total_blocks s}" by (auto simp: used_set_def)
  then show "card (used_set s) < total_blocks s"
    using psubset_card_mono [of "{..<total_blocks s}" "used_set s"] by simp
qed

lemma pmm_stepI:
  "s' = s\<lparr>phys := p, used_blocks := u, last_free_index := c, last_free_index_low := cl\<rparr>
   \<Longrightarrow> (\<And>a. \<not> in_bitmap s a \<Longrightarrow> p a = phys s a) \<Longrightarrow> pmm_step s s'"
  unfolding pmm_step_def by blast

lemma pmm_step_refl [simp]: "pmm_step s s"
  by (rule pmm_stepI [where p = "phys s" and u = "used_blocks s" and c = "last_free_index s"
        and cl = "last_free_index_low s"]) auto

lemma pmm_step_trans: "pmm_step s s1 \<Longrightarrow> pmm_step s1 s2 \<Longrightarrow> pmm_step s s2"
  by (force simp: pmm_step_def in_bitmap_def)

lemma pmm_step_fields:
  "pmm_step s s' \<Longrightarrow> total_blocks s' = total_blocks s"
  "pmm_step s s' \<Longrightarrow> bitmap_size s' = bitmap_size s"
  "pmm_step s s' \<Longrightarrow> con_log s' = con_log s"
  "pmm_step s s' \<Longrightarrow> \<not> in_bitmap s a \<Longrightarrow> phys s' a = phys s a"
  by (auto simp: pmm_step_def)

lemma pmm_step_update:
  assumes "pmm_step s s'"
  shows "pmm_step s (s'\<lparr>last_free_index := c\<rparr>)"
    and "pmm_step s (s'\<lparr>last_free_index_low := c\<rparr>)"
    and "pmm_step s (s'\<lparr>used_blocks := c\<rparr>)"
proof -
  obtain p u c0 c1 where *: "s' = s\<lparr>phys := p, used_blocks := u, last_free_index := c0,
      last_free_index_low := c1\<rparr>" "\<And>a. \<not> in_bitmap s a \<Longrightarrow> p a = phys s a"
    using assms unfolding pmm_step_def by blast
  show "pmm_step s (s'\<lparr>last_free_index := c\<rparr>)"
    by (rule pmm_stepI [where p = p and u = u and c = c and cl = c1]) (simp_all add: *)
  show "pmm_step s (s'\<lparr>last_free_index_low := c\<rparr>)"
    by (rule pmm_stepI [where p = p and u = u and c = c0 and cl = c]) (simp_all add: *)
  show "pmm_step s (s'\<lparr>used_blocks := c\<rparr>)"
    by (rule pmm_stepI [where p = p and u = c and c = c0 and cl = c1]) (simp_all add: *)
qed

lemma frame_used_update [simp]:
  "frame_used (s\<lparr>last_free_index := c\<rparr>) = frame_used s"
  "frame_used (s\<lparr>last_free_index_low := c\<rparr>) = frame_used s"
  "frame_used (s\<lparr>used_blocks := c\<rparr>) = frame_used s"
  by (auto simp: frame_used_def bitmap_byte_def)

lemma used_set_update [simp]:
  "used_set (s\<lparr>last_free_index := c\<rparr>) = used_set s"
  "used_set (s\<lparr>last_free_index_low := c\<rparr>) = used_set s"
  "used_set (s\<lparr>used_blocks := c\<rparr>) = used_set s"
  by (auto simp: used_set_def)

lemma pmm_inv_update [simp]:
  "pmm_inv (s\<lparr>last_free_index := c\<rparr>) = pmm_inv s"
  "pmm_inv (s\<lparr>last_free_index_low := c\<rparr>) = pmm_inv s"
  by (auto simp: pmm_inv_def)

subsection \<open>Writing one byte of the bitmap\<close>

lemma bitmap_addr_inj:
  "i < 4294967296 \<Longrightarrow> j < 4294967296 \<Longrightarrow> PMM_BITMAP_BASE + of_nat i = PMM_BITMAP_BASE + of_nat j \<longleftrightarrow> i = j"
  by (metis add_left_imp_eq unat_of_nat_u32)

lemma bitmap_byte_write:
  "i < 4294967296 \<Longrightarrow> j < 4294967296 \<Longrightarrow>
   bitmap_byte (bitmap_write i b s) j = (if j = i then b else bitmap_byte s j)"
  using bitmap_addr_inj [of j i] by (auto simp: bitmap_byte_def bitmap_write_def)

lemma bitmap_write_fields [simp]:
  "total_blocks (bitmap_write i b s) = total_blocks s"
  "bitmap_size (bitmap_write i b s) = bitmap_size s"
  "used_blocks (bitmap_write i b s) = used_blocks s"
  by (simp_all add: bitmap_write_def)

lemma bitmap_write_step: "i < bitmap_size s \<Longrightarrow> i < 4294967296 \<Longrightarrow> pmm_step s (bitmap_write i b s)"
  unfolding bitmap_write_def
  by (rule pmm_stepI [where p = "(phys s)(PMM_BITMAP_BASE + of_nat i := b)"
        and u = "used_blocks s" and c = "last_free_index s" and cl = "last_free_index_low s"])
     (auto simp: in_bitmap_def)

subsection \<open>Setting and clearing a bit\<close>

lemma and_push_bit_eq_0:
  "(w :: 'b::len word) AND push_bit n 1 = 0 \<longleftrightarrow> \<not> bit w n"
  "(w :: 'b::len word) AND 2 ^ n = 0 \<longleftrightarrow> \<not> bit w n"
  using bit_iff_and_push_bit_not_eq_0 [of w n] by simp_all

lemma same_bit: "(g :: nat) div 8 = f div 8 \<Longrightarrow> g mod 8 = f mod 8 \<Longrightarrow> g = f"
  by (metis div_mult_mod_eq)

text \<open>
  \<^verbatim>\<open>pmm_set\<close> and \<^verbatim>\<open>pmm_unset\<close> never panic on a managed frame, change the state of exactly that frame
  and keep the counter right.
\<close>

lemma pmm_set_spec:
  assumes "f < total_blocks s" "pmm_inv s"
  shows "\<exists>s'. pmm_set f s = Inr s' \<and> pmm_inv s' \<and> pmm_step s s' \<and> used_set s' = insert f (used_set s)"
proof (cases "frame_used s f")
  case True
  then show ?thesis
    using assms by (auto simp: pmm_set_def and_push_bit_eq_0 frame_used_def used_set_def Let_def)
next
  case False
  let ?b = "bitmap_byte s (f div 8) OR push_bit (f mod 8) 1"
  let ?s = "bitmap_write (f div 8) ?b s"
  have f: "f < 4294967296" "total_blocks s < 4294967296" "f div 8 < bitmap_size s"
    using assms by (auto simp: pmm_inv_def)
  have "frame_used ?s g = (g = f \<or> frame_used s g)" if "g < total_blocks s" for g
    using that f same_bit [of g f]
    by (auto simp: frame_used_def bitmap_byte_write bit_or_iff bit_exp_iff)
  then have used: "used_set ?s = insert f (used_set s)"
    using assms by (auto simp: used_set_def)
  moreover have "pmm_step s ?s"
    using f by (intro bitmap_write_step) auto
  moreover have "used_blocks s < total_blocks s"
    using assms False card_used_less_iff by (auto simp: pmm_inv_def)
  moreover have "f \<notin> used_set s" using False by (simp add: used_set_def)
  ultimately have "pmm_inv (?s\<lparr>used_blocks := wrap32 (used_blocks s + 1)\<rparr>)"
    using assms f by (simp add: pmm_inv_def)
  moreover have "pmm_set f s = Inr (?s\<lparr>used_blocks := wrap32 (used_blocks s + 1)\<rparr>)"
    using assms False by (simp add: pmm_set_def and_push_bit_eq_0 frame_used_def Let_def)
  ultimately show ?thesis
    using used \<open>pmm_step s ?s\<close> by (auto intro: pmm_step_update)
qed

lemma pmm_unset_spec:
  assumes "f < total_blocks s" "pmm_inv s"
  shows "\<exists>s'. pmm_unset f s = Inr s' \<and> pmm_inv s' \<and> pmm_step s s' \<and> used_set s' = used_set s - {f}"
proof (cases "frame_used s f")
  case False
  then show ?thesis
    using assms by (auto simp: pmm_unset_def and_push_bit_eq_0 frame_used_def used_set_def Let_def)
next
  case True
  let ?b = "bitmap_byte s (f div 8) AND NOT (push_bit (f mod 8) 1)"
  let ?s = "bitmap_write (f div 8) ?b s"
  have f: "f < 4294967296" "total_blocks s < 4294967296" "f div 8 < bitmap_size s"
    using assms by (auto simp: pmm_inv_def)
  have "frame_used ?s g = (g \<noteq> f \<and> frame_used s g)" if "g < total_blocks s" for g
    using that f same_bit [of g f]
    by (auto simp: frame_used_def bitmap_byte_write bit_and_iff bit_not_iff bit_exp_iff)
  then have used: "used_set ?s = used_set s - {f}"
    using assms by (auto simp: used_set_def)
  moreover have "pmm_step s ?s"
    using f by (intro bitmap_write_step) auto
  moreover have "f \<in> used_set s" using True assms by (simp add: used_set_def)
  moreover from this have "0 < used_blocks s"
    using assms by (auto simp: pmm_inv_def card_gt_0_iff)
  ultimately have "pmm_inv (?s\<lparr>used_blocks := used_blocks s - 1\<rparr>)"
    using assms f by (simp add: pmm_inv_def)
  moreover have "pmm_unset f s = Inr (?s\<lparr>used_blocks := used_blocks s - 1\<rparr>)"
    using assms True \<open>0 < used_blocks s\<close>
    by (simp add: pmm_unset_def and_push_bit_eq_0 frame_used_def Let_def)
  ultimately show ?thesis
    using used \<open>pmm_step s ?s\<close> by (auto intro: pmm_step_update)
qed

section \<open>The word scan finds the first free frame\<close>

lemma bit_pmm_bitmap_word:
  assumes "b < 32" "w * 32 + b < total_blocks s" "pmm_inv s"
  shows "bit (pmm_bitmap_word w s) b \<longleftrightarrow> frame_used s (w * 32 + b)"
proof -
  let ?f = "w * 32 + b"
  have size: "?f div 8 < bitmap_size s" and small: "w * 4 + 3 < 4294967296"
    using assms by (auto simp: pmm_inv_def)
  have f: "?f = w * 4 * 8 + b" by simp
  have fm: "?f mod 8 = b mod 8" unfolding f by (rule mod_mult_self3)
  have "?f div 8 = w * 4 + b div 8" unfolding f by (rule div_mult_self3) simp
  then have byte: "pmm_word_byte s (w * 4 + b div 8) = bitmap_byte s (?f div 8)"
    using size by (simp add: pmm_word_byte_def)
  consider "b < 8" | "8 \<le> b" "b < 16" | "16 \<le> b" "b < 24" | "24 \<le> b" by linarith
  then have "bit (pmm_bitmap_word w s) b \<longleftrightarrow> bit (pmm_word_byte s (w * 4 + b div 8)) (b mod 8)"
  proof cases
    case 1
    then show ?thesis using small by (auto simp: pmm_bitmap_word_def bit_simps Let_def)
  next
    case 2
    then have "b div 8 = 1" by (intro div_nat_eqI) auto
    moreover from this have "b mod 8 = b - 8" using minus_mult_div_eq_mod [of b 8] by simp
    moreover note 2
    ultimately show ?thesis
      using small by (auto simp: pmm_bitmap_word_def bit_simps Let_def dest: bit_imp_le_length)
  next
    case 3
    then have "b div 8 = 2" by (intro div_nat_eqI) auto
    moreover from this have "b mod 8 = b - 16" using minus_mult_div_eq_mod [of b 8] by simp
    moreover note 3
    ultimately show ?thesis
      using small by (auto simp: pmm_bitmap_word_def bit_simps Let_def dest: bit_imp_le_length)
  next
    case 4
    then have "b div 8 = 3" using assms(1) by (intro div_nat_eqI) auto
    moreover from this have "b mod 8 = b - 24" using minus_mult_div_eq_mod [of b 8] by simp
    moreover note 4
    ultimately show ?thesis
      using small assms(1) by (auto simp: pmm_bitmap_word_def bit_simps Let_def dest: bit_imp_le_length)
  qed
  then show ?thesis
    using byte fm by (simp add: frame_used_def)
qed

lemma pmm_ffs_loop_spec:
  assumes "\<forall>i < b. \<not> bit v i"
  shows "case pmm_ffs_loop v b n of r \<Rightarrow>
    (r = - 1 \<and> (\<forall>i < b + n. \<not> bit v i)) \<or> (\<exists>i < b + n. r = int i \<and> bit v i \<and> (\<forall>j < i. \<not> bit v j))"
  using assms
proof (induction n arbitrary: b)
  case (Suc n)
  show ?case
  proof (cases "bit v b")
    case True
    then show ?thesis using Suc.prems by (auto simp: and_push_bit_eq_0)
  next
    case False
    then have "\<forall>i < Suc b. \<not> bit v i" using Suc.prems less_Suc_eq by auto
    from Suc.IH [OF this] show ?thesis using False by (auto simp: and_push_bit_eq_0)
  qed
qed auto

lemma pmm_find_first_set_bit_spec:
  assumes "v \<noteq> 0"
  shows "\<exists>i < 32. pmm_find_first_set_bit v = int i \<and> bit v i \<and> (\<forall>j < i. \<not> bit v j)"
proof -
  obtain k where "k < 32" "bit v k"
    using assms by (auto simp: bit_exhaust_word)
  then show ?thesis
    using pmm_ffs_loop_spec [of 0 v 32] by (auto simp: pmm_find_first_set_bit_def)
qed

lemma scan_masks:
  "PMM_WORD_FULL = mask 32"
  "push_bit (e + 1) 1 - 1 = (mask (e + 1) :: u32)"
  by (simp add: mask_eq_exp_minus_1) (simp only: mask_eq_exp_minus_1 push_bit_of_1)

lemma bit_pmm_scan_mask:
  assumes "b < 32"
  shows "bit (pmm_scan_mask st en w) b \<longleftrightarrow>
    (w = st div 32 \<longrightarrow> st mod 32 \<le> b) \<and> (w = (en - 1) div 32 \<longrightarrow> b \<le> (en - 1) mod 32)"
proof -
  have "b \<le> (en - 1) mod 32" if "(en - 1) mod 32 = 31" using that assms by simp
  then show ?thesis
    using assms unfolding pmm_scan_mask_def Let_def scan_masks
    by (auto simp: bit_and_iff bit_mask_iff bit_push_bit_iff less_imp_diff_less)
qed

text \<open>
  A candidate bit is exactly a free frame of the requested range.
\<close>

lemma bit_candidates:
  assumes "pmm_inv s" "st < en" "en \<le> total_blocks s" "st div 32 \<le> w" "w \<le> (en - 1) div 32" "b < 32"
  shows "bit (NOT (pmm_bitmap_word w s) AND pmm_scan_mask st en w) b \<longleftrightarrow>
    st \<le> w * 32 + b \<and> w * 32 + b < en \<and> \<not> frame_used s (w * 32 + b)"
proof -
  have lo: "(w = st div 32 \<longrightarrow> st mod 32 \<le> b) \<longleftrightarrow> st \<le> w * 32 + b"
    using assms(4) by (rule from_word_index)
  have hi: "(w = (en - 1) div 32 \<longrightarrow> b \<le> (en - 1) mod 32) \<longleftrightarrow> w * 32 + b < en"
    using upto_word_index [OF assms(5,6)] assms(2) by auto
  have "bit (NOT (pmm_bitmap_word w s) AND pmm_scan_mask st en w) b
      \<longleftrightarrow> \<not> bit (pmm_bitmap_word w s) b \<and> bit (pmm_scan_mask st en w) b"
    using assms(6) by (simp add: bit_and_iff bit_not_iff)
  also have "\<dots> \<longleftrightarrow> \<not> bit (pmm_bitmap_word w s) b \<and> st \<le> w * 32 + b \<and> w * 32 + b < en"
    using bit_pmm_scan_mask [OF assms(6), of st en w] lo hi by simp
  finally show ?thesis
    using bit_pmm_bitmap_word [OF assms(6) _ assms(1), of w] assms(3) by auto
qed

definition first_free_in :: "'a pmm_state_scheme \<Rightarrow> nat \<Rightarrow> nat \<Rightarrow> int \<Rightarrow> bool" where
  "first_free_in s st en r \<longleftrightarrow>
     (r = - 1 \<and> (\<forall>f. st \<le> f \<and> f < en \<longrightarrow> frame_used s f)) \<or>
     (\<exists>f. r = int f \<and> st \<le> f \<and> f < en \<and> \<not> frame_used s f \<and> (\<forall>g. st \<le> g \<and> g < f \<longrightarrow> frame_used s g))"

lemma pmm_scan_words_spec:
  assumes "pmm_inv s" "st < en" "en \<le> total_blocks s" "st div 32 \<le> w" "w + n = (en - 1) div 32 + 1"
    and "\<And>f. st \<le> f \<Longrightarrow> f < w * 32 \<Longrightarrow> f < en \<Longrightarrow> frame_used s f"
  shows "first_free_in s st en (pmm_scan_words s st en w n)"
  using assms
proof (induction n arbitrary: w)
  case 0
  then have "en \<le> w * 32" by auto
  with 0 show ?case by (simp add: first_free_in_def)
next
  case (Suc n)
  let ?c = "NOT (pmm_bitmap_word w s) AND pmm_scan_mask st en w"
  note bc = bit_candidates [OF Suc.prems(1-4), of _]
  have w: "w \<le> (en - 1) div 32" using Suc.prems(5) by simp
  show ?case
  proof (cases "?c = 0")
    case True
    have "frame_used s f" if "st \<le> f" "f < (w + 1) * 32" "f < en" for f
    proof (cases "f < w * 32")
      case False
      then obtain k where k: "f = w * 32 + k" by (metis le_iff_add not_less)
      then show ?thesis using bc [OF w, of k] True that by simp
    qed (use Suc.prems(6) that in auto)
    then have "first_free_in s st en (pmm_scan_words s st en (w + 1) n)"
      using Suc.prems w by (intro Suc.IH) auto
    with True show ?thesis by simp
  next
    case False
    then obtain i where i: "i < 32" "pmm_find_first_set_bit ?c = int i" "bit ?c i" "\<forall>j < i. \<not> bit ?c j"
      using pmm_find_first_set_bit_spec by blast
    let ?f = "w * 32 + i"
    have f: "st \<le> ?f" "?f < en" "\<not> frame_used s ?f"
      using bc [OF w i(1)] i(3) by auto
    have "frame_used s g" if "st \<le> g" "g < ?f" for g
    proof (cases "g < w * 32")
      case False
      then obtain k where k: "g = w * 32 + k" by (metis le_iff_add not_less)
      then have "k < i" "k < 32" using that i(1) by simp_all
      then show ?thesis using bc [OF w, of k] i(4) that f k by simp
    qed (use Suc.prems(6) that f in auto)
    moreover have "sint (of_nat ?f :: u32) = int ?f"
      using f(2) Suc.prems(1,3) by (intro sint_of_nat_u32) (simp add: pmm_inv_def)
    then have "pmm_scan_words s st en w (Suc n) = int ?f"
      using False i(2) by (simp add: Let_def)
    ultimately show ?thesis
      using f unfolding first_free_in_def by blast
  qed
qed

lemma pmm_find_free_in_range_spec:
  assumes "pmm_inv s" "en \<le> total_blocks s"
  shows "first_free_in s st en (pmm_find_free_in_range s st en)"
proof (cases "st < en")
  case True
  then have le: "st div 32 \<le> (en - 1) div 32" by (intro div_le_mono) simp
  have "first_free_in s st en
      (pmm_scan_words s st en (st div 32) ((en - 1) div 32 + 1 - st div 32))"
    using assms True le by (intro pmm_scan_words_spec) auto
  then show ?thesis using True by (simp add: pmm_find_free_in_range_def Let_def)
next
  case False
  then show ?thesis by (auto simp: pmm_find_free_in_range_def first_free_in_def)
qed

lemma first_free_in_cases:
  assumes "first_free_in s st en r"
  obtains "r = - 1" "\<And>f. st \<le> f \<Longrightarrow> f < en \<Longrightarrow> frame_used s f"
  | f where "r = int f" "st \<le> f" "f < en" "\<not> frame_used s f"
  using assms unfolding first_free_in_def by blast

text \<open>Next fit: the search covers the whole range below \<^verbatim>\<open>end_frame\<close>, wherever the cursor stands.\<close>

lemma pmm_first_free_from_spec:
  assumes "pmm_inv s" "en \<le> total_blocks s"
  obtains c where "pmm_first_free_from s cursor en = (- 1, c)" "\<And>f. f < en \<Longrightarrow> frame_used s f"
  | f c where "pmm_first_free_from s cursor en = (int f, c)" "f < en" "\<not> frame_used s f"
proof -
  define c where "c = (if cursor \<ge> en then 0 else cursor)"
  have c: "c \<le> en" by (simp add: c_def)
  have hi: "first_free_in s c en (pmm_find_free_in_range s c en)"
    using assms by (rule pmm_find_free_in_range_spec)
  have lo: "first_free_in s 0 c (pmm_find_free_in_range s 0 c)"
    using assms c by (intro pmm_find_free_in_range_spec) auto
  from hi show ?thesis
  proof (cases rule: first_free_in_cases)
    case 1
    note hi = 1
    from lo show ?thesis
    proof (cases rule: first_free_in_cases)
      case 1
      have "pmm_first_free_from s cursor en = (- 1, c)"
        using 1(1) hi(1) by (simp add: pmm_first_free_from_def Let_def flip: c_def)
      moreover have "frame_used s f" if "f < en" for f
        using that 1(2) hi(2) by (cases "f < c") auto
      ultimately show ?thesis by (rule that(1))
    next
      case (2 f)
      have "pmm_first_free_from s cursor en = (int f, c)"
        using 2(1) hi(1) by (simp add: pmm_first_free_from_def Let_def flip: c_def)
      then show ?thesis using 2 c by (intro that(2)) auto
    qed
  next
    case (2 f)
    then have "pmm_first_free_from s cursor en = (int f, c)"
      by (simp add: pmm_first_free_from_def Let_def flip: c_def)
    then show ?thesis using 2 by (intro that(2)) auto
  qed
qed

section \<open>Allocation and release\<close>

lemma pmm_set_after:
  assumes "f < total_blocks s" "pmm_inv s0" "pmm_step s s0" "used_set s0 = used_set s"
  shows "\<exists>s'. pmm_set f s0 = Inr s' \<and> pmm_inv s' \<and> pmm_step s s' \<and> used_set s' = insert f (used_set s)"
  using pmm_set_spec [of f s0] assms pmm_step_fields(1) [OF assms(3)] pmm_step_trans [OF assms(3)] by auto

text \<open>
  The two outcomes of each allocator, with what holds in each. Neither panics.
\<close>

lemma pmm_alloc_page_cases:
  assumes "pmm_inv s"
  obtains (none) s' where "pmm_alloc_page s = Inr (0, s')" "used_set s = {..<total_blocks s}"
      "pmm_inv s'" "pmm_step s s'" "used_set s' = used_set s"
  | (frame) f s' where "pmm_alloc_page s = Inr (of_nat f * 4096, s')" "f < total_blocks s"
      "f \<notin> used_set s" "pmm_inv s'" "pmm_step s s'" "used_set s' = insert f (used_set s)"
proof (cases "used_blocks s \<ge> total_blocks s")
  case True
  then have "used_set s = {..<total_blocks s}"
    using card_used_less_iff [of s] assms by (auto simp: pmm_inv_def used_set_def)
  moreover have "pmm_alloc_page s = Inr (0, s)"
    using True by (simp add: pmm_alloc_page_def pmm_first_free_def)
  ultimately show ?thesis using assms by (intro none [of s]) auto
next
  case False
  from assms order_refl show ?thesis
  proof (cases rule: pmm_first_free_from_spec [where cursor = "last_free_index s"])
    case (1 c)
    then have "used_set s = {..<total_blocks s}" by (auto simp: used_set_def)
    moreover have "pmm_alloc_page s = Inr (0, s\<lparr>last_free_index := c\<rparr>)"
      using 1 False by (simp add: pmm_alloc_page_def pmm_first_free_def)
    ultimately show ?thesis
      using assms by (intro none [of "s\<lparr>last_free_index := c\<rparr>"]) (simp_all add: pmm_step_update)
  next
    case (2 f c)
    then have f: "f < 2147483648" "f \<notin> used_set s" using assms by (simp_all add: pmm_inv_def used_set_def)
    obtain s' where s': "pmm_set f (s\<lparr>last_free_index := c\<rparr>) = Inr s'" "pmm_inv s'" "pmm_step s s'"
        "used_set s' = insert f (used_set s)"
      using pmm_set_after [of f s "s\<lparr>last_free_index := c\<rparr>"] assms 2 by (auto simp: pmm_step_update)
    define t where "t = s'\<lparr>last_free_index :=
        (if wrap32 (f + 1) \<ge> total_blocks s' then 0 else wrap32 (f + 1))\<rparr>"
    have "pmm_alloc_page s = Inr (of_nat f * 4096, t)"
      using 2 False s'(1) f by (simp add: pmm_alloc_page_def pmm_first_free_def Let_def t_def)
    then show ?thesis
      by (rule frame) (simp_all add: 2 f s' t_def pmm_step_update)
  qed
qed

lemma pmm_alloc_page_low_cases:
  fixes max_addr :: u32 and s :: "'a pmm_state_scheme"
  assumes "pmm_inv s"
  defines "lim \<equiv> min (unat max_addr div 4096) (total_blocks s)"
  obtains (none) s' where "pmm_alloc_page_low max_addr s = Inr (0, s')" "{..<lim} \<subseteq> used_set s"
      "pmm_inv s'" "pmm_step s s'" "used_set s' = used_set s"
  | (frame) f s' where "pmm_alloc_page_low max_addr s = Inr (of_nat f * 4096, s')" "f < lim"
      "f \<notin> used_set s" "pmm_inv s'" "pmm_step s s'" "used_set s' = insert f (used_set s)"
proof (cases "unat max_addr div 4096 = 0 \<or> used_blocks s \<ge> total_blocks s")
  case True
  then have "{..<lim} \<subseteq> used_set s"
    using card_used_less_iff [of s] assms(1) by (auto simp: pmm_inv_def used_set_def lim_def)
  moreover have "pmm_alloc_page_low max_addr s = Inr (0, s)"
    using True by (auto simp: pmm_alloc_page_low_def pmm_first_free_low_def Let_def)
  ultimately show ?thesis using assms by (intro none [of s]) auto
next
  case False
  have lim: "(if unat max_addr div 4096 > total_blocks s then total_blocks s
      else unat max_addr div 4096) = lim" "lim \<le> total_blocks s" by (auto simp: lim_def)
  from assms(1) lim(2) show ?thesis
  proof (cases rule: pmm_first_free_from_spec [where cursor = "last_free_index_low s"])
    case (1 c)
    then have "{..<lim} \<subseteq> used_set s" using lim by (auto simp: used_set_def)
    moreover have "pmm_alloc_page_low max_addr s = Inr (0, s\<lparr>last_free_index_low := c\<rparr>)"
      using 1 False by (simp add: pmm_alloc_page_low_def pmm_first_free_low_def Let_def lim)
    ultimately show ?thesis
      using assms by (intro none [of "s\<lparr>last_free_index_low := c\<rparr>"]) (simp_all add: pmm_step_update)
  next
    case (2 f c)
    then have f: "f < 2147483648" "f \<notin> used_set s" "f < total_blocks s"
      using assms lim by (simp_all add: pmm_inv_def used_set_def)
    obtain s' where s': "pmm_set f (s\<lparr>last_free_index_low := c\<rparr>) = Inr s'" "pmm_inv s'" "pmm_step s s'"
        "used_set s' = insert f (used_set s)"
      using pmm_set_after [of f s "s\<lparr>last_free_index_low := c\<rparr>"] assms f by (auto simp: pmm_step_update)
    define t where "t = s'\<lparr>last_free_index_low := (if wrap32 (f + 1) \<ge> lim then 0 else wrap32 (f + 1))\<rparr>"
    have "pmm_alloc_page_low max_addr s = Inr (of_nat f * 4096, t)"
      using 2 False s'(1) f by (simp add: pmm_alloc_page_low_def pmm_first_free_low_def Let_def lim t_def)
    then show ?thesis
      by (rule frame) (simp_all add: 2 f s' t_def pmm_step_update)
  qed
qed

lemma pmm_test_iff: "pmm_test f s = 0 \<longleftrightarrow> \<not> frame_used s f"
  by (simp add: pmm_test_def frame_used_def and_push_bit_eq_0)

lemma pmm_free_page_used:
  assumes "pmm_inv s" "unat a mod 4096 = 0" "unat a div 4096 \<in> used_set s" "a \<noteq> 0"
  shows "\<exists>s'. pmm_free_page a s = Inr s' \<and> pmm_inv s' \<and> pmm_step s s' \<and>
    used_set s' = used_set s - {unat a div 4096} \<and>
    last_free_index s' \<le> max (last_free_index s) (unat a div 4096)"
proof -
  let ?f = "unat a div 4096"
  have f: "?f < total_blocks s" "frame_used s ?f" using assms(3) by (auto simp: used_set_def)
  obtain s1 where s1: "pmm_unset ?f s = Inr s1" "pmm_inv s1" "pmm_step s s1" "used_set s1 = used_set s - {?f}"
    using pmm_unset_spec [OF f(1) assms(1)] by blast
  have c: "last_free_index s1 = last_free_index s"
    using s1(1) f by (auto simp: pmm_unset_def Let_def bitmap_write_def pmm_panic_u32_def split: if_splits)
  define t where "t = (if ?f < last_free_index s1 then s1\<lparr>last_free_index := ?f\<rparr> else s1)"
  define t' where "t' = (if ?f < last_free_index_low t then t\<lparr>last_free_index_low := ?f\<rparr> else t)"
  have "pmm_free_page a s = Inr t'"
    using assms f s1(1) by (simp add: pmm_free_page_def pmm_test_iff Let_def t_def t'_def)
  moreover have "pmm_step s t" "pmm_inv t" "used_set t = used_set s - {?f}"
    using s1 by (simp_all add: t_def pmm_step_update)
  then have "pmm_step s t'" "pmm_inv t'" "used_set t' = used_set s - {?f}"
    by (simp_all add: t'_def pmm_step_update)
  moreover have "last_free_index t' \<le> max (last_free_index s) ?f"
    using c by (simp add: t'_def t_def)
  ultimately show ?thesis by blast
qed

lemma unat_page_addr:
  assumes "f < 1048576"
  shows "unat (of_nat f * 4096 :: u32) = f * 4096"
proof -
  have "(of_nat f * 4096 :: u32) = of_nat (f * 4096)" by simp
  then show ?thesis using assms by (simp del: of_nat_mult)
qed

lemma page_addr_nonzero: "f < 1048576 \<Longrightarrow> (of_nat f * 4096 :: u32) = 0 \<longleftrightarrow> f = 0"
  using unat_page_addr [of f] by (auto simp flip: unat_eq_0)

section \<open>Marking regions\<close>

lemma kfold_pmm_set:
  assumes "pmm_inv s" "\<forall>f \<in> set fs. f < total_blocks s"
  shows "\<exists>s'. kfold (\<lambda>frame. pmm_set (wrap32 frame)) fs s = Inr s' \<and> pmm_inv s' \<and> pmm_step s s'
    \<and> used_set s' = used_set s \<union> set fs"
  using assms
proof (induction fs arbitrary: s)
  case (Cons f fs)
  then have "f < total_blocks s" "wrap32 f = f" by (auto simp: pmm_inv_def)
  then obtain s1 where s1: "pmm_set (wrap32 f) s = Inr s1" "pmm_inv s1" "pmm_step s s1"
      "used_set s1 = insert f (used_set s)"
    using pmm_set_spec Cons.prems(1) by metis
  then obtain s' where "kfold (\<lambda>frame. pmm_set (wrap32 frame)) fs s1 = Inr s'" "pmm_inv s'"
      "pmm_step s1 s'" "used_set s' = used_set s1 \<union> set fs"
    using Cons.IH [of s1] Cons.prems(2) by (auto simp: pmm_step_fields)
  then show ?case using s1 pmm_step_trans [OF s1(3)] by auto
qed auto

lemma kfold_pmm_unset:
  assumes "pmm_inv s" "\<forall>f \<in> set fs. f < total_blocks s"
  shows "\<exists>s'. kfold (\<lambda>frame. pmm_unset (wrap32 frame)) fs s = Inr s' \<and> pmm_inv s' \<and> pmm_step s s'
    \<and> used_set s' = used_set s - set fs"
  using assms
proof (induction fs arbitrary: s)
  case (Cons f fs)
  then have "f < total_blocks s" "wrap32 f = f" by (auto simp: pmm_inv_def)
  then obtain s1 where s1: "pmm_unset (wrap32 f) s = Inr s1" "pmm_inv s1" "pmm_step s s1"
      "used_set s1 = used_set s - {f}"
    using pmm_unset_spec Cons.prems(1) by metis
  then obtain s' where "kfold (\<lambda>frame. pmm_unset (wrap32 frame)) fs s1 = Inr s'" "pmm_inv s'"
      "pmm_step s1 s'" "used_set s' = used_set s1 - set fs"
    using Cons.IH [of s1] Cons.prems(2) by (auto simp: pmm_step_fields)
  then show ?case using s1 pmm_step_trans [OF s1(3)] by auto
qed auto

text \<open>
  The frames that the code marks for a region, among the first \<open>n\<close>. Where nothing wraps they are those that
  have a byte in \<open>[base, base + len)\<close> (\<open>touched_iff\<close>).
\<close>

definition touched :: "u64 \<Rightarrow> u64 \<Rightarrow> nat \<Rightarrow> nat set" where
  "touched base len n = (if len = 0 then {} else set (pmm_region_frames base len n))"

lemma touched_less: "f \<in> touched base len n \<Longrightarrow> f < n"
  by (auto simp: touched_def pmm_region_frames_def Let_def split: if_splits)

lemma touched_iff:
  assumes "unat base + unat len + 4095 < 2 ^ 64"
  shows "f \<in> touched base len n \<longleftrightarrow>
    0 < unat len \<and> f < n \<and> unat base < (f + 1) * 4096 \<and> f * 4096 < unat base + unat len"
proof (cases "len = 0")
  case False
  have "unat (base + len + (4096 - 1)) = unat base + unat len + 4095"
    using assms by (simp add: unat_plus_if_size word_size)
  then have e: "unat ((base + len + (4096 - 1)) div 4096) = (unat base + unat len + 4095) div 4096"
    by (simp only: unat_div) simp
  have b: "unat (base div 4096) = unat base div 4096" by (simp add: unat_div)
  have "unat base div 4096 \<le> f \<longleftrightarrow> unat base < (f + 1) * 4096"
    by (metis Suc_eq_plus1 div_less_iff_less_mult less_Suc_eq_le zero_less_numeral)
  moreover have "f < (unat base + unat len + 4095) div 4096 \<longleftrightarrow> f * 4096 < unat base + unat len"
    unfolding Suc_le_eq [symmetric] by (subst less_eq_div_iff_mult_less_eq) auto
  ultimately show ?thesis
    using False unfolding touched_def pmm_region_frames_def Let_def e b
    by (auto simp: unat_gt_0)
qed (simp add: touched_def)

lemma pmm_mark_region_used_spec:
  assumes "pmm_inv s"
  shows "\<exists>s'. pmm_mark_region_used base len s = Inr s' \<and> pmm_inv s' \<and> pmm_step s s'
    \<and> used_set s' = used_set s \<union> touched base len (total_blocks s)"
  using kfold_pmm_set [OF assms, of "pmm_region_frames base len (total_blocks s)"] assms
    touched_less [of _ base len "total_blocks s"]
  by (auto simp: pmm_mark_region_used_def touched_def split: if_splits)

lemma pmm_mark_region_free_spec:
  assumes "pmm_inv s"
  shows "\<exists>s'. pmm_mark_region_free base len s = Inr s' \<and> pmm_inv s' \<and> pmm_step s s'
    \<and> used_set s' = used_set s - touched base len (total_blocks s)"
  using kfold_pmm_unset [OF assms, of "pmm_region_frames base len (total_blocks s)"] assms
    touched_less [of _ base len "total_blocks s"]
  by (auto simp: pmm_mark_region_free_def touched_def split: if_splits)

end
