(* ===== verification/PMM_Spec.thy ===== *)
theory PMM_Spec
  imports PMM
begin

text \<open>
  What the physical memory manager promises: the effect of \<^verbatim>\<open>pmm_init\<close> on every frame, first
  over the computations of the code and then over byte addresses alone, the contract
  of the allocator as a locale with its interpretation on the model, and the properties of
  allocation, release and the bitmap scan.
\<close>

section \<open>Initialisation\<close>

text \<open>
  Memory below the bitmap is not part of it, so the boot structures there are read unchanged
  throughout initialisation.
\<close>

lemma below_not_in_bitmap:
  assumes "unat a < 131072" "bitmap_size s \<le> 536870912"
  shows "\<not> in_bitmap s a"
proof -
  have "unat (a - PMM_BITMAP_BASE) = unat a + 4294967296 - 131072"
    using assms(1) by (simp add: unat_sub_if_size word_size)
  then show ?thesis using assms(2) by (simp add: in_bitmap_def)
qed

lemma read16_cong: "m a = m' a \<Longrightarrow> m (a + 1) = m' (a + 1) \<Longrightarrow> read16 m a = read16 m' a"
  by (simp add: read16_def)

lemma read64_cong:
  assumes "\<And>k. k < 8 \<Longrightarrow> m (a + k) = m' (a + k)"
  shows "read64 m a = read64 m' a"
proof -
  have "read32 m a = read32 m' a"
    using assms by (intro read32_cong) (simp add: word_less_nat_alt)
  moreover have "read32 m (a + 4) = read32 m' (a + 4)"
    using assms [of 4] assms [of 5] assms [of 6] assms [of 7]
    by (simp add: read32_def add.assoc)
  ultimately show ?thesis by (simp add: read64_def)
qed

definition agree24 :: "mem \<Rightarrow> mem \<Rightarrow> u32 \<Rightarrow> bool" where
  "agree24 m m' p \<longleftrightarrow> (\<forall>k < 24. m (p + k) = m' (p + k))"

lemma agree24_reads:
  assumes "agree24 m m' p"
  shows "read64 m p = read64 m' p" "read64 m (p + 8) = read64 m' (p + 8)"
    "read32 m p = read32 m' p" "read32 m (p + 8) = read32 m' (p + 8)"
    "read32 m (p + 12) = read32 m' (p + 12)" "read32 m (p + 16) = read32 m' (p + 16)"
    "read32 m (p + 20) = read32 m' (p + 20)" "read16 m (p + 4) = read16 m' (p + 4)"
    "m (p + 6) = m' (p + 6)" "m (p + 7) = m' (p + 7)"
proof -
  have k: "m (p + k) = m' (p + k)" if "unat k < 24" for k
    using assms that by (simp add: agree24_def word_less_nat_alt)
  note ks = k [of 0] k [of 1] k [of 2] k [of 3] k [of 4] k [of 5] k [of 6] k [of 7] k [of 8]
    k [of 9] k [of 10] k [of 11] k [of 12] k [of 13] k [of 14] k [of 15] k [of 16] k [of 17]
    k [of 18] k [of 19] k [of 20] k [of 21] k [of 22] k [of 23]
  show "read64 m p = read64 m' p" "read64 m (p + 8) = read64 m' (p + 8)"
    "read32 m p = read32 m' p" "read32 m (p + 8) = read32 m' (p + 8)"
    "read32 m (p + 12) = read32 m' (p + 12)" "read32 m (p + 16) = read32 m' (p + 16)"
    "read32 m (p + 20) = read32 m' (p + 20)" "read16 m (p + 4) = read16 m' (p + 4)"
    "m (p + 6) = m' (p + 6)" "m (p + 7) = m' (p + 7)"
    using ks by (simp_all add: read64_def read32_def read16_def add.assoc)
qed

lemma boot_info_at_cong: "agree24 m m' p \<Longrightarrow> boot_info_at m p = boot_info_at m' p"
  by (simp add: boot_info_at_def agree24_reads)

lemma e820_at_cong: "agree24 m m' (mmap + 24 * of_nat i) \<Longrightarrow> e820_at m mmap i = e820_at m' mmap i"
  by (simp add: e820_at_def agree24_reads Let_def)

text \<open>\<open>low_struct p n\<close>: the \<open>n\<close> packed 24-byte structures from \<open>p\<close> on end below the bitmap.\<close>

definition low_struct :: "u32 \<Rightarrow> nat \<Rightarrow> bool" where
  "low_struct p n \<longleftrightarrow> unat p + 24 * n \<le> 131072"

lemma low_struct_agree:
  assumes "low_struct p n" "i < n" "\<And>a. unat a < 131072 \<Longrightarrow> m a = m' a"
  shows "agree24 m m' (p + 24 * of_nat i)"
  unfolding agree24_def
proof (intro allI impI)
  fix k :: u32 assume "k < 24"
  then have k: "unat k < 24" by (simp add: word_less_nat_alt)
  have b: "unat p + 24 * i + unat k < 131072"
    using assms(1,2) k by (simp add: low_struct_def)
  have "unat (of_nat (unat p + 24 * i + unat k) :: u32) = unat p + 24 * i + unat k"
    using b by (intro unat_of_nat_u32) simp
  then have "unat (p + 24 * of_nat i + k) < 131072"
    using b by (simp add: add.assoc)
  then show "m (p + 24 * of_nat i + k) = m' (p + 24 * of_nat i + k)" by (rule assms(3))
qed

lemma bitmap_size_bound: "pmm_inv s \<Longrightarrow> bitmap_size s \<le> 536870912"
  by (auto simp: pmm_inv_def)

lemma pmm_reset_spec:
  fixes h :: u64 and s :: "'a pmm_state_scheme"
  defines "n \<equiv> unat (ucast ((h + (4096 - 1)) div 4096) :: u32)"
  assumes "n < 2 ^ 31"
  shows "pmm_inv (pmm_reset h s)" "total_blocks (pmm_reset h s) = n" "used_set (pmm_reset h s) = {..<n}"
    "unat a < 131072 \<Longrightarrow> phys (pmm_reset h s) a = phys s a"
proof -
  let ?s = "pmm_reset h s"
  have fields: "total_blocks ?s = n" "bitmap_size ?s = (n + 7) div 8" "used_blocks ?s = n"
    "phys ?s = memset (phys s) PMM_BITMAP_BASE 0xFF ((n + 7) div 8)"
    using assms by (simp_all add: pmm_reset_def Let_def)
  have "frame_used ?s f" if "f < n" for f
  proof -
    have i: "f div 8 < (n + 7) div 8" "f div 8 < 4294967296" using that assms by auto
    then have "bitmap_byte ?s (f div 8) = mask 8"
      using assms by (simp add: bitmap_byte_def fields memset_at mask_eq_exp_minus_1)
    then show ?thesis by (simp add: frame_used_def bit_mask_iff)
  qed
  then show u: "used_set ?s = {..<n}" by (auto simp: used_set_def fields)
  then show "pmm_inv ?s" using assms by (simp add: pmm_inv_def fields)
  show "total_blocks ?s = n" by (rule fields)
  show "phys ?s a = phys s a" if "unat a < 131072"
    using below_not_in_bitmap [OF that, of ?s] bitmap_size_bound [OF \<open>pmm_inv ?s\<close>] assms
    by (simp add: fields memset_at in_bitmap_def)
qed

lemma pmm_free_entries_spec:
  assumes "pmm_inv s" "\<And>a. unat a < 131072 \<Longrightarrow> phys s a = m a" "low_struct mmap n" "\<forall>i \<in> set is. i < n"
  shows "\<exists>s'. kfold (pmm_free_entry mmap) is s = Inr s' \<and> pmm_inv s' \<and> pmm_step s s' \<and>
    used_set s' = used_set s - (\<Union>e \<in> {e \<in> e820_at m mmap ` set is. e820_type e = 1}.
      touched (e820_base e) (e820_length e) (total_blocks s))"
  using assms(1,2,4)
proof (induction "is" arbitrary: s)
  case (Cons i "is")
  let ?e = "e820_at m mmap i"
  let ?T = "if e820_type ?e = 1 then touched (e820_base ?e) (e820_length ?e) (total_blocks s) else {}"
  have "e820_at (phys s) mmap i = ?e"
    using low_struct_agree [OF assms(3), of i "phys s" m] Cons.prems by (intro e820_at_cong) auto
  then obtain s1 where s1: "pmm_free_entry mmap i s = Inr s1" "pmm_inv s1" "pmm_step s s1"
      "used_set s1 = used_set s - ?T"
    using pmm_mark_region_free_spec [OF Cons.prems(1), of "e820_base ?e" "e820_length ?e"] Cons.prems(1)
    by (cases "e820_type ?e = 1") (auto simp: pmm_free_entry_def Let_def)
  have "phys s1 a = m a" if "unat a < 131072" for a
    using that Cons.prems pmm_step_fields(4) [OF s1(3)] below_not_in_bitmap bitmap_size_bound by metis
  then obtain s' where s': "kfold (pmm_free_entry mmap) is s1 = Inr s'" "pmm_inv s'" "pmm_step s1 s'"
      "used_set s' = used_set s1 - (\<Union>e \<in> {e \<in> e820_at m mmap ` set is. e820_type e = 1}.
        touched (e820_base e) (e820_length e) (total_blocks s1))"
    using Cons.IH [OF s1(2)] Cons.prems(3) by auto
  then show ?case
    using s1 pmm_step_trans [OF s1(3) s'(3)] by (auto simp: pmm_step_fields split: if_splits)
qed simp

definition pmm_frames :: "mem \<Rightarrow> nat" where
  "pmm_frames m = (let bi = boot_info_at m 0x5000 in
     unat (ucast ((pmm_highest m (bi_mmap_addr bi) [0..<unat (bi_mmap_count bi)] 0 + (4096 - 1)) div 4096) :: u32))"

definition e820_map :: "mem \<Rightarrow> e820_entry list" where
  "e820_map m = (let bi = boot_info_at m 0x5000 in
     map (e820_at m (bi_mmap_addr bi)) [0..<unat (bi_mmap_count bi)])"

definition usable_frames :: "mem \<Rightarrow> nat set" where
  "usable_frames m = (\<Union>e \<in> {e \<in> set (e820_map m). e820_type e = 1}.
     touched (e820_base e) (e820_length e) (pmm_frames m))"

definition locked_frames :: "mem \<Rightarrow> nat set" where
  "locked_frames m = (let n = pmm_frames m in touched 0 0x1000 n
     \<union> touched 0x10000 (ucast (bi_kernel_size (boot_info_at m 0x5000))) n
     \<union> touched 0x20000 (of_nat ((n + 7) div 8)) n \<union> touched 0x5000 0x1000 n)"

definition boot_ok :: "mem \<Rightarrow> bool" where
  "boot_ok m \<longleftrightarrow> pmm_frames m < 2 ^ 31 \<and>
     low_struct (bi_mmap_addr (boot_info_at m 0x5000)) (unat (bi_mmap_count (boot_info_at m 0x5000)))"

lemma boot_info_low:
  assumes "\<And>a. unat a < 131072 \<Longrightarrow> m a = m' a"
  shows "boot_info_at m 0x5000 = boot_info_at m' 0x5000"
  using low_struct_agree [of "0x5000" 1 0 m m'] assms
  by (intro boot_info_at_cong) (simp add: low_struct_def)

lemma pmm_step_below:
  "pmm_inv s \<Longrightarrow> pmm_step s s' \<Longrightarrow> unat a < 131072 \<Longrightarrow> phys s' a = phys s a"
  using pmm_step_fields(4) below_not_in_bitmap bitmap_size_bound by metis

lemma pmm_init_cases:
  assumes "boot_ok (phys s)"
  shows "\<exists>s'. pmm_init 0x5000 s = Inr s' \<and> pmm_inv s' \<and> total_blocks s' = pmm_frames (phys s) \<and>
    used_set s' = ({..<pmm_frames (phys s)} - usable_frames (phys s)) \<union> locked_frames (phys s) \<and>
    (\<forall>a. unat a < 131072 \<longrightarrow> phys s' a = phys s a)"
proof -
  let ?m = "phys s" and ?bi = "boot_info_at (phys s) 0x5000"
  let ?n = "pmm_frames ?m" and ?is = "[0..<unat (bi_mmap_count ?bi)]"
  define s0 where "s0 = pmm_reset (pmm_highest ?m (bi_mmap_addr ?bi) ?is 0) s"
  have n: "unat (ucast ((pmm_highest ?m (bi_mmap_addr ?bi) ?is 0 + (4096 - 1)) div 4096) :: u32) = ?n"
    "?n < 2 ^ 31"
    using assms by (simp_all add: pmm_frames_def boot_ok_def Let_def)
  note r = pmm_reset_spec [of "pmm_highest ?m (bi_mmap_addr ?bi) ?is 0", unfolded n(1), OF n(2), where s = s]
  have s0: "pmm_inv s0" "total_blocks s0 = ?n" "used_set s0 = {..<?n}"
    using r(1-3) by (simp_all only: s0_def)
  have m0: "phys s0 a = ?m a" if "unat a < 131072" for a
    using r(4) [OF that] by (simp only: s0_def)
  obtain s1 where s1: "kfold (pmm_free_entry (bi_mmap_addr ?bi)) ?is s0 = Inr s1" "pmm_inv s1"
      "pmm_step s0 s1" "used_set s1 = {..<?n} - usable_frames ?m"
    using pmm_free_entries_spec [OF s0(1) m0, of "bi_mmap_addr ?bi" "unat (bi_mmap_count ?bi)" ?is] assms
    by (auto simp: boot_ok_def s0 usable_frames_def e820_map_def Let_def)
  obtain s2 where s2: "pmm_mark_region_used 0x0 0x1000 s1 = Inr s2" "pmm_inv s2" "pmm_step s1 s2"
      "used_set s2 = used_set s1 \<union> touched 0 0x1000 ?n"
    using pmm_mark_region_used_spec [OF s1(2)] pmm_step_fields(1) [OF s1(3)] s0 by metis
  note st2 = pmm_step_trans [OF s1(3) s2(3)]
  have bi: "boot_info_at (phys s2) 0x5000 = ?bi"
    using pmm_step_below [OF s0(1) st2] m0 by (intro boot_info_low) auto
  obtain s3 where s3: "pmm_mark_region_used 0x10000 (ucast (bi_kernel_size ?bi)) s2 = Inr s3" "pmm_inv s3"
      "pmm_step s2 s3" "used_set s3 = used_set s2 \<union> touched 0x10000 (ucast (bi_kernel_size ?bi)) ?n"
    using pmm_mark_region_used_spec [OF s2(2)] pmm_step_fields(1) [OF st2] s0 by metis
  note st3 = pmm_step_trans [OF st2 s3(3)]
  have bs: "bitmap_size s3 = (?n + 7) div 8" "total_blocks s3 = ?n"
    using s3(2) pmm_step_fields(1) [OF st3] s0 by (auto simp: pmm_inv_def)
  obtain s4 where s4: "pmm_mark_region_used 0x20000 (of_nat (bitmap_size s3)) s3 = Inr s4" "pmm_inv s4"
      "pmm_step s3 s4" "used_set s4 = used_set s3 \<union> touched 0x20000 (of_nat ((?n + 7) div 8)) ?n"
    using pmm_mark_region_used_spec [OF s3(2)] bs by metis
  note st4 = pmm_step_trans [OF st3 s4(3)]
  obtain s5 where s5: "pmm_mark_region_used 0x5000 0x1000 s4 = Inr s5" "pmm_inv s5" "pmm_step s4 s5"
      "used_set s5 = used_set s4 \<union> touched 0x5000 0x1000 ?n"
    using pmm_mark_region_used_spec [OF s4(2)] pmm_step_fields(1) [OF st4] s0 by metis
  note st5 = pmm_step_trans [OF st4 s5(3)]
  have "pmm_init 0x5000 s = Inr s5"
    using s1(1) s2(1) s3(1) s4(1) s5(1) bi by (simp add: pmm_init_def Let_def flip: s0_def)
  moreover have "used_set s5 = ({..<?n} - usable_frames ?m) \<union> locked_frames ?m"
    by (simp add: s5 s4 s3 s2 s1 locked_frames_def Let_def Un_assoc)
  ultimately show ?thesis
    using s5(2) pmm_step_fields(1) [OF st5] s0 pmm_step_below [OF s0(1) st5] m0 by auto
qed

section \<open>Initialisation, byte by byte\<close>

text \<open>
  The same result over byte addresses, stated without the computations of the code: the bytes that the
  E820 map calls usable, the end of the last usable region, the bytes that a frame covers, and the
  bytes that must never be handed out. Addresses are natural numbers here, so nothing wraps.
\<close>

definition usable_entries :: "mem \<Rightarrow> e820_entry set" where
  "usable_entries m = {e \<in> set (e820_map m). e820_type e = 1}"

definition entry_bytes :: "e820_entry \<Rightarrow> nat set" where
  "entry_bytes e = {unat (e820_base e) ..< unat (e820_base e) + unat (e820_length e)}"

definition usable_bytes :: "mem \<Rightarrow> nat set" where
  "usable_bytes m = (\<Union>e \<in> usable_entries m. entry_bytes e)"

definition memory_top :: "mem \<Rightarrow> nat" where
  "memory_top m = Max (insert 0 ((\<lambda>e. unat (e820_base e) + unat (e820_length e)) ` usable_entries m))"

definition frame_bytes :: "nat \<Rightarrow> nat set" where
  "frame_bytes f = {4096 * f ..< 4096 * f + 4096}"

definition locked_bytes :: "mem \<Rightarrow> nat \<Rightarrow> nat set" where
  "locked_bytes m n = {0 ..< 0x1000} \<union> {0x5000 ..< 0x6000} \<union>
     {0x10000 ..< 0x10000 + unat (bi_kernel_size (boot_info_at m 0x5000))} \<union> {0x20000 ..< 0x20000 + (n + 7) div 8}"

text \<open>The map lies in low memory and no usable region ends above the 2147483647 frames that the code counts without wrap-around.\<close>

definition map_ok :: "mem \<Rightarrow> bool" where
  "map_ok m \<longleftrightarrow> memory_top m \<le> 0x7FFFFFFF * 4096 \<and>
     low_struct (bi_mmap_addr (boot_info_at m 0x5000)) (unat (bi_mmap_count (boot_info_at m 0x5000)))"

lemma Max_insert_max:
  fixes a :: nat
  shows "finite A \<Longrightarrow> Max (insert (max a b) A) = Max (insert a (insert b A))"
  by (cases "A = {}") (simp_all add: max.assoc)

lemma pmm_highest_max:
  assumes "\<And>i. i \<in> set is \<Longrightarrow> e820_type (e820_at m p i) = 1 \<Longrightarrow>
    unat (e820_base (e820_at m p i)) + unat (e820_length (e820_at m p i)) < 2 ^ 64"
  shows "unat (pmm_highest m p is h) = Max (insert (unat h)
    ((\<lambda>e. unat (e820_base e) + unat (e820_length e)) ` {e \<in> e820_at m p ` set is. e820_type e = 1}))"
  using assms
proof (induction "is" arbitrary: h)
  case (Cons i "is")
  let ?f = "\<lambda>e. unat (e820_base e) + unat (e820_length e)" and ?e = "e820_at m p i"
  let ?S = "?f ` {e \<in> e820_at m p ` set is. e820_type e = 1}"
  define g where "g = (if e820_type ?e = 1 \<and> h < e820_base ?e + e820_length ?e then e820_base ?e + e820_length ?e else h)"
  have "unat (pmm_highest m p (i # is) h) = unat (pmm_highest m p is g)" by (simp add: g_def Let_def)
  also have "\<dots> = Max (insert (unat g) ?S)" using Cons by simp
  also have "\<dots> = Max (insert (unat h) (?f ` {e \<in> e820_at m p ` set (i # is). e820_type e = 1}))"
  proof (cases "e820_type ?e = 1")
    case True
    then have "unat (e820_base ?e + e820_length ?e) = ?f ?e" using Cons.prems [of i] by (simp add: unat_plus_if_size word_size)
    then have g: "unat g = max (unat h) (?f ?e)" using True by (auto simp: g_def word_less_nat_alt)
    have "?f ` {e \<in> e820_at m p ` set (i # is). e820_type e = 1} = insert (?f ?e) ?S" using True by auto
    then show ?thesis unfolding g by (simp only: Max_insert_max finite_imageI finite_Collect_conjI disjI1 finite_set List.finite_set Collect_mem_eq)
  next
    case False
    then have "{e \<in> e820_at m p ` set (i # is). e820_type e = 1} = {e \<in> e820_at m p ` set is. e820_type e = 1}" by auto
    then show ?thesis using False by (simp add: g_def)
  qed
  finally show ?case .
qed simp

lemma usable_entries_top:
  assumes "e \<in> usable_entries m"
  shows "unat (e820_base e) + unat (e820_length e) \<le> memory_top m"
  unfolding memory_top_def using assms by (intro Max_ge) (auto simp: usable_entries_def)

lemma map_ok_frames:
  assumes "map_ok m"
  shows "boot_ok m" "pmm_frames m = (memory_top m + 4095) div 4096"
proof -
  let ?bi = "boot_info_at m 0x5000"
  let ?h = "pmm_highest m (bi_mmap_addr ?bi) [0..<unat (bi_mmap_count ?bi)] 0"
  have top: "memory_top m \<le> 0x7FFFFFFF * 4096" using assms by (simp add: map_ok_def)
  have ent: "e820_at m (bi_mmap_addr ?bi) ` set [0..<unat (bi_mmap_count ?bi)] = set (e820_map m)"
    by (simp add: e820_map_def Let_def)
  have lt: "unat (e820_base e) + unat (e820_length e) < 2 ^ 64" if "e \<in> set (e820_map m)" "e820_type e = 1" for e
    using usable_entries_top [of e m] that top by (simp add: usable_entries_def)
  have "unat ?h = Max (insert (unat (0 :: u64)) ((\<lambda>e. unat (e820_base e) + unat (e820_length e)) `
      {e \<in> e820_at m (bi_mmap_addr ?bi) ` set [0..<unat (bi_mmap_count ?bi)]. e820_type e = 1}))"
  proof (rule pmm_highest_max)
    fix i assume "i \<in> set [0..<unat (bi_mmap_count ?bi)]" "e820_type (e820_at m (bi_mmap_addr ?bi) i) = 1"
    then show "unat (e820_base (e820_at m (bi_mmap_addr ?bi) i)) + unat (e820_length (e820_at m (bi_mmap_addr ?bi) i)) < 2 ^ 64"
      using ent by (intro lt) auto
  qed
  then have h: "unat ?h = memory_top m" unfolding ent by (simp add: memory_top_def usable_entries_def)
  have "unat (?h + (4096 - 1)) = memory_top m + 4095"
    using top h by (simp add: unat_plus_if_size word_size)
  then have q: "unat ((?h + (4096 - 1)) div 4096) = (memory_top m + 4095) div 4096"
    by (simp only: unat_div) simp
  have "(memory_top m + 4095) div 4096 \<le> 0x7FFFFFFF" using top by simp
  then show n: "pmm_frames m = (memory_top m + 4095) div 4096"
    using q by (simp add: pmm_frames_def Let_def unsigned_ucast_eq take_bit_eq_mod)
  then show "boot_ok m" using assms \<open>_ \<le> 0x7FFFFFFF\<close> by (simp add: boot_ok_def map_ok_def)
qed

lemma unat_ucast_u32: "unat (ucast (w :: u32) :: u64) = unat w"
proof -
  have "unat w < 2 ^ LENGTH(32)" by (rule unsigned_less)
  also have "\<dots> < 2 ^ 64" by simp
  finally show ?thesis by (simp only: unsigned_ucast_eq) (simp add: take_bit_nat_eq_self)
qed

lemma touched_bytes:
  assumes "unat base + unat len + 4095 < 2 ^ 64"
  shows "f \<in> touched base len n \<longleftrightarrow> f < n \<and> frame_bytes f \<inter> {unat base ..< unat base + unat len} \<noteq> {}"
proof -
  have "{4096 * f ..< 4096 * f + 4096} \<inter> {unat base ..< unat base + unat len} =
      {max (4096 * f) (unat base) ..< min (4096 * f + 4096) (unat base + unat len)}" by (auto simp: max_def min_def)
  then show ?thesis using touched_iff [OF assms] by (auto simp: frame_bytes_def)
qed

lemma pmm_init_bytes:
  assumes "map_ok (phys s)"
  shows "\<exists>s' n. pmm_init 0x5000 s = Inr s' \<and> pmm_inv s' \<and> total_blocks s' = n \<and>
    memory_top (phys s) \<le> n * 4096 \<and> n * 4096 < memory_top (phys s) + 4096 \<and>
    (\<forall>f < n. f \<in> used_set s' \<longleftrightarrow>
       frame_bytes f \<inter> usable_bytes (phys s) = {} \<or> frame_bytes f \<inter> locked_bytes (phys s) n \<noteq> {}) \<and>
    (\<forall>a. unat a < 131072 \<longrightarrow> phys s' a = phys s a)"
proof -
  let ?m = "phys s" and ?n = "pmm_frames (phys s)"
  have top: "memory_top ?m \<le> 0x7FFFFFFF * 4096" using assms by (simp add: map_ok_def)
  note n = map_ok_frames [OF assms]
  have n31: "?n < 2 ^ 31" using n(1) by (simp add: boot_ok_def)
  have U: "f \<in> usable_frames ?m \<longleftrightarrow> f < ?n \<and> frame_bytes f \<inter> usable_bytes ?m \<noteq> {}" for f
  proof -
    have "f \<in> touched (e820_base e) (e820_length e) ?n \<longleftrightarrow> f < ?n \<and> frame_bytes f \<inter> entry_bytes e \<noteq> {}"
      if "e \<in> usable_entries ?m" for e
      unfolding entry_bytes_def using usable_entries_top [OF that] top by (intro touched_bytes) simp
    then show ?thesis
      unfolding usable_frames_def usable_bytes_def usable_entries_def [symmetric] by auto
  qed
  have L: "f \<in> locked_frames ?m \<longleftrightarrow> f < ?n \<and> frame_bytes f \<inter> locked_bytes ?m ?n \<noteq> {}" for f
  proof -
    have kl: "unat (bi_kernel_size (boot_info_at ?m 0x5000)) < 4294967296" by simp
    note k = unat_ucast_u32
    have kw: "unat (0x10000 :: u64) + unat (ucast (bi_kernel_size (boot_info_at ?m 0x5000)) :: u64) + 4095 < 2 ^ 64"
    proof -
      have "unat (0x10000 :: u64) = 0x10000" by simp
      then have "unat (0x10000 :: u64) + unat (ucast (bi_kernel_size (boot_info_at ?m 0x5000)) :: u64) + 4095 < 18446744073709551616"
        using kl unfolding k by linarith
      then show ?thesis by simp
    qed
    have b: "unat (of_nat ((?n + 7) div 8) :: u64) = (?n + 7) div 8"
      using n31 by (simp add: unat_of_nat take_bit_nat_eq_self)
    have "f \<in> touched 0 0x1000 ?n \<longleftrightarrow> f < ?n \<and> frame_bytes f \<inter> {0 ..< 0x1000} \<noteq> {}"
      "f \<in> touched 0x5000 0x1000 ?n \<longleftrightarrow> f < ?n \<and> frame_bytes f \<inter> {0x5000 ..< 0x6000} \<noteq> {}"
      "f \<in> touched 0x20000 (of_nat ((?n + 7) div 8)) ?n \<longleftrightarrow>
         f < ?n \<and> frame_bytes f \<inter> {0x20000 ..< 0x20000 + (?n + 7) div 8} \<noteq> {}"
      "f \<in> touched 0x10000 (ucast (bi_kernel_size (boot_info_at ?m 0x5000))) ?n \<longleftrightarrow> f < ?n \<and>
         frame_bytes f \<inter> {0x10000 ..< 0x10000 + unat (bi_kernel_size (boot_info_at ?m 0x5000))} \<noteq> {}"
      using n31 touched_bytes [OF kw] by (simp_all add: touched_bytes b k)
    then show ?thesis unfolding locked_frames_def Let_def locked_bytes_def by (simp add: Int_Un_distrib) blast
  qed
  obtain s' where s': "pmm_init 0x5000 s = Inr s'" "pmm_inv s'" "total_blocks s' = ?n"
      "used_set s' = ({..<?n} - usable_frames ?m) \<union> locked_frames ?m" "\<forall>a. unat a < 131072 \<longrightarrow> phys s' a = ?m a"
    using pmm_init_cases [OF n(1)] by blast
  moreover have "memory_top ?m \<le> ?n * 4096" "?n * 4096 < memory_top ?m + 4096" unfolding n(2) by linarith+
  ultimately show ?thesis using U L by (intro exI [of _ s'] exI [of _ ?n]) auto
qed
lemma aligned_frame:
  assumes "\<forall>e \<in> usable_entries m. unat (e820_base e) mod 4096 = 0 \<and> unat (e820_length e) mod 4096 = 0"
    and "frame_bytes f \<inter> usable_bytes m \<noteq> {}"
  shows "frame_bytes f \<subseteq> usable_bytes m"
proof -
  obtain e x where e: "e \<in> usable_entries m" "x \<in> frame_bytes f" "x \<in> entry_bytes e"
    using assms(2) by (auto simp: usable_bytes_def)
  have "4096 dvd unat (e820_base e)" "4096 dvd unat (e820_length e)" using assms(1) e(1) by (auto simp: mod_0_imp_dvd)
  then obtain b l where b: "unat (e820_base e) = 4096 * b" "unat (e820_length e) = 4096 * l"
    unfolding dvd_def by blast
  from e(2,3) have "b \<le> f" "f < b + l" unfolding frame_bytes_def entry_bytes_def b by auto
  then have "frame_bytes f \<subseteq> entry_bytes e" unfolding frame_bytes_def entry_bytes_def b by auto
  then show ?thesis using e(1) by (auto simp: usable_bytes_def)
qed

section \<open>The contract of the page allocator\<close>

definition page_frame :: "u32 \<Rightarrow> nat" where
  "page_frame p = unat p div 4096"

definition page_ptr :: "u32 \<Rightarrow> bool" where
  "page_ptr p \<longleftrightarrow> p \<noteq> 0 \<and> unat p mod 4096 = 0"

text \<open>Allocate up to \<open>n\<close> pages, stopping at the first failure.\<close>

fun take_pages :: "('s \<Rightarrow> (u32 \<times> 's) kres) \<Rightarrow> nat \<Rightarrow> 's \<Rightarrow> (u32 list \<times> 's) kres" where
  "take_pages alloc 0 s = Inr ([], s)"
| "take_pages alloc (Suc n) s = kbind (alloc s) (\<lambda>(p, s).
     if p = 0 then Inr ([], s) else kbind (take_pages alloc n s) (\<lambda>(ps, s). Inr (p # ps, s)))"

text \<open>
  What clients (the paging code, the diagnostics) rely on: an allocation never panics, answers
  either 0 or a page that was free, and a page in use can be given back.
\<close>

locale page_allocator =
  fixes ready :: "'s \<Rightarrow> bool"
    and used :: "'s \<Rightarrow> nat set"
    and alloc :: "'s \<Rightarrow> (u32 \<times> 's) kres"
    and release :: "u32 \<Rightarrow> 's \<Rightarrow> 's kres"
  assumes alloc_total: "ready s \<Longrightarrow> \<exists>p s'. alloc s = Inr (p, s') \<and> ready s'"
    and alloc_none: "ready s \<Longrightarrow> alloc s = Inr (0, s') \<Longrightarrow> used s' = used s"
    and alloc_fresh: "ready s \<Longrightarrow> alloc s = Inr (p, s') \<Longrightarrow> p \<noteq> 0 \<Longrightarrow>
      page_ptr p \<and> page_frame p \<notin> used s \<and> used s' = insert (page_frame p) (used s)"
    and release_used: "ready s \<Longrightarrow> page_ptr p \<Longrightarrow> page_frame p \<in> used s \<Longrightarrow>
      \<exists>s'. release p s = Inr s' \<and> ready s' \<and> used s' = used s - {page_frame p}"
begin

lemma take_pages_spec:
  "ready s \<Longrightarrow> \<exists>ps s'. take_pages alloc n s = Inr (ps, s') \<and> ready s' \<and> length ps \<le> n \<and>
    distinct (map page_frame ps) \<and> page_frame ` set ps \<inter> used s = {} \<and>
    (\<forall>p \<in> set ps. page_ptr p) \<and>
    used s' = used s \<union> page_frame ` set ps"
proof (induction n arbitrary: s)
  case (Suc n)
  obtain p s1 where p: "alloc s = Inr (p, s1)" "ready s1" using alloc_total [OF Suc.prems] by blast
  show ?case
  proof (cases "p = 0")
    case True
    then show ?thesis using p alloc_none [OF Suc.prems, of s1] by simp
  next
    case False
    note f = alloc_fresh [OF Suc.prems p(1) False]
    obtain ps s' where "take_pages alloc n s1 = Inr (ps, s')" "ready s'" "length ps \<le> n"
      "distinct (map page_frame ps)" "page_frame ` set ps \<inter> used s1 = {}"
      "\<forall>p \<in> set ps. page_ptr p" "used s' = used s1 \<union> page_frame ` set ps"
      using Suc.IH [OF p(2)] by blast
    then show ?thesis using False p f by (auto simp: Int_Un_distrib)
  qed
qed simp

lemma release_pages_spec:
  "ready s \<Longrightarrow> distinct (map page_frame ps) \<Longrightarrow> page_frame ` set ps \<subseteq> used s \<Longrightarrow>
   \<forall>p \<in> set ps. page_ptr p \<Longrightarrow>
   \<exists>s'. kfold release ps s = Inr s' \<and> ready s' \<and> used s' = used s - page_frame ` set ps"
proof (induction ps arbitrary: s)
  case (Cons p ps)
  obtain s1 where s1: "release p s = Inr s1" "ready s1" "used s1 = used s - {page_frame p}"
    using release_used [OF Cons.prems(1), of p] Cons.prems by auto
  have "\<exists>s'. kfold release ps s1 = Inr s' \<and> ready s' \<and> used s' = used s1 - page_frame ` set ps"
    using Cons.prems s1 by (intro Cons.IH) (auto simp: subset_Diff_insert)
  then show ?case using s1 by auto
qed simp

lemma take_release_pages:
  assumes "ready s" "take_pages alloc n s = Inr (ps, s1)"
  shows "\<exists>s2. kfold release ps s1 = Inr s2 \<and> ready s2 \<and> used s2 = used s"
proof -
  from take_pages_spec [OF assms(1), of n] assms(2)
  have ps: "ready s1" "distinct (map page_frame ps)"
    "page_frame ` set ps \<inter> used s = {}" "\<forall>p \<in> set ps. page_ptr p"
    "used s1 = used s \<union> page_frame ` set ps" by auto
  then have "\<exists>s2. kfold release ps s1 = Inr s2 \<and> ready s2 \<and>
      used s2 = used s1 - page_frame ` set ps"
    by (intro release_pages_spec) auto
  moreover have "used s1 - page_frame ` set ps = used s"
    using ps(3,5) by blast
  ultimately show ?thesis by auto
qed

end

text \<open>
  The manager is ready once the frames it manages are below 4 GiB and frame 0 is locked, both of
  which \<^verbatim>\<open>pmm_init\<close> establishes on a machine with less than 4 GiB of memory.
\<close>

definition pmm_ready :: "'a pmm_state_scheme \<Rightarrow> bool" where
  "pmm_ready s \<longleftrightarrow> pmm_inv s \<and> total_blocks s \<le> 1048576 \<and> 0 \<in> used_set s"

lemma pmm_ready_alloc:
  assumes "pmm_ready s"
  shows "\<exists>p s'. pmm_alloc_page s = Inr (p, s') \<and> pmm_ready s' \<and> pmm_step s s' \<and>
    (if used_set s = {..<total_blocks s} then p = 0 \<and> used_set s' = used_set s
     else page_ptr p \<and> page_frame p < total_blocks s \<and>
       page_frame p \<notin> used_set s \<and> used_set s' = insert (page_frame p) (used_set s))"
proof -
  from assms have inv: "pmm_inv s" "total_blocks s \<le> 1048576" "0 \<in> used_set s"
    by (auto simp: pmm_ready_def)
  from inv(1) show ?thesis
  proof (cases rule: pmm_alloc_page_cases)
    case (none s')
    then show ?thesis using inv pmm_step_fields(1) [OF none(4)] by (auto simp: pmm_ready_def)
  next
    case (frame f s')
    then have f: "f < 1048576" "f \<noteq> 0" using inv(2,3) by (auto intro: gr0I)
    then have "unat (of_nat f * 4096 :: u32) = f * 4096" by (intro unat_page_addr) auto
    moreover have "(of_nat f * 4096 :: u32) \<noteq> 0" using page_addr_nonzero [OF f(1)] f(2) by simp
    ultimately show ?thesis
      using frame inv pmm_step_fields(1) [OF frame(5)] by (auto simp: pmm_ready_def page_frame_def page_ptr_def)
  qed
qed

lemma pmm_ready_alloc_low:
  assumes "pmm_ready s"
  shows "\<exists>p s'. pmm_alloc_page_low max_addr s = Inr (p, s') \<and> pmm_ready s' \<and> pmm_step s s' \<and>
    (if {..<min (unat max_addr div 4096) (total_blocks s)} \<subseteq> used_set s
     then p = 0 \<and> used_set s' = used_set s
     else page_ptr p \<and> unat p + 4096 \<le> unat max_addr \<and> page_frame p \<notin> used_set s \<and>
       used_set s' = insert (page_frame p) (used_set s))"
proof -
  from assms have inv: "pmm_inv s" "total_blocks s \<le> 1048576" "0 \<in> used_set s"
    by (auto simp: pmm_ready_def)
  from inv(1) show ?thesis
  proof (cases rule: pmm_alloc_page_low_cases [where max_addr = max_addr])
    case (none s')
    then show ?thesis using inv pmm_step_fields(1) [OF none(4)] by (auto simp: pmm_ready_def)
  next
    case (frame f s')
    then have f: "f < 1048576" "f \<noteq> 0" "f < unat max_addr div 4096" using inv(2,3) by (auto intro: gr0I)
    then have a: "unat (of_nat f * 4096 :: u32) = f * 4096" by (intro unat_page_addr) auto
    moreover have "(of_nat f * 4096 :: u32) \<noteq> 0" using page_addr_nonzero [OF f(1)] f(2) by simp
    moreover have "f * 4096 + 4096 \<le> unat max_addr"
      using f(3) less_eq_div_iff_mult_less_eq [of 4096 "Suc f" "unat max_addr"] by simp
    moreover have "\<not> {..<min (unat max_addr div 4096) (total_blocks s)} \<subseteq> used_set s"
      using frame(2,3) by auto
    ultimately show ?thesis
      using frame inv pmm_step_fields(1) [OF frame(5)]
      by (auto simp: pmm_ready_def page_frame_def page_ptr_def)
  qed
qed

interpretation pmm_alloc: page_allocator pmm_ready used_set pmm_alloc_page pmm_free_page
proof
  fix s s' :: "'a pmm_state_scheme" and p :: u32
  assume r: "pmm_ready s"
  show "\<exists>p s'. pmm_alloc_page s = Inr (p, s') \<and> pmm_ready s'"
    using pmm_ready_alloc [OF r] by blast
  show "used_set s' = used_set s" if "pmm_alloc_page s = Inr (0, s')"
    using pmm_ready_alloc [OF r] that by (simp add: page_ptr_def split: if_splits)
  show "page_ptr p \<and> page_frame p \<notin> used_set s \<and> used_set s' = insert (page_frame p) (used_set s)"
    if "pmm_alloc_page s = Inr (p, s')" "p \<noteq> 0"
    using pmm_ready_alloc [OF r] that by (auto split: if_splits)
  show "\<exists>s'. pmm_free_page p s = Inr s' \<and> pmm_ready s' \<and> used_set s' = used_set s - {page_frame p}"
    if "page_ptr p" "page_frame p \<in> used_set s"
  proof -
    have p: "p \<noteq> 0" "unat p mod 4096 = 0" using that(1) by (simp_all add: page_ptr_def)
    then have "page_frame p \<noteq> 0"
      by (metis div_mult_mod_eq mult_0 add_0 unat_eq_0 page_frame_def)
    then show ?thesis
      using pmm_free_page_used [OF _ p(2) that(2) [unfolded page_frame_def] p(1)] r
      by (auto simp: pmm_ready_def pmm_step_fields(1) page_frame_def)
  qed
qed

section \<open>Properties\<close>

text \<open>A manager of eight frames of which frame 0 is in use, for the concrete instances below.\<close>

definition sample_pmm :: pmm_state where
  "sample_pmm = \<lparr>con_log = [], phys = (\<lambda>_. 0)(0x20000 := 1), total_blocks = 8, used_blocks = 1,
     bitmap_size = 1, last_free_index = 5, last_free_index_low = 0\<rparr>"

lemma sample_pmm_used: "used_set sample_pmm = {0}"
proof -
  have "frame_used sample_pmm f \<longleftrightarrow> f = 0" if "f < 8" for f
    using that by (simp add: frame_used_def bitmap_byte_def sample_pmm_def bit_1_iff)
  then show ?thesis by (auto simp: used_set_def sample_pmm_def)
qed

lemma sample_pmm_ready: "pmm_ready sample_pmm"
  by (simp add: pmm_ready_def pmm_inv_def sample_pmm_used) (simp add: sample_pmm_def)

text \<open>
  C8. After \<^verbatim>\<open>pmm_init\<close> the manager covers memory up to the end of the last usable region of the E820
  map, to the page. A frame is in use exactly when no byte of it is usable memory, or when some byte of
  it belongs to page 0, the boot information, the kernel image or the bitmap. So a frame that is only
  partly usable memory counts as free, which is what the code does, although
  \<^verbatim>\<open>docs/archive/2026-06-03-review/BOOT_MEMORY_LAYOUT.md\<close> asks for usable regions to be shrunk to whole
  pages; if the usable regions are made of whole pages, every byte of a free frame is usable memory
  that no boot structure occupies. The counter agrees with the bitmap, and memory below the bitmap (the
  boot structures) is not modified.
\<close>

theorem pmm_init_frames:
  assumes "map_ok (phys s)"
  shows "\<exists>s' n. pmm_init 0x5000 s = Inr s' \<and> pmm_inv s' \<and> total_blocks s' = n \<and>
    memory_top (phys s) \<le> n * 4096 \<and> n * 4096 < memory_top (phys s) + 4096 \<and>
    (\<forall>f < n. f \<in> used_set s' \<longleftrightarrow>
       frame_bytes f \<inter> usable_bytes (phys s) = {} \<or> frame_bytes f \<inter> locked_bytes (phys s) n \<noteq> {}) \<and>
    ((\<forall>e \<in> usable_entries (phys s). unat (e820_base e) mod 4096 = 0 \<and> unat (e820_length e) mod 4096 = 0) \<longrightarrow>
       (\<forall>f < n. f \<notin> used_set s' \<longrightarrow> frame_bytes f \<subseteq> usable_bytes (phys s) - locked_bytes (phys s) n)) \<and>
    (\<forall>a. unat a < 131072 \<longrightarrow> phys s' a = phys s a)"
proof -
  obtain s' n where "pmm_init 0x5000 s = Inr s'" "pmm_inv s'" "total_blocks s' = n"
      "memory_top (phys s) \<le> n * 4096" "n * 4096 < memory_top (phys s) + 4096"
      "\<forall>f < n. f \<in> used_set s' \<longleftrightarrow>
         frame_bytes f \<inter> usable_bytes (phys s) = {} \<or> frame_bytes f \<inter> locked_bytes (phys s) n \<noteq> {}"
      "\<forall>a. unat a < 131072 \<longrightarrow> phys s' a = phys s a"
    using pmm_init_bytes [OF assms] by blast
  moreover have "frame_bytes f \<subseteq> usable_bytes (phys s) - locked_bytes (phys s) n"
    if "\<forall>e \<in> usable_entries (phys s). unat (e820_base e) mod 4096 = 0 \<and> unat (e820_length e) mod 4096 = 0"
      "f < n" "f \<notin> used_set s'" for f
    using aligned_frame [OF that(1), of f] that(2,3) calculation(6) by blast
  ultimately show ?thesis by (intro exI [of _ s'] exI [of _ n]) auto
qed

text \<open>
  One usable E820 region of a mebibyte from the middle of frame 1 on, and an 8 KiB kernel: frames 1 and
  257, which are half usable, are free.
\<close>

definition sample_boot :: pmm_state where
  "sample_boot = \<lparr>con_log = [],
     phys = (\<lambda>_. 0)(0x500D := 0x20, 0x5010 := 1, 0x5014 := 0x20, 0x5015 := 0x50, 0x5021 := 0x18, 0x502A := 0x10,
       0x5030 := 1),
     total_blocks = 0, used_blocks = 0, bitmap_size = 0, last_free_index = 0, last_free_index_low = 0\<rparr>"

lemma sample_boot_info:
  "bi_mmap_addr (boot_info_at (phys sample_boot) 0x5000) = 0x5020"
  "bi_mmap_count (boot_info_at (phys sample_boot) 0x5000) = 1"
  "bi_kernel_size (boot_info_at (phys sample_boot) 0x5000) = 0x2000"
  by (simp_all add: boot_info_at_def read32_def sample_boot_def)

lemma sample_boot_e820:
  "e820_base (e820_at (phys sample_boot) 0x5020 0) = 0x1800"
  "e820_length (e820_at (phys sample_boot) 0x5020 0) = 0x100000"
  "e820_type (e820_at (phys sample_boot) 0x5020 0) = 1"
  by (simp_all add: e820_at_def read64_def read32_def sample_boot_def)

lemma sample_boot_usable:
  "usable_entries (phys sample_boot) = {e820_at (phys sample_boot) 0x5020 0}"
  "usable_bytes (phys sample_boot) = {0x1800 ..< 0x101800}" "memory_top (phys sample_boot) = 0x101800"
proof -
  show u: "usable_entries (phys sample_boot) = {e820_at (phys sample_boot) 0x5020 0}"
    by (auto simp: usable_entries_def e820_map_def Let_def sample_boot_info sample_boot_e820)
  show "usable_bytes (phys sample_boot) = {0x1800 ..< 0x101800}" "memory_top (phys sample_boot) = 0x101800"
    by (simp_all add: usable_bytes_def memory_top_def u entry_bytes_def sample_boot_e820)
qed

theorem pmm_init_frames_witness:
  "\<exists>s'. pmm_init 0x5000 sample_boot = Inr s' \<and> pmm_inv s' \<and> total_blocks s' = 258 \<and>
    used_set s' = {0, 5, 0x10, 0x11, 0x20}"
proof -
  have ok: "map_ok (phys sample_boot)"
    by (simp add: map_ok_def sample_boot_usable sample_boot_info low_struct_def)
  obtain s' n where s': "pmm_init 0x5000 sample_boot = Inr s'" "pmm_inv s'" "total_blocks s' = n"
      "0x101800 \<le> n * 4096" "n * 4096 < 0x101800 + 4096"
      "\<forall>f < n. f \<in> used_set s' \<longleftrightarrow>
         frame_bytes f \<inter> {0x1800 ..< 0x101800} = {} \<or> frame_bytes f \<inter> locked_bytes (phys sample_boot) n \<noteq> {}"
    using pmm_init_frames [OF ok, unfolded sample_boot_usable] by blast
  have "257 < n" "n < 259" using s'(4,5) by linarith+
  then have n: "n = 258" by simp
  have meets: "frame_bytes f \<inter> {a ..< b} = {} \<longleftrightarrow> b \<le> 4096 * f \<or> 4096 * f + 4096 \<le> a \<or> b \<le> a" for f a b
  proof -
    have "frame_bytes f \<inter> {a ..< b} = {max (4096 * f) a ..< min (4096 * f + 4096) b}"
      by (auto simp: frame_bytes_def max_def min_def)
    then show ?thesis by auto
  qed
  have "f \<in> used_set s' \<longleftrightarrow> f \<in> {0, 5, 0x10, 0x11, 0x20}" if "f < 258" for f
  proof -
    have k: "unat (0x2000 :: u32) = 0x2000" by simp
    have "frame_bytes f \<inter> locked_bytes (phys sample_boot) n = {} \<longleftrightarrow> \<not> (f = 0 \<or> f = 5 \<or> f = 0x10 \<or> f = 0x11 \<or> f = 0x20)"
      unfolding n locked_bytes_def sample_boot_info k Int_Un_distrib Un_empty meets by simp arith
    moreover have "frame_bytes f \<inter> {0x1800 ..< 0x101800} = {} \<longleftrightarrow> f = 0"
      unfolding meets using that by simp arith
    ultimately show ?thesis using s'(6) that unfolding n by auto
  qed
  moreover have "f < 258" if "f \<in> used_set s'" for f using that s'(3) n by (simp add: used_set_def)
  ultimately have "used_set s' = {0, 5, 0x10, 0x11, 0x20}" by auto
  then show ?thesis using s'(1,2,3) n by blast
qed

text \<open>
  C9. On a ready manager \<^verbatim>\<open>pmm_alloc_page\<close> never panics. It answers NULL exactly when every frame is
  in use, leaving the frames as they are; otherwise it answers the page-aligned, non-NULL address of
  a frame that was free and marks exactly that frame. Only the bitmap, the counter and the cursors
  change.
\<close>

theorem pmm_alloc_page_correct:
  assumes "pmm_ready s"
  shows "\<exists>p s'. pmm_alloc_page s = Inr (p, s') \<and> pmm_ready s' \<and> pmm_step s s' \<and>
    (if used_set s = {..<total_blocks s} then p = 0 \<and> used_set s' = used_set s
     else page_ptr p \<and> page_frame p < total_blocks s \<and> page_frame p \<notin> used_set s \<and>
       used_set s' = insert (page_frame p) (used_set s))"
  using pmm_ready_alloc [OF assms] by simp

theorem pmm_alloc_page_correct_witness:
  "\<exists>p s'. pmm_alloc_page sample_pmm = Inr (p, s') \<and> page_ptr p \<and> page_frame p < 8 \<and>
    page_frame p \<noteq> 0 \<and> used_set s' = insert (page_frame p) {0}"
proof -
  have n: "total_blocks sample_pmm = 8" by (simp add: sample_pmm_def)
  have "(1::nat) \<in> {..<8}" "(1::nat) \<notin> {0}" by auto
  then have "used_set sample_pmm \<noteq> {..<total_blocks sample_pmm}"
    unfolding sample_pmm_used n by metis
  then show ?thesis
    using pmm_alloc_page_correct [OF sample_pmm_ready] by (simp only: if_False sample_pmm_used n) force
qed

text \<open>
  C10. \<^verbatim>\<open>pmm_find_free_in_range\<close>, which scans the bitmap a word at a time with masks at both ends,
  agrees with the plain reading: the least free frame of the range, or -1 if there is none.
\<close>

theorem pmm_find_free_in_range_least:
  assumes "pmm_inv s" "en \<le> total_blocks s"
  shows "pmm_find_free_in_range s st en =
    (if \<exists>f. st \<le> f \<and> f < en \<and> \<not> frame_used s f
     then int (LEAST f. st \<le> f \<and> f < en \<and> \<not> frame_used s f) else - 1)"
proof -
  have "first_free_in s st en (pmm_find_free_in_range s st en)"
    using assms by (rule pmm_find_free_in_range_spec)
  then consider (none) "pmm_find_free_in_range s st en = - 1" "\<forall>f. st \<le> f \<and> f < en \<longrightarrow> frame_used s f"
    | (some) f where "pmm_find_free_in_range s st en = int f" "st \<le> f" "f < en" "\<not> frame_used s f"
        "\<forall>g. st \<le> g \<and> g < f \<longrightarrow> frame_used s g"
    unfolding first_free_in_def by blast
  then show ?thesis
  proof cases
    case (some f)
    then have "(LEAST f. st \<le> f \<and> f < en \<and> \<not> frame_used s f) = f"
      by (intro Least_equality) (auto simp: not_less [symmetric])
    with some show ?thesis by auto
  qed auto
qed

theorem pmm_find_free_in_range_least_witness: "pmm_find_free_in_range sample_pmm 0 8 = 1"
proof -
  have inv: "pmm_inv sample_pmm" using sample_pmm_ready by (simp add: pmm_ready_def)
  have used: "frame_used sample_pmm f \<longleftrightarrow> f = 0" if "f < 8" for f
    using sample_pmm_used that by (auto simp: used_set_def sample_pmm_def set_eq_iff)
  have "(LEAST f. 0 \<le> f \<and> f < 8 \<and> \<not> frame_used sample_pmm f) = 1"
    using used by (intro Least_equality) (auto simp: Suc_le_eq intro: gr0I)
  moreover have "8 \<le> total_blocks sample_pmm" by (simp add: sample_pmm_def)
  moreover have "\<exists>f. 0 \<le> f \<and> f < 8 \<and> \<not> frame_used sample_pmm f"
    using used [of 1] by (intro exI [of _ 1]) simp
  ultimately show ?thesis
    using pmm_find_free_in_range_least [OF inv, of 8 0] by simp
qed

text \<open>
  \<^verbatim>\<open>pmm_free_page\<close> on every argument: NULL is ignored; an unaligned address, an address past
  the managed frames and a frame that is not in use stop the machine with the panic of that
  case; any other page is marked free, and no other frame changes.
\<close>

theorem pmm_free_page_outcome:
  assumes "pmm_inv s"
  shows "pmm_free_page a s =
      (if a = 0 then Inr s
       else if unat a mod 4096 \<noteq> 0 then Inl (Panic_u32 ''pmm_free_page: unaligned address'' a)
       else if total_blocks s \<le> page_frame a
       then Inl (Panic_u32 ''pmm_free_page: address out of range'' a)
       else if page_frame a \<notin> used_set s
       then Inl (Panic_u32 ''pmm_free_page: double free or corrupt frame'' (of_nat (page_frame a)))
       else pmm_free_page a s)
    \<and> (page_ptr a \<and> page_frame a \<in> used_set s \<longrightarrow>
        (\<exists>s'. pmm_free_page a s = Inr s' \<and> pmm_inv s' \<and> pmm_step s s' \<and>
          used_set s' = used_set s - {page_frame a}))"
proof
  show "pmm_free_page a s =
      (if a = 0 then Inr s
       else if unat a mod 4096 \<noteq> 0 then Inl (Panic_u32 ''pmm_free_page: unaligned address'' a)
       else if total_blocks s \<le> page_frame a
       then Inl (Panic_u32 ''pmm_free_page: address out of range'' a)
       else if page_frame a \<notin> used_set s
       then Inl (Panic_u32 ''pmm_free_page: double free or corrupt frame'' (of_nat (page_frame a)))
       else pmm_free_page a s)"
    by (simp add: pmm_free_page_def pmm_panic_u32_def pmm_test_iff used_set_def page_frame_def Let_def)
  show "page_ptr a \<and> page_frame a \<in> used_set s \<longrightarrow>
        (\<exists>s'. pmm_free_page a s = Inr s' \<and> pmm_inv s' \<and> pmm_step s s' \<and>
          used_set s' = used_set s - {page_frame a})"
    using pmm_free_page_used [OF assms, of a] by (auto simp: page_ptr_def page_frame_def)
qed

theorem pmm_free_page_outcome_witness:
  "pmm_free_page 0x1800 sample_pmm = Inl (Panic_u32 ''pmm_free_page: unaligned address'' 0x1800)
   \<and> pmm_free_page 0x8000 sample_pmm = Inl (Panic_u32 ''pmm_free_page: address out of range'' 0x8000)
   \<and> pmm_free_page 0x3000 sample_pmm
       = Inl (Panic_u32 ''pmm_free_page: double free or corrupt frame'' 3)"
proof -
  have inv: "pmm_inv sample_pmm" using sample_pmm_ready by (simp add: pmm_ready_def)
  have n: "total_blocks sample_pmm = 8" by (simp add: sample_pmm_def)
  show ?thesis
    using pmm_free_page_outcome [OF inv, of "0x1800"] pmm_free_page_outcome [OF inv, of "0x8000"]
      pmm_free_page_outcome [OF inv, of "0x3000"]
    by (simp add: sample_pmm_used n page_frame_def)
qed

text \<open>
  \<^verbatim>\<open>pmm_alloc_page_low\<close> never panics, and its result obeys the limit: NULL only when every
  frame below the limit is in use, otherwise a page that was free and lies wholly below
  \<^verbatim>\<open>max_addr\<close>.
\<close>

theorem pmm_alloc_page_low_correct:
  assumes "pmm_ready s"
  shows "\<exists>p s'. pmm_alloc_page_low max_addr s = Inr (p, s') \<and> pmm_ready s' \<and> pmm_step s s' \<and>
    (if {..<min (unat max_addr div 4096) (total_blocks s)} \<subseteq> used_set s
     then p = 0 \<and> used_set s' = used_set s
     else page_ptr p \<and> unat p + 4096 \<le> unat max_addr \<and> page_frame p \<notin> used_set s \<and>
       used_set s' = insert (page_frame p) (used_set s))"
  by (rule pmm_ready_alloc_low [OF assms])

theorem pmm_alloc_page_low_correct_witness:
  "\<exists>p s'. pmm_alloc_page_low 0x4000 sample_pmm = Inr (p, s') \<and> page_ptr p \<and> unat p + 4096 \<le> 0x4000"
proof -
  have "(1::nat) \<in> {..<min 4 8}" "(1::nat) \<notin> {0}" by auto
  then have "\<not> {..<min (unat (0x4000 :: u32) div 4096) (total_blocks sample_pmm)} \<subseteq> used_set sample_pmm"
    unfolding sample_pmm_used by (simp add: sample_pmm_def subset_iff) (intro exI [of _ 1], simp)
  then show ?thesis
    using pmm_alloc_page_low_correct [OF sample_pmm_ready, of "0x4000"] by (simp only: if_False) force
qed

text \<open>
  Any batch of successful allocations can be given back: the pages are distinct, none of the
  releases panics, and afterwards exactly the frames in use before are in use again.
\<close>

theorem pmm_batch_roundtrip:
  assumes "pmm_ready s" "take_pages pmm_alloc_page n s = Inr (ps, s1)"
  shows "distinct ps \<and> (\<exists>s2. kfold pmm_free_page ps s1 = Inr s2 \<and> pmm_ready s2 \<and> used_set s2 = used_set s)"
proof
  show "distinct ps"
    using pmm_alloc.take_pages_spec [OF assms(1), of n] assms(2) by (auto simp: distinct_map)
  show "\<exists>s2. kfold pmm_free_page ps s1 = Inr s2 \<and> pmm_ready s2 \<and> used_set s2 = used_set s"
    using assms by (rule pmm_alloc.take_release_pages)
qed

theorem pmm_batch_roundtrip_witness:
  "\<exists>ps s1 s2. take_pages pmm_alloc_page 3 sample_pmm = Inr (ps, s1) \<and> distinct ps \<and>
    kfold pmm_free_page ps s1 = Inr s2 \<and> used_set s2 = {0}"
proof -
  obtain ps s1 where t: "take_pages pmm_alloc_page 3 sample_pmm = Inr (ps, s1)"
    using pmm_alloc.take_pages_spec [OF sample_pmm_ready] by blast
  then show ?thesis
    using pmm_batch_roundtrip [OF sample_pmm_ready t] sample_pmm_used by auto
qed

text \<open>
  C32. With more than 4 GiB of memory the page address wraps: if frame 1048576 is the only free
  frame, \<^verbatim>\<open>pmm_alloc_page\<close> marks it used and yet answers NULL, so the page is lost.
\<close>

theorem pmm_alloc_page_wraps:
  assumes "pmm_inv s" "1048576 < total_blocks s" "used_set s = {..<total_blocks s} - {1048576}"
  shows "\<exists>s'. pmm_alloc_page s = Inr (0, s') \<and> used_set s' = {..<total_blocks s}"
  using assms(1)
proof (cases rule: pmm_alloc_page_cases)
  case (none s')
  then have "1048576 \<in> used_set s" using assms(2) by simp
  then show ?thesis using assms(3) by simp
next
  case (frame f s')
  then have "f = 1048576" using assms(3) by auto
  then show ?thesis using frame assms(2,3) by auto
qed

definition sample_big_pmm :: pmm_state where
  "sample_big_pmm = \<lparr>con_log = [], phys = (\<lambda>_. 0xFF)(0x40000 := 0xFE), total_blocks = 1048577,
     used_blocks = 1048576, bitmap_size = 131073, last_free_index = 0, last_free_index_low = 0\<rparr>"

lemma sample_big_used: "used_set sample_big_pmm = {..<1048577} - {1048576}"
proof -
  have full: "(0xFF :: u8) = mask 8" by (simp add: mask_eq_exp_minus_1)
  have "frame_used sample_big_pmm f \<longleftrightarrow> f \<noteq> 1048576" if "f < 1048577" for f
  proof (cases "f = 1048576")
    case True
    then show ?thesis by (simp add: frame_used_def bitmap_byte_def sample_big_pmm_def)
  next
    case False
    with that have "f div 8 < 131072" by (intro div_less_iff_less_mult [THEN iffD2]) auto
    then have "unat (PMM_BITMAP_BASE + of_nat (f div 8)) \<noteq> 0x40000"
      by (simp add: unat_plus_if_size word_size del: of_nat_div)
    then have "PMM_BITMAP_BASE + of_nat (f div 8) \<noteq> 0x40000" by auto
    then have "bitmap_byte sample_big_pmm (f div 8) = mask 8"
      by (simp add: bitmap_byte_def sample_big_pmm_def full)
    then show ?thesis using False by (simp add: frame_used_def bit_mask_iff)
  qed
  then show ?thesis by (auto simp: used_set_def sample_big_pmm_def)
qed

theorem pmm_alloc_page_wraps_witness:
  "\<exists>s'. pmm_alloc_page sample_big_pmm = Inr (0, s') \<and> used_set s' = {..<1048577}"
proof -
  have n: "total_blocks sample_big_pmm = 1048577" by (simp add: sample_big_pmm_def)
  have "card ({..<1048577} - {1048576 :: nat}) = 1048576" by (subst card_Diff_singleton) auto
  then have "pmm_inv sample_big_pmm"
    unfolding pmm_inv_def sample_big_used by (simp add: sample_big_pmm_def)
  from pmm_alloc_page_wraps [OF this] show ?thesis by (simp add: n sample_big_used)
qed

end
