(* ===== verification/VMM.thy ===== *)
theory VMM
  imports PMM_Spec
begin

text \<open>
  The paging code (\<^verbatim>\<open>src/kernel/core/vmm.c\<close>, \<^verbatim>\<open>vmm.h\<close>). Page directory and page tables are bytes of
  the same physical memory as the frame bitmap, so that the proofs have to show that editing one
  does not damage the other. \<open>mmu_walk\<close> is the two-level walk of the processor (4 KiB pages), the
  specification against which the tables are read. The translation cache is kept in the state:
  loading \<^verbatim>\<open>CR3\<close> empties it, \<^verbatim>\<open>invlpg\<close> drops one page.
\<close>

section \<open>Model\<close>

record vmm_state = pmm_state +
  page_directory :: u32
  cr3 :: u32
  cr0 :: u32
  tlb :: "u32 \<Rightarrow> u32 option"

abbreviation PAGE_SIZE :: nat where
  "PAGE_SIZE \<equiv> 4096"

abbreviation VMM_LOWMEM_LIMIT :: u32 where
  "VMM_LOWMEM_LIMIT \<equiv> 4 * 1024 * 1024"

abbreviation PTE_PRESENT :: u32 where
  "PTE_PRESENT \<equiv> 0x01"

abbreviation PTE_READ_WRITE :: u32 where
  "PTE_READ_WRITE \<equiv> 0x02"

abbreviation PTE_FRAME :: u32 where
  "PTE_FRAME \<equiv> 0xFFFFF000"

definition entry :: "mem \<Rightarrow> u32 \<Rightarrow> u32 \<Rightarrow> u32" where
  "entry m table i = read32 m (table + 4 * i)"

definition set_entry :: "u32 \<Rightarrow> u32 \<Rightarrow> u32 \<Rightarrow> 'a vmm_state_scheme \<Rightarrow> 'a vmm_state_scheme" where
  "set_entry table i w s = s\<lparr>phys := write32 (phys s) (table + 4 * i) w\<rparr>"

definition vmm_get_page_table ::
  "u32 \<Rightarrow> bool \<Rightarrow> 'a vmm_state_scheme \<Rightarrow> (u32 \<times> 'a vmm_state_scheme) kres" where
  "vmm_get_page_table vaddr create s =
     (let pd_index = drop_bit 22 vaddr; pde = entry (phys s) (page_directory s) pd_index in
      if pde AND PTE_PRESENT \<noteq> 0 then Inr (pde AND PTE_FRAME, s)
      else if create then
        kbind (pmm_alloc_page_low VMM_LOWMEM_LIMIT s) (\<lambda>(new_table, s).
          if new_table = 0 then Inl (Panic ''VMM: cannot alloc page table (lowmem)'')
          else let s = s\<lparr>phys := memset (phys s) new_table 0 PAGE_SIZE\<rparr>;
                   s = set_entry (page_directory s) pd_index (new_table OR PTE_PRESENT OR PTE_READ_WRITE) s
               in Inr (new_table, s))
      else Inr (0, s))"

definition invlpg :: "u32 \<Rightarrow> 'a vmm_state_scheme \<Rightarrow> 'a vmm_state_scheme" where
  "invlpg vaddr s = s\<lparr>tlb := (tlb s)(drop_bit 12 vaddr := None)\<rparr>"

definition vmm_map :: "u32 \<Rightarrow> u32 \<Rightarrow> 'a vmm_state_scheme \<Rightarrow> 'a vmm_state_scheme kres" where
  "vmm_map vaddr paddr s =
     (if vaddr AND 0xFFF \<noteq> 0 then Inl (Panic ''VMM: vmm_map vaddr not page-aligned'')
      else if paddr AND 0xFFF \<noteq> 0 then Inl (Panic ''VMM: vmm_map paddr not page-aligned'')
      else kbind (vmm_get_page_table vaddr True s) (\<lambda>(table, s).
        if table = 0 then Inl (Panic ''VMM: vmm_get_page_table returned NULL'')
        else let pt_index = drop_bit 12 vaddr AND 0x3FF
             in Inr (invlpg vaddr (set_entry table pt_index (paddr OR PTE_PRESENT OR PTE_READ_WRITE) s))))"

definition vmm_alloc_page :: "u32 \<Rightarrow> 'a vmm_state_scheme \<Rightarrow> (int \<times> 'a vmm_state_scheme) kres" where
  "vmm_alloc_page vaddr s =
     kbind (pmm_alloc_page s) (\<lambda>(p, s).
       if p = 0 then Inr (0, s) else kbind (vmm_map vaddr p s) (\<lambda>s. Inr (1, s)))"

definition vmm_identity_fill :: "u32 \<Rightarrow> mem \<Rightarrow> mem" where
  "vmm_identity_fill table m =
     fold (\<lambda>i m. write32 m (table + 4 * of_nat i) ((of_nat i * 4096) OR PTE_PRESENT OR PTE_READ_WRITE))
       [0..<1024] m"

definition vmm_init :: "'a vmm_state_scheme \<Rightarrow> 'a vmm_state_scheme kres" where
  "vmm_init s =
     kbind (pmm_alloc_page_low VMM_LOWMEM_LIMIT s) (\<lambda>(pd, s).
       let s = s\<lparr>page_directory := pd\<rparr> in
       if pd = 0 then Inl (Panic ''VMM: cannot alloc page directory (lowmem)'')
       else let s = s\<lparr>phys := memset (phys s) pd 0 PAGE_SIZE\<rparr> in
         kbind (pmm_alloc_page_low VMM_LOWMEM_LIMIT s) (\<lambda>(first_page_table, s).
           if first_page_table = 0 then Inl (Panic ''VMM: cannot alloc first page table (lowmem)'')
           else let s = s\<lparr>phys := vmm_identity_fill first_page_table (phys s)\<rparr>;
                    s = set_entry (page_directory s) 0 (first_page_table OR PTE_PRESENT OR PTE_READ_WRITE) s;
                    s = s\<lparr>cr3 := page_directory s, tlb := (\<lambda>_. None)\<rparr>;
                    s = s\<lparr>cr0 := cr0 s OR 0x80000000\<rparr>
                in Inr (term_call (TermPrint ''VMM Initialized. Paging ENABLED.
'' 0x0F) s)))"

section \<open>The processor's walk\<close>

definition mmu_walk :: "mem \<Rightarrow> u32 \<Rightarrow> u32 \<Rightarrow> u32 option" where
  "mmu_walk m pd va =
     (let pde = entry m pd (drop_bit 22 va) in
      if pde AND PTE_PRESENT = 0 then None
      else let pte = entry m (pde AND PTE_FRAME) (drop_bit 12 va AND 0x3FF) in
        if pte AND PTE_PRESENT = 0 then None else Some ((pte AND PTE_FRAME) OR (va AND 0xFFF)))"

definition walk :: "'a vmm_state_scheme \<Rightarrow> u32 \<Rightarrow> u32 option" where
  "walk s = mmu_walk (phys s) (page_directory s)"

text \<open>Every cached translation is the one the tables give.\<close>

definition tlb_coherent :: "'a vmm_state_scheme \<Rightarrow> bool" where
  "tlb_coherent s \<longleftrightarrow> (\<forall>va p. tlb s (drop_bit 12 va) = Some p \<longrightarrow> walk s va = Some (p OR (va AND 0xFFF)))"

section \<open>Entries of a page\<close>

lemma page_multiple:
  fixes t :: u32
  assumes "unat t mod 4096 = 0"
  obtains q where "unat t = 4096 * q" "q < 1048576"
proof -
  obtain q where "unat t = 4096 * q" using assms by (auto simp: mod_eq_0_iff_dvd)
  moreover have "q < 1048576" using unat_u32_less [of t] calculation by simp
  ultimately show ?thesis by (rule that)
qed

lemma entry_byte:
  fixes t i k :: u32
  assumes "unat t mod 4096 = 0" "unat i < 1024" "unat k < 4"
  shows "unat (t + 4 * i + k) = unat t + 4 * unat i + unat k"
proof -
  from assms(1) have t: "unat t + 4096 \<le> 4294967296"
    by (rule page_multiple) simp
  have "unat (4 * i) = 4 * unat i"
    using assms(2) by (simp add: unat_word_ariths)
  then have "unat (t + 4 * i) = unat t + 4 * unat i"
    using t assms(2) by (simp add: unat_plus_if_size word_size)
  then show ?thesis
    using assms t by (simp add: unat_plus_if_size word_size)
qed

lemma page_frame_iff:
  assumes "unat t mod 4096 = 0"
  shows "page_frame a = page_frame t \<longleftrightarrow> unat t \<le> unat a \<and> unat a < unat t + 4096"
proof -
  from assms obtain q where q: "unat t = 4096 * q" by (rule page_multiple)
  have "unat a div 4096 = q \<longleftrightarrow> 4096 * q \<le> unat a \<and> unat a < 4096 * q + 4096"
    by (auto simp: div_nat_eqI dest: order_trans)
  then show ?thesis using q by (simp add: page_frame_def)
qed

lemma entry_page:
  fixes t i k :: u32
  assumes "unat t mod 4096 = 0" "unat i < 1024" "unat k < 4"
  shows "page_frame (t + 4 * i + k) = page_frame t"
  using entry_byte [OF assms] assms by (simp add: page_frame_iff)

lemma entry_aligned4:
  fixes t i :: u32
  assumes "unat t mod 4096 = 0" "unat i < 1024"
  shows "aligned4 (t + 4 * i)"
  using entry_byte [OF assms, of 0] page_multiple [OF assms(1)] by (fastforce simp: aligned4_def)

lemma entry_addr_inj:
  fixes t i j :: u32
  assumes "unat t mod 4096 = 0" "unat i < 1024" "unat j < 1024"
  shows "t + 4 * i = t + 4 * j \<longleftrightarrow> i = j"
  using entry_byte [OF assms(1,2), of 0] entry_byte [OF assms(1,3), of 0]
  by (auto simp: word_unat_eq_iff)

lemma entry_cong:
  assumes "unat t mod 4096 = 0" "unat i < 1024" "\<And>a. page_frame a = page_frame t \<Longrightarrow> m a = m' a"
  shows "entry m t i = entry m' t i"
  unfolding entry_def
proof (rule read32_cong)
  fix k :: u32 assume "k < 4"
  then show "m (t + 4 * i + k) = m' (t + 4 * i + k)"
    using assms entry_page [of t i k] by (simp add: word_less_nat_alt)
qed

lemma write_entry_elsewhere:
  assumes "unat t mod 4096 = 0" "unat i < 1024" "page_frame a \<noteq> page_frame t"
  shows "write32 m (t + 4 * i) w a = m a"
proof (rule write32_outside)
  fix k :: u32 assume "k < 4"
  then show "a \<noteq> t + 4 * i + k"
    using assms entry_page [of t i k] by (auto simp: word_less_nat_alt)
qed

lemma entry_write_same:
  assumes "unat t mod 4096 = 0" "unat i < 1024" "unat j < 1024"
  shows "entry (write32 m (t + 4 * i) w) t j = (if j = i then w else entry m t j)"
  using entry_aligned4 [OF assms(1,2)] entry_aligned4 [OF assms(1,3)] entry_addr_inj [OF assms]
  by (auto simp: entry_def read32_write32_other)

lemma entry_write_other:
  assumes "unat t mod 4096 = 0" "unat i < 1024" "unat t' mod 4096 = 0" "unat j < 1024"
    "page_frame t \<noteq> page_frame t'"
  shows "entry (write32 m (t + 4 * i) w) t' j = entry m t' j"
  using assms by (intro entry_cong write_entry_elsewhere) auto

lemma memset_page:
  assumes "unat t mod 4096 = 0"
  shows "memset m t v 4096 a = (if page_frame a = page_frame t then v else m a)"
proof -
  from assms have t: "unat t + 4096 \<le> 4294967296" by (rule page_multiple) simp
  have "unat (a - t) < 4096 \<longleftrightarrow> page_frame a = page_frame t"
    using t by (auto simp: page_frame_iff [OF assms] unat_sub_if_size word_size)
  then show ?thesis by (simp add: memset_at)
qed

lemma entry_memset_same:
  assumes "unat t mod 4096 = 0" "unat i < 1024"
  shows "entry (memset m t 0 4096) t i = 0"
proof -
  have "entry (memset m t 0 4096) t i = entry (\<lambda>_. 0) t i"
    using assms by (intro entry_cong) (auto simp: memset_page)
  then show ?thesis by (simp add: entry_def read32_def)
qed

lemma entry_memset_other:
  assumes "unat t mod 4096 = 0" "unat t' mod 4096 = 0" "unat i < 1024" "page_frame t' \<noteq> page_frame t"
  shows "entry (memset m t 0 4096) t' i = entry m t' i"
  using assms by (intro entry_cong) (auto simp: memset_page)

section \<open>Indices, alignment and flags\<close>

abbreviation pd_index :: "u32 \<Rightarrow> u32" where
  "pd_index va \<equiv> drop_bit 22 va"

abbreviation pt_index :: "u32 \<Rightarrow> u32" where
  "pt_index va \<equiv> drop_bit 12 va AND 0x3FF"

lemma unat_pd_index: "unat (pd_index va) = unat va div 4194304"
  by (simp add: unat_drop_bit_eq drop_bit_nat_def)

lemma pd_index_less [simp]: "unat (pd_index va) < 1024"
  using unat_u32_less [of va] by (simp add: unat_pd_index less_mult_imp_div_less)

lemma unat_pt_index: "unat (pt_index va) = unat va div 4096 mod 1024"
proof -
  have "pt_index va = take_bit 10 (drop_bit 12 va)"
    by (simp add: take_bit_eq_mask mask_eq_exp_minus_1)
  then show ?thesis by (simp add: unsigned_take_bit_eq unat_drop_bit_eq drop_bit_nat_def take_bit_nat_def)
qed

lemma pt_index_less [simp]: "unat (pt_index va) < 1024"
  by (simp add: unat_pt_index)

lemma same_page_iff:
  "page_frame va = page_frame v \<longleftrightarrow> pd_index va = pd_index v \<and> pt_index va = pt_index v"
proof -
  define a b where "a = page_frame va" and "b = page_frame v"
  have q: "unat va div 4194304 = a div 1024" "unat v div 4194304 = b div 1024"
    by (simp_all add: a_def b_def page_frame_def div_mult2_eq [of _ 4096 1024, simplified])
  have "a = b \<longleftrightarrow> a div 1024 = b div 1024 \<and> a mod 1024 = b mod 1024"
    by (metis div_mult_mod_eq)
  then show ?thesis
    by (simp add: word_unat_eq_iff unat_pd_index unat_pt_index q) (simp add: a_def b_def page_frame_def)
qed

lemma page_number_iff: "drop_bit 12 va = drop_bit 12 v \<longleftrightarrow> page_frame va = page_frame v"
  for va v :: u32
  by (simp add: word_unat_eq_iff unat_drop_bit_eq drop_bit_nat_def page_frame_def)

lemma page_offset_iff: "p AND 0xFFF = 0 \<longleftrightarrow> unat p mod 4096 = 0" for p :: u32
proof -
  have "p AND 0xFFF = take_bit 12 p"
    by (simp add: take_bit_eq_mask mask_eq_exp_minus_1)
  moreover have "unat (take_bit 12 p) = unat p mod 4096"
    by (simp add: unsigned_take_bit_eq take_bit_nat_def)
  ultimately show ?thesis by (metis unat_eq_0)
qed

lemma bit_FFF: "bit (0xFFF :: u32) n \<longleftrightarrow> n < 12"
proof -
  have m: "(0xFFF :: u32) = mask 12" by (simp add: mask_eq_exp_minus_1)
  show ?thesis unfolding m bit_mask_iff by auto
qed

lemma bit_PTE_FRAME: "bit PTE_FRAME n \<longleftrightarrow> 12 \<le> n \<and> n < 32"
proof -
  have m: "PTE_FRAME = NOT 0xFFF" by simp
  show ?thesis unfolding m bit_not_iff bit_FFF by (auto simp: not_less)
qed

lemma frame_and_flags:
  fixes p :: u32
  assumes "unat p mod 4096 = 0"
  shows "(p OR PTE_PRESENT OR PTE_READ_WRITE) AND PTE_FRAME = p"
    "(p OR PTE_PRESENT OR PTE_READ_WRITE) AND PTE_PRESENT \<noteq> 0"
proof -
  have low: "\<not> bit p n" if "n < 12" for n
  proof -
    have "\<not> bit (p AND 0xFFF) n" using assms by (simp add: page_offset_iff [THEN iffD2])
    then show ?thesis using that bit_FFF [of n] by (simp add: bit_and_iff)
  qed
  have one: "bit (1 :: u32) n \<Longrightarrow> n < 12" and two: "bit (2 :: u32) n \<Longrightarrow> n < 12" for n
    by (auto simp: bit_1_iff bit_numeral_rec split: nat.splits)
  show "(p OR PTE_PRESENT OR PTE_READ_WRITE) AND PTE_FRAME = p"
  proof (rule bit_word_eqI)
    fix n assume "n < LENGTH(32)"
    then show "bit ((p OR PTE_PRESENT OR PTE_READ_WRITE) AND PTE_FRAME) n \<longleftrightarrow> bit p n"
      unfolding bit_and_iff bit_or_iff bit_PTE_FRAME
      using low [of n] one [of n] two [of n] by (auto simp: not_less [symmetric])
  qed
  have "bit ((p OR PTE_PRESENT OR PTE_READ_WRITE) AND PTE_PRESENT) 0"
    by (simp add: bit_and_iff bit_or_iff bit_1_iff)
  then show "(p OR PTE_PRESENT OR PTE_READ_WRITE) AND PTE_PRESENT \<noteq> 0" by (metis bit_0_eq bot_apply bot_bool_def)
qed

section \<open>Invariant of the page tables\<close>

definition pde_present :: "'a vmm_state_scheme \<Rightarrow> u32 \<Rightarrow> bool" where
  "pde_present s i \<longleftrightarrow> entry (phys s) (page_directory s) i AND PTE_PRESENT \<noteq> 0"

definition table_of :: "'a vmm_state_scheme \<Rightarrow> u32 \<Rightarrow> u32" where
  "table_of s i = entry (phys s) (page_directory s) i AND PTE_FRAME"

text \<open>
  A page the paging code owns: in use, below 4 MiB (so that it is reached through the identity
  map), and holding no byte of the frame bitmap.
\<close>

definition own_page :: "'a vmm_state_scheme \<Rightarrow> u32 \<Rightarrow> bool" where
  "own_page s t \<longleftrightarrow> page_ptr t \<and> page_frame t \<in> used_set s \<and> page_frame t < 1024 \<and>
     (\<forall>a. in_bitmap s a \<longrightarrow> page_frame a \<noteq> page_frame t)"

definition bitmap_reserved :: "'a pmm_state_scheme \<Rightarrow> bool" where
  "bitmap_reserved s \<longleftrightarrow> (\<forall>a. in_bitmap s a \<longrightarrow> page_frame a \<in> used_set s)"

definition vmm_inv :: "'a vmm_state_scheme \<Rightarrow> bool" where
  "vmm_inv s \<longleftrightarrow> pmm_ready s \<and> bitmap_reserved s \<and>
     own_page s (page_directory s) \<and>
     (\<forall>i. unat i < 1024 \<and> pde_present s i \<longrightarrow>
        own_page s (table_of s i) \<and> table_of s i \<noteq> page_directory s) \<and>
     (\<forall>i j. unat i < 1024 \<and> unat j < 1024 \<and> pde_present s i \<and> pde_present s j \<and>
        table_of s i = table_of s j \<longrightarrow> i = j)"

lemma vmm_invD:
  assumes "vmm_inv s"
  shows "pmm_ready s" "bitmap_reserved s" "own_page s (page_directory s)"
    "unat i < 1024 \<Longrightarrow> pde_present s i \<Longrightarrow> own_page s (table_of s i)"
    "unat i < 1024 \<Longrightarrow> pde_present s i \<Longrightarrow> table_of s i \<noteq> page_directory s"
    "unat i < 1024 \<Longrightarrow> unat j < 1024 \<Longrightarrow> pde_present s i \<Longrightarrow> pde_present s j \<Longrightarrow>
       table_of s i = table_of s j \<Longrightarrow> i = j"
  using assms by (auto simp: vmm_inv_def)

lemma vmm_invI:
  assumes "pmm_ready s" "bitmap_reserved s" "own_page s (page_directory s)"
    and "\<And>i. unat i < 1024 \<Longrightarrow> pde_present s i \<Longrightarrow> own_page s (table_of s i)"
    and "\<And>i. unat i < 1024 \<Longrightarrow> pde_present s i \<Longrightarrow> table_of s i \<noteq> page_directory s"
    and "\<And>i j. unat i < 1024 \<Longrightarrow> unat j < 1024 \<Longrightarrow> pde_present s i \<Longrightarrow> pde_present s j \<Longrightarrow>
       table_of s i = table_of s j \<Longrightarrow> i = j"
  shows "vmm_inv s"
  unfolding vmm_inv_def using assms by blast

lemma page_frame_inj:
  "page_ptr a \<Longrightarrow> page_ptr b \<Longrightarrow> page_frame a = page_frame b \<longleftrightarrow> a = b"
  by (auto simp: page_ptr_def page_frame_def word_unat_eq_iff)

lemma walk_table:
  "walk s va = (if pde_present s (pd_index va)
     then let pte = entry (phys s) (table_of s (pd_index va)) (pt_index va) in
       if pte AND PTE_PRESENT = 0 then None else Some ((pte AND PTE_FRAME) OR (va AND 0xFFF))
     else None)"
  by (simp add: walk_def mmu_walk_def pde_present_def table_of_def Let_def)

text \<open>
  A change of memory that leaves the directory page and all tables alone (an operation of the frame
  manager, in particular) leaves directory entries and translations as they were.
\<close>

lemma tables_cong:
  assumes "vmm_inv s" "page_directory s' = page_directory s"
    and m: "\<And>a. \<not> in_bitmap s a \<Longrightarrow> phys s' a = phys s a"
  shows "unat i < 1024 \<Longrightarrow> entry (phys s') (page_directory s') i = entry (phys s) (page_directory s) i"
    and "unat i < 1024 \<Longrightarrow> pde_present s' i = pde_present s i"
    and "unat i < 1024 \<Longrightarrow> table_of s' i = table_of s i"
    and "walk s' = walk s"
proof -
  have e: "entry (phys s') t j = entry (phys s) t j" if "own_page s t" "unat j < 1024" for t j
    using that m by (intro entry_cong) (auto simp: own_page_def page_ptr_def)
  show 1: "unat i < 1024 \<Longrightarrow> entry (phys s') (page_directory s') i = entry (phys s) (page_directory s) i" for i
    using e vmm_invD(3) [OF assms(1)] assms(2) by simp
  then show 2: "unat i < 1024 \<Longrightarrow> pde_present s' i = pde_present s i"
    and 3: "unat i < 1024 \<Longrightarrow> table_of s' i = table_of s i" for i
    by (simp_all add: pde_present_def table_of_def)
  have "walk s' va = walk s va" for va
    using 2 [of "pd_index va"] 3 [of "pd_index va"] e [OF vmm_invD(4) [OF assms(1)], of "pd_index va" "pt_index va"]
    by (simp add: walk_table)
  then show "walk s' = walk s" by blast
qed

lemma pmm_step_vmm_fields:
  fixes s s' :: "'a vmm_state_scheme"
  assumes "pmm_step s s'"
  shows "page_directory s' = page_directory s" "cr3 s' = cr3 s" "cr0 s' = cr0 s" "tlb s' = tlb s"
    "in_bitmap s' = in_bitmap s" "vmm_state.more s' = vmm_state.more s"
  using assms by (auto simp: pmm_step_def in_bitmap_def fun_eq_iff)

lemma vmm_inv_pmm_step:
  assumes "vmm_inv s" "pmm_step s s'" "pmm_ready s'" "used_set s \<subseteq> used_set s'"
  shows "vmm_inv s'" "walk s' = walk s"
proof -
  note f = pmm_step_vmm_fields [OF assms(2)]
  note c = tables_cong [OF assms(1) f(1) pmm_step_fields(4) [OF assms(2)]]
  have own: "own_page s t \<Longrightarrow> own_page s' t" for t
    using assms(4) f(5) by (auto simp: own_page_def)
  show "vmm_inv s'"
  proof (rule vmm_invI)
    show "bitmap_reserved s'"
      using vmm_invD(2) [OF assms(1)] assms(4) f(5) by (auto simp: bitmap_reserved_def)
  qed (use assms(3) c own vmm_invD(3-6) [OF assms(1)] f(1) in simp_all)
  show "walk s' = walk s" by (rule c(4))
qed

text \<open>Writing inside a page that holds no byte of the bitmap does not disturb the frame manager.\<close>

lemma phys_update_used:
  assumes "pmm_inv s" "\<And>a. in_bitmap s a \<Longrightarrow> m a = phys s a"
  shows "used_set (s\<lparr>phys := m\<rparr>) = used_set s"
proof -
  have "frame_used (s\<lparr>phys := m\<rparr>) f = frame_used s f" if "f < total_blocks s" for f
  proof -
    have "f div 8 < bitmap_size s" "f div 8 < 4294967296" using that assms(1) by (auto simp: pmm_inv_def)
    then have "in_bitmap s (PMM_BITMAP_BASE + of_nat (f div 8))" by (simp add: in_bitmap_def)
    then show ?thesis using assms(2) by (simp add: frame_used_def bitmap_byte_def)
  qed
  then show ?thesis by (auto simp: used_set_def)
qed

lemma phys_update_ready:
  assumes "pmm_ready s" "\<And>a. in_bitmap s a \<Longrightarrow> m a = phys s a"
  shows "pmm_ready (s\<lparr>phys := m\<rparr>)" "used_set (s\<lparr>phys := m\<rparr>) = used_set s"
    "own_page (s\<lparr>phys := m\<rparr>) = own_page s" "in_bitmap (s\<lparr>phys := m\<rparr>) = in_bitmap s"
proof -
  show u: "used_set (s\<lparr>phys := m\<rparr>) = used_set s"
    using assms by (intro phys_update_used) (auto simp: pmm_ready_def)
  show i: "in_bitmap (s\<lparr>phys := m\<rparr>) = in_bitmap s" by (auto simp: in_bitmap_def)
  show "own_page (s\<lparr>phys := m\<rparr>) = own_page s" by (simp add: own_page_def u i fun_eq_iff)
  show "pmm_ready (s\<lparr>phys := m\<rparr>)"
    using assms(1) u by (auto simp: pmm_ready_def pmm_inv_def)
qed

lemma link_table_spec:
  assumes inv: "vmm_inv s" and i: "unat i < 1024" "\<not> pde_present s i"
    and t: "own_page s t" "t \<noteq> page_directory s" "\<And>j. unat j < 1024 \<Longrightarrow> pde_present s j \<Longrightarrow> table_of s j \<noteq> t"
    and m: "\<And>a. page_frame a \<noteq> page_frame t \<Longrightarrow> m a = phys s a"
  defines "s' \<equiv> set_entry (page_directory s) i (t OR PTE_PRESENT OR PTE_READ_WRITE)
    (s\<lparr>phys := m\<rparr>)"
  shows "vmm_inv s'" "walk s' = (\<lambda>va. if pd_index va = i then
      let pte = entry m t (pt_index va) in
        if pte AND PTE_PRESENT = 0 then None else Some ((pte AND PTE_FRAME) OR (va AND 0xFFF))
      else walk s va)" "pde_present s' i" "table_of s' i = t" "used_set s' = used_set s"
    "unat j < 1024 \<Longrightarrow> pde_present s j \<Longrightarrow> pde_present s' j"
proof -
  let ?pd = "page_directory s"
  have pd: "own_page s ?pd" "unat ?pd mod 4096 = 0" "unat t mod 4096 = 0"
    using vmm_invD(3) [OF inv] t(1) by (auto simp: own_page_def page_ptr_def)
  have ne: "page_frame ?pd \<noteq> page_frame t"
    using page_frame_inj [of ?pd t] t pd(1) by (auto simp: own_page_def)
  have s': "s' = s\<lparr>phys := phys s'\<rparr>" by (simp add: s'_def set_entry_def)
  have ph: "phys s' = write32 m (?pd + 4 * i) (t OR PTE_PRESENT OR PTE_READ_WRITE)"
    by (simp add: s'_def set_entry_def)
  have out: "phys s' a = phys s a" if "page_frame a \<noteq> page_frame ?pd" "page_frame a \<noteq> page_frame t" for a
    using that pd i(1) by (simp add: ph write_entry_elsewhere m)
  have b: "phys s' a = phys s a" if "in_bitmap s a" for a
    using that t(1) pd(1) by (intro out) (auto simp: own_page_def)
  note r = phys_update_ready [OF vmm_invD(1) [OF inv] b, folded s']
  show "used_set s' = used_set s" by (rule r)
  have pds: "page_directory s' = ?pd" by (simp add: s'_def set_entry_def)
  have pde: "entry (phys s') ?pd j = (if j = i then t OR PTE_PRESENT OR PTE_READ_WRITE else entry (phys s) ?pd j)"
    if "unat j < 1024" for j
    unfolding ph using entry_write_same [OF pd(2) i(1) that] entry_cong [OF pd(2) that, of m "phys s"] m ne by simp
  have p: "pde_present s' j \<longleftrightarrow> j = i \<or> pde_present s j"
    and tb: "table_of s' j = (if j = i then t else table_of s j)" if "unat j < 1024" for j
    using pde [OF that] frame_and_flags [OF pd(3)] by (auto simp: pde_present_def table_of_def pds)
  show "pde_present s' i" "table_of s' i = t" using p tb i(1) by auto
  show "pde_present s' j" if "unat j < 1024" "pde_present s j" using p that by auto
  show "vmm_inv s'"
  proof (rule vmm_invI)
    show "pmm_ready s'" "own_page s' (page_directory s')" using r(1,3) pd(1) pds by simp_all
    show "bitmap_reserved s'"
      using vmm_invD(2) [OF inv] by (simp add: bitmap_reserved_def r(2,4))
    show "own_page s' (table_of s' j)" "table_of s' j \<noteq> page_directory s'"
      if "unat j < 1024" "pde_present s' j" for j
      using that t(1,2) pds vmm_invD(4,5) [OF inv that(1)] p [OF that(1)] tb [OF that(1)] by (cases "j = i"; simp add: r(3))+
    show "j = k" if "unat j < 1024" "unat k < 1024" "pde_present s' j" "pde_present s' k" "table_of s' j = table_of s' k"
      for j k
      using that t(3) [of j] t(3) [of k] vmm_invD(6) [OF inv that(1,2)] p [OF that(1)] p [OF that(2)] tb [OF that(1)] tb [OF that(2)]
      by (cases "j = i"; cases "k = i") simp_all
  qed
  have "walk s' va = (if pd_index va = i then
      let pte = entry m t (pt_index va) in
        if pte AND PTE_PRESENT = 0 then None else Some ((pte AND PTE_FRAME) OR (va AND 0xFFF))
      else walk s va)" for va
  proof (cases "pd_index va = i")
    case True
    have "entry (phys s') t (pt_index va) = entry m t (pt_index va)"
      using entry_write_other [OF pd(2) i(1) pd(3) pt_index_less ne] by (simp add: ph)
    then show ?thesis using True tb p i(1) by (simp add: walk_table)
  next
    case False
    have "entry (phys s') (table_of s (pd_index va)) (pt_index va) = entry (phys s) (table_of s (pd_index va)) (pt_index va)"
      if pr: "pde_present s (pd_index va)"
    proof (rule entry_cong)
      have own: "own_page s (table_of s (pd_index va))" using vmm_invD(4) [OF inv _ pr] by simp
      then show "unat (table_of s (pd_index va)) mod 4096 = 0" by (simp add: own_page_def page_ptr_def)
      fix a assume "page_frame a = page_frame (table_of s (pd_index va))"
      moreover have "table_of s (pd_index va) \<noteq> t" "table_of s (pd_index va) \<noteq> ?pd"
        using t(3) vmm_invD(5) [OF inv] pr pd_index_less by metis+
      ultimately show "phys s' a = phys s a"
        using own t(1) pd(1) by (intro out) (simp_all add: own_page_def page_frame_inj)
    qed simp
    then show ?thesis using False p tb by (simp add: walk_table)
  qed
  then show "walk s' = (\<lambda>va. if pd_index va = i then
      let pte = entry m t (pt_index va) in
        if pte AND PTE_PRESENT = 0 then None else Some ((pte AND PTE_FRAME) OR (va AND 0xFFF))
      else walk s va)" by blast
qed

lemma new_table_spec:
  assumes inv: "vmm_inv s" and i: "unat i < 1024" "\<not> pde_present s i"
    and t: "own_page s t" "t \<noteq> page_directory s" "\<And>j. unat j < 1024 \<Longrightarrow> pde_present s j \<Longrightarrow> table_of s j \<noteq> t"
  defines "s' \<equiv> set_entry (page_directory s) i (t OR PTE_PRESENT OR PTE_READ_WRITE)
    (s\<lparr>phys := memset (phys s) t 0 4096\<rparr>)"
  shows "vmm_inv s'" "walk s' = walk s" "pde_present s' i" "table_of s' i = t" "used_set s' = used_set s"
    "unat j < 1024 \<Longrightarrow> pde_present s j \<Longrightarrow> pde_present s' j"
proof -
  have al: "unat t mod 4096 = 0" using t(1) by (simp add: own_page_def page_ptr_def)
  have m: "page_frame a \<noteq> page_frame t \<Longrightarrow> memset (phys s) t 0 4096 a = phys s a" for a
    using al by (simp add: memset_page)
  note l = link_table_spec [OF inv i t m, folded s'_def]
  show "vmm_inv s'" "pde_present s' i" "table_of s' i = t" "used_set s' = used_set s"
    "unat j < 1024 \<Longrightarrow> pde_present s j \<Longrightarrow> pde_present s' j"
    by (simp_all add: l)
  show "walk s' = walk s"
    using i entry_memset_same [OF al pt_index_less] by (auto simp: l(2) walk_table fun_eq_iff)
qed

lemma set_pte_spec:
  assumes inv: "vmm_inv s" and pr: "pde_present s (pd_index v)" and p: "unat p mod 4096 = 0"
  defines "s' \<equiv> set_entry (table_of s (pd_index v)) (pt_index v) (p OR PTE_PRESENT OR PTE_READ_WRITE) s"
  shows "vmm_inv s'" "used_set s' = used_set s" "unat j < 1024 \<Longrightarrow> pde_present s' j = pde_present s j"
    "walk s' = (\<lambda>va. if page_frame va = page_frame v then Some (p OR (va AND 0xFFF)) else walk s va)"
proof -
  let ?pd = "page_directory s" and ?t = "table_of s (pd_index v)"
  have own: "own_page s ?pd" "own_page s ?t" and ne: "?t \<noteq> ?pd"
    using vmm_invD(3-5) [OF inv] pr by simp_all
  then have al: "unat ?pd mod 4096 = 0" "unat ?t mod 4096 = 0" and fne: "page_frame ?t \<noteq> page_frame ?pd"
    by (auto simp: own_page_def page_ptr_def page_frame_inj)
  have s': "s' = s\<lparr>phys := phys s'\<rparr>" and pds: "page_directory s' = ?pd"
    and m: "phys s' = write32 (phys s) (?t + 4 * pt_index v) (p OR PTE_PRESENT OR PTE_READ_WRITE)"
    by (simp_all add: s'_def set_entry_def)
  have b: "phys s' a = phys s a" if "in_bitmap s a" for a
    unfolding m using that own(2) al(2) by (intro write_entry_elsewhere) (auto simp: own_page_def)
  note r = phys_update_ready [OF vmm_invD(1) [OF inv] b, folded s']
  show "used_set s' = used_set s" by (rule r)
  have e: "entry (phys s') t' j = entry (phys s) t' j" if "own_page s t'" "t' \<noteq> ?t" "unat j < 1024" for t' j
    unfolding m using that own(2) al(2)
    by (intro entry_write_other) (auto simp: own_page_def page_ptr_def page_frame_inj)
  have pde: "pde_present s' j = pde_present s j" "table_of s' j = table_of s j" if "unat j < 1024" for j
    using e [OF own(1) ne [symmetric] that] by (simp_all add: pde_present_def table_of_def pds)
  show "pde_present s' j = pde_present s j" if "unat j < 1024" by (rule pde [OF that])
  show "vmm_inv s'"
    using r vmm_invD [OF inv] pde by (intro vmm_invI) (simp_all add: pds bitmap_reserved_def)
  have "walk s' va = (if page_frame va = page_frame v then Some (p OR (va AND 0xFFF)) else walk s va)" for va
  proof (cases "pd_index va = pd_index v")
    case True
    then have "entry (phys s') ?t (pt_index va) =
        (if pt_index va = pt_index v then p OR PTE_PRESENT OR PTE_READ_WRITE else entry (phys s) ?t (pt_index va))"
      unfolding m by (intro entry_write_same al) simp_all
    then show ?thesis
      using True pr frame_and_flags [OF p] by (simp add: walk_table pde same_page_iff del: word_bw_assocs)
  next
    case False
    then have "entry (phys s') (table_of s (pd_index va)) (pt_index va)
        = entry (phys s) (table_of s (pd_index va)) (pt_index va)" if "pde_present s (pd_index va)"
      using that vmm_invD(4) [OF inv _ that] vmm_invD(6) [OF inv _ _ that pr] by (intro e) auto
    then show ?thesis using False by (simp add: walk_table pde same_page_iff)
  qed
  then show "walk s' = (\<lambda>va. if page_frame va = page_frame v then Some (p OR (va AND 0xFFF)) else walk s va)"
    by blast
qed

lemma vmm_regs_update [simp]:
  "vmm_inv (s\<lparr>tlb := x\<rparr>) = vmm_inv s" "walk (s\<lparr>tlb := x\<rparr>) = walk s"
  "used_set (s\<lparr>tlb := x\<rparr>) = used_set s" "pde_present (s\<lparr>tlb := x\<rparr>) = pde_present s"
  "vmm_inv (s\<lparr>con_log := l\<rparr>) = vmm_inv s" "walk (s\<lparr>con_log := l\<rparr>) = walk s"
  "used_set (s\<lparr>con_log := l\<rparr>) = used_set s" "pde_present (s\<lparr>con_log := l\<rparr>) = pde_present s"
  "vmm_inv (s\<lparr>cr3 := r\<rparr>) = vmm_inv s" "walk (s\<lparr>cr3 := r\<rparr>) = walk s" "used_set (s\<lparr>cr3 := r\<rparr>) = used_set s"
  "vmm_inv (s\<lparr>cr0 := r\<rparr>) = vmm_inv s" "walk (s\<lparr>cr0 := r\<rparr>) = walk s" "used_set (s\<lparr>cr0 := r\<rparr>) = used_set s"
  by (simp_all add: vmm_inv_def bitmap_reserved_def walk_def pmm_ready_def pmm_inv_def own_page_def pde_present_def table_of_def
      in_bitmap_def used_set_def frame_used_def bitmap_byte_def fun_eq_iff)

text \<open>The state changes of the paging code only concern memory and the frame manager.\<close>

definition vmm_same :: "'a vmm_state_scheme \<Rightarrow> 'a vmm_state_scheme \<Rightarrow> bool" where
  "vmm_same s s' \<longleftrightarrow> page_directory s' = page_directory s \<and> cr3 s' = cr3 s \<and> cr0 s' = cr0 s \<and>
     con_log s' = con_log s \<and> total_blocks s' = total_blocks s \<and> vmm_state.more s' = vmm_state.more s"

lemma pmm_step_same:
  fixes s s' :: "'a vmm_state_scheme"
  shows "pmm_step s s' \<Longrightarrow> vmm_same s s'"
  by (simp add: vmm_same_def pmm_step_vmm_fields pmm_step_fields)

lemma vmm_same_trans: "vmm_same s s1 \<Longrightarrow> vmm_same s1 s2 \<Longrightarrow> vmm_same s s2"
  by (simp add: vmm_same_def)

definition lowmem_full :: "'a vmm_state_scheme \<Rightarrow> bool" where
  "lowmem_full s \<longleftrightarrow> {..<min 1024 (total_blocks s)} \<subseteq> used_set s"

lemma alloc_low_page:
  fixes s :: "'a vmm_state_scheme"
  assumes "pmm_ready s" "bitmap_reserved s"
  shows "\<exists>p s'. pmm_alloc_page_low VMM_LOWMEM_LIMIT s = Inr (p, s') \<and> pmm_step s s' \<and> pmm_ready s' \<and>
    bitmap_reserved s' \<and>
    (if lowmem_full s then p = 0 \<and> used_set s' = used_set s
     else p \<noteq> 0 \<and> own_page s' p \<and> page_frame p \<notin> used_set s \<and> used_set s' = insert (page_frame p) (used_set s))"
proof -
  obtain p s' where al: "pmm_alloc_page_low VMM_LOWMEM_LIMIT s = Inr (p, s')" "pmm_ready s'" "pmm_step s s'"
    and c: "if {..<min (unat VMM_LOWMEM_LIMIT div 4096) (total_blocks s)} \<subseteq> used_set s
       then p = 0 \<and> used_set s' = used_set s
       else page_ptr p \<and> unat p + 4096 \<le> unat VMM_LOWMEM_LIMIT \<and> page_frame p \<notin> used_set s \<and>
         used_set s' = insert (page_frame p) (used_set s)"
    using pmm_ready_alloc_low [OF assms(1), of VMM_LOWMEM_LIMIT] by blast
  note f = pmm_step_vmm_fields [OF al(3)]
  have "bitmap_reserved s'" using assms(2) c f(5) by (auto simp: bitmap_reserved_def split: if_splits)
  moreover have "p \<noteq> 0 \<and> own_page s' p" if nf: "\<not> lowmem_full s"
  proof -
    have p: "page_ptr p" "page_frame p < 1024" "page_frame p \<notin> used_set s"
        "used_set s' = insert (page_frame p) (used_set s)"
      using c nf by (auto simp: lowmem_full_def page_frame_def)
    have "page_frame a \<noteq> page_frame p" if "in_bitmap s a" for a
      using that assms(2) p(3) unfolding bitmap_reserved_def by metis
    then show ?thesis using p(1,2,4) f(5) by (simp add: own_page_def page_ptr_def)
  qed
  ultimately show ?thesis using al c by (auto simp: lowmem_full_def)
qed

lemma vmm_get_page_table_spec:
  assumes inv: "vmm_inv s"
  shows "if \<not> pde_present s (pd_index v) \<and> lowmem_full s
    then vmm_get_page_table v True s = Inl (Panic ''VMM: cannot alloc page table (lowmem)'')
    else \<exists>t s'. vmm_get_page_table v True s = Inr (t, s') \<and> vmm_inv s' \<and> walk s' = walk s \<and>
      pde_present s' (pd_index v) \<and> table_of s' (pd_index v) = t \<and> t \<noteq> 0 \<and> vmm_same s s' \<and> tlb s' = tlb s \<and>
      (\<forall>j. unat j < 1024 \<and> pde_present s j \<longrightarrow> pde_present s' j) \<and>
      (if pde_present s (pd_index v) then s' = s
       else \<exists>f. f < 1024 \<and> f \<notin> used_set s \<and> used_set s' = insert f (used_set s))"
proof (cases "pde_present s (pd_index v)")
  case True
  then have "vmm_get_page_table v True s = Inr (table_of s (pd_index v), s)"
    by (simp add: vmm_get_page_table_def pde_present_def table_of_def)
  moreover have "table_of s (pd_index v) \<noteq> 0"
    using vmm_invD(4) [OF inv _ True] by (simp add: own_page_def page_ptr_def)
  ultimately show ?thesis using True inv by (simp add: vmm_same_def)
next
  case False
  obtain p s1 where al: "pmm_alloc_page_low VMM_LOWMEM_LIMIT s = Inr (p, s1)" "pmm_ready s1" "pmm_step s s1"
    and c: "if lowmem_full s then p = 0 \<and> used_set s1 = used_set s
      else p \<noteq> 0 \<and> own_page s1 p \<and> page_frame p \<notin> used_set s \<and> used_set s1 = insert (page_frame p) (used_set s)"
    using alloc_low_page [OF vmm_invD(1,2) [OF inv]] by blast
  have get: "vmm_get_page_table v True s =
      (if p = 0 then Inl (Panic ''VMM: cannot alloc page table (lowmem)'')
       else Inr (p, set_entry (page_directory s1) (pd_index v) (p OR PTE_PRESENT OR PTE_READ_WRITE)
              (s1\<lparr>phys := memset (phys s1) p 0 4096\<rparr>)))"
    using al(1) False by (simp add: vmm_get_page_table_def pde_present_def)
  show ?thesis
  proof (cases "lowmem_full s")
    case True
    then show ?thesis using c get False by simp
  next
    case nf: False
    then have p: "p \<noteq> 0" "own_page s1 p" "page_frame p \<notin> used_set s" "used_set s1 = insert (page_frame p) (used_set s)"
      using c by auto
    note f = pmm_step_vmm_fields [OF al(3)]
    note c1 = tables_cong [OF inv f(1) pmm_step_fields(4) [OF al(3)]]
    have inv1: "vmm_inv s1" "walk s1 = walk s"
      using vmm_inv_pmm_step [OF inv al(3,2)] p(4) by auto
    have fresh: "t \<noteq> p" if "own_page s t" for t
      using that p(3) by (auto simp: own_page_def)
    let ?s' = "set_entry (page_directory s1) (pd_index v) (p OR PTE_PRESENT OR PTE_READ_WRITE)
      (s1\<lparr>phys := memset (phys s1) p 0 4096\<rparr>)"
    have nt: "vmm_inv ?s'" "walk ?s' = walk s1" "pde_present ?s' (pd_index v)" "table_of ?s' (pd_index v) = p"
      "used_set ?s' = used_set s1" "\<forall>j. unat j < 1024 \<and> pde_present s j \<longrightarrow> pde_present ?s' j"
      using new_table_spec [OF inv1(1) pd_index_less _ p(2), of v] False fresh vmm_invD(3,4) [OF inv] c1(2,3) f(1)
      by (metis pd_index_less)+
    have "vmm_same s ?s'" "tlb ?s' = tlb s"
      using pmm_step_same [OF al(3)] f(4) by (simp_all add: vmm_same_def set_entry_def)
    then show ?thesis
      using nt inv1(2) p get nf False by (auto simp: own_page_def)
  qed
qed

section \<open>Mapping a page\<close>

definition vmm_mapped :: "u32 \<Rightarrow> u32 \<Rightarrow> 'a vmm_state_scheme \<Rightarrow> 'a vmm_state_scheme \<Rightarrow> bool" where
  "vmm_mapped v p s s' \<longleftrightarrow> vmm_inv s' \<and> vmm_same s s' \<and> tlb s' = (tlb s)(drop_bit 12 v := None) \<and>
     pde_present s' (pd_index v) \<and> (\<forall>j. unat j < 1024 \<and> pde_present s j \<longrightarrow> pde_present s' j) \<and>
     walk s' = (\<lambda>va. if page_frame va = page_frame v then Some (p OR (va AND 0xFFF)) else walk s va)"

lemma vmm_map_spec:
  assumes inv: "vmm_inv s" and v: "unat v mod 4096 = 0" and p: "unat p mod 4096 = 0"
  shows "if \<not> pde_present s (pd_index v) \<and> lowmem_full s
    then vmm_map v p s = Inl (Panic ''VMM: cannot alloc page table (lowmem)'')
    else \<exists>s'. vmm_map v p s = Inr s' \<and> vmm_mapped v p s s' \<and>
      (if pde_present s (pd_index v) then used_set s' = used_set s
       else \<exists>f. f < 1024 \<and> f \<notin> used_set s \<and> used_set s' = insert f (used_set s))"
proof (cases "\<not> pde_present s (pd_index v) \<and> lowmem_full s")
  case True
  then show ?thesis
    using vmm_get_page_table_spec [OF inv, of v] v p by (simp add: vmm_map_def page_offset_iff)
next
  case False
  then obtain t s1 where g: "vmm_get_page_table v True s = Inr (t, s1)" "vmm_inv s1" "walk s1 = walk s"
      "pde_present s1 (pd_index v)" "table_of s1 (pd_index v) = t" "t \<noteq> 0" "vmm_same s s1" "tlb s1 = tlb s"
      "\<forall>j. unat j < 1024 \<and> pde_present s j \<longrightarrow> pde_present s1 j"
    and u: "if pde_present s (pd_index v) then s1 = s
      else \<exists>f. f < 1024 \<and> f \<notin> used_set s \<and> used_set s1 = insert f (used_set s)"
    using vmm_get_page_table_spec [OF inv, of v] by auto
  define s2 where "s2 = set_entry t (pt_index v) (p OR PTE_PRESENT OR PTE_READ_WRITE) s1"
  note sp = set_pte_spec [OF g(2,4) p, unfolded g(5), folded s2_def]
  have m: "vmm_map v p s = Inr (invlpg v s2)"
    using g(1,6) v p by (simp add: vmm_map_def page_offset_iff s2_def)
  moreover have "vmm_same s (invlpg v s2)" "tlb s2 = tlb s"
    using g(7,8) by (simp_all add: vmm_same_def invlpg_def s2_def set_entry_def)
  ultimately show ?thesis
    using False sp g(3,4,9) u by (auto simp: vmm_mapped_def invlpg_def split: if_splits)
qed

section \<open>Initialisation\<close>

lemma identity_fill_entry:
  assumes t: "unat t mod 4096 = 0" and i: "unat i < 1024"
  shows "entry (vmm_identity_fill t m) t i = (i * 4096) OR PTE_PRESENT OR PTE_READ_WRITE"
    "page_frame a \<noteq> page_frame t \<Longrightarrow> vmm_identity_fill t m a = m a"
proof -
  let ?f = "\<lambda>i m. write32 m (t + 4 * of_nat i) ((of_nat i * 4096) OR PTE_PRESENT OR PTE_READ_WRITE)"
  have "(\<forall>i. unat i < n \<longrightarrow> entry (fold ?f [0..<n] m) t i = (i * 4096) OR PTE_PRESENT OR PTE_READ_WRITE) \<and>
      (\<forall>a. page_frame a \<noteq> page_frame t \<longrightarrow> fold ?f [0..<n] m a = m a)" if "n \<le> 1024" for n
    using that
  proof (induction n)
    case (Suc n)
    have n: "unat (of_nat n :: u32) = n" "unat (of_nat n :: u32) < 1024" using Suc.prems by simp_all
    have "entry (?f n (fold ?f [0..<n] m)) t i = (i * 4096) OR PTE_PRESENT OR PTE_READ_WRITE" if "unat i < Suc n" for i
    proof (cases "i = of_nat n")
      case True
      then show ?thesis using entry_write_same [OF t n(2) n(2)] by simp
    next
      case False
      then have "unat i \<noteq> n" using n(1) by (simp add: word_unat_eq_iff)
      then show ?thesis
        using that Suc False entry_write_same [OF t n(2), of i] by simp
    qed
    moreover have "?f n (fold ?f [0..<n] m) a = m a" if "page_frame a \<noteq> page_frame t" for a
      using Suc that write_entry_elsewhere [OF t n(2) that] by simp
    ultimately show ?case by simp
  qed simp
  from this [of 1024] i
  show "entry (vmm_identity_fill t m) t i = (i * 4096) OR PTE_PRESENT OR PTE_READ_WRITE"
    "page_frame a \<noteq> page_frame t \<Longrightarrow> vmm_identity_fill t m a = m a"
    by (simp_all add: vmm_identity_fill_def)
qed

lemma identity_pte:
  assumes t: "unat t mod 4096 = 0" and v: "pd_index va = 0"
  shows "(let pte = entry (vmm_identity_fill t m) t (pt_index va) in
    if pte AND PTE_PRESENT = 0 then None else Some ((pte AND PTE_FRAME) OR (va AND 0xFFF))) = Some va"
proof -
  have "unat va < 4194304" using v unat_pd_index [of va] by (simp add: div_eq_0_iff)
  then have q: "unat (pt_index va) = unat va div 4096" by (simp add: unat_pt_index less_mult_imp_div_less)
  then have al: "unat (pt_index va * 4096) = unat va div 4096 * 4096"
    using pt_index_less [of va] by (simp add: unat_word_ariths)
  have "va AND PTE_FRAME = push_bit 12 (drop_bit 12 va)"
    by (rule bit_word_eqI, unfold bit_and_iff bit_PTE_FRAME) (auto simp: bit_push_bit_iff bit_drop_bit_eq)
  also have "unat \<dots> = unat va div 4096 * 4096"
    using le_less_trans [OF div_times_less_eq_dividend unat_u32_less, of va 4096, THEN mod_less]
    by (simp del: mod_less add: unsigned_push_bit_eq unat_drop_bit_eq drop_bit_nat_def push_bit_nat_def take_bit_nat_def)
  finally have "va AND PTE_FRAME = pt_index va * 4096" using al by (simp add: word_unat_eq_iff)
  moreover have "(va AND PTE_FRAME) OR (va AND 0xFFF) = va"
    by (rule bit_word_eqI, unfold bit_and_iff bit_or_iff bit_PTE_FRAME bit_FFF) auto
  ultimately show ?thesis
    using identity_fill_entry(1) [OF t pt_index_less] frame_and_flags [of "pt_index va * 4096"] al by (simp add: Let_def)
qed

text \<open>A cleared directory page has no entries: nothing is mapped.\<close>

lemma empty_directory:
  assumes "pmm_ready s" "bitmap_reserved s" "own_page s pd"
  defines "s' \<equiv> s\<lparr>page_directory := pd, phys := memset (phys s) pd 0 4096\<rparr>"
  shows "vmm_inv s'" "used_set s' = used_set s" "unat i < 1024 \<Longrightarrow> \<not> pde_present s' i" "walk s' va = None"
proof -
  have al: "unat pd mod 4096 = 0" using assms(3) by (simp add: own_page_def page_ptr_def)
  have b: "memset (phys s) pd 0 4096 a = phys s a" if "in_bitmap s a" for a
    using that assms(3) al by (auto simp: memset_page own_page_def)
  have up: "used_set (x\<lparr>page_directory := pd\<rparr>) = used_set x" "pmm_ready (x\<lparr>page_directory := pd\<rparr>) = pmm_ready x"
    "own_page (x\<lparr>page_directory := pd\<rparr>) = own_page x" "in_bitmap (x\<lparr>page_directory := pd\<rparr>) = in_bitmap x" for x :: "'a vmm_state_scheme"
    by (simp_all add: used_set_def frame_used_def bitmap_byte_def pmm_ready_def pmm_inv_def own_page_def
        in_bitmap_def fun_eq_iff)
  have s': "s' = (s\<lparr>phys := memset (phys s) pd 0 4096\<rparr>)\<lparr>page_directory := pd\<rparr>" by (simp add: s'_def)
  note r = phys_update_ready [OF assms(1) b]
  show u: "used_set s' = used_set s" by (simp add: s' up r)
  have e: "entry (phys s') pd i = 0" if "unat i < 1024" for i
    using entry_memset_same [OF al that] by (simp add: s'_def)
  then show np: "unat i < 1024 \<Longrightarrow> \<not> pde_present s' i" for i
    by (simp add: pde_present_def) (simp add: s'_def)
  show "walk s' va = None" using np by (simp add: walk_table)
  have "in_bitmap s' = in_bitmap s" "own_page s' = own_page s" "pmm_ready s'"
    unfolding s' using r up by simp_all
  then show "vmm_inv s'"
    using assms(2,3) u np by (intro vmm_invI) (auto simp: bitmap_reserved_def s'_def)
qed

definition identity_4M :: "u32 \<Rightarrow> u32 option" where
  "identity_4M va = (if unat va < 4194304 then Some va else None)"

lemma link_identity:
  assumes inv: "vmm_inv s" and none: "\<And>i. unat i < 1024 \<Longrightarrow> \<not> pde_present s i"
    and t: "own_page s t" "t \<noteq> page_directory s"
  defines "s' \<equiv> set_entry (page_directory s) 0 (t OR PTE_PRESENT OR PTE_READ_WRITE)
    (s\<lparr>phys := vmm_identity_fill t (phys s)\<rparr>)"
  shows "vmm_inv s'" "walk s' = identity_4M" "used_set s' = used_set s"
proof -
  have al: "unat t mod 4096 = 0" using t(1) by (simp add: own_page_def page_ptr_def)
  have m: "page_frame a \<noteq> page_frame t \<Longrightarrow> vmm_identity_fill t (phys s) a = phys s a" for a
    using identity_fill_entry(2) [OF al, of 0] by simp
  have j: "table_of s j \<noteq> t" if "unat j < 1024" "pde_present s j" for j using none that by blast
  have z: "unat (0 :: u32) < 1024" by simp
  note l = link_table_spec [OF inv z none [OF z] t j m, folded s'_def]
  show "vmm_inv s'" "used_set s' = used_set s" by (simp_all add: l)
  have "walk s' va = identity_4M va" for va
  proof -
    have "pd_index va = 0 \<longleftrightarrow> unat va < 4194304"
      by (simp add: word_unat_eq_iff unat_pd_index div_eq_0_iff)
    then show ?thesis
      using none l(2) identity_pte [OF al] by (auto simp: identity_4M_def walk_table [of s])
  qed
  then show "walk s' = identity_4M" by blast
qed

lemma vmm_init_spec:
  assumes "pmm_ready s" "bitmap_reserved s" "free = {..<min 1024 (total_blocks s)} - used_set s"
  shows "if card free < 2 then \<exists>e. vmm_init s = Inl (Panic e)
    else \<exists>s'. vmm_init s = Inr s' \<and> vmm_inv s' \<and> walk s' = identity_4M \<and> tlb s' = (\<lambda>_. None) \<and>
      cr3 s' = page_directory s' \<and> cr0 s' = cr0 s OR 0x80000000 \<and> total_blocks s' = total_blocks s \<and>
      (\<exists>f g. f \<in> free \<and> g \<in> free \<and> f \<noteq> g \<and> used_set s' = used_set s \<union> {f, g})"
proof -
  obtain pd s1 where a1: "pmm_alloc_page_low VMM_LOWMEM_LIMIT s = Inr (pd, s1)" "pmm_step s s1" "pmm_ready s1" "bitmap_reserved s1"
    and c1: "if lowmem_full s then pd = 0 \<and> used_set s1 = used_set s
     else pd \<noteq> 0 \<and> own_page s1 pd \<and> page_frame pd \<notin> used_set s \<and> used_set s1 = insert (page_frame pd) (used_set s)"
    using alloc_low_page [OF assms(1,2)] by blast
  show ?thesis
  proof (cases "lowmem_full s")
    case True
    then have "card free < 2" "pd = 0" using c1 by (simp_all add: assms(3) lowmem_full_def Diff_eq_empty_iff [THEN iffD2])
    then show ?thesis using a1(1) by (simp add: vmm_init_def)
  next
    case False
    with c1 have pd: "pd \<noteq> 0" "own_page s1 pd" "page_frame pd \<notin> used_set s" "used_set s1 = insert (page_frame pd) (used_set s)"
      by auto
    define s2 where "s2 = s1\<lparr>page_directory := pd, phys := memset (phys s1) pd 0 4096\<rparr>"
    note ed = empty_directory [OF a1(3,4) pd(2), folded s2_def]
    obtain pt s3 where a2: "pmm_alloc_page_low VMM_LOWMEM_LIMIT s2 = Inr (pt, s3)" "pmm_step s2 s3" "pmm_ready s3" "bitmap_reserved s3"
      and c2: "if lowmem_full s2 then pt = 0 \<and> used_set s3 = used_set s2
       else pt \<noteq> 0 \<and> own_page s3 pt \<and> page_frame pt \<notin> used_set s2 \<and> used_set s3 = insert (page_frame pt) (used_set s2)"
      using alloc_low_page [OF vmm_invD(1,2) [OF ed(1)]] by blast
    have tb: "total_blocks s2 = total_blocks s" using pmm_step_fields(1) [OF a1(2)] by (simp add: s2_def)
    have pdf: "page_frame pd \<in> free"
      using pd used_set_subset [of s1] pmm_step_fields(1) [OF a1(2)] by (auto simp: assms(3) own_page_def)
    have full: "lowmem_full s2 \<longleftrightarrow> free = {page_frame pd}"
      using pdf pd(4) ed(2) by (auto simp: lowmem_full_def tb assms(3))
    show ?thesis
    proof (cases "lowmem_full s2")
      case True
      then have "card free < 2" "pt = 0" using c2 full by simp_all
      then show ?thesis using a1(1) a2(1) pd(1) by (simp add: vmm_init_def s2_def)
    next
      case nf: False
      with c2 have pt: "pt \<noteq> 0" "own_page s3 pt" "page_frame pt \<notin> used_set s2" "used_set s3 = insert (page_frame pt) (used_set s2)"
        by auto
      have al: "unat pt mod 4096 = 0" using pt(2) by (simp add: own_page_def page_ptr_def)
      have inv3: "vmm_inv s3" "walk s3 = walk s2" using vmm_inv_pmm_step [OF ed(1) a2(2,3)] pt(4) by auto
      note f3 = pmm_step_vmm_fields [OF a2(2)]
      have np: "\<not> pde_present s3 i" if "unat i < 1024" for i
        using tables_cong(2) [OF ed(1) f3(1) pmm_step_fields(4) [OF a2(2)] that] ed(3) [OF that] by simp
      have ne: "pt \<noteq> page_directory s3" using pt(3) pd(4) ed(2) f3(1) by (auto simp: s2_def)
      define s4 where "s4 = set_entry (page_directory s3) 0 (pt OR PTE_PRESENT OR PTE_READ_WRITE)
        (s3\<lparr>phys := vmm_identity_fill pt (phys s3)\<rparr>)"
      note s4 = link_identity [OF inv3(1) np pt(2) ne, folded s4_def]
      have init: "vmm_init s = Inr (term_call (TermPrint ''VMM Initialized. Paging ENABLED.
'' 0x0F) (s4\<lparr>cr3 := page_directory s4, tlb := (\<lambda>_. None), cr0 := cr0 s4 OR 0x80000000\<rparr>))"
        using a1(1) a2(1) pd(1) pt(1) by (simp add: vmm_init_def s2_def s4_def set_entry_def Let_def)
      have f4: "cr0 s4 = cr0 s" "total_blocks s4 = total_blocks s"
        using f3(3) pmm_step_vmm_fields(3) [OF a1(2)] pmm_step_fields(1) [OF a2(2)] tb
        by (simp_all add: s4_def set_entry_def s2_def)
      have "page_frame pt \<in> free" "page_frame pt \<noteq> page_frame pd"
        using pt pd(4) ed(2) used_set_subset [of s3] pmm_step_fields(1) [OF a2(2)] tb
        by (auto simp: assms(3) own_page_def)
      moreover have "\<not> card free < 2"
        using pdf calculation card_mono [of free "{page_frame pd, page_frame pt}"] assms(3) by auto
      ultimately show ?thesis
        using init s4 pt(4) pd(4) ed(2) pdf f4 by (auto simp: term_call_def)
    qed
  qed
qed

end
