(* ===== verification/VMM_Spec.thy ===== *)
theory VMM_Spec
  imports VMM
begin

text \<open>
  What the paging code promises to its clients: the contract of page mapping as a locale with its
  interpretation on the model, and the properties of \<^verbatim>\<open>vmm_map\<close>, \<^verbatim>\<open>vmm_alloc_page\<close> and \<^verbatim>\<open>vmm_init\<close>.
\<close>

section \<open>Allocating a page at an address\<close>

definition free_frames :: "'a pmm_state_scheme \<Rightarrow> nat set" where
  "free_frames s = {..<total_blocks s} - used_set s"

lemma free_frames_finite [simp]: "finite (free_frames s)"
  by (simp add: free_frames_def)

lemma free_frames_empty: "free_frames s = {} \<longleftrightarrow> used_set s = {..<total_blocks s}"
  using used_set_subset [of s] by (auto simp: free_frames_def)

lemma vmm_alloc_page_oom:
  assumes inv: "vmm_inv s" and full: "free_frames s = {}"
  shows "\<exists>s'. vmm_alloc_page v s = Inr (0, s') \<and> vmm_inv s' \<and> walk s' = walk s \<and> used_set s' = used_set s"
proof -
  obtain s' where "pmm_alloc_page s = Inr (0, s')" "pmm_ready s'" "pmm_step s s'" "used_set s' = used_set s"
    using pmm_ready_alloc [OF vmm_invD(1) [OF inv]] full by (auto simp: free_frames_empty)
  then show ?thesis using vmm_inv_pmm_step [OF inv] by (auto simp: vmm_alloc_page_def)
qed

lemma vmm_alloc_page_cases:
  assumes inv: "vmm_inv s" and v: "unat v mod 4096 = 0" and room: "free_frames s \<noteq> {}"
  obtains (panic) p where "\<not> pde_present s (pd_index v)" "page_frame p \<in> free_frames s"
      "{..<min 1024 (total_blocks s)} \<subseteq> insert (page_frame p) (used_set s)"
      "vmm_alloc_page v s = Inl (Panic ''VMM: cannot alloc page table (lowmem)'')"
    | (mapped) p s' T where "vmm_alloc_page v s = Inr (1, s')" "page_ptr p" "page_frame p \<in> free_frames s"
      "vmm_mapped v p s s'" "used_set s' = insert (page_frame p) (used_set s) \<union> T" "page_frame p \<notin> T"
      "T \<inter> used_set s = {}" "if pde_present s (pd_index v) then T = {} else \<exists>f < 1024. T = {f}"
proof -
  obtain p s1 where a: "pmm_alloc_page s = Inr (p, s1)" "pmm_ready s1" "pmm_step s s1" "page_ptr p"
      "page_frame p \<in> free_frames s" "used_set s1 = insert (page_frame p) (used_set s)"
    using pmm_ready_alloc [OF vmm_invD(1) [OF inv]] room [unfolded free_frames_empty]
    by (auto simp: free_frames_def)
  have inv1: "vmm_inv s1" and w1: "walk s1 = walk s" using vmm_inv_pmm_step [OF inv a(3,2)] a(6) by auto
  note f1 = pmm_step_vmm_fields [OF a(3)]
  have pr: "pde_present s1 i = pde_present s i" if "unat i < 1024" for i
    using tables_cong(2) [OF inv f1(1) pmm_step_fields(4) [OF a(3)] that] .
  have al: "unat p mod 4096 = 0" "p \<noteq> 0" using a(4) by (simp_all add: page_ptr_def)
  have tb: "total_blocks s1 = total_blocks s" by (rule pmm_step_fields(1) [OF a(3)])
  show ?thesis
  proof (cases "\<not> pde_present s1 (pd_index v) \<and> lowmem_full s1")
    case True
    then show ?thesis
      using vmm_map_spec [OF inv1 v al(1)] a tb pr al(2)
      by (intro panic [of p]) (simp_all add: vmm_alloc_page_def lowmem_full_def)
  next
    case False
    then obtain s' where s': "vmm_map v p s1 = Inr s'" "vmm_mapped v p s1 s'"
      and u: "if pde_present s1 (pd_index v) then used_set s' = used_set s1
        else \<exists>f. f < 1024 \<and> f \<notin> used_set s1 \<and> used_set s' = insert f (used_set s1)"
      using vmm_map_spec [OF inv1 v al(1)] by auto
    have "\<exists>T. used_set s' = used_set s1 \<union> T \<and> T \<inter> used_set s1 = {} \<and>
        (if pde_present s (pd_index v) then T = {} else \<exists>f < 1024. T = {f})"
    proof (cases "pde_present s (pd_index v)")
      case True
      then show ?thesis using u pr [of "pd_index v"] by simp
    next
      case no: False
      then obtain f where "f < 1024" "f \<notin> used_set s1" "used_set s' = insert f (used_set s1)"
        using u pr [of "pd_index v"] by auto
      then show ?thesis using no by (intro exI [of _ "{f}"]) simp
    qed
    then obtain T where T: "used_set s' = used_set s1 \<union> T" "T \<inter> used_set s1 = {}"
        "if pde_present s (pd_index v) then T = {} else \<exists>f < 1024. T = {f}" by blast
    have "vmm_same s s'"
      using s'(2) by (intro vmm_same_trans [OF pmm_step_same [OF a(3)]]) (simp add: vmm_mapped_def)
    then have "vmm_mapped v p s s'"
      using s'(2) unfolding vmm_mapped_def w1 f1(4) by (simp add: pr)
    then show ?thesis
      using a(1,4-6) s'(1) al(2) T by (intro mapped [of s' p T]) (auto simp: vmm_alloc_page_def)
  qed
qed

section \<open>The contract of page mapping\<close>

text \<open>
  \<open>alloc_at v\<close> backs the page at \<open>v\<close> with a frame of its own. \<open>covered s v\<close> says that the table for
  \<open>v\<close> exists; then an allocation at \<open>v\<close> succeeds as long as a frame is left, and leaves every other
  page as it was. A client that maps a run of covered pages gets each of them backed by a different
  frame.
\<close>

locale page_mapper =
  fixes ready :: "'s \<Rightarrow> bool"
    and trans :: "'s \<Rightarrow> u32 \<Rightarrow> u32 option"
    and avail :: "'s \<Rightarrow> nat set"
    and covered :: "'s \<Rightarrow> u32 \<Rightarrow> bool"
    and alloc_at :: "u32 \<Rightarrow> 's \<Rightarrow> (int \<times> 's) kres"
  assumes avail_finite: "finite (avail s)"
    and alloc_at_ok: "ready s \<Longrightarrow> covered s v \<Longrightarrow> unat v mod 4096 = 0 \<Longrightarrow> avail s \<noteq> {} \<Longrightarrow>
      \<exists>p s'. alloc_at v s = Inr (1, s') \<and> ready s' \<and> page_ptr p \<and> page_frame p \<in> avail s \<and>
        avail s' = avail s - {page_frame p} \<and> (\<forall>w. covered s w \<longrightarrow> covered s' w) \<and>
        trans s' = (\<lambda>va. if page_frame va = page_frame v then Some (p OR (va AND 0xFFF)) else trans s va)"
begin

lemma alloc_run:
  assumes "ready s" "\<forall>v \<in> set vs. covered s v \<and> unat v mod 4096 = 0" "distinct (map page_frame vs)"
    "length vs \<le> card (avail s)"
  shows "\<exists>ps s'. kfold (\<lambda>v s. kbind (alloc_at v s) (\<lambda>(r, s). if r = 0 then Inl e else Inr s)) vs s = Inr s' \<and>
    ready s' \<and> length ps = length vs \<and> distinct (map page_frame ps) \<and> (\<forall>p \<in> set ps. page_ptr p) \<and>
    page_frame ` set ps \<subseteq> avail s \<and> avail s' = avail s - page_frame ` set ps \<and>
    (\<forall>i < length vs. \<forall>va. page_frame va = page_frame (vs ! i) \<longrightarrow> trans s' va = Some (ps ! i OR (va AND 0xFFF))) \<and>
    (\<forall>va. page_frame va \<notin> page_frame ` set vs \<longrightarrow> trans s' va = trans s va)"
  using assms
proof (induction vs arbitrary: s)
  case (Cons v vs)
  have "avail s \<noteq> {}" using Cons.prems(4) by auto
  then obtain p s1 where p: "alloc_at v s = Inr (1, s1)" "ready s1" "page_ptr p" "page_frame p \<in> avail s"
      "avail s1 = avail s - {page_frame p}" "\<And>w. covered s w \<Longrightarrow> covered s1 w"
      "trans s1 = (\<lambda>va. if page_frame va = page_frame v then Some (p OR (va AND 0xFFF)) else trans s va)"
    using alloc_at_ok [OF Cons.prems(1), of v] Cons.prems(2) by auto
  have "length vs \<le> card (avail s1)"
    using Cons.prems(4) p(4,5) avail_finite [of s] by simp
  then obtain ps s' where ps: "kfold (\<lambda>v s. kbind (alloc_at v s) (\<lambda>(r, s). if r = 0 then Inl e else Inr s)) vs s1 = Inr s'"
      "ready s'" "length ps = length vs" "distinct (map page_frame ps)" "\<forall>p \<in> set ps. page_ptr p"
      "page_frame ` set ps \<subseteq> avail s1" "avail s' = avail s1 - page_frame ` set ps"
      "\<And>i va. i < length vs \<Longrightarrow> page_frame va = page_frame (vs ! i) \<Longrightarrow> trans s' va = Some (ps ! i OR (va AND 0xFFF))"
      "\<And>va. page_frame va \<notin> page_frame ` set vs \<Longrightarrow> trans s' va = trans s1 va"
    using Cons.IH [OF p(2)] p(6) Cons.prems(2,3) by auto
  have "trans s' va = Some ((p # ps) ! i OR (va AND 0xFFF))"
    if "i < length (v # vs)" "page_frame va = page_frame ((v # vs) ! i)" for i va
    using that ps(8,9) p(7) Cons.prems(3) by (cases i) auto
  moreover have "trans s' va = trans s va" if "page_frame va \<notin> page_frame ` set (v # vs)" for va
    using that ps(9) p(7) by auto
  moreover have "page_frame ` set (p # ps) \<subseteq> avail s" "avail s' = avail s - page_frame ` set (p # ps)"
    "distinct (map page_frame (p # ps))"
    using p(4,5) ps(4,6,7) by auto
  ultimately show ?case
    using p(1-3) ps(1-3,5) by (intro exI [of _ "p # ps"] exI [of _ s'] conjI) simp_all
qed simp

end

interpretation vmm_pages: page_mapper vmm_inv walk free_frames "\<lambda>s v. pde_present s (pd_index v)" vmm_alloc_page
proof
  fix s :: "'a vmm_state_scheme" and v :: u32
  show "finite (free_frames s)" by simp
  assume a: "vmm_inv s" "pde_present s (pd_index v)" "unat v mod 4096 = 0" "free_frames s \<noteq> {}"
  show "\<exists>p s'. vmm_alloc_page v s = Inr (1, s') \<and> vmm_inv s' \<and> page_ptr p \<and> page_frame p \<in> free_frames s \<and>
      free_frames s' = free_frames s - {page_frame p} \<and>
      (\<forall>w. pde_present s (pd_index w) \<longrightarrow> pde_present s' (pd_index w)) \<and>
      walk s' = (\<lambda>va. if page_frame va = page_frame v then Some (p OR (va AND 0xFFF)) else walk s va)"
    using a(2) by (cases rule: vmm_alloc_page_cases [OF a(1,3,4), case_names panic mapped])
      (auto simp: vmm_mapped_def vmm_same_def free_frames_def)
qed

section \<open>Properties\<close>

text \<open>
  A machine of 64 frames on which the frame manager has locked frame 0 and the page of its bitmap
  (frame 32), and the state in which \<^verbatim>\<open>vmm_init\<close> leaves it.
\<close>

definition sample_machine :: vmm_state where
  "sample_machine = \<lparr>con_log = [], phys = (\<lambda>_. 0)(0x20000 := 1, 0x20004 := 1), total_blocks = 64,
     used_blocks = 2, bitmap_size = 8, last_free_index = 0, last_free_index_low = 0,
     page_directory = 0, cr3 = 0, cr0 = 0x11, tlb = (\<lambda>_. None)\<rparr>"

lemma sample_machine_used: "used_set sample_machine = {0, 32}"
proof -
  have "frame_used sample_machine f \<longleftrightarrow> f = 0 \<or> f = 32" if f: "f < 64" for f
  proof -
    have "f div 8 < 8" using f by simp
    then have "(0x20000 :: u32) + of_nat (f div 8) = 0x20000 \<longleftrightarrow> f div 8 = 0"
      "(0x20000 :: u32) + of_nat (f div 8) = 0x20004 \<longleftrightarrow> f div 8 = 4"
      by (auto simp: word_unat_eq_iff unat_word_ariths dest: arg_cong [of _ _ unat])
    then show ?thesis
      by (auto simp: frame_used_def bitmap_byte_def sample_machine_def bit_1_iff)
  qed
  then show ?thesis by (auto simp: used_set_def sample_machine_def)
qed

lemma sample_machine_ready: "pmm_ready sample_machine" "bitmap_reserved sample_machine"
proof -
  show "pmm_ready sample_machine"
    by (simp add: pmm_ready_def pmm_inv_def sample_machine_used) (simp add: sample_machine_def)
  have "page_frame a = 32" if "unat (a - 0x20000) < 8" for a :: u32
    using that by (cases "unat a < 131072") (auto simp: page_frame_def unat_sub_if_size word_size)
  then show "bitmap_reserved sample_machine"
    by (simp add: bitmap_reserved_def in_bitmap_def sample_machine_used) (simp add: sample_machine_def)
qed

definition sample_paging :: vmm_state where
  "sample_paging = projr (vmm_init sample_machine)"

lemma sample_paging_init:
  "vmm_init sample_machine = Inr sample_paging" "vmm_inv sample_paging" "walk sample_paging = identity_4M"
  "tlb sample_paging = (\<lambda>_. None)" "total_blocks sample_paging = 64" "card (used_set sample_paging) = 4"
proof -
  let ?free = "{..<min 1024 (total_blocks sample_machine)} - used_set sample_machine"
  have n: "total_blocks sample_machine = 64" by (simp add: sample_machine_def)
  have "card ?free = 62" by (simp add: n sample_machine_used card_Diff_subset)
  then obtain s' f g where *: "vmm_init sample_machine = Inr s'" "vmm_inv s'" "walk s' = identity_4M"
      "tlb s' = (\<lambda>_. None)" "total_blocks s' = 64" "f \<in> ?free" "g \<in> ?free" "f \<noteq> g"
      "used_set s' = used_set sample_machine \<union> {f, g}"
    using vmm_init_spec [OF sample_machine_ready refl] n by auto
  moreover have "card (used_set s') = 4" using * by (auto simp: sample_machine_used)
  ultimately show "vmm_init sample_machine = Inr sample_paging" "vmm_inv sample_paging" "walk sample_paging = identity_4M"
    "tlb sample_paging = (\<lambda>_. None)" "total_blocks sample_paging = 64" "card (used_set sample_paging) = 4"
    by (simp_all add: sample_paging_def)
qed

lemma sample_paging_room: "\<not> lowmem_full sample_paging" "free_frames sample_paging \<noteq> {}"
proof -
  have "{..<64} \<subseteq> used_set sample_paging \<Longrightarrow> 64 \<le> card (used_set sample_paging)"
    using card_mono [of "used_set sample_paging" "{..<64}"] by simp
  then show "\<not> lowmem_full sample_paging" "free_frames sample_paging \<noteq> {}"
    using sample_paging_init(5,6) by (auto simp: lowmem_full_def free_frames_def)
qed

text \<open>
  C7. Mapping \<open>v\<close> to \<open>p\<close> with \<^verbatim>\<open>vmm_map\<close> makes the processor translate every address of that page
  to the same offset of \<open>p\<close> and leaves the translation of every other page unchanged, also when a
  page table had to be created. The page tables stay well formed and disjoint from the frame bitmap,
  and cached translations stay coherent. The call fails exactly when one of the addresses is not page
  aligned or when a new page table is needed and all frames below 4 MiB are taken; each failure is a
  panic with its own message.
\<close>

theorem vmm_map_exact:
  assumes "vmm_inv s"
  shows "if unat v mod 4096 \<noteq> 0 then vmm_map v p s = Inl (Panic ''VMM: vmm_map vaddr not page-aligned'')
    else if unat p mod 4096 \<noteq> 0 then vmm_map v p s = Inl (Panic ''VMM: vmm_map paddr not page-aligned'')
    else if \<not> pde_present s (pd_index v) \<and> lowmem_full s
      then vmm_map v p s = Inl (Panic ''VMM: cannot alloc page table (lowmem)'')
    else \<exists>s'. vmm_map v p s = Inr s' \<and> vmm_inv s' \<and>
      (\<forall>va. walk s' va = (if page_frame va = page_frame v then Some (p OR (va AND 0xFFF)) else walk s va)) \<and>
      (tlb_coherent s \<longrightarrow> tlb_coherent s')"
proof (cases "unat v mod 4096 = 0 \<and> unat p mod 4096 = 0")
  case True
  then have al: "unat v mod 4096 = 0" "unat p mod 4096 = 0" by simp_all
  show ?thesis
  proof (cases "\<not> pde_present s (pd_index v) \<and> lowmem_full s")
    case False
    obtain s' where s': "vmm_map v p s = Inr s'" "vmm_mapped v p s s'"
      using vmm_map_spec [OF assms al] False by auto
    then have w: "walk s' = (\<lambda>va. if page_frame va = page_frame v then Some (p OR (va AND 0xFFF)) else walk s va)"
      and t: "tlb s' = (tlb s)(drop_bit 12 v := None)"
      by (simp_all add: vmm_mapped_def)
    have "tlb_coherent s'" if "tlb_coherent s"
      using that by (auto simp: tlb_coherent_def w t page_number_iff split: if_splits)
    then show ?thesis using al False s' w by (auto simp: vmm_mapped_def)
  qed (use vmm_map_spec [OF assms al] al in simp)
qed (auto simp: vmm_map_def page_offset_iff)

theorem vmm_map_exact_witness:
  "\<exists>s'. vmm_map 0x400000 0x5000 sample_paging = Inr s' \<and> walk s' 0x400123 = Some 0x5123 \<and>
    walk s' 0x123 = Some 0x123 \<and> walk s' 0x401000 = None \<and> tlb_coherent s' \<and>
    vmm_map 0x400001 0x5000 sample_paging = Inl (Panic ''VMM: vmm_map vaddr not page-aligned'') \<and>
    vmm_map 0x400000 0x5008 sample_paging = Inl (Panic ''VMM: vmm_map paddr not page-aligned'')"
proof -
  have "tlb_coherent sample_paging" by (simp add: tlb_coherent_def sample_paging_init(4))
  then show ?thesis
    using vmm_map_exact [OF sample_paging_init(2), of "0x400000" "0x5000"] sample_paging_room(1)
      vmm_map_exact [OF sample_paging_init(2), of "0x400001" "0x5000"] vmm_map_exact [OF sample_paging_init(2), of "0x400000" "0x5008"]
    by (auto simp: sample_paging_init(3) identity_4M_def page_frame_def)
qed

text \<open>
  C11. With at least two free frames below 4 MiB, \<^verbatim>\<open>vmm_init\<close> turns paging on with a directory that
  maps exactly the first 4 MiB, each address to itself: directory and table are the only two frames
  it takes, and the well-formedness of the tables holds from then on. With fewer it panics.
\<close>

theorem vmm_init_identity:
  assumes "pmm_ready s" "bitmap_reserved s" "free = {..<min 1024 (total_blocks s)} - used_set s"
  shows "if card free < 2 then \<exists>e. vmm_init s = Inl (Panic e)
    else \<exists>s'. vmm_init s = Inr s' \<and> vmm_inv s' \<and>
      (\<forall>va. walk s' va = (if unat va < 0x400000 then Some va else None)) \<and>
      tlb_coherent s' \<and> cr3 s' = page_directory s' \<and> bit (cr0 s') 31 \<and>
      (\<exists>f g. f \<in> free \<and> g \<in> free \<and> f \<noteq> g \<and> used_set s' = used_set s \<union> {f, g})"
proof -
  have "bit (w OR 0x80000000) 31" for w :: u32 by (simp add: bit_or_iff)
  then show ?thesis
    using vmm_init_spec [OF assms] by (fastforce simp: identity_4M_def tlb_coherent_def)
qed

theorem vmm_init_identity_witness:
  "\<exists>s'. vmm_init sample_machine = Inr s' \<and> vmm_inv s' \<and> walk s' 0xB8000 = Some 0xB8000 \<and> walk s' 0xD0000000 = None"
proof -
  let ?free = "{..<min 1024 (total_blocks sample_machine)} - used_set sample_machine"
  have "card ?free = 62"
    by (simp add: sample_machine_used card_Diff_subset) (simp add: sample_machine_def)
  then show ?thesis using vmm_init_identity [OF sample_machine_ready refl] by auto
qed

text \<open>
  \<^verbatim>\<open>vmm_alloc_page\<close> either reports failure and changes no translation, which happens exactly when
  no frame is left, or backs the page with a frame that was free and is not the one its new page
  table takes, changing no other page; the remaining outcome is the panic for a missing page table
  when the frame it took was the last one below 4 MiB.
\<close>

theorem vmm_alloc_page_backs:
  assumes "vmm_inv s" "unat v mod 4096 = 0"
  shows "(if used_set s = {..<total_blocks s}
     then \<exists>s'. vmm_alloc_page v s = Inr (0, s') \<and> vmm_inv s' \<and> walk s' = walk s \<and> used_set s' = used_set s
     else (vmm_alloc_page v s = Inl (Panic ''VMM: cannot alloc page table (lowmem)'') \<and>
        \<not> pde_present s (pd_index v) \<and> card ({..<min 1024 (total_blocks s)} - used_set s) \<le> 1) \<or>
      (\<exists>p s' T. vmm_alloc_page v s = Inr (1, s') \<and> vmm_inv s' \<and> page_ptr p \<and> page_frame p \<notin> used_set s \<union> T \<and>
        used_set s' = used_set s \<union> {page_frame p} \<union> T \<and> T \<inter> used_set s = {} \<and> card T \<le> 1 \<and>
        (\<forall>va. walk s' va = (if page_frame va = page_frame v then Some (p OR (va AND 0xFFF)) else walk s va))))"
proof (cases "free_frames s = {}")
  case True
  then show ?thesis using vmm_alloc_page_oom [OF assms(1)] by (simp add: free_frames_empty)
next
  case False
  note nf = False [unfolded free_frames_empty]
  from assms False show ?thesis
  proof (cases rule: vmm_alloc_page_cases)
    case (panic p)
    then have "{..<min 1024 (total_blocks s)} - used_set s \<subseteq> {page_frame p}" by auto
    then have "card ({..<min 1024 (total_blocks s)} - used_set s) \<le> 1"
      using card_mono [of "{page_frame p}"] by fastforce
    then show ?thesis using panic nf by simp
  next
    case (mapped p s' T)
    have "card T \<le> 1" using mapped(8) by (auto split: if_splits)
    then show ?thesis
      using mapped(1-7) nf
      by (intro if_not_P [THEN iffD2, OF nf] disjI2 exI [of _ p] exI [of _ s'] exI [of _ T])
        (auto simp: vmm_mapped_def free_frames_def)
  qed
qed

theorem vmm_alloc_page_backs_witness:
  "\<exists>p s'. vmm_alloc_page 0xD0000000 sample_paging = Inr (1, s') \<and> walk s' 0xD0000010 = Some (p OR 0x10) \<and>
    page_frame p \<notin> used_set sample_paging"
proof -
  have "{..<64} - used_set sample_paging \<subseteq> {..<64}" "card {..<64::nat} = 64" by auto
  moreover have "64 - 4 \<le> card ({..<64} - used_set sample_paging)"
    using diff_card_le_card_Diff [of "used_set sample_paging" "{..<64}"] sample_paging_init(6) by simp
  ultimately show ?thesis
    using vmm_alloc_page_backs [OF sample_paging_init(2), of "0xD0000000"] sample_paging_room(2)
    by (auto simp: sample_paging_init(5) free_frames_empty page_frame_def)
qed

end
