(* ===== verification/Heap.thy ===== *)
theory Heap
  imports VMM_Spec
begin

text \<open>
  The kernel heap (\<^verbatim>\<open>src/kernel/core/heap.c\<close>, \<^verbatim>\<open>heap.h\<close>). Block headers are bytes of the heap
  memory, laid out as the i386 ABI lays out \<^verbatim>\<open>HeapHeader\<close> (20 bytes: size at 0, the free flag at 4,
  magic at 8, next at 12, prev at 16). \<open>heap_mem\<close> is the memory as the kernel sees it at virtual
  addresses from \<^verbatim>\<open>HEAP_START_ADDR\<close> on; \<^verbatim>\<open>heap_init\<close> backs each of its pages with a frame of its own.
  The walk along the block list is a partial function: \<open>None\<close> is a walk that never ends.
\<close>

section \<open>Model\<close>

record heap_state = vmm_state +
  start_header :: u32
  heap_mem :: mem

abbreviation HEAP_MAGIC :: u32 where
  "HEAP_MAGIC \<equiv> 0xDEADBEEF"

abbreviation HEAP_START_ADDR :: u32 where
  "HEAP_START_ADDR \<equiv> 0xD0000000"

abbreviation HEAP_INITIAL_SIZE :: u32 where
  "HEAP_INITIAL_SIZE \<equiv> 0x100000"

abbreviation sizeof_HeapHeader :: u32 where
  "sizeof_HeapHeader \<equiv> 20"

record heap_header =
  h_size :: u32
  h_is_free :: u8
  h_magic :: u32
  h_next :: u32
  h_prev :: u32

definition hdr :: "mem \<Rightarrow> u32 \<Rightarrow> heap_header" where
  "hdr m p = \<lparr>h_size = read32 m p, h_is_free = m (p + 4), h_magic = read32 m (p + 8),
     h_next = read32 m (p + 12), h_prev = read32 m (p + 16)\<rparr>"

definition set_size :: "u32 \<Rightarrow> u32 \<Rightarrow> mem \<Rightarrow> mem" where
  "set_size p v m = write32 m p v"

definition set_is_free :: "u32 \<Rightarrow> u8 \<Rightarrow> mem \<Rightarrow> mem" where
  "set_is_free p v m = m(p + 4 := v)"

definition set_magic :: "u32 \<Rightarrow> u32 \<Rightarrow> mem \<Rightarrow> mem" where
  "set_magic p v m = write32 m (p + 8) v"

definition set_next :: "u32 \<Rightarrow> u32 \<Rightarrow> mem \<Rightarrow> mem" where
  "set_next p v m = write32 m (p + 12) v"

definition set_prev :: "u32 \<Rightarrow> u32 \<Rightarrow> mem \<Rightarrow> mem" where
  "set_prev p v m = write32 m (p + 16) v"

definition heap_map_page :: "u32 \<Rightarrow> 'a heap_state_scheme \<Rightarrow> 'a heap_state_scheme kres" where
  "heap_map_page addr s = kbind (vmm_alloc_page addr s) (\<lambda>(r, s).
     if r = 0 then Inl (Panic ''HEAP: vmm_alloc_page failed during heap_init()'') else Inr s)"

definition heap_pages :: "u32 list" where
  "heap_pages = map (\<lambda>i. HEAP_START_ADDR + 4096 * of_nat i) [0..<unat HEAP_INITIAL_SIZE div 4096]"

definition heap_init :: "'a heap_state_scheme \<Rightarrow> 'a heap_state_scheme kres" where
  "heap_init s =
     kbind (kfold heap_map_page heap_pages s) (\<lambda>s.
       let h = HEAP_START_ADDR;
           m = set_size h (HEAP_INITIAL_SIZE - sizeof_HeapHeader) (heap_mem s);
           m = set_is_free h 1 m;
           m = set_magic h HEAP_MAGIC m;
           m = set_next h 0 m;
           m = set_prev h 0 m
       in Inr (s\<lparr>start_header := h, heap_mem := m\<rparr>))"

text \<open>
  The search loop of \<^verbatim>\<open>kmalloc\<close>: the first block that fits, 0 at the end of the list, or the panic on
  a damaged header.
\<close>

partial_function (option) kmalloc_find :: "mem \<Rightarrow> u32 \<Rightarrow> u32 \<Rightarrow> u32 kres option" where
  "kmalloc_find m sz cur =
     (if cur = 0 then Some (Inr 0)
      else if h_magic (hdr m cur) \<noteq> HEAP_MAGIC then Some (Inl (Panic ''Heap Corruption Detected during Malloc!''))
      else if h_is_free (hdr m cur) \<noteq> 0 \<and> h_size (hdr m cur) \<ge> sz then Some (Inr cur)
      else kmalloc_find m sz (h_next (hdr m cur)))"

definition kmalloc_split :: "u32 \<Rightarrow> u32 \<Rightarrow> mem \<Rightarrow> mem kres" where
  "kmalloc_split cur sz m =
     (if h_size (hdr m cur) > sz + sizeof_HeapHeader + 4 then
        let new_block = cur + sizeof_HeapHeader + sz;
            heap_end = HEAP_START_ADDR + HEAP_INITIAL_SIZE
        in if new_block \<ge> heap_end then Inl (Panic ''HEAP: split block out of bounds'')
           else
             let m = set_size new_block (h_size (hdr m cur) - sz - sizeof_HeapHeader) m;
                 m = set_is_free new_block 1 m;
                 m = set_magic new_block HEAP_MAGIC m;
                 m = set_next new_block (h_next (hdr m cur)) m;
                 m = set_prev new_block cur m;
                 m = (if h_next (hdr m cur) \<noteq> 0 then set_prev (h_next (hdr m cur)) new_block m else m);
                 m = set_next cur new_block m;
                 m = set_size cur sz m
             in Inr m
      else Inr m)"

definition kmalloc :: "u32 \<Rightarrow> 'a heap_state_scheme \<Rightarrow> (u32 \<times> 'a heap_state_scheme) kres" where
  "kmalloc sz s =
     (if start_header s = 0 then Inl (Panic ''HEAP: kmalloc called before heap_init()'')
      else if sz = 0 then Inr (0, s)
      else if sz > HEAP_INITIAL_SIZE - sizeof_HeapHeader then Inr (0, s)
      else let sz = (if sz mod 4 \<noteq> 0 then sz + (4 - sz mod 4) else sz) in
        case kmalloc_find (heap_mem s) sz (start_header s) of
          None \<Rightarrow> Inl Hang
        | Some r \<Rightarrow> kbind r (\<lambda>cur.
            if cur = 0 then Inr (0, s)
            else kbind (kmalloc_split cur sz (heap_mem s)) (\<lambda>m.
              Inr (cur + sizeof_HeapHeader, s\<lparr>heap_mem := set_is_free cur 0 m\<rparr>))))"

definition kfree_coalesce_right :: "u32 \<Rightarrow> mem \<Rightarrow> mem" where
  "kfree_coalesce_right h m =
     (let n = h_next (hdr m h) in
      if n \<noteq> 0 \<and> h_is_free (hdr m n) \<noteq> 0 then
        let m = set_size h (h_size (hdr m h) + (sizeof_HeapHeader + h_size (hdr m n))) m;
            m = set_next h (h_next (hdr m (h_next (hdr m h)))) m
        in if h_next (hdr m h) \<noteq> 0 then set_prev (h_next (hdr m h)) h m else m
      else m)"

definition kfree_coalesce_left :: "u32 \<Rightarrow> mem \<Rightarrow> mem" where
  "kfree_coalesce_left h m =
     (let p = h_prev (hdr m h) in
      if p \<noteq> 0 \<and> h_is_free (hdr m p) \<noteq> 0 then
        let m = set_size p (h_size (hdr m p) + (sizeof_HeapHeader + h_size (hdr m h))) m;
            m = set_next p (h_next (hdr m h)) m
        in if h_next (hdr m h) \<noteq> 0 then set_prev (h_next (hdr m h)) (h_prev (hdr m h)) m else m
      else m)"

definition kfree :: "u32 \<Rightarrow> 'a heap_state_scheme \<Rightarrow> 'a heap_state_scheme kres" where
  "kfree ptr s =
     (if ptr = 0 then Inr s
      else if start_header s = 0 then Inl (Panic ''HEAP: kfree called before heap_init()'')
      else let h = ptr - sizeof_HeapHeader in
        if h_magic (hdr (heap_mem s) h) \<noteq> HEAP_MAGIC then Inl (Panic ''Heap Corruption Detected during Free!'')
        else if h_is_free (hdr (heap_mem s) h) \<noteq> 0 then Inl (Panic ''HEAP: Double free detected'')
        else Inr (s\<lparr>heap_mem := kfree_coalesce_left h (kfree_coalesce_right h (set_is_free h 1 (heap_mem s)))\<rparr>))"

section \<open>Header fields\<close>

definition hdr_bytes :: "u32 \<Rightarrow> u32 set" where
  "hdr_bytes p = {a. unat (a - p) < 20}"

lemma field_offset:
  fixes i k :: u32
  assumes "unat i \<le> 16" "k < 4"
  shows "unat (i + k) = unat i + unat k" "unat (i + k) < 20"
  using assms by (simp_all add: word_less_nat_alt unat_plus_if_size word_size)

lemma field_disjoint:
  fixes p i j :: u32
  assumes "unat i \<le> 16" "unat j \<le> 16" "unat i + 4 \<le> unat j \<or> unat j + 4 \<le> unat i"
  shows "read32 (write32 m (p + i) v) (p + j) = read32 m (p + j)"
proof (rule read32_cong)
  fix k :: u32 assume k: "k < 4"
  show "write32 m (p + i) v (p + j + k) = m (p + j + k)"
  proof (rule write32_outside)
    fix l :: u32 assume l: "l < 4"
    have "unat (j + k) \<noteq> unat (i + l)"
      using assms field_offset(1) [OF assms(2) k] field_offset(1) [OF assms(1) l] k l
      by (auto simp: word_less_nat_alt)
    then show "p + j + k \<noteq> p + i + l" by (auto simp: add.assoc)
  qed
qed

lemma hdr_set [simp]:
  "hdr (set_size p v m) p = (hdr m p)\<lparr>h_size := v\<rparr>"
  "hdr (set_is_free p b m) p = (hdr m p)\<lparr>h_is_free := b\<rparr>"
  "hdr (set_magic p v m) p = (hdr m p)\<lparr>h_magic := v\<rparr>"
  "hdr (set_next p v m) p = (hdr m p)\<lparr>h_next := v\<rparr>"
  "hdr (set_prev p v m) p = (hdr m p)\<lparr>h_prev := v\<rparr>"
proof -
  have far: "read32 (write32 m (p + i) v) (p + j) = read32 m (p + j)"
    if "unat i \<le> 16" "unat j \<le> 16" "unat i + 4 \<le> unat j \<or> unat j + 4 \<le> unat i" for i j
    using that by (rule field_disjoint)
  note f = far [of 0 8, simplified] far [of 0 12, simplified] far [of 0 16, simplified]
    far [of 8 0, simplified] far [of 8 12, simplified] far [of 8 16, simplified]
    far [of 12 0, simplified] far [of 12 8, simplified] far [of 12 16, simplified]
    far [of 16 0, simplified] far [of 16 8, simplified] far [of 16 12, simplified]
  have b: "write32 m p v (p + 4) = m (p + 4)" "write32 m (p + 8) v (p + 4) = m (p + 4)"
    "write32 m (p + 12) v (p + 4) = m (p + 4)" "write32 m (p + 16) v (p + 4) = m (p + 4)"
    by (auto simp: write32_def add.assoc)
  have r: "read32 (m(p + 4 := b)) p = read32 m p" "read32 (m(p + 4 := b)) (p + 8) = read32 m (p + 8)"
    "read32 (m(p + 4 := b)) (p + 12) = read32 m (p + 12)" "read32 (m(p + 4 := b)) (p + 16) = read32 m (p + 16)"
    by (simp_all add: read32_def add.assoc)
  show "hdr (set_size p v m) p = (hdr m p)\<lparr>h_size := v\<rparr>"
    "hdr (set_magic p v m) p = (hdr m p)\<lparr>h_magic := v\<rparr>"
    "hdr (set_next p v m) p = (hdr m p)\<lparr>h_next := v\<rparr>"
    "hdr (set_prev p v m) p = (hdr m p)\<lparr>h_prev := v\<rparr>"
    by (simp_all add: hdr_def set_size_def set_magic_def set_next_def set_prev_def f b)
  show "hdr (set_is_free p b m) p = (hdr m p)\<lparr>h_is_free := b\<rparr>"
    using r by (simp add: hdr_def set_is_free_def)
qed

lemma set_outside:
  assumes "a \<notin> hdr_bytes p"
  shows "set_size p v m a = m a" "set_is_free p b m a = m a" "set_magic p v m a = m a"
    "set_next p v m a = m a" "set_prev p v m a = m a"
proof -
  have *: "a \<noteq> p + k" if "unat k < 20" for k using assms that by (auto simp: hdr_bytes_def)
  have w: "write32 m (p + k) v a = m a" if "unat k \<le> 16" for k
  proof (rule write32_outside)
    fix j :: u32 assume "j < 4"
    from field_offset(2) [OF that this] have "unat (k + j) < 20" .
    from * [OF this] show "a \<noteq> p + k + j" by (simp add: add.assoc)
  qed
  show "set_size p v m a = m a" "set_magic p v m a = m a" "set_next p v m a = m a" "set_prev p v m a = m a"
    using w [of 0] w [of 8] w [of 12] w [of 16]
    by (simp_all add: set_size_def set_magic_def set_next_def set_prev_def)
  show "set_is_free p b m a = m a" using * [of 4] by (simp add: set_is_free_def)
qed

lemma hdr_cong:
  assumes "\<And>a. a \<in> hdr_bytes p \<Longrightarrow> m a = m' a"
  shows "hdr m p = hdr m' p"
proof -
  have k: "m (p + k) = m' (p + k)" if "unat k < 20" for k using that assms by (auto simp: hdr_bytes_def)
  have "read32 m (p + k) = read32 m' (p + k)" if "unat k \<le> 16" for k
  proof (rule read32_cong)
    fix j :: u32 assume "j < 4"
    from field_offset(2) [OF that this] have "unat (k + j) < 20" .
    from k [OF this] show "m (p + k + j) = m' (p + k + j)" by (simp add: add.assoc)
  qed
  from this [of 0] this [of 8] this [of 12] this [of 16] show ?thesis
    using k [of 4] by (simp add: hdr_def)
qed

lemma hdr_set_far:
  assumes "hdr_bytes p \<inter> hdr_bytes q = {}"
  shows "hdr (set_size p v m) q = hdr m q" "hdr (set_is_free p b m) q = hdr m q"
    "hdr (set_magic p v m) q = hdr m q" "hdr (set_next p v m) q = hdr m q" "hdr (set_prev p v m) q = hdr m q"
  using assms by (auto intro!: hdr_cong set_outside)

lemma hdr_bytes_iff:
  assumes "a + 20 \<le> 4294967296"
  shows "x \<in> hdr_bytes (of_nat a) \<longleftrightarrow> a \<le> unat x \<and> unat x < a + 20"
  using assms unat_u32_less [of x] by (auto simp: hdr_bytes_def unat_sub_if_size word_size)

end
