(* ===== verification/Heap_Blocks.thy ===== *)
theory Heap_Blocks
  imports Heap
begin

text \<open>
  The abstract heap: the list of blocks in address order, each with its payload size and whether it
  is free. First-fit allocation and release with full coalescing are functions on such lists; \<open>seg\<close>
  says how a list is laid out in memory as a doubly linked chain of headers.
\<close>

section \<open>Abstract heap\<close>

type_synonym hblock = "nat \<times> bool"

fun span :: "hblock list \<Rightarrow> nat" where
  "span [] = 0"
| "span ((z, f) # bs) = 20 + z + span bs"

fun no_adjacent_free :: "hblock list \<Rightarrow> bool" where
  "no_adjacent_free [] = True"
| "no_adjacent_free [b] = True"
| "no_adjacent_free (b # c # bs) = (\<not> (snd b \<and> snd c) \<and> no_adjacent_free (c # bs))"

definition heap_wf :: "hblock list \<Rightarrow> bool" where
  "heap_wf bs \<longleftrightarrow> span bs = 0x100000 \<and> (\<forall>(z, f) \<in> set bs. 4 dvd z \<and> 4 \<le> z) \<and> no_adjacent_free bs"

fun first_fit :: "nat \<Rightarrow> nat \<Rightarrow> hblock list \<Rightarrow> nat option" where
  "first_fit n a [] = None"
| "first_fit n a ((z, f) # bs) = (if f \<and> n \<le> z then Some a else first_fit n (a + 20 + z) bs)"

fun alloc_blocks :: "nat \<Rightarrow> hblock list \<Rightarrow> hblock list" where
  "alloc_blocks n [] = []"
| "alloc_blocks n ((z, f) # bs) =
     (if f \<and> n \<le> z then if z > n + 24 then (n, False) # (z - n - 20, True) # bs else (z, False) # bs
      else (z, f) # alloc_blocks n bs)"

fun mark_free :: "nat \<Rightarrow> nat \<Rightarrow> hblock list \<Rightarrow> hblock list" where
  "mark_free h a [] = []"
| "mark_free h a ((z, f) # bs) = (if a = h then (z, True) # bs else (z, f) # mark_free h (a + 20 + z) bs)"

fun coalesce :: "hblock list \<Rightarrow> hblock list" where
  "coalesce ((z, True) # (z', True) # bs) = coalesce ((z + 20 + z', True) # bs)"
| "coalesce (b # bs) = b # coalesce bs"
| "coalesce [] = []"

text \<open>The payloads of the blocks in use, with their addresses.\<close>

fun payloads :: "nat \<Rightarrow> hblock list \<Rightarrow> (nat \<times> nat) list" where
  "payloads a [] = []"
| "payloads a ((z, f) # bs) = (if f then [] else [(a + 20, z)]) @ payloads (a + 20 + z) bs"

lemma span_append [simp]: "span (xs @ ys) = span xs + span ys"
  by (induction xs rule: span.induct) auto

lemma payloads_append [simp]: "payloads a (xs @ ys) = payloads a xs @ payloads (a + span xs) ys"
  by (induction xs arbitrary: a rule: span.induct) (auto simp: add.assoc)

lemma payloads_range: "(p, z) \<in> set (payloads a bs) \<Longrightarrow> a + 20 \<le> p \<and> p + z \<le> a + span bs"
  by (induction bs arbitrary: a rule: span.induct) (fastforce split: if_splits)+

lemma payloads_disjoint:
  assumes "(p, z) \<in> set (payloads a bs)" "(p', z') \<in> set (payloads a bs)"
  shows "(p, z) = (p', z') \<or> p + z \<le> p' \<or> p' + z' \<le> p"
  using assms
proof (induction bs arbitrary: a rule: span.induct)
  case (2 w f bs)
  then show ?case using payloads_range [of _ _ "a + 20 + w" bs] by (auto split: if_splits; fastforce)
qed simp

lemma payloads_split:
  "(p, z) \<in> set (payloads a bs) \<longleftrightarrow> (\<exists>xs ys. bs = xs @ (z, False) # ys \<and> p = a + span xs + 20)"
proof (induction bs arbitrary: a rule: span.induct)
  case (2 w f bs)
  show ?case (is "?l \<longleftrightarrow> ?r")
  proof
    assume ?l
    then consider "\<not> f" "p = a + 20" "z = w" | "(p, z) \<in> set (payloads (a + 20 + w) bs)"
      by (auto split: if_splits)
    then show ?r
    proof cases
      case 1
      then show ?thesis by (intro exI [of _ "[]"] exI [of _ bs]) auto
    next
      case 2
      with "2.IH" obtain xs ys where "bs = xs @ (z, False) # ys" "p = a + 20 + w + span xs + 20" by blast
      then show ?thesis by (intro exI [of _ "(w, f) # xs"] exI [of _ ys]) auto
    qed
  next
    assume ?r
    then obtain xs ys where r: "(w, f) # bs = xs @ (z, False) # ys" "p = a + span xs + 20" by blast
    then show ?l using "2.IH" [of "a + 20 + w"] by (cases xs) auto
  qed
qed simp

lemma no_adjacent_free_Cons:
  "no_adjacent_free (b # bs) \<longleftrightarrow> no_adjacent_free bs \<and> \<not> (bs \<noteq> [] \<and> snd b \<and> snd (hd bs))"
  by (cases bs) auto

lemma no_adjacent_free_append:
  "no_adjacent_free (xs @ ys) \<longleftrightarrow> no_adjacent_free xs \<and> no_adjacent_free ys \<and>
     \<not> (xs \<noteq> [] \<and> ys \<noteq> [] \<and> snd (last xs) \<and> snd (hd ys))"
  by (induction xs) (auto simp: no_adjacent_free_Cons)

section \<open>Allocation on lists\<close>

lemma first_fit_cases:
  assumes "first_fit n a bs = r"
  obtains (none) "r = None" "\<forall>(z, f) \<in> set bs. \<not> (f \<and> n \<le> z)"
    | (fit) xs z ys where "bs = xs @ (z, True) # ys" "n \<le> z" "r = Some (a + span xs)"
      "\<forall>(z, f) \<in> set xs. \<not> (f \<and> n \<le> z)"
      "alloc_blocks n bs = xs @ (if z > n + 24 then [(n, False), (z - n - 20, True)] else [(z, False)]) @ ys"
proof -
  have "(r = None \<and> (\<forall>(z, f) \<in> set bs. \<not> (f \<and> n \<le> z))) \<or>
      (\<exists>xs z ys. bs = xs @ (z, True) # ys \<and> n \<le> z \<and> r = Some (a + span xs) \<and>
         (\<forall>(z, f) \<in> set xs. \<not> (f \<and> n \<le> z)) \<and>
         alloc_blocks n bs = xs @ (if z > n + 24 then [(n, False), (z - n - 20, True)] else [(z, False)]) @ ys)"
    using assms
  proof (induction bs arbitrary: a rule: span.induct)
    case (2 w f bs)
    show ?case
    proof (cases "f \<and> n \<le> w")
      case True
      then show ?thesis using 2(2) by (intro disjI2 exI [of _ "[]"] exI [of _ w] exI [of _ bs]) auto
    next
      case False
      with 2(2) have "first_fit n (a + 20 + w) bs = r" by (auto split: if_splits)
      from "2.IH" [OF this] show ?thesis
      proof (elim disjE exE conjE, goal_cases)
        case 1
        then show ?case using False by auto
      next
        case (2 xs z ys)
        then show ?case using False
          by (intro disjI2 exI [of _ "(w, f) # xs"] exI [of _ z] exI [of _ ys] conjI) auto
      qed
    qed
  qed auto
  then show thesis using none fit by blast
qed

lemma alloc_blocks_none: "\<forall>(z, f) \<in> set bs. \<not> (f \<and> n \<le> z) \<Longrightarrow> alloc_blocks n bs = bs"
  by (induction bs rule: span.induct) auto

lemma alloc_blocks_wf:
  assumes "heap_wf bs" "4 dvd n" "4 \<le> n"
  shows "heap_wf (alloc_blocks n bs)"
proof (cases rule: first_fit_cases [OF refl, of n 0 bs, case_names none fit])
  case none
  then show ?thesis using assms(1) alloc_blocks_none by simp
next
  case (fit xs z ys)
  have "4 dvd z" using assms(1) fit(1) by (auto simp: heap_wf_def)
  then have "4 dvd (z - n - 20)" "4 \<le> z - n - 20" if "z > n + 24"
    using that assms(2) by (auto intro!: dvd_diff_nat)
  then show ?thesis
    unfolding fit(5) using assms fit(1,2)
    by (auto simp: heap_wf_def no_adjacent_free_append no_adjacent_free_Cons)
qed

section \<open>Release on lists\<close>

definition join_right :: "nat \<Rightarrow> hblock list \<Rightarrow> hblock list" where
  "join_right z ys = (case ys of (z', True) # r \<Rightarrow> (z + 20 + z', True) # r | _ \<Rightarrow> (z, True) # ys)"

lemma join_right_simps [simp]:
  "join_right z [] = [(z, True)]"
  "join_right z ((z', False) # r) = (z, True) # (z', False) # r"
  "join_right z ((z', True) # r) = (z + 20 + z', True) # r"
  by (simp_all add: join_right_def)

lemma mark_free_split: "mark_free (a + span xs) a (xs @ (z, f) # ys) = xs @ (z, True) # ys"
proof (induction xs arbitrary: a rule: span.induct)
  case (2 w g xs)
  then show ?case using "2" [of "a + 20 + w"] by (simp add: add.assoc)
qed simp

lemma coalesce_id: "no_adjacent_free bs \<Longrightarrow> coalesce bs = bs"
  by (induction bs rule: coalesce.induct) (auto simp: no_adjacent_free_Cons)

lemma coalesce_right:
  assumes "no_adjacent_free ys"
  shows "coalesce ((z, True) # ys) = join_right z ys"
proof (cases "ys \<noteq> [] \<and> snd (hd ys)")
  case True
  then obtain w r where ys: "ys = (w, True) # r" by (cases ys) auto
  then have "no_adjacent_free ((z + 20 + w, True) # r)"
    using assms by (simp add: no_adjacent_free_Cons)
  then show ?thesis using ys coalesce_id by simp
next
  case False
  then have "no_adjacent_free ((z, True) # ys)" using assms by (auto simp: no_adjacent_free_Cons)
  moreover have "join_right z ys = (z, True) # ys"
    using False by (cases ys) (auto simp: join_right_def split: bool.splits)
  ultimately show ?thesis by (simp add: coalesce_id)
qed

lemma coalesce_prefix:
  "no_adjacent_free xs \<Longrightarrow> \<not> (xs \<noteq> [] \<and> snd (last xs)) \<Longrightarrow> coalesce (xs @ bs) = xs @ coalesce bs"
proof (induction xs)
  case (Cons x xs)
  then have IH: "coalesce (xs @ bs) = xs @ coalesce bs"
    by (cases xs) (auto simp: no_adjacent_free_Cons)
  show ?case
  proof (cases x)
    case (Pair z f)
    have "coalesce (x # xs @ bs) = x # coalesce (xs @ bs)"
      using Cons.prems Pair by (cases f; cases xs) (auto simp: no_adjacent_free_Cons)
    then show ?thesis using IH by simp
  qed
qed simp

lemma coalesce_local:
  assumes nx: "no_adjacent_free xs" and ny: "no_adjacent_free ys" and j: "join_right z ys = (w, True) # zs"
  shows "coalesce (xs @ (z, True) # ys) = (if xs \<noteq> [] \<and> snd (last xs)
      then butlast xs @ (fst (last xs) + 20 + w, True) # zs else xs @ (w, True) # zs)"
proof (cases "xs \<noteq> [] \<and> snd (last xs)")
  case True
  then obtain us v where xs: "xs = us @ [(v, True)]" by (cases xs rule: rev_cases) auto
  have "coalesce (us @ (v, True) # (z, True) # ys) = us @ coalesce ((v + 20 + z, True) # ys)"
    using nx xs coalesce_prefix [of us "(v, True) # (z, True) # ys"]
    by (auto simp: no_adjacent_free_append)
  also have "\<dots> = us @ (v + 20 + w, True) # zs"
  proof -
    have "join_right (v + 20 + z) ys = (v + 20 + w, True) # zs"
      using j by (auto simp: join_right_def split: list.splits bool.splits)
    then show ?thesis using coalesce_right [OF ny] by simp
  qed
  finally show ?thesis using xs by simp
next
  case False
  then show ?thesis using coalesce_prefix [OF nx False] coalesce_right [OF ny] j by simp
qed

lemma coalesce_span: "span (coalesce bs) = span bs"
  by (induction bs rule: coalesce.induct) auto

lemma coalesce_sizes:
  "\<forall>(z, f) \<in> set bs. 4 dvd z \<and> 4 \<le> z \<Longrightarrow> \<forall>(z, f) \<in> set (coalesce bs). 4 dvd z \<and> 4 \<le> z"
  by (induction bs rule: coalesce.induct) auto

lemma coalesce_hd: "bs \<noteq> [] \<Longrightarrow> coalesce bs \<noteq> [] \<and> snd (hd (coalesce bs)) = snd (hd bs)"
  by (induction bs rule: coalesce.induct) auto

lemma coalesce_no_adjacent: "no_adjacent_free (coalesce bs)"
proof (induction bs rule: coalesce.induct, goal_cases)
  case (2 z bs)
  then show ?case using coalesce_hd [of bs] by (cases bs) (auto simp: no_adjacent_free_Cons)
qed (auto simp: no_adjacent_free_Cons dest: coalesce_hd)

lemma coalesce_wf:
  assumes "span bs = 0x100000" "\<forall>(z, f) \<in> set bs. 4 dvd z \<and> 4 \<le> z"
  shows "heap_wf (coalesce bs)"
  using assms coalesce_span [of bs] coalesce_sizes [OF assms(2)] coalesce_no_adjacent by (simp add: heap_wf_def)

section \<open>Layout in memory\<close>

definition flag_of :: "bool \<Rightarrow> u8" where
  "flag_of f = (if f then 1 else 0)"

lemma flag_of_eq_0 [simp]: "flag_of f = 0 \<longleftrightarrow> \<not> f"
  by (simp add: flag_of_def)

text \<open>
  \<open>seg m p a bs nx\<close>: from address \<open>a\<close> on, memory holds the headers of the blocks \<open>bs\<close>, linked both
  ways; \<open>p\<close> is the header before them and \<open>nx\<close> the one after.
\<close>

fun seg :: "mem \<Rightarrow> u32 \<Rightarrow> nat \<Rightarrow> hblock list \<Rightarrow> u32 \<Rightarrow> bool" where
  "seg m p a [] nx = True"
| "seg m p a ((z, f) # bs) nx \<longleftrightarrow>
     hdr m (of_nat a) = \<lparr>h_size = of_nat z, h_is_free = flag_of f, h_magic = HEAP_MAGIC,
       h_next = (if bs = [] then nx else of_nat (a + 20 + z)), h_prev = p\<rparr> \<and>
     seg m (of_nat a) (a + 20 + z) bs nx"

fun end_prev :: "u32 \<Rightarrow> nat \<Rightarrow> hblock list \<Rightarrow> u32" where
  "end_prev p a [] = p"
| "end_prev p a ((z, f) # bs) = end_prev (of_nat a) (a + 20 + z) bs"

definition ptr_to :: "nat \<Rightarrow> hblock list \<Rightarrow> u32" where
  "ptr_to a bs = (if bs = [] then 0 else of_nat a)"

lemma ptr_to_simps [simp]: "ptr_to a [] = 0" "ptr_to a (b # bs) = of_nat a"
  by (simp_all add: ptr_to_def)

lemma seg_append:
  "seg m p a (xs @ ys) nx \<longleftrightarrow> seg m p a xs (if ys = [] then nx else of_nat (a + span xs)) \<and>
     seg m (end_prev p a xs) (a + span xs) ys nx"
proof (induction xs arbitrary: p a rule: span.induct)
  case (2 z f xs)
  then show ?case using 2 [of "of_nat a" "a + 20 + z"] by (auto simp: add.assoc)
qed simp

lemma end_prev_append: "end_prev p a (xs @ ys) = end_prev (end_prev p a xs) (a + span xs) ys"
  by (induction xs arbitrary: p a rule: span.induct) (auto simp: add.assoc)

lemma seg_cong:
  assumes "seg m p a bs nx" "a + span bs \<le> 4294967296"
    and "\<And>x. a \<le> unat x \<Longrightarrow> unat x < a + span bs \<Longrightarrow> m' x = m x"
  shows "seg m' p a bs nx"
  using assms
proof (induction bs arbitrary: p a rule: span.induct)
  case (2 z f bs)
  have "hdr m' (of_nat a) = hdr m (of_nat a)"
    using 2(3,4) by (intro hdr_cong) (simp add: hdr_bytes_iff)
  then show ?case using 2 by auto
qed simp

lemma seg_headers_cong:
  assumes "seg m p a bs nx" "a + span bs \<le> 4294967296"
    and "\<And>xs b ys. bs = xs @ b # ys \<Longrightarrow> hdr m' (of_nat (a + span xs)) = hdr m (of_nat (a + span xs))"
  shows "seg m' p a bs nx"
  using assms
proof (induction bs arbitrary: p a rule: span.induct)
  case (2 z f bs)
  have "hdr m' (of_nat a) = hdr m (of_nat a)" using 2(4) [of "[]"] by simp
  moreover have "seg m' (of_nat a) (a + 20 + z) bs nx"
  proof (rule "2.IH")
    show "seg m (of_nat a) (a + 20 + z) bs nx" using 2(2) by simp
    show "a + 20 + z + span bs \<le> 4294967296" using 2(3) by simp
    fix xs b ys assume "bs = xs @ b # ys"
    then show "hdr m' (of_nat (a + 20 + z + span xs)) = hdr m (of_nat (a + 20 + z + span xs))"
      using 2(4) [of "(z, f) # xs" b ys] by (simp add: add.assoc)
  qed
  ultimately show ?case using 2(2) by simp
qed simp

text \<open>
  Replacing the blocks \<open>ms\<close> in the middle: the memory below is untouched, the new middle is laid out
  as \<open>ms'\<close>, and of the part above only the back pointer of its first header changed.
\<close>

lemma seg_replace:
  assumes s: "seg m p a (xs @ ms @ ys) 0" and b: "a + span (xs @ ms @ ys) \<le> 4294967296"
    and M: "M = a + span xs" and Y: "Y = M + span ms" "span ms' = span ms" and ne: "ms \<noteq> []" "ms' \<noteq> []"
    and mid: "seg m' (end_prev p a xs) M ms' (ptr_to Y ys)"
    and hd: "ys \<noteq> [] \<Longrightarrow> hdr m' (of_nat Y) = (hdr m (of_nat Y))\<lparr>h_prev := end_prev (end_prev p a xs) M ms'\<rparr>"
    and lo: "\<And>x. unat x < M \<Longrightarrow> m' x = m x" and hi: "\<And>x. Y + 20 \<le> unat x \<Longrightarrow> m' x = m x"
  shows "seg m' p a (xs @ ms' @ ys) 0"
proof -
  have s': "seg m p a xs (of_nat M)" "seg m (end_prev (end_prev p a xs) M ms) Y ys 0"
    using s ne(1) M Y by (auto simp: seg_append)
  have "seg m' p a xs (of_nat M)"
    by (rule seg_cong [OF s'(1)]) (use b lo M in simp_all)
  moreover have "seg m' (end_prev (end_prev p a xs) M ms') Y ys 0"
  proof (cases ys)
    case (Cons y zs)
    obtain z f where y: "y = (z, f)" by (cases y)
    have "seg m (of_nat Y) (Y + 20 + z) zs 0" using s'(2) Cons y by simp
    then have "seg m' (of_nat Y) (Y + 20 + z) zs 0"
      by (rule seg_cong) (use b hi Cons y M Y in simp_all)
    then show ?thesis using Cons y hd s'(2) by simp
  qed simp
  ultimately show ?thesis using mid M Y ne by (auto simp: seg_append ptr_to_def)
qed

end
