(* ===== verification/Heap_Refine.thy ===== *)
theory Heap_Refine
  imports Heap_Blocks
begin

text \<open>
  The heap of \<^verbatim>\<open>heap.c\<close> implements the abstract heap: \<open>kmalloc\<close> is first-fit allocation on the block
  list and \<open>kfree\<close> is release followed by coalescing. Both only ever write header bytes.
\<close>

section \<open>The search loop\<close>

lemma of_nat_u32_eq_0: "0 < a \<Longrightarrow> a < 4294967296 \<Longrightarrow> (of_nat a :: u32) \<noteq> 0"
  by (metis unat_of_nat_u32 unat_0 less_irrefl)

lemma of_nat_u32_le: "a < 4294967296 \<Longrightarrow> b < 4294967296 \<Longrightarrow> (of_nat a :: u32) \<le> of_nat b \<longleftrightarrow> a \<le> b"
  by (simp add: word_le_nat_alt)

lemma of_nat_u32_less: "a < 4294967296 \<Longrightarrow> b < 4294967296 \<Longrightarrow> (of_nat a :: u32) < of_nat b \<longleftrightarrow> a < b"
  by (simp add: word_less_nat_alt)

lemma kmalloc_find_seg:
  assumes "seg m p a bs 0" "0 < a" "a + span bs < 4294967296" "n < 4294967296"
  shows "kmalloc_find m (of_nat n) (ptr_to a bs) =
    Some (Inr (case first_fit n a bs of None \<Rightarrow> 0 | Some h \<Rightarrow> of_nat h))"
  using assms
proof (induction bs arbitrary: p a rule: span.induct)
  case 1
  then show ?case by (simp add: kmalloc_find.simps)
next
  case (2 z f bs)
  have h: "hdr m (of_nat a) = \<lparr>h_size = of_nat z, h_is_free = flag_of f, h_magic = HEAP_MAGIC,
       h_next = ptr_to (a + 20 + z) bs, h_prev = p\<rparr>" "seg m (of_nat a) (a + 20 + z) bs 0"
    using 2(2) by (auto simp: ptr_to_def)
  have a: "(of_nat a :: u32) \<noteq> 0" "(of_nat n :: u32) \<le> of_nat z \<longleftrightarrow> n \<le> z"
    using 2(3-5) by (simp_all add: of_nat_u32_eq_0 of_nat_u32_le)
  have IH: "kmalloc_find m (of_nat n) (ptr_to (a + 20 + z) bs) =
    Some (Inr (case first_fit n (a + 20 + z) bs of None \<Rightarrow> 0 | Some h \<Rightarrow> of_nat h))"
    using 2(3-5) by (intro "2.IH" [OF h(2)]) auto
  show ?case
  proof (cases "f \<and> n \<le> z")
    case True
    then show ?thesis using h(1) a by (simp add: kmalloc_find.simps)
  next
    case False
    then show ?thesis using h(1) a IH
      by (subst kmalloc_find.simps) auto
  qed
qed

section \<open>Joining two neighbours\<close>

text \<open>The addresses covered by the headers of a block list; payloads lie outside.\<close>

fun hdr_area :: "nat \<Rightarrow> hblock list \<Rightarrow> nat set" where
  "hdr_area a [] = {}"
| "hdr_area a ((z, f) # bs) = {a..<a + 20} \<union> hdr_area (a + 20 + z) bs"

lemma hdr_area_append [simp]: "hdr_area a (xs @ ys) = hdr_area a xs \<union> hdr_area (a + span xs) ys"
  by (induction xs arbitrary: a rule: span.induct) (auto simp: add.assoc)

lemma hdr_area_range: "x \<in> hdr_area a bs \<Longrightarrow> a \<le> x \<and> x < a + span bs"
  by (induction bs arbitrary: a rule: span.induct) fastforce+

lemma hdr_area_hd: "ys \<noteq> [] \<Longrightarrow> {a..<a + 20} \<subseteq> hdr_area a ys"
  by (cases ys) auto

lemma payload_not_header:
  "(q, n) \<in> set (payloads a bs) \<Longrightarrow> q \<le> x \<Longrightarrow> x < q + n \<Longrightarrow> x \<notin> hdr_area a bs"
proof (induction bs arbitrary: a rule: span.induct)
  case (2 z f bs)
  then show ?case
    using hdr_area_range [of x "a + 20 + z" bs] payloads_range [of q n "a + 20 + z" bs]
    by (auto split: if_splits)
qed simp

definition absorb :: "u32 \<Rightarrow> u32 \<Rightarrow> mem \<Rightarrow> mem" where
  "absorb p q m =
     (let m1 = set_next p (h_next (hdr m q)) (set_size p (h_size (hdr m p) + (20 + h_size (hdr m q))) m)
      in if h_next (hdr m q) \<noteq> 0 then set_prev (h_next (hdr m q)) p m1 else m1)"

lemma hdr_bytes_disjoint:
  assumes "a + 20 \<le> b" "b + 20 \<le> 4294967296"
  shows "hdr_bytes (of_nat a) \<inter> hdr_bytes (of_nat b) = {}" "hdr_bytes (of_nat b) \<inter> hdr_bytes (of_nat a) = {}"
  using assms by (auto simp: hdr_bytes_iff)

lemma absorb_seg:
  assumes s: "seg m p a (xs @ (z1, f1) # (z2, f2) # ys) 0" and a: "0 < a"
    and b: "a + span (xs @ (z1, f1) # (z2, f2) # ys) + 20 < 4294967296"
  defines "A \<equiv> a + span xs" and "B \<equiv> a + span xs + 20 + z1"
  shows "seg (absorb (of_nat A) (of_nat B) m) p a (xs @ (z1 + 20 + z2, f1) # ys) 0"
    "unat x \<notin> hdr_area a (xs @ (z1, f1) # (z2, f2) # ys) \<Longrightarrow> absorb (of_nat A) (of_nat B) m x = m x"
    "h_is_free (hdr (absorb (of_nat A) (of_nat B) m) (of_nat A)) = flag_of f1"
    "h_magic (hdr (absorb (of_nat A) (of_nat B) m) (of_nat A)) = HEAP_MAGIC"
    "hdr (absorb (of_nat A) (of_nat B) m) (of_nat B) = hdr m (of_nat B)"
proof -
  let ?m = "absorb (of_nat A) (of_nat B) m"
  define Y where "Y = B + 20 + z2"
  have hA: "hdr m (of_nat A) = \<lparr>h_size = of_nat z1, h_is_free = flag_of f1, h_magic = HEAP_MAGIC,
       h_next = of_nat B, h_prev = end_prev p a xs\<rparr>"
    and hB: "hdr m (of_nat B) = \<lparr>h_size = of_nat z2, h_is_free = flag_of f2, h_magic = HEAP_MAGIC,
       h_next = ptr_to Y ys, h_prev = of_nat A\<rparr>"
    using s by (simp_all add: seg_append A_def B_def Y_def ptr_to_def)
  have bd: "A + 20 \<le> B" "B + 20 \<le> Y" "Y + 20 < 4294967296" "0 < Y" "Y = A + span [(z1, f1), (z2, f2)]"
    using b by (simp_all add: A_def B_def Y_def)
  have iff: "x \<in> hdr_bytes (of_nat A) \<longleftrightarrow> A \<le> unat x \<and> unat x < A + 20"
    "x \<in> hdr_bytes (of_nat Y) \<longleftrightarrow> Y \<le> unat x \<and> unat x < Y + 20" for x
    using bd(1-3) by (simp_all add: hdr_bytes_iff)
  have yne: "(of_nat Y :: u32) \<noteq> 0" using bd(3,4) by (intro of_nat_u32_eq_0) auto
  define m1 where "m1 = set_next (of_nat A) (ptr_to Y ys) (set_size (of_nat A) (of_nat (z1 + 20 + z2)) m)"
  have ab: "?m = (if ys = [] then m1 else set_prev (of_nat Y) (of_nat A) m1)"
    using yne by (simp add: absorb_def hA hB m1_def ptr_to_def add.assoc)
  have m1: "hdr m1 (of_nat A) = \<lparr>h_size = of_nat (z1 + 20 + z2), h_is_free = flag_of f1, h_magic = HEAP_MAGIC,
       h_next = ptr_to Y ys, h_prev = end_prev p a xs\<rparr>"
    by (simp add: m1_def hA)
  have far: "hdr_bytes (of_nat A) \<inter> hdr_bytes (of_nat Y) = {}" "hdr_bytes (of_nat Y) \<inter> hdr_bytes (of_nat A) = {}"
    using bd(1-3) by (auto simp: iff)
  have out: "?m x = m x" if "x \<notin> hdr_bytes (of_nat A)" "ys \<noteq> [] \<Longrightarrow> x \<notin> hdr_bytes (of_nat Y)" for x
    using that by (simp add: ab m1_def set_outside)
  have lo: "unat x < A \<Longrightarrow> ?m x = m x" and hi: "Y + 20 \<le> unat x \<Longrightarrow> ?m x = m x" for x
    using bd(1-3) by (auto intro!: out simp: iff)
  show "?m x = m x" if "unat x \<notin> hdr_area a (xs @ (z1, f1) # (z2, f2) # ys)"
  proof -
    have "hdr_area a (xs @ (z1, f1) # (z2, f2) # ys) = hdr_area a xs \<union> {A..<A + 20} \<union> {B..<B + 20} \<union> hdr_area Y ys"
      by (simp add: A_def B_def Y_def add.assoc Un_assoc)
    then show ?thesis using that hdr_area_hd [of ys Y] by (intro out) (auto simp: iff)
  qed
  have hA': "hdr ?m (of_nat A) = hdr m1 (of_nat A)"
    and hY: "ys \<noteq> [] \<Longrightarrow> hdr ?m (of_nat Y) = (hdr m (of_nat Y))\<lparr>h_prev := of_nat A\<rparr>"
    using far by (simp_all add: ab hdr_set_far) (simp add: m1_def hdr_set_far)
  then show "h_is_free (hdr ?m (of_nat A)) = flag_of f1" "h_magic (hdr ?m (of_nat A)) = HEAP_MAGIC"
    using m1 by simp_all
  show "hdr ?m (of_nat B) = hdr m (of_nat B)"
    by (intro hdr_cong out) (use bd(1-3) in \<open>auto simp: iff hdr_bytes_iff\<close>)
  have "seg ?m p a (xs @ [(z1 + 20 + z2, f1)] @ ys) 0"
  proof (rule seg_replace [where ms = "[(z1, f1), (z2, f2)]" and M = A and Y = Y and m = m])
    show "seg m p a (xs @ [(z1, f1), (z2, f2)] @ ys) 0" using s by simp
    show "seg ?m (end_prev p a xs) A [(z1 + 20 + z2, f1)] (ptr_to Y ys)" using hA' m1 by simp
  qed (use b bd(5) hY lo hi in \<open>simp_all add: A_def\<close>)
  then show "seg ?m p a (xs @ (z1 + 20 + z2, f1) # ys) 0" by simp
qed

lemma coalesce_right_seg:
  assumes s: "seg m p a (xs @ (z, True) # ys) 0" and a: "0 < a"
    and b: "a + span (xs @ (z, True) # ys) + 20 < 4294967296"
  defines "A \<equiv> a + span xs" and "m' \<equiv> kfree_coalesce_right (of_nat (a + span xs)) m"
  shows "seg m' p a (xs @ join_right z ys) 0"
    "unat x \<notin> hdr_area a (xs @ (z, True) # ys) \<Longrightarrow> m' x = m x"
    "h_is_free (hdr m' (of_nat A)) = 1" "h_magic (hdr m' (of_nat A)) = HEAP_MAGIC"
proof -
  have hA: "hdr m (of_nat A) = \<lparr>h_size = of_nat z, h_is_free = 1, h_magic = HEAP_MAGIC,
       h_next = ptr_to (A + 20 + z) ys, h_prev = end_prev p a xs\<rparr>"
    and sy: "seg m (of_nat A) (A + 20 + z) ys 0"
    using s by (auto simp: seg_append A_def ptr_to_def flag_of_def)
  have "seg m' p a (xs @ join_right z ys) 0 \<and> (\<forall>x. unat x \<notin> hdr_area a (xs @ (z, True) # ys) \<longrightarrow> m' x = m x) \<and>
      h_is_free (hdr m' (of_nat A)) = 1 \<and> h_magic (hdr m' (of_nat A)) = HEAP_MAGIC"
  proof (cases "ys \<noteq> [] \<and> snd (hd ys)")
    case False
    have "m' = m"
      using hA False sy by (cases ys) (auto simp: m'_def kfree_coalesce_right_def simp flip: A_def)
    moreover have "join_right z ys = (z, True) # ys"
      using False by (cases ys) (auto simp: join_right_def split: bool.splits)
    ultimately show ?thesis
      using s hA by simp
  next
    case True
    then obtain w zs where ys: "ys = (w, True) # zs" by (cases ys) auto
    define B where "B = A + 20 + z"
    have bd: "A + 20 \<le> B" "B + 20 \<le> 4294967296" "0 < B" using b ys by (simp_all add: A_def B_def)
    then have nz: "(of_nat B :: u32) \<noteq> 0" by (intro of_nat_u32_eq_0) auto
    have hB: "hdr m (of_nat B) = \<lparr>h_size = of_nat w, h_is_free = 1, h_magic = HEAP_MAGIC,
       h_next = ptr_to (B + 20 + w) zs, h_prev = of_nat A\<rparr>"
      using sy ys by (auto simp: B_def ptr_to_def flag_of_def)
    have "m' = absorb (of_nat A) (of_nat B) m"
      using hA hB nz hdr_bytes_disjoint [OF bd(1,2)] ys
      by (simp add: m'_def kfree_coalesce_right_def absorb_def hdr_set_far Let_def flip: A_def B_def)
    then show ?thesis
      using absorb_seg [OF s [unfolded ys] a b [unfolded ys]] ys by (simp add: A_def B_def flag_of_def)
  qed
  then show "seg m' p a (xs @ join_right z ys) 0"
    "unat x \<notin> hdr_area a (xs @ (z, True) # ys) \<Longrightarrow> m' x = m x"
    "h_is_free (hdr m' (of_nat A)) = 1" "h_magic (hdr m' (of_nat A)) = HEAP_MAGIC" by simp_all
qed

lemma end_prev_snoc: "end_prev p a (us @ [(w, f)]) = of_nat (a + span us)"
  by (simp add: end_prev_append)

lemma coalesce_left_seg:
  assumes s: "seg m 0 a (xs @ (z, True) # ys) 0" and a: "0 < a"
    and b: "a + span (xs @ (z, True) # ys) + 20 < 4294967296"
  defines "A \<equiv> a + span xs" and "m' \<equiv> kfree_coalesce_left (of_nat (a + span xs)) m"
  shows "seg m' 0 a (if xs \<noteq> [] \<and> snd (last xs) then butlast xs @ (fst (last xs) + 20 + z, True) # ys
      else xs @ (z, True) # ys) 0"
    "unat x \<notin> hdr_area a (xs @ (z, True) # ys) \<Longrightarrow> m' x = m x"
    "hdr m' (of_nat A) = hdr m (of_nat A)"
proof -
  have hA: "hdr m (of_nat A) = \<lparr>h_size = of_nat z, h_is_free = 1, h_magic = HEAP_MAGIC,
       h_next = ptr_to (A + 20 + z) ys, h_prev = end_prev 0 a xs\<rparr>"
    using s by (auto simp: seg_append A_def ptr_to_def flag_of_def)
  have "seg m' 0 a (if xs \<noteq> [] \<and> snd (last xs) then butlast xs @ (fst (last xs) + 20 + z, True) # ys
      else xs @ (z, True) # ys) 0 \<and> (\<forall>x. unat x \<notin> hdr_area a (xs @ (z, True) # ys) \<longrightarrow> m' x = m x) \<and>
      hdr m' (of_nat A) = hdr m (of_nat A)"
  proof (cases xs rule: rev_cases)
    case Nil
    then have "m' = m" using hA by (simp add: m'_def kfree_coalesce_left_def A_def)
    then show ?thesis using s Nil by simp
  next
    case (snoc us b')
    obtain w f where b': "b' = (w, f)" by (cases b')
    define P where "P = a + span us"
    have AP: "A = P + 20 + w" using snoc b' by (simp add: A_def P_def)
    have bd: "P + 20 \<le> A" "A + 20 \<le> 4294967296" "0 < P" "P < 4294967296"
      using b snoc b' a by (simp_all add: A_def P_def)
    then have nz: "(of_nat P :: u32) \<noteq> 0" by (intro of_nat_u32_eq_0)
    have pr: "h_prev (hdr m (of_nat A)) = of_nat P"
      using hA snoc b' by (simp add: end_prev_snoc P_def)
    have s2: "seg m 0 a (us @ (w, f) # (z, True) # ys) 0" using s snoc b' by simp
    have hP: "h_is_free (hdr m (of_nat P)) = flag_of f"
      using s2 by (simp add: seg_append P_def)
    show ?thesis
    proof (cases f)
      case False
      then have "m' = m" using pr hP by (simp add: m'_def kfree_coalesce_left_def flag_of_def flip: A_def)
      then show ?thesis using s snoc b' False by simp
    next
      case True
      have "m' = absorb (of_nat P) (of_nat A) m"
        using pr hP True nz hdr_bytes_disjoint [OF bd(1,2)]
        by (simp add: m'_def kfree_coalesce_left_def absorb_def hdr_set_far Let_def flag_of_def flip: A_def)
      then show ?thesis
        using absorb_seg [OF s2 a, folded P_def, folded AP] b snoc b' True by (simp add: A_def)
    qed
  qed
  then show "seg m' 0 a (if xs \<noteq> [] \<and> snd (last xs) then butlast xs @ (fst (last xs) + 20 + z, True) # ys
      else xs @ (z, True) # ys) 0" "unat x \<notin> hdr_area a (xs @ (z, True) # ys) \<Longrightarrow> m' x = m x"
    "hdr m' (of_nat A) = hdr m (of_nat A)" by simp_all
qed

section \<open>Release\<close>

lemma mark_free_seg:
  assumes s: "seg m p a (xs @ (z, f) # ys) 0" and b: "a + span (xs @ (z, f) # ys) + 20 < 4294967296"
  defines "A \<equiv> a + span xs"
  shows "seg (set_is_free (of_nat A) (flag_of g) m) p a (xs @ (z, g) # ys) 0"
proof -
  let ?m = "set_is_free (of_nat A) (flag_of g) m"
  define Y where "Y = A + 20 + z"
  have bd: "A + 20 \<le> Y" "Y + 20 < 4294967296" using b by (simp_all add: A_def Y_def)
  have hA: "hdr m (of_nat A) = \<lparr>h_size = of_nat z, h_is_free = flag_of f, h_magic = HEAP_MAGIC,
       h_next = ptr_to Y ys, h_prev = end_prev p a xs\<rparr>" "ys \<noteq> [] \<Longrightarrow> h_prev (hdr m (of_nat Y)) = of_nat A"
    using s by (auto simp: seg_append A_def Y_def ptr_to_def neq_Nil_conv)
  have "seg ?m p a (xs @ [(z, g)] @ ys) 0"
  proof (rule seg_replace [where ms = "[(z, f)]" and M = A and Y = Y and m = m])
    show "seg m p a (xs @ [(z, f)] @ ys) 0" using s by simp
    show "seg ?m (end_prev p a xs) A [(z, g)] (ptr_to Y ys)" using hA(1) by simp
    show "hdr ?m (of_nat Y) = (hdr m (of_nat Y))\<lparr>h_prev := end_prev (end_prev p a xs) A [(z, g)]\<rparr>" if "ys \<noteq> []"
      using hdr_bytes_disjoint [OF bd(1)] bd(2) hA(2) [OF that] by (simp add: hdr_set_far)
    show "unat x < A \<Longrightarrow> ?m x = m x" "Y + 20 \<le> unat x \<Longrightarrow> ?m x = m x" for x
      using bd by (auto intro!: set_outside simp: hdr_bytes_iff)
  qed (use b in \<open>simp_all add: A_def Y_def\<close>)
  then show ?thesis by simp
qed

text \<open>
  The three steps of \<^verbatim>\<open>kfree\<close> together leave the block list coalesced; the header of the block itself
  still reads as a free block, also when its left neighbour has swallowed it.
\<close>

lemma kfree_seg:
  assumes s: "seg m 0 a (xs @ (z, False) # ys) 0" and a: "0 < a"
    and b: "a + span (xs @ (z, False) # ys) + 20 < 4294967296"
    and na: "no_adjacent_free (xs @ (z, False) # ys)"
  defines "A \<equiv> a + span xs"
  defines "m' \<equiv> kfree_coalesce_left (of_nat A) (kfree_coalesce_right (of_nat A) (set_is_free (of_nat A) 1 m))"
  shows "seg m' 0 a (coalesce (xs @ (z, True) # ys)) 0"
    "unat x \<notin> hdr_area a (xs @ (z, False) # ys) \<Longrightarrow> m' x = m x"
    "h_is_free (hdr m' (of_nat A)) = 1" "h_magic (hdr m' (of_nat A)) = HEAP_MAGIC"
proof -
  define m1 where "m1 = set_is_free (of_nat A) 1 m"
  define m2 where "m2 = kfree_coalesce_right (of_nat A) m1"
  have m': "m' = kfree_coalesce_left (of_nat A) m2" by (simp add: m'_def m2_def m1_def)
  have s1: "seg m1 0 a (xs @ (z, True) # ys) 0"
    using mark_free_seg [OF s b, of True] by (simp add: m1_def A_def flag_of_def)
  have b1: "a + span (xs @ (z, True) # ys) + 20 < 4294967296" using b by simp
  note R = coalesce_right_seg [OF s1 a b1, folded A_def, folded m2_def]
  obtain w zs where j: "join_right z ys = (w, True) # zs" "hdr_area A ((w, True) # zs) \<subseteq> hdr_area A ((z, True) # ys)"
      "span ((w, True) # zs) = span ((z, True) # ys)"
  proof (cases "ys \<noteq> [] \<and> snd (hd ys)")
    case True
    then obtain v r where "ys = (v, True) # r" by (cases ys) auto
    then show ?thesis by (intro that [of "z + 20 + v" r]) (auto simp: add.assoc)
  next
    case False
    then show ?thesis by (intro that [of z ys]) (cases ys; auto simp: join_right_def split: bool.splits)+
  qed
  have s2: "seg m2 0 a (xs @ (w, True) # zs) 0" using R(1) j(1) by simp
  have b2: "a + span (xs @ (w, True) # zs) + 20 < 4294967296" using b1 j(3) by simp
  note L = coalesce_left_seg [OF s2 a b2, folded A_def, folded m']
  show "h_is_free (hdr m' (of_nat A)) = 1" "h_magic (hdr m' (of_nat A)) = HEAP_MAGIC"
    using L(3) R(3,4) by simp_all
  have nay: "no_adjacent_free ys" "no_adjacent_free xs"
    using na by (simp_all add: no_adjacent_free_append no_adjacent_free_Cons)
  have "coalesce (xs @ (z, True) # ys) = (if xs \<noteq> [] \<and> snd (last xs)
      then butlast xs @ (fst (last xs) + 20 + w, True) # zs else xs @ (w, True) # zs)"
    by (rule coalesce_local [OF nay(2,1) j(1)])
  then show "seg m' 0 a (coalesce (xs @ (z, True) # ys)) 0" using L(1) by simp
  show "m' x = m x" if x: "unat x \<notin> hdr_area a (xs @ (z, False) # ys)"
  proof -
    have x2: "unat x \<notin> hdr_area a (xs @ (w, True) # zs)" "unat x \<notin> hdr_area a (xs @ (z, True) # ys)"
      using x j(2) by (auto simp: A_def)
    have "x \<notin> hdr_bytes (of_nat A)"
      using x b by (subst hdr_bytes_iff) (auto simp: A_def)
    then have "m1 x = m x" by (simp add: m1_def set_outside)
    then show ?thesis using L(2) [OF x2(1)] R(2) [OF x2(2)] by simp
  qed
qed

section \<open>Splitting\<close>

lemma kmalloc_split_seg:
  assumes s: "seg m p a (xs @ (z, f) # ys) 0" and b: "a + span (xs @ (z, f) # ys) \<le> 0xD0100000"
    and n: "n + 24 < z"
  defines "A \<equiv> a + span xs"
  obtains m' where "kmalloc_split (of_nat A) (of_nat n) m = Inr m'"
    "seg m' p a (xs @ (n, f) # (z - n - 20, True) # ys) 0"
    "\<And>x. unat x \<notin> hdr_area a (xs @ (n, f) # (z - n - 20, True) # ys) \<Longrightarrow> m' x = m x"
proof -
  define B where "B = A + 20 + n"
  define Y where "Y = A + 20 + z"
  have bd: "A + 20 \<le> B" "B + 20 \<le> Y" "Y + 20 < 4294967296" "0 < Y" "B < 0xD0100000" "A + 20 \<le> Y" "B + 20 \<le> 4294967296"
    using b n by (simp_all add: A_def B_def Y_def)
  have hA: "hdr m (of_nat A) = \<lparr>h_size = of_nat z, h_is_free = flag_of f, h_magic = HEAP_MAGIC,
       h_next = ptr_to Y ys, h_prev = end_prev p a xs\<rparr>"
    using s by (auto simp: seg_append A_def Y_def ptr_to_def)
  have yne: "(of_nat Y :: u32) \<noteq> 0" using bd(3,4) by (intro of_nat_u32_eq_0) auto
  have Bw: "of_nat A + 20 + of_nat n = (of_nat B :: u32)" by (simp add: B_def)
  have zw: "of_nat z - of_nat n - 20 = (of_nat (z - n - 20) :: u32)" using n by (simp add: of_nat_diff)
  have lt: "(of_nat n + 20 + 4 :: u32) < of_nat z"
    using of_nat_u32_less [of "n + 24" z] n b by (simp add: add.commute)
  have ge: "\<not> (0xD0100000 :: u32) \<le> of_nat B"
    using bd(5,3,2) by (simp add: word_le_nat_alt not_le)
  have far: "hdr_bytes (of_nat A) \<inter> hdr_bytes (of_nat B) = {}" "hdr_bytes (of_nat B) \<inter> hdr_bytes (of_nat A) = {}"
    "hdr_bytes (of_nat A) \<inter> hdr_bytes (of_nat Y) = {}" "hdr_bytes (of_nat Y) \<inter> hdr_bytes (of_nat A) = {}"
    "hdr_bytes (of_nat B) \<inter> hdr_bytes (of_nat Y) = {}" "hdr_bytes (of_nat Y) \<inter> hdr_bytes (of_nat B) = {}"
    using hdr_bytes_disjoint [OF bd(1,7)] hdr_bytes_disjoint [OF bd(2)] hdr_bytes_disjoint [OF bd(6)] bd(3) by simp_all
  define m1 where "m1 = set_prev (of_nat B) (of_nat A) (set_next (of_nat B) (ptr_to Y ys) (set_magic (of_nat B) HEAP_MAGIC
    (set_is_free (of_nat B) 1 (set_size (of_nat B) (of_nat (z - n - 20)) m))))"
  define m2 where "m2 = (if ys \<noteq> [] then set_prev (of_nat Y) (of_nat B) m1 else m1)"
  define m' where "m' = set_size (of_nat A) (of_nat n) (set_next (of_nat A) (of_nat B) m2)"
  have sp: "kmalloc_split (of_nat A) (of_nat n) m = Inr m'"
    using lt ge yne hA far zw
    by (simp add: kmalloc_split_def Bw Let_def hdr_set_far m'_def m2_def m1_def ptr_to_def)
  have hB': "hdr m' (of_nat B) = \<lparr>h_size = of_nat (z - n - 20), h_is_free = 1, h_magic = HEAP_MAGIC,
       h_next = ptr_to Y ys, h_prev = of_nat A\<rparr>"
    using far by (simp add: m'_def m2_def hdr_set_far) (simp add: m1_def)
  have hA': "hdr m' (of_nat A) = \<lparr>h_size = of_nat n, h_is_free = flag_of f, h_magic = HEAP_MAGIC,
       h_next = of_nat B, h_prev = end_prev p a xs\<rparr>"
    using far hA by (simp add: m'_def m2_def m1_def hdr_set_far)
  have hY': "hdr m' (of_nat Y) = (hdr m (of_nat Y))\<lparr>h_prev := of_nat B\<rparr>" if "ys \<noteq> []"
    using far that by (simp add: m'_def m2_def m1_def hdr_set_far)
  have iff: "x \<in> hdr_bytes (of_nat A) \<longleftrightarrow> A \<le> unat x \<and> unat x < A + 20"
    "x \<in> hdr_bytes (of_nat B) \<longleftrightarrow> B \<le> unat x \<and> unat x < B + 20"
    "x \<in> hdr_bytes (of_nat Y) \<longleftrightarrow> Y \<le> unat x \<and> unat x < Y + 20" for x
    using bd(1-3) by (simp_all add: hdr_bytes_iff)
  have out: "m' x = m x" if "x \<notin> hdr_bytes (of_nat A)" "x \<notin> hdr_bytes (of_nat B)"
      "ys \<noteq> [] \<Longrightarrow> x \<notin> hdr_bytes (of_nat Y)" for x
    using that by (simp add: m'_def m2_def m1_def set_outside)
  have "seg m' p a (xs @ [(n, f), (z - n - 20, True)] @ ys) 0"
  proof (rule seg_replace [where ms = "[(z, f)]" and M = A and Y = Y and m = m])
    show "seg m p a (xs @ [(z, f)] @ ys) 0" using s by simp
    show "seg m' (end_prev p a xs) A [(n, f), (z - n - 20, True)] (ptr_to Y ys)"
      using hA' hB' by (simp add: flag_of_def) (simp add: B_def)
    show "hdr m' (of_nat Y) = (hdr m (of_nat Y))\<lparr>h_prev := end_prev (end_prev p a xs) A [(n, f), (z - n - 20, True)]\<rparr>"
      if "ys \<noteq> []" using hY' [OF that] by (simp add: B_def)
    show "unat x < A \<Longrightarrow> m' x = m x" "Y + 20 \<le> unat x \<Longrightarrow> m' x = m x" for x
      using bd(1,2) by (auto intro!: out simp: iff)
  qed (use b n in \<open>simp_all add: A_def Y_def\<close>)
  moreover have "m' x = m x" if "unat x \<notin> hdr_area a (xs @ (n, f) # (z - n - 20, True) # ys)" for x
  proof -
    have "hdr_area a (xs @ (n, f) # (z - n - 20, True) # ys) = hdr_area a xs \<union> {A..<A + 20} \<union> {B..<B + 20} \<union> hdr_area Y ys"
      using n by (simp add: A_def B_def Y_def add.assoc Un_assoc)
    then show ?thesis using that hdr_area_hd [of ys Y] by (intro out) (auto simp: iff)
  qed
  ultimately show thesis using that [OF sp] by simp
qed

end
