(* ===== verification/Heap_Spec.thy ===== *)
theory Heap_Spec
  imports Heap_Refine
begin

text \<open>
  What the kernel heap promises: the abstraction of a heap state to its block list, the refinement
  of first-fit allocation and coalescing release, and the allocator contract as a locale.
\<close>

section \<open>Abstraction\<close>

text \<open>
  Every block takes at least 24 of the 0x100000 bytes, so a walk of 43690 headers reads the whole
  list.
\<close>

fun read_blocks :: "nat \<Rightarrow> mem \<Rightarrow> u32 \<Rightarrow> hblock list" where
  "read_blocks 0 m h = []"
| "read_blocks (Suc k) m h = (if h = 0 then []
     else (unat (h_size (hdr m h)), h_is_free (hdr m h) \<noteq> 0) # read_blocks k m (h_next (hdr m h)))"

definition heap_abs :: "'a heap_state_scheme \<Rightarrow> hblock list" where
  "heap_abs s = read_blocks 43690 (heap_mem s) (start_header s)"

definition heap_inv :: "'a heap_state_scheme \<Rightarrow> bool" where
  "heap_inv s \<longleftrightarrow> start_header s = HEAP_START_ADDR \<and> heap_wf (heap_abs s) \<and>
     seg (heap_mem s) 0 0xD0000000 (heap_abs s) 0"

definition live :: "'a heap_state_scheme \<Rightarrow> (nat \<times> nat) set" where
  "live s = set (payloads 0xD0000000 (heap_abs s))"

definition round4 :: "nat \<Rightarrow> nat" where
  "round4 n = (n + 3) div 4 * 4"

lemma read_blocks_seg:
  "seg m p a bs 0 \<Longrightarrow> 0 < a \<Longrightarrow> a + span bs < 4294967296 \<Longrightarrow> length bs \<le> k \<Longrightarrow>
   read_blocks k m (ptr_to a bs) = bs"
proof (induction bs arbitrary: p a k rule: span.induct)
  case 1
  then show ?case by (cases k) simp_all
next
  case (2 z f bs)
  then obtain k' where k: "k = Suc k'" by (cases k) auto
  have h: "hdr m (of_nat a) = \<lparr>h_size = of_nat z, h_is_free = flag_of f, h_magic = HEAP_MAGIC,
       h_next = ptr_to (a + 20 + z) bs, h_prev = p\<rparr>" "seg m (of_nat a) (a + 20 + z) bs 0"
    using 2(2) by (auto simp: ptr_to_def)
  have "(of_nat a :: u32) \<noteq> 0" using 2(3,4) by (intro of_nat_u32_eq_0) auto
  moreover have "read_blocks k' m (ptr_to (a + 20 + z) bs) = bs"
    using 2(3-5) k by (intro "2.IH" [OF h(2)]) simp_all
  ultimately show ?case using 2(4) h(1) k by simp
qed

lemma span_ge_length: "\<forall>(z, f) \<in> set bs. 4 dvd z \<and> 4 \<le> z \<Longrightarrow> 24 * length bs \<le> span bs"
  by (induction bs rule: span.induct) auto

lemma heap_wf_nonempty: "heap_wf bs \<Longrightarrow> bs \<noteq> []"
  by (auto simp: heap_wf_def)

lemma heap_invI:
  assumes "start_header s = HEAP_START_ADDR" "heap_wf bs" "seg (heap_mem s) 0 0xD0000000 bs 0"
  shows "heap_inv s" "heap_abs s = bs"
proof -
  have "length bs \<le> 43690" "span bs = 0x100000" using assms(2) span_ge_length [of bs] by (auto simp: heap_wf_def)
  then have "read_blocks 43690 (heap_mem s) (ptr_to 0xD0000000 bs) = bs"
    using assms(3) by (intro read_blocks_seg) simp_all
  then show abs: "heap_abs s = bs"
    using heap_wf_nonempty [OF assms(2)] assms(1) by (simp add: heap_abs_def ptr_to_def)
  show "heap_inv s" using assms abs by (simp add: heap_inv_def)
qed

lemma heap_invD:
  assumes "heap_inv s"
  shows "start_header s = HEAP_START_ADDR" "heap_wf (heap_abs s)" "seg (heap_mem s) 0 0xD0000000 (heap_abs s) 0"
    "span (heap_abs s) = 0x100000" "no_adjacent_free (heap_abs s)"
  using assms by (auto simp: heap_inv_def heap_wf_def)

section \<open>Allocation\<close>

lemma round4_bounds: "n \<le> round4 n" "round4 n < n + 4" "4 dvd round4 n"
  unfolding round4_def by presburger+

lemma round4_word:
  fixes sz :: u32
  assumes "unat sz \<le> 1048556"
  shows "(if sz mod 4 \<noteq> 0 then sz + (4 - sz mod 4) else sz) = of_nat (round4 (unat sz))"
proof -
  have m: "unat (sz mod 4) = unat sz mod 4" by (simp add: unat_mod_distrib)
  show ?thesis
  proof (cases "sz mod 4 = 0")
    case True
    then have "unat sz mod 4 = 0" using m by simp
    then have "round4 (unat sz) = unat sz" unfolding round4_def by presburger
    then show ?thesis using True by simp
  next
    case False
    then have "unat sz mod 4 \<noteq> 0" using m by (metis unat_eq_0)
    then have r: "round4 (unat sz) = unat sz + (4 - unat sz mod 4)" unfolding round4_def by presburger
    have "unat (4 - sz mod 4) = 4 - unat sz mod 4"
      using m by (simp add: unat_sub_if_size word_size)
    then have "sz + (4 - sz mod 4) = of_nat (unat sz) + of_nat (4 - unat sz mod 4)"
      by (metis of_nat_unat ucast_id)
    then show ?thesis using False unfolding r of_nat_add by simp
  qed
qed

lemma set_is_free_frame:
  assumes "a + span (xs @ (z, f) # ys) + 20 < 4294967296" "unat x \<notin> hdr_area a (xs @ (z, f) # ys)"
  shows "set_is_free (of_nat (a + span xs)) v m x = m x"
proof -
  have "x \<notin> hdr_bytes (of_nat (a + span xs))"
    using assms by (subst hdr_bytes_iff) auto
  then show ?thesis by (rule set_outside)
qed

lemma kmalloc_take:
  assumes s: "seg m 0 a (xs @ (z, True) # ys) 0" and b: "a + span (xs @ (z, True) # ys) \<le> 0xD0100000"
    and r: "r \<le> z"
  defines "new \<equiv> (if z > r + 24 then [(r, False), (z - r - 20, True)] else [(z, False)])"
  obtains m1 where "kmalloc_split (of_nat (a + span xs)) (of_nat r) m = Inr m1"
    "seg (set_is_free (of_nat (a + span xs)) 0 m1) 0 a (xs @ new @ ys) 0"
    "\<And>x. unat x \<notin> hdr_area a (xs @ new @ ys) \<Longrightarrow> set_is_free (of_nat (a + span xs)) 0 m1 x = m x"
proof (cases "r + 24 < z")
  case True
  then have new: "new = [(r, False), (z - r - 20, True)]" by (simp add: new_def)
  have b1: "a + span (xs @ (r, f) # (z - r - 20, True) # ys) + 20 < 4294967296" for f using b True by simp
  from s b True show ?thesis
  proof (rule kmalloc_split_seg)
    fix m1 assume m1: "kmalloc_split (of_nat (a + span xs)) (of_nat r) m = Inr m1"
      "seg m1 0 a (xs @ (r, True) # (z - r - 20, True) # ys) 0"
      "\<And>x. unat x \<notin> hdr_area a (xs @ (r, True) # (z - r - 20, True) # ys) \<Longrightarrow> m1 x = m x"
    then show thesis
      using mark_free_seg [OF m1(2) b1, of False] set_is_free_frame [OF b1] new
      by (intro that [of m1]) (simp_all add: flag_of_def)
  qed
next
  case False
  then have new: "new = [(z, False)]" by (simp add: new_def)
  have "\<not> (of_nat r + 20 + 4 :: u32) < of_nat z"
    using of_nat_u32_less [of "r + 24" z] False r b by (simp add: add.commute)
  moreover have "h_size (hdr m (of_nat (a + span xs))) = of_nat z" using s by (simp add: seg_append)
  ultimately have sp: "kmalloc_split (of_nat (a + span xs)) (of_nat r) m = Inr m"
    by (simp add: kmalloc_split_def)
  have b1: "a + span (xs @ (z, f) # ys) + 20 < 4294967296" for f using b by simp
  show ?thesis
    using mark_free_seg [OF s b1, of False] set_is_free_frame [OF b1] new
    by (intro that [OF sp]) (simp_all add: flag_of_def)
qed

lemma heap_mem_update [simp]:
  "heap_mem (s\<lparr>heap_mem := m\<rparr>) = m" "start_header (s\<lparr>heap_mem := m\<rparr>) = start_header s"
  by simp_all

text \<open>
  \<^verbatim>\<open>kmalloc\<close> on a request within bounds: no block fits and nothing changes, or the block of the
  abstract first fit is handed out.
\<close>

lemma kmalloc_refines:
  assumes inv: "heap_inv s" and n: "0 < unat sz" "unat sz \<le> 1048556"
  defines "r \<equiv> round4 (unat sz)"
  obtains (oom) "first_fit r 0xD0000000 (heap_abs s) = None" "kmalloc sz s = Inr (0, s)"
    | (block) h m' where "first_fit r 0xD0000000 (heap_abs s) = Some h"
      "kmalloc sz s = Inr (of_nat (h + 20), s\<lparr>heap_mem := m'\<rparr>)"
      "heap_inv (s\<lparr>heap_mem := m'\<rparr>)" "heap_abs (s\<lparr>heap_mem := m'\<rparr>) = alloc_blocks r (heap_abs s)"
      "\<And>x q k. (q, k) \<in> live s \<Longrightarrow> q \<le> unat x \<Longrightarrow> unat x < q + k \<Longrightarrow> m' x = heap_mem s x"
proof -
  let ?a = "0xD0000000 :: nat" and ?m = "heap_mem s" and ?bs = "heap_abs s"
  note D = heap_invD [OF inv]
  have r: "4 dvd r" "4 \<le> r" "r \<le> 1048556"
    using round4_bounds [of "unat sz"] n unfolding r_def by presburger+
  have sz: "sz \<noteq> 0" "\<not> HEAP_INITIAL_SIZE - sizeof_HeapHeader < sz"
    using n by (auto simp: word_less_nat_alt)
  have find: "kmalloc_find ?m (of_nat r) (start_header s) =
      Some (Inr (case first_fit r ?a ?bs of None \<Rightarrow> 0 | Some h \<Rightarrow> of_nat h))"
    using kmalloc_find_seg [OF D(3), of r] D(1,4) r(3) heap_wf_nonempty [OF D(2)] by (simp add: ptr_to_def)
  have km: "kmalloc sz s = kbind (Inr (case first_fit r ?a ?bs of None \<Rightarrow> 0 | Some h \<Rightarrow> of_nat h)) (\<lambda>cur.
            if cur = 0 then Inr (0, s)
            else kbind (kmalloc_split cur (of_nat r) ?m) (\<lambda>m.
              Inr (cur + sizeof_HeapHeader, s\<lparr>heap_mem := set_is_free cur 0 m\<rparr>)))"
    unfolding kmalloc_def round4_word [OF n(2)] Let_def r_def [symmetric] find using D(1) sz by simp
  show thesis
  proof (cases rule: first_fit_cases [OF refl, of r ?a ?bs, case_names none fit])
    case none
    then show ?thesis using km oom by simp
  next
    case (fit xs z ys)
    define h where "h = ?a + span xs"
    have sp: "?a + span (xs @ (z, True) # ys) = 0xD0100000" using D(4) fit(1) by simp
    have hz: "(of_nat h :: u32) \<noteq> 0" using sp by (intro of_nat_u32_eq_0) (auto simp: h_def)
    let ?new = "if z > r + 24 then [(r, False), (z - r - 20, True)] else [(z, False)]"
    obtain m1 where m1: "kmalloc_split (of_nat h) (of_nat r) ?m = Inr m1"
      "seg (set_is_free (of_nat h) 0 m1) 0 ?a (xs @ ?new @ ys) 0"
      "\<And>x. unat x \<notin> hdr_area ?a (xs @ ?new @ ys) \<Longrightarrow> set_is_free (of_nat h) 0 m1 x = ?m x"
      using kmalloc_take [of ?m ?a xs z ys r] D(3) fit(1,2) sp unfolding h_def by auto
    let ?m' = "set_is_free (of_nat h) 0 m1"
    have I: "heap_inv (s\<lparr>heap_mem := ?m'\<rparr>)" "heap_abs (s\<lparr>heap_mem := ?m'\<rparr>) = alloc_blocks r ?bs"
      using heap_invI [of "s\<lparr>heap_mem := ?m'\<rparr>" "alloc_blocks r ?bs"] alloc_blocks_wf [OF D(2) r(1,2)] D(1) m1(2) fit(5)
      by simp_all
    show ?thesis
    proof (rule block [OF _ _ I])
      show "first_fit r ?a ?bs = Some h" using fit(3) by (simp add: h_def)
      show "kmalloc sz s = Inr (of_nat (h + 20), s\<lparr>heap_mem := ?m'\<rparr>)"
        using km m1(1) hz fit(3) by (simp add: h_def)
      fix x :: u32 and q k assume live: "(q, k) \<in> live s" "q \<le> unat x" "unat x < q + k"
      have "(q, k) \<in> set (payloads ?a (xs @ ?new @ ys))"
        using live(1) fit(1,2) by (auto simp: live_def add.assoc)
      then show "?m' x = ?m x"
        using payload_not_header live(2,3) by (intro m1(3)) blast
    qed
  qed
qed

section \<open>Release\<close>

lemma payloads_coalesce: "payloads a (coalesce bs) = payloads a bs"
proof (induction bs arbitrary: a rule: coalesce.induct, goal_cases)
  case (4 b z bs a)
  then show ?case using 4(1) [of "a + 20 + fst b"] by (cases b) (simp add: add.assoc)
qed (auto simp: add.assoc)

lemma live_split:
  assumes "heap_inv s" "(q, z) \<in> live s"
  obtains xs ys where "heap_abs s = xs @ (z, False) # ys" "q = 0xD0000000 + span xs + 20"
    "q + z + span ys = 0xD0100000"
  using assms heap_invD(4) [OF assms(1)] by (auto simp: live_def payloads_split)

lemma live_less: "heap_inv s \<Longrightarrow> (q, z) \<in> live s \<Longrightarrow> q + z \<le> 0xD0100000 \<and> 0xD0000014 \<le> q"
  by (elim live_split) auto

lemma mem_update_live:
  assumes "payloads 0xD0000000 (heap_abs s') = payloads 0xD0000000 xs @ payloads b ys"
    "heap_abs s = xs @ (z, False) # ys" "q = 0xD0000000 + span xs + 20" "b = q + z" "4 \<le> z"
  shows "live s' = live s - {(q, z)}"
proof -
  have "set (payloads 0xD0000000 (heap_abs s)) =
      set (payloads 0xD0000000 xs) \<union> {(q, z)} \<union> set (payloads b ys)"
    by (simp add: assms add.assoc)
  moreover have "(q, z) \<notin> set (payloads 0xD0000000 xs)" "(q, z) \<notin> set (payloads b ys)"
    using payloads_range [of q z "0xD0000000" xs] payloads_range [of q z b ys] assms by auto
  ultimately show ?thesis using assms(1) by (auto simp: live_def)
qed

lemma kfree_refines:
  assumes inv: "heap_inv s" and q: "(q, z) \<in> live s"
  obtains m' where "kfree (of_nat q) s = Inr (s\<lparr>heap_mem := m'\<rparr>)" "heap_inv (s\<lparr>heap_mem := m'\<rparr>)"
    "heap_abs (s\<lparr>heap_mem := m'\<rparr>) = coalesce (mark_free (q - 20) 0xD0000000 (heap_abs s))"
    "live (s\<lparr>heap_mem := m'\<rparr>) = live s - {(q, z)}"
    "\<And>x p k. (p, k) \<in> live s \<Longrightarrow> p \<le> unat x \<Longrightarrow> unat x < p + k \<Longrightarrow> m' x = heap_mem s x"
    "kfree (of_nat q) (s\<lparr>heap_mem := m'\<rparr>) = Inl (Panic ''HEAP: Double free detected'')"
proof -
  let ?a = "0xD0000000 :: nat" and ?m = "heap_mem s"
  note D = heap_invD [OF inv]
  from inv q obtain xs ys where bs: "heap_abs s = xs @ (z, False) # ys" and qa: "q = ?a + span xs + 20"
      "q + z + span ys = 0xD0100000" by (rule live_split)
  define A where "A = ?a + span xs"
  define m' where "m' = kfree_coalesce_left (of_nat A) (kfree_coalesce_right (of_nat A) (set_is_free (of_nat A) 1 ?m))"
  have b: "?a + span (xs @ (z, False) # ys) + 20 < 4294967296" using qa by simp
  note K = kfree_seg [OF D(3) [unfolded bs] _ b D(5) [unfolded bs], folded A_def, folded m'_def]
  have ptr: "(of_nat q :: u32) - 20 = of_nat A" using qa(1) by (simp add: A_def)
  have ptr0: "(of_nat q :: u32) \<noteq> 0" using qa by (intro of_nat_u32_eq_0) linarith+
  have hA: "h_magic (hdr ?m (of_nat A)) = HEAP_MAGIC" "h_is_free (hdr ?m (of_nat A)) = 0"
    using D(3) by (simp_all add: bs seg_append A_def flag_of_def)
  have sizes: "\<forall>(z, f) \<in> set (xs @ (z, True) # ys). 4 dvd z \<and> 4 \<le> z" "4 \<le> z"
    using D(2) bs by (auto simp: heap_wf_def)
  have wf: "heap_wf (coalesce (xs @ (z, True) # ys))"
    using coalesce_wf [OF _ sizes(1)] D(4) bs by simp
  have I: "heap_inv (s\<lparr>heap_mem := m'\<rparr>)" "heap_abs (s\<lparr>heap_mem := m'\<rparr>) = coalesce (xs @ (z, True) # ys)"
    using heap_invI [OF _ wf, of "s\<lparr>heap_mem := m'\<rparr>"] D(1) K(1) by simp_all
  show thesis
  proof (rule that [OF _ I(1)])
    show "kfree (of_nat q) s = Inr (s\<lparr>heap_mem := m'\<rparr>)"
      using ptr ptr0 hA D(1) by (simp add: kfree_def m'_def Let_def)
    show "kfree (of_nat q) (s\<lparr>heap_mem := m'\<rparr>) = Inl (Panic ''HEAP: Double free detected'')"
      using ptr ptr0 K(3,4) D(1) by (simp add: kfree_def)
    show "heap_abs (s\<lparr>heap_mem := m'\<rparr>) = coalesce (mark_free (q - 20) ?a (heap_abs s))"
      using I(2) mark_free_split [of ?a xs z False ys] by (simp add: bs qa)
    show "live (s\<lparr>heap_mem := m'\<rparr>) = live s - {(q, z)}"
      using I(2) qa by (intro mem_update_live [OF _ bs qa(1) refl sizes(2)]) (simp add: payloads_coalesce add.assoc)
    fix x :: u32 and p k assume p: "(p, k) \<in> live s" "p \<le> unat x" "unat x < p + k"
    then show "m' x = ?m x"
      using payload_not_header [of p k ?a "heap_abs s" "unat x"] by (intro K(2)) (simp_all add: live_def bs)
  qed
qed

section \<open>The allocator contract\<close>

lemma alloc_blocks_payloads:
  assumes "first_fit r a bs = Some h"
  obtains k where "r \<le> k" "set (payloads a (alloc_blocks r bs)) = insert (h + 20, k) (set (payloads a bs))"
    "\<And>j. 0 < j \<Longrightarrow> (h + 20, j) \<notin> set (payloads a bs)"
  using assms
proof (cases rule: first_fit_cases)
  case (fit xs z ys)
  let ?k = "if z > r + 24 then r else z"
  have h: "h = a + span xs" using fit(3) by simp
  have "set (payloads a (alloc_blocks r bs)) = insert (h + 20, ?k) (set (payloads a bs))"
    unfolding fit(5) using fit(1,2) h by (auto simp: add.assoc)
  moreover have "(h + 20, j) \<notin> set (payloads a bs)" if "0 < j" for j
    using that h payloads_range [of "h + 20" j a xs] payloads_range [of "h + 20" j "h + 20 + z" ys]
    by (auto simp: fit(1) add.assoc)
  ultimately show ?thesis using fit(2) by (intro that [of ?k]) auto
qed simp

text \<open>
  The contract of a memory allocator: the regions handed out are disjoint, a request is either
  refused with nothing changed or answered with a new region that is large enough, any region can be
  given back, and nothing the allocator does changes the contents of a region in use.
\<close>

locale allocator =
  fixes ok :: "'s \<Rightarrow> bool"
    and regions :: "'s \<Rightarrow> (nat \<times> nat) set"
    and cell :: "'s \<Rightarrow> u32 \<Rightarrow> u8"
    and alloc :: "u32 \<Rightarrow> 's \<Rightarrow> (u32 \<times> 's) kres"
    and release :: "u32 \<Rightarrow> 's \<Rightarrow> 's kres"
  assumes region_bounds: "ok s \<Longrightarrow> (q, k) \<in> regions s \<Longrightarrow> 0 < q \<and> q + k < 4294967296"
    and regions_disjoint: "ok s \<Longrightarrow> (q, k) \<in> regions s \<Longrightarrow> (q', k') \<in> regions s \<Longrightarrow>
      (q, k) = (q', k') \<or> q + k \<le> q' \<or> q' + k' \<le> q"
    and alloc_result: "ok s \<Longrightarrow> \<exists>p s'. alloc sz s = Inr (p, s') \<and> ok s' \<and>
      (p = 0 \<and> s' = s \<or> p \<noteq> 0 \<and> (\<exists>k \<ge> unat sz. (unat p, k) \<notin> regions s \<and> regions s' = insert (unat p, k) (regions s))) \<and>
      (\<forall>(q, k) \<in> regions s. \<forall>x. q \<le> unat x \<and> unat x < q + k \<longrightarrow> cell s' x = cell s x)"
    and release_result: "ok s \<Longrightarrow> (q, k) \<in> regions s \<Longrightarrow> \<exists>s'. release (of_nat q) s = Inr s' \<and> ok s' \<and>
      regions s' = regions s - {(q, k)} \<and>
      (\<forall>(q, k) \<in> regions s. \<forall>x. q \<le> unat x \<and> unat x < q + k \<longrightarrow> cell s' x = cell s x)"
begin

text \<open>What is written to a region is still there after any allocation and release around it.\<close>

lemma alloc_release:
  assumes "ok s" "alloc sz s = Inr (p, s')" "p \<noteq> 0"
  shows "\<exists>s''. release p s' = Inr s'' \<and> ok s'' \<and> regions s'' = regions s \<and>
    (\<forall>(q, k) \<in> regions s. \<forall>x. q \<le> unat x \<and> unat x < q + k \<longrightarrow> cell s'' x = cell s x)"
proof -
  obtain k where s': "ok s'" "(unat p, k) \<notin> regions s" "regions s' = insert (unat p, k) (regions s)"
    "\<forall>(q, k) \<in> regions s. \<forall>x. q \<le> unat x \<and> unat x < q + k \<longrightarrow> cell s' x = cell s x"
    using alloc_result [OF assms(1), of sz] assms(2,3) by auto
  obtain s'' where s'': "release (of_nat (unat p)) s' = Inr s''" "ok s''" "regions s'' = regions s' - {(unat p, k)}"
    "\<forall>(q, k) \<in> regions s'. \<forall>x. q \<le> unat x \<and> unat x < q + k \<longrightarrow> cell s'' x = cell s' x"
    using release_result [OF s'(1), of "unat p" k] s'(3) by auto
  moreover have "regions s'' = regions s" using s' s''(3) by auto
  moreover have "\<forall>(q, k) \<in> regions s. \<forall>x. q \<le> unat x \<and> unat x < q + k \<longrightarrow> cell s'' x = cell s x"
    using s'(3,4) s''(4) by fastforce
  ultimately show ?thesis by auto
qed

text \<open>Two successful requests in a row get disjoint memory.\<close>

lemma alloc_twice_disjoint:
  assumes "ok s" "alloc sz s = Inr (p, s1)" "alloc sz' s1 = Inr (p', s2)" "p \<noteq> 0" "p' \<noteq> 0" "sz' \<noteq> 0"
  shows "unat p + unat sz \<le> unat p' \<or> unat p' + unat sz' \<le> unat p"
proof -
  obtain k where s1: "ok s1" "unat sz \<le> k" "regions s1 = insert (unat p, k) (regions s)"
    using alloc_result [OF assms(1), of sz] assms(2,4) by auto
  obtain k' where s2: "ok s2" "unat sz' \<le> k'" "(unat p', k') \<notin> regions s1"
      "regions s2 = insert (unat p', k') (regions s1)"
    using alloc_result [OF s1(1), of sz'] assms(3,5) by auto
  have "(unat p, k) \<in> regions s2" "(unat p', k') \<in> regions s2" "(unat p, k) \<noteq> (unat p', k')"
    using s1 s2 by auto
  then show ?thesis using regions_disjoint [OF s2(1)] s1(2) s2(2) by fastforce
qed

end

lemma kmalloc_zero:
  assumes "heap_inv s" "sz = 0 \<or> 1048556 < unat sz"
  shows "kmalloc sz s = Inr (0, s)"
  using assms(2) heap_invD(1) [OF assms(1)] by (auto simp: kmalloc_def word_less_nat_alt)

lemma kmalloc_live:
  assumes inv: "heap_inv s"
  shows "\<exists>p s'. kmalloc sz s = Inr (p, s') \<and> heap_inv s' \<and>
    (p = 0 \<and> s' = s \<or> p \<noteq> 0 \<and> (\<exists>k \<ge> unat sz. (unat p, k) \<notin> live s \<and> live s' = insert (unat p, k) (live s))) \<and>
    (\<forall>(q, k) \<in> live s. \<forall>x. q \<le> unat x \<and> unat x < q + k \<longrightarrow> heap_mem s' x = heap_mem s x)"
proof (cases "sz = 0 \<or> 1048556 < unat sz")
  case True
  then show ?thesis using kmalloc_zero [OF inv] inv by auto
next
  case False
  then have n: "0 < unat sz" "unat sz \<le> 1048556" by (auto simp: unat_gt_0)
  from inv n show ?thesis
  proof (cases rule: kmalloc_refines)
    case oom
    then show ?thesis using inv by auto
  next
    case (block h m')
    from block(1) obtain k where k: "round4 (unat sz) \<le> k"
      "live (s\<lparr>heap_mem := m'\<rparr>) = insert (h + 20, k) (live s)" "\<And>j. 0 < j \<Longrightarrow> (h + 20, j) \<notin> live s"
      unfolding live_def block(4) by (rule alloc_blocks_payloads) blast
    have hb: "h + 20 < 4294967296" using live_less [OF block(3), of "h + 20" k] k(2) by auto
    then have u: "unat (of_nat (h + 20) :: u32) = h + 20" by (rule unat_of_nat_u32)
    have u0: "(of_nat (h + 20) :: u32) \<noteq> 0" using hb by (intro of_nat_u32_eq_0) auto
    have "unat sz \<le> k" "0 < k" using k(1) round4_bounds(1) [of "unat sz"] n(1) by simp_all
    then show ?thesis
      using block(2,3,5) k u u0
      by (intro exI [of _ "of_nat (h + 20)"] exI [of _ "s\<lparr>heap_mem := m'\<rparr>"]) auto
  qed
qed

interpretation kheap: allocator heap_inv live heap_mem kmalloc kfree
proof
  fix s :: "'a heap_state_scheme" and q k q' k' :: nat and sz :: u32
  assume inv: "heap_inv s"
  show "0 < q \<and> q + k < 4294967296" if "(q, k) \<in> live s" using live_less [OF inv that] by auto
  show "(q, k) = (q', k') \<or> q + k \<le> q' \<or> q' + k' \<le> q" if "(q, k) \<in> live s" "(q', k') \<in> live s"
    using that by (auto simp: live_def dest: payloads_disjoint)
  show "\<exists>p s'. kmalloc sz s = Inr (p, s') \<and> heap_inv s' \<and>
    (p = 0 \<and> s' = s \<or> p \<noteq> 0 \<and> (\<exists>k \<ge> unat sz. (unat p, k) \<notin> live s \<and> live s' = insert (unat p, k) (live s))) \<and>
    (\<forall>(q, k) \<in> live s. \<forall>x. q \<le> unat x \<and> unat x < q + k \<longrightarrow> heap_mem s' x = heap_mem s x)"
    by (rule kmalloc_live [OF inv])
  show "\<exists>s'. kfree (of_nat q) s = Inr s' \<and> heap_inv s' \<and> live s' = live s - {(q, k)} \<and>
      (\<forall>(q, k) \<in> live s. \<forall>x. q \<le> unat x \<and> unat x < q + k \<longrightarrow> heap_mem s' x = heap_mem s x)"
    if "(q, k) \<in> live s"
    using inv that
  proof (rule kfree_refines)
    fix m' assume m': "kfree (of_nat q) s = Inr (s\<lparr>heap_mem := m'\<rparr>)" "heap_inv (s\<lparr>heap_mem := m'\<rparr>)"
      "live (s\<lparr>heap_mem := m'\<rparr>) = live s - {(q, k)}"
      "\<And>x p k. (p, k) \<in> live s \<Longrightarrow> p \<le> unat x \<Longrightarrow> unat x < p + k \<Longrightarrow> m' x = heap_mem s x"
    then show ?thesis by (intro exI [of _ "s\<lparr>heap_mem := m'\<rparr>"]) auto
  qed
qed

end
