(* ===== verification/Heap_Correct.thy ===== *)
theory Heap_Correct
  imports Heap_Spec
begin

text \<open>
  Initialisation of the kernel heap and the properties of \<^verbatim>\<open>heap_init\<close>, \<^verbatim>\<open>kmalloc\<close> and \<^verbatim>\<open>kfree\<close>.
\<close>

section \<open>Initialisation\<close>

lemma heap_pages_nth:
  assumes "i < 256"
  shows "unat (heap_pages ! i) = 0xD0000000 + 4096 * i" "page_frame (heap_pages ! i) = 0xD0000 + i"
    "unat (heap_pages ! i) mod 4096 = 0" "pd_index (heap_pages ! i) = 832"
proof -
  have "heap_pages ! i = of_nat (0xD0000000 + 4096 * i)" using assms by (simp add: heap_pages_def del: upt_rec_numeral)
  then show u: "unat (heap_pages ! i) = 0xD0000000 + 4096 * i"
    using assms by (simp only:) (rule unat_of_nat_u32; simp)
  then show f: "page_frame (heap_pages ! i) = 0xD0000 + i" by (simp add: page_frame_def)
  from u show "unat (heap_pages ! i) mod 4096 = 0" by presburger
  have "unat (pd_index (heap_pages ! i)) = 832" using assms by (simp add: unat_pd_index u)
  then show "pd_index (heap_pages ! i) = 832" by (simp add: word_unat_eq_iff)
qed

lemma heap_pages_facts:
  "length heap_pages = 256" "heap_pages = heap_pages ! 0 # tl heap_pages" "distinct (map page_frame heap_pages)"
  "i < 255 \<Longrightarrow> tl heap_pages ! i = heap_pages ! Suc i"
proof -
  show l: "length heap_pages = 256" by (simp add: heap_pages_def del: upt_rec_numeral)
  then have "heap_pages \<noteq> []" by auto
  then show "heap_pages = heap_pages ! 0 # tl heap_pages" by (metis list.exhaust_sel hd_conv_nth)
  have "map page_frame heap_pages = [0xD0000..<0xD0100]"
    by (rule nth_equalityI) (simp_all add: l heap_pages_nth del: upt_rec_numeral)
  then show "distinct (map page_frame heap_pages)" by (simp del: upt_rec_numeral)
  show "i < 255 \<Longrightarrow> tl heap_pages ! i = heap_pages ! Suc i" by (simp add: l nth_tl)
qed

lemma heap_fields_update [simp]:
  fixes s :: "'a heap_state_scheme"
  shows "vmm_inv (s\<lparr>start_header := h, heap_mem := m\<rparr>) = vmm_inv s"
    "walk (s\<lparr>start_header := h, heap_mem := m\<rparr>) = walk s"
    "used_set (s\<lparr>start_header := h, heap_mem := m\<rparr>) = used_set s"
  by (simp_all add: vmm_inv_def bitmap_reserved_def walk_def pmm_ready_def pmm_inv_def own_page_def
      pde_present_def table_of_def in_bitmap_def used_set_def frame_used_def bitmap_byte_def fun_eq_iff)

text \<open>The first page may need a page table; the others find it in place.\<close>

lemma heap_map_pages:
  fixes s :: "'a heap_state_scheme"
  assumes inv: "vmm_inv s" and room: "257 \<le> card (free_frames s)"
    and low: "2 \<le> card ({..<min 1024 (total_blocks s)} - used_set s)"
  shows "\<exists>ps s'. kfold heap_map_page heap_pages s = Inr s' \<and> vmm_inv s' \<and> length ps = 256 \<and>
    distinct (map page_frame ps) \<and> page_frame ` set ps \<subseteq> free_frames s \<and>
    (\<forall>i < 256. \<forall>va. page_frame va = 0xD0000 + i \<longrightarrow> walk s' va = Some (ps ! i OR (va AND 0xFFF))) \<and>
    (\<forall>va. page_frame va < 0xD0000 \<or> 0xD0100 \<le> page_frame va \<longrightarrow> walk s' va = walk s va)"
proof -
  let ?v = "heap_pages ! 0" and ?vs = "tl heap_pages"
  have al: "unat ?v mod 4096 = 0" by (rule heap_pages_nth) simp
  have ne: "free_frames s \<noteq> {}" using room by auto
  obtain p s1 T where f: "vmm_alloc_page ?v s = Inr (1, s1)" "page_ptr p" "page_frame p \<in> free_frames s"
      "vmm_mapped ?v p s s1" "used_set s1 = insert (page_frame p) (used_set s) \<union> T" "T \<inter> used_set s = {}"
      "if pde_present s (pd_index ?v) then T = {} else \<exists>f < 1024. T = {f}"
  proof (cases rule: vmm_alloc_page_cases [OF inv al ne, case_names panic mapped])
    case (panic p)
    then have "{..<min 1024 (total_blocks s)} - used_set s \<subseteq> {page_frame p}" by auto
    then have "card ({..<min 1024 (total_blocks s)} - used_set s) \<le> 1"
      using card_mono [of "{page_frame p}"] by fastforce
    then show ?thesis using low by simp
  qed (rule that)
  have s1: "vmm_inv s1" "pde_present s1 832" "total_blocks s1 = total_blocks s"
    "walk s1 = (\<lambda>va. if page_frame va = page_frame ?v then Some (p OR (va AND 0xFFF)) else walk s va)"
    using f(4) heap_pages_nth(4) [of 0] by (auto simp: vmm_mapped_def vmm_same_def)
  have fr: "free_frames s1 = free_frames s - insert (page_frame p) T" using f(5) s1(3) by (auto simp: free_frames_def)
  have T: "finite T" "card (insert (page_frame p) T) \<le> 2"
    using f(7) by (auto simp: card_insert_if split: if_splits)
  have "255 \<le> card (free_frames s1)"
    using room T diff_card_le_card_Diff [of "insert (page_frame p) T" "free_frames s"] by (simp add: fr)
  then have room1: "length ?vs \<le> card (free_frames s1)" using heap_pages_facts(1) by simp
  have "pde_present s1 (pd_index v) \<and> unat v mod 4096 = 0" if "v \<in> set ?vs" for v
  proof -
    from that obtain i where "i < 255" "v = ?vs ! i" using heap_pages_facts(1) by (auto simp: in_set_conv_nth)
    then show ?thesis using heap_pages_nth(3,4) [of "Suc i"] heap_pages_facts(4) s1(2) by simp
  qed
  then have cov: "\<forall>v \<in> set ?vs. pde_present s1 (pd_index v) \<and> unat v mod 4096 = 0" by blast
  have dist: "distinct (map page_frame ?vs)" "page_frame ?v \<notin> page_frame ` set ?vs"
    using heap_pages_facts(2,3) by (metis distinct.simps(2) list.simps(9) list.set_map)+
  obtain ps s' where r: "kfold heap_map_page ?vs s1 = Inr s'" "vmm_inv s'" "length ps = length ?vs"
      "distinct (map page_frame ps)" "page_frame ` set ps \<subseteq> free_frames s1"
      "\<And>i va. i < length ?vs \<Longrightarrow> page_frame va = page_frame (?vs ! i) \<Longrightarrow> walk s' va = Some (ps ! i OR (va AND 0xFFF))"
      "\<And>va. page_frame va \<notin> page_frame ` set ?vs \<Longrightarrow> walk s' va = walk s1 va"
    using vmm_pages.alloc_run [OF s1(1) cov dist(1) room1, of "Panic ''HEAP: vmm_alloc_page failed during heap_init()''"]
    unfolding heap_map_page_def [abs_def] by metis
  have k: "kfold heap_map_page heap_pages s = Inr s'"
    using f(1) r(1) by (subst heap_pages_facts(2)) (simp add: heap_map_page_def)
  have fv: "page_frame ?v = 0xD0000" using heap_pages_nth(2) [of 0] by simp
  have fvs: "page_frame (?vs ! j) = 0xD0001 + j" if "j < 255" for j
    using that heap_pages_facts(4) [OF that] heap_pages_nth(2) [of "Suc j"] by simp
  have "walk s' va = Some ((p # ps) ! i OR (va AND 0xFFF))" if "i < 256" "page_frame va = 0xD0000 + i" for i va
  proof (cases i)
    case 0
    then show ?thesis using that r(7) [of va] s1(4) dist(2) fv by simp
  next
    case (Suc j)
    then show ?thesis using that r(6) [of j va] fvs [of j] heap_pages_facts(1) by simp
  qed
  moreover have "walk s' va = walk s va" if "page_frame va < 0xD0000 \<or> 0xD0100 \<le> page_frame va" for va
  proof -
    have "page_frame va \<notin> page_frame ` set ?vs"
      using that fvs heap_pages_facts(1) by (auto simp: in_set_conv_nth image_iff)
    then show ?thesis using that r(7) s1(4) fv by auto
  qed
  moreover have "distinct (map page_frame (p # ps))" "page_frame ` set (p # ps) \<subseteq> free_frames s"
    using r(4,5) f(3) fr by auto
  ultimately show ?thesis
    using k r(2,3) heap_pages_facts(1) by (intro exI [of _ "p # ps"] exI [of _ s'] conjI) simp_all
qed

lemma heap_init_spec:
  fixes s :: "'a heap_state_scheme"
  assumes "vmm_inv s" "257 \<le> card (free_frames s)" "2 \<le> card ({..<min 1024 (total_blocks s)} - used_set s)"
  shows "\<exists>ps s'. heap_init s = Inr s' \<and> heap_inv s' \<and> heap_abs s' = [(1048556, True)] \<and> vmm_inv s' \<and>
    length ps = 256 \<and> distinct (map page_frame ps) \<and> page_frame ` set ps \<subseteq> free_frames s \<and>
    (\<forall>i < 256. \<forall>va. page_frame va = 0xD0000 + i \<longrightarrow> walk s' va = Some (ps ! i OR (va AND 0xFFF))) \<and>
    (\<forall>va. page_frame va < 0xD0000 \<or> 0xD0100 \<le> page_frame va \<longrightarrow> walk s' va = walk s va)"
proof -
  obtain ps s1 where m: "kfold heap_map_page heap_pages s = Inr s1" "vmm_inv s1" "length ps = 256"
    "distinct (map page_frame ps)" "page_frame ` set ps \<subseteq> free_frames s"
    "\<And>i va. i < 256 \<Longrightarrow> page_frame va = 0xD0000 + i \<Longrightarrow> walk s1 va = Some (ps ! i OR (va AND 0xFFF))"
    "\<And>va. page_frame va < 0xD0000 \<or> 0xD0100 \<le> page_frame va \<Longrightarrow> walk s1 va = walk s va"
    using heap_map_pages [OF assms] by metis
  define m' where "m' = set_prev HEAP_START_ADDR 0 (set_next HEAP_START_ADDR 0 (set_magic HEAP_START_ADDR HEAP_MAGIC
    (set_is_free HEAP_START_ADDR 1 (set_size HEAP_START_ADDR 1048556 (heap_mem s1)))))"
  have i: "heap_init s = Inr (s1\<lparr>start_header := HEAP_START_ADDR, heap_mem := m'\<rparr>)"
    using m(1) by (simp add: heap_init_def m'_def Let_def)
  have "seg m' 0 0xD0000000 [(1048556, True)] 0" by (simp add: m'_def flag_of_def)
  moreover have "heap_wf [(1048556, True)]" by (simp add: heap_wf_def)
  ultimately have "heap_inv (s1\<lparr>start_header := HEAP_START_ADDR, heap_mem := m'\<rparr>)"
    "heap_abs (s1\<lparr>start_header := HEAP_START_ADDR, heap_mem := m'\<rparr>) = [(1048556, True)]"
    using heap_invI [of "s1\<lparr>start_header := HEAP_START_ADDR, heap_mem := m'\<rparr>" "[(1048556, True)]"] by simp_all
  then show ?thesis
    using i m by (intro exI [of _ ps] exI [of _ "s1\<lparr>start_header := HEAP_START_ADDR, heap_mem := m'\<rparr>"]) simp
qed

section \<open>Consequences on block lists\<close>

lemma heap_sizes: "heap_inv s \<Longrightarrow> heap_abs s = xs @ (z, f) # ys \<Longrightarrow> 4 \<le> z"
  using heap_invD(2) [of s] by (auto simp: heap_wf_def)

lemma free_alloc_blocks:
  assumes "no_adjacent_free bs" "first_fit r a bs = Some h"
  shows "coalesce (mark_free h a (alloc_blocks r bs)) = bs"
  using assms(2)
proof (cases rule: first_fit_cases)
  case (fit xs z ys)
  have h: "h = a + span xs" using fit(3) by simp
  have nx: "no_adjacent_free xs" "\<not> (xs \<noteq> [] \<and> snd (last xs))" and ny: "no_adjacent_free ys" "\<not> (ys \<noteq> [] \<and> snd (hd ys))"
    using assms(1) fit(1) by (auto simp: no_adjacent_free_append no_adjacent_free_Cons)
  have id: "coalesce ((w, True) # ys) = (w, True) # ys" for w
    using ny by (intro coalesce_id) (auto simp: no_adjacent_free_Cons)
  have "mark_free h a (alloc_blocks r bs) =
      xs @ (if z > r + 24 then [(r, True), (z - r - 20, True)] else [(z, True)]) @ ys"
    unfolding fit(5) h by (simp add: mark_free_split)
  also have "coalesce \<dots> = bs"
    using coalesce_prefix [OF nx] id fit(1,2) by simp
  finally show ?thesis .
qed simp

lemma no_payload_single:
  assumes "payloads a bs = []" "no_adjacent_free bs" "bs \<noteq> []"
  shows "\<exists>z. bs = [(z, True)]"
proof -
  obtain z f cs where bs: "bs = (z, f) # cs" using assms(3) by (cases bs) auto
  have "cs = []"
  proof (rule ccontr)
    assume "cs \<noteq> []"
    then obtain z' f' ds where "cs = (z', f') # ds" by (cases cs) auto
    then show False using assms(1,2) bs by (auto split: if_splits)
  qed
  then show ?thesis using assms(1) bs by (auto split: if_splits)
qed

lemma heap_store_inv:
  assumes inv: "heap_inv s" and q: "(q, k) \<in> live s" "q \<le> unat x" "unat x < q + k"
  shows "heap_inv (s\<lparr>heap_mem := (heap_mem s)(x := v)\<rparr>)" "heap_abs (s\<lparr>heap_mem := (heap_mem s)(x := v)\<rparr>) = heap_abs s"
proof -
  note D = heap_invD [OF inv]
  have x: "unat x \<notin> hdr_area 0xD0000000 (heap_abs s)"
    using payload_not_header q by (simp add: live_def)
  have "seg ((heap_mem s)(x := v)) 0 0xD0000000 (heap_abs s) 0"
  proof (rule seg_headers_cong [OF D(3)])
    show "0xD0000000 + span (heap_abs s) \<le> 4294967296" using D(4) by simp
    fix xs b ys assume bs: "heap_abs s = xs @ b # ys"
    obtain z f where b: "b = (z, f)" by (cases b)
    have "0xD0000000 + span xs + 20 \<le> 4294967296" using D(4) bs b by simp
    then have "x \<notin> hdr_bytes (of_nat (0xD0000000 + span xs))"
      using x bs b by (subst hdr_bytes_iff) auto
    then show "hdr ((heap_mem s)(x := v)) (of_nat (0xD0000000 + span xs)) = hdr (heap_mem s) (of_nat (0xD0000000 + span xs))"
      by (intro hdr_cong) auto
  qed
  then show "heap_inv (s\<lparr>heap_mem := (heap_mem s)(x := v)\<rparr>)"
    "heap_abs (s\<lparr>heap_mem := (heap_mem s)(x := v)\<rparr>) = heap_abs s"
    using heap_invI [of "s\<lparr>heap_mem := (heap_mem s)(x := v)\<rparr>" "heap_abs s"] D(1,2) by simp_all
qed

text \<open>
  The steps of a well-behaved client: requests, releases of regions it holds, and writes inside them.
\<close>

inductive heap_step :: "'a heap_state_scheme \<Rightarrow> 'a heap_state_scheme \<Rightarrow> bool" where
  malloc: "kmalloc sz s = Inr (p, s') \<Longrightarrow> heap_step s s'"
| free: "(q, k) \<in> live s \<Longrightarrow> kfree (of_nat q) s = Inr s' \<Longrightarrow> heap_step s s'"
| store: "(q, k) \<in> live s \<Longrightarrow> q \<le> unat x \<Longrightarrow> unat x < q + k \<Longrightarrow>
    heap_step s (s\<lparr>heap_mem := (heap_mem s)(x := v)\<rparr>)"

inductive_cases heap_stepE: "heap_step s s'"

lemma heap_step_inv: "heap_step s s' \<Longrightarrow> heap_inv s \<Longrightarrow> heap_inv s'"
proof (induction rule: heap_step.induct)
  case (malloc sz s p s')
  then show ?case using kheap.alloc_result [of s sz] by auto
next
  case (free q k s s')
  then show ?case using kheap.release_result [of s q k] by auto
next
  case (store q k s x v)
  then show ?case using heap_store_inv by blast
qed

section \<open>Properties\<close>

text \<open>A freshly initialised heap, and the heap after one request for ten bytes.\<close>

definition sample_heap :: heap_state where
  "sample_heap = \<lparr>con_log = [], phys = (\<lambda>_. 0), total_blocks = 0, used_blocks = 0, bitmap_size = 0,
     last_free_index = 0, last_free_index_low = 0, page_directory = 0, cr3 = 0, cr0 = 0, tlb = (\<lambda>_. None),
     start_header = HEAP_START_ADDR,
     heap_mem = set_magic HEAP_START_ADDR HEAP_MAGIC (set_is_free HEAP_START_ADDR 1 (set_size HEAP_START_ADDR 1048556 (\<lambda>_. 0)))\<rparr>"

lemma hdr_zero: "hdr (\<lambda>_. 0) p = \<lparr>h_size = 0, h_is_free = 0, h_magic = 0, h_next = 0, h_prev = 0\<rparr>"
  by (simp add: hdr_def read32_def)

lemma sample_heap_inv: "heap_inv sample_heap" "heap_abs sample_heap = [(1048556, True)]" "live sample_heap = {}"
proof -
  have "seg (heap_mem sample_heap) 0 0xD0000000 [(1048556, True)] 0"
    by (simp add: sample_heap_def hdr_zero flag_of_def)
  moreover have "heap_wf [(1048556, True)]" by (simp add: heap_wf_def)
  moreover have "start_header sample_heap = HEAP_START_ADDR" by (simp add: sample_heap_def)
  ultimately show "heap_inv sample_heap" "heap_abs sample_heap = [(1048556, True)]"
    using heap_invI by blast+
  then show "live sample_heap = {}" by (simp add: live_def)
qed

definition sample_heap1 :: heap_state where
  "sample_heap1 = snd (projr (kmalloc 10 sample_heap))"

lemma sample_heap1_inv:
  "kmalloc 10 sample_heap = Inr (0xD0000014, sample_heap1)" "heap_inv sample_heap1"
  "heap_abs sample_heap1 = [(12, False), (1048524, True)]" "live sample_heap1 = {(0xD0000014, 12)}"
proof -
  have n: "0 < unat (10 :: u32)" "unat (10 :: u32) \<le> 1048556" "round4 10 = 12"
    by (simp_all add: round4_def)
  have *: "kmalloc 10 sample_heap = Inr (0xD0000014, sample_heap1) \<and> heap_inv sample_heap1 \<and>
      heap_abs sample_heap1 = [(12, False), (1048524, True)]"
    using kmalloc_refines [OF sample_heap_inv(1) n(1,2)]
    by cases (auto simp: n(3) sample_heap_inv(2) sample_heap1_def)
  then show "kmalloc 10 sample_heap = Inr (0xD0000014, sample_heap1)" "heap_inv sample_heap1"
    "heap_abs sample_heap1 = [(12, False), (1048524, True)]" by auto
  then show "live sample_heap1 = {(0xD0000014, 12)}" by (simp add: live_def)
qed

text \<open>
  C12. On a machine with enough free frames \<^verbatim>\<open>heap_init\<close> backs each of the 256 pages of the heap with
  a different frame that was free, leaves every other page as it was, and ends with one free block
  that covers the whole megabyte.
\<close>

theorem heap_init_maps:
  fixes s :: "'a heap_state_scheme"
  assumes "vmm_inv s" "257 \<le> card ({..<total_blocks s} - used_set s)"
    "2 \<le> card ({..<min 1024 (total_blocks s)} - used_set s)"
  shows "\<exists>ps s'. heap_init s = Inr s' \<and> heap_inv s' \<and> heap_abs s' = [(1048556, True)] \<and> vmm_inv s' \<and>
    length ps = 256 \<and> distinct (map page_frame ps) \<and> page_frame ` set ps \<inter> used_set s = {} \<and>
    (\<forall>i < 256. \<forall>va. page_frame va = 0xD0000 + i \<longrightarrow> walk s' va = Some (ps ! i OR (va AND 0xFFF))) \<and>
    (\<forall>va. page_frame va < 0xD0000 \<or> 0xD0100 \<le> page_frame va \<longrightarrow> walk s' va = walk s va)"
  using heap_init_spec [OF assms(1) assms(2) [folded free_frames_def] assms(3)]
  by (fastforce simp: free_frames_def)

definition sample_heap_machine :: heap_state where
  "sample_heap_machine = \<lparr>con_log = [], phys = (\<lambda>_. 0)(0x20000 := 1, 0x20004 := 1), total_blocks = 1024,
     used_blocks = 2, bitmap_size = 128, last_free_index = 0, last_free_index_low = 0,
     page_directory = 0, cr3 = 0, cr0 = 0x11, tlb = (\<lambda>_. None), start_header = 0, heap_mem = (\<lambda>_. 0)\<rparr>"

lemma sample_heap_machine_used: "used_set sample_heap_machine = {0, 32}"
proof -
  have "frame_used sample_heap_machine f \<longleftrightarrow> f = 0 \<or> f = 32" if f: "f < 1024" for f
  proof -
    have "f div 8 < 128" using f by simp
    then have "(0x20000 :: u32) + of_nat (f div 8) = 0x20000 \<longleftrightarrow> f div 8 = 0"
      "(0x20000 :: u32) + of_nat (f div 8) = 0x20004 \<longleftrightarrow> f div 8 = 4"
      by (auto simp: word_unat_eq_iff unat_word_ariths dest: arg_cong [of _ _ unat])
    then show ?thesis
      by (auto simp: frame_used_def bitmap_byte_def sample_heap_machine_def bit_1_iff)
  qed
  then show ?thesis by (auto simp: used_set_def sample_heap_machine_def)
qed

lemma sample_heap_machine_ready: "pmm_ready sample_heap_machine" "bitmap_reserved sample_heap_machine"
proof -
  show "pmm_ready sample_heap_machine"
    by (simp add: pmm_ready_def pmm_inv_def sample_heap_machine_used) (simp add: sample_heap_machine_def)
  have "page_frame a = 32" if "unat (a - 0x20000) < 128" for a :: u32
    using that by (cases "unat a < 131072") (auto simp: page_frame_def unat_sub_if_size word_size)
  then show "bitmap_reserved sample_heap_machine"
    by (simp add: bitmap_reserved_def in_bitmap_def sample_heap_machine_used) (simp add: sample_heap_machine_def)
qed

theorem heap_init_maps_witness:
  "\<exists>s s'. vmm_init sample_heap_machine = Inr s \<and> heap_init s = Inr s' \<and> heap_inv s' \<and>
     walk s' 0xD0000000 \<noteq> walk s' 0xD0001000 \<and> walk s' 0xB8000 = Some 0xB8000"
proof -
  have n: "total_blocks sample_heap_machine = 1024" by (simp add: sample_heap_machine_def)
  have "card ({..<min 1024 (total_blocks sample_heap_machine)} - used_set sample_heap_machine) = 1022"
    by (simp add: n sample_heap_machine_used card_Diff_subset)
  then obtain s f g where s: "vmm_init sample_heap_machine = Inr s" "vmm_inv s" "walk s = identity_4M"
      "total_blocks s = 1024" "used_set s = {0, 32} \<union> {f, g}"
    using vmm_init_spec [OF sample_heap_machine_ready refl] n by (auto simp: sample_heap_machine_used)
  have "card {0, 32, f, g} \<le> 4" by (simp add: card_insert_if)
  then have c: "1020 \<le> card ({..<1024} - used_set s)"
    using diff_card_le_card_Diff [of "used_set s" "{..<1024}"] by (simp add: s(5) insert_commute)
  then have pre: "257 \<le> card ({..<total_blocks s} - used_set s)" "2 \<le> card ({..<min 1024 (total_blocks s)} - used_set s)"
    using s(4) by simp_all
  obtain ps s' where r: "heap_init s = Inr s'" "heap_inv s'" "length ps = 256" "distinct (map page_frame ps)"
     "\<And>i va. i < 256 \<Longrightarrow> page_frame va = 0xD0000 + i \<Longrightarrow> walk s' va = Some (ps ! i OR (va AND 0xFFF))"
     "\<And>va. page_frame va < 0xD0000 \<or> 0xD0100 \<le> page_frame va \<Longrightarrow> walk s' va = walk s va"
    using heap_init_maps [OF s(2) pre] by blast
  have w: "walk s' 0xD0000000 = Some (ps ! 0)" "walk s' 0xD0001000 = Some (ps ! 1)" "walk s' 0xB8000 = Some 0xB8000"
    using r(5) [of 0 "0xD0000000"] r(5) [of 1 "0xD0001000"] r(6) [of "0xB8000"] s(3)
    by (simp_all add: page_frame_def identity_4M_def)
  have "ps ! 0 \<noteq> ps ! 1" using r(3,4) nth_eq_iff_index_eq [of ps 0 1] by (auto simp: distinct_map)
  then show ?thesis using s(1) r(1,2) w by auto
qed

text \<open>
  C5. \<^verbatim>\<open>kmalloc\<close> is first-fit allocation on the block list. A request of 0 bytes, one larger than the
  whole heap, and one that no free block can hold return NULL and change nothing; any other request,
  rounded up to a multiple of four, takes the first free block that is large enough, splitting off
  what is left when more than a header and four bytes remain. The search always ends.
\<close>

theorem kmalloc_first_fit:
  assumes "heap_inv s"
  shows "if sz = 0 \<or> 1048556 < unat sz \<or> first_fit (round4 (unat sz)) 0xD0000000 (heap_abs s) = None
    then kmalloc sz s = Inr (0, s)
    else \<exists>s'. kmalloc sz s = Inr (of_nat (the (first_fit (round4 (unat sz)) 0xD0000000 (heap_abs s)) + 20), s') \<and>
      heap_inv s' \<and> heap_abs s' = alloc_blocks (round4 (unat sz)) (heap_abs s)"
proof (cases "sz = 0 \<or> 1048556 < unat sz")
  case True
  then show ?thesis using kmalloc_zero [OF assms] by auto
next
  case False
  then have n: "0 < unat sz" "unat sz \<le> 1048556" by (auto simp: unat_gt_0)
  from assms n show ?thesis by (cases rule: kmalloc_refines) (use n in auto)
qed

theorem kmalloc_first_fit_witness:
  "kmalloc 0 sample_heap = Inr (0, sample_heap) \<and>
   (\<exists>s'. kmalloc 100 sample_heap1 = Inr (0xD0000034, s') \<and>
      heap_abs s' = [(12, False), (100, False), (1048404, True)])"
proof -
  have r: "round4 100 = 100" by (simp add: round4_def)
  show ?thesis
    using kmalloc_first_fit [OF sample_heap_inv(1), of 0] kmalloc_first_fit [OF sample_heap1_inv(2), of 100]
    by (auto simp: sample_heap1_inv(3) r)
qed

text \<open>
  C6. Releasing a pointer that \<^verbatim>\<open>kmalloc\<close> handed out marks its block free and joins it with every
  free neighbour: the resulting block list is the fully coalesced one, whatever was free around it.
  Exactly that region stops being live.
\<close>

theorem kfree_coalesces:
  assumes "heap_inv s" "(q, k) \<in> live s"
  shows "\<exists>s'. kfree (of_nat q) s = Inr s' \<and> heap_inv s' \<and> live s' = live s - {(q, k)} \<and>
    heap_abs s' = coalesce (mark_free (q - 20) 0xD0000000 (heap_abs s))"
  using assms by (rule kfree_refines) blast

theorem kfree_coalesces_witness:
  "\<exists>s'. kfree 0xD0000014 sample_heap1 = Inr s' \<and> heap_inv s' \<and> heap_abs s' = [(1048556, True)]"
  using kfree_coalesces [OF sample_heap1_inv(2), of "0xD0000014" 12]
  by (auto simp: sample_heap1_inv(3,4))

text \<open>
  A successful request returns memory that overlaps no region in use, lies inside the heap, is
  at least as large as requested and is word aligned; no byte of any region in use changes.
\<close>

theorem kmalloc_disjoint:
  assumes "heap_inv s" "kmalloc sz s = Inr (p, s')" "p \<noteq> 0"
  shows "\<exists>k. unat sz \<le> k \<and> live s' = insert (unat p, k) (live s) \<and>
    0xD0000000 \<le> unat p \<and> unat p + k \<le> 0xD0100000 \<and> 4 dvd unat p \<and>
    (\<forall>(q, j) \<in> live s. (unat p + k \<le> q \<or> q + j \<le> unat p) \<and>
       (\<forall>x. q \<le> unat x \<and> unat x < q + j \<longrightarrow> heap_mem s' x = heap_mem s x))"
proof -
  obtain k where k: "unat sz \<le> k" "heap_inv s'" "(unat p, k) \<notin> live s" "live s' = insert (unat p, k) (live s)"
    "\<forall>(q, k) \<in> live s. \<forall>x. q \<le> unat x \<and> unat x < q + k \<longrightarrow> heap_mem s' x = heap_mem s x"
    using kheap.alloc_result [OF assms(1), of sz] assms(2,3) by auto
  have in': "(unat p, k) \<in> live s'" using k(4) by simp
  have "4 dvd unat p"
  proof -
    from k(2) in' obtain xs ys where x: "heap_abs s' = xs @ (k, False) # ys" "unat p = 0xD0000000 + span xs + 20"
      by (rule live_split)
    have "4 dvd span zs" if "\<forall>(z, f) \<in> set zs. 4 dvd z \<and> 4 \<le> z" for zs
      using that by (induction zs rule: span.induct) auto
    then have "4 dvd span xs" using heap_invD(2) [OF k(2)] x(1) by (auto simp: heap_wf_def)
    then show ?thesis unfolding x(2) by (auto intro!: dvd_add)
  qed
  moreover have "unat p + k \<le> q \<or> q + j \<le> unat p" if "(q, j) \<in> live s" for q j
    using kheap.regions_disjoint [OF k(2) in', of q j] k(3,4) that by auto
  ultimately show ?thesis
    using k live_less [OF k(2) in'] by (intro exI [of _ k]) auto
qed

theorem kmalloc_disjoint_witness:
  "\<exists>k. live sample_heap1 = insert (0xD0000014, k) (live sample_heap) \<and> 10 \<le> k"
  using kmalloc_disjoint [OF sample_heap_inv(1) sample_heap1_inv(1)] by auto

text \<open>
  C14. Freeing the same pointer twice in a row is always caught: the second \<^verbatim>\<open>kfree\<close> panics with the
  double-free message, also when the block was merged into a neighbour by the first one.
\<close>

theorem kfree_double_free:
  assumes "heap_inv s" "(q, k) \<in> live s" "kfree (of_nat q) s = Inr s'"
  shows "kfree (of_nat q) s' = Inl (Panic ''HEAP: Double free detected'')"
  using assms(1,2) by (rule kfree_refines) (use assms(3) in auto)

theorem kfree_double_free_witness:
  "\<exists>s'. kfree 0xD0000014 sample_heap1 = Inr s' \<and> kfree 0xD0000014 s' = Inl (Panic ''HEAP: Double free detected'')"
proof -
  have l: "(0xD0000014, 12) \<in> live sample_heap1" by (simp add: sample_heap1_inv)
  obtain s' where "kfree (of_nat 0xD0000014) sample_heap1 = Inr s'"
    using kheap.release_result [OF sample_heap1_inv(2) l] by auto
  from this kfree_double_free [OF sample_heap1_inv(2) l this] show ?thesis by auto
qed

text \<open>
  Releasing what a request returned restores the block list, also on a heap whose contents have changed
  in between, as long as its blocks are again those after the request.
\<close>

lemma kmalloc_undo:
  assumes "heap_inv s" "kmalloc sz s = Inr (p, s')" "p \<noteq> 0" "heap_inv t" "heap_abs t = heap_abs s'"
  obtains t' where "kfree p t = Inr t'" "heap_inv t'" "heap_abs t' = heap_abs s"
proof -
  have "\<not> (sz = 0 \<or> 1048556 < unat sz)" using kmalloc_zero [OF assms(1)] assms(2,3) by auto
  then have n: "0 < unat sz" "unat sz \<le> 1048556" by (auto simp: unat_gt_0)
  obtain h where b: "first_fit (round4 (unat sz)) 0xD0000000 (heap_abs s) = Some h" "p = of_nat (h + 20)"
      "heap_abs s' = alloc_blocks (round4 (unat sz)) (heap_abs s)"
    using assms(1) n by (rule kmalloc_refines) (use assms(2,3) in auto)
  obtain k where "live s' = insert (h + 20, k) (live s)"
    using b(1) unfolding live_def b(3) by (rule alloc_blocks_payloads) blast
  then have "(h + 20, k) \<in> live t" using assms(5) by (simp add: live_def)
  with assms(4) obtain t' where t': "kfree p t = Inr t'" "heap_inv t'" "heap_abs t' = coalesce (mark_free h 0xD0000000 (heap_abs t))"
    by (rule kfree_refines) (use that b(2) in auto)
  moreover have "heap_abs t' = heap_abs s"
    unfolding t'(3) assms(5) b(3) by (rule free_alloc_blocks [OF heap_invD(5) [OF assms(1)] b(1)])
  ultimately show thesis using that by blast
qed

text \<open>
  C13. \<^verbatim>\<open>kmalloc\<close> followed by \<^verbatim>\<open>kfree\<close> of its result restores the block list exactly, with the contents
  of all other regions intact: no space is lost to splitting.
\<close>

theorem kmalloc_kfree_roundtrip:
  assumes "heap_inv s" "kmalloc sz s = Inr (p, s')" "p \<noteq> 0"
  shows "\<exists>s''. kfree p s' = Inr s'' \<and> heap_inv s'' \<and> heap_abs s'' = heap_abs s \<and>
    (\<forall>(q, j) \<in> live s. \<forall>x. q \<le> unat x \<and> unat x < q + j \<longrightarrow> heap_mem s'' x = heap_mem s x)"
proof -
  have "heap_inv s'" using kheap.alloc_result [OF assms(1), of sz] assms(2) by auto
  then obtain s'' where "kfree p s' = Inr s''" "heap_inv s''" "heap_abs s'' = heap_abs s"
    using kmalloc_undo [OF assms(1-3) _ refl] by blast
  then show ?thesis using kheap.alloc_release [OF assms] by auto
qed

theorem kmalloc_kfree_roundtrip_witness:
  "\<exists>s''. kfree 0xD0000014 sample_heap1 = Inr s'' \<and> heap_abs s'' = heap_abs sample_heap"
  using kmalloc_kfree_roundtrip [OF sample_heap_inv(1) sample_heap1_inv(1)] by auto

text \<open>
  C4. In every state a well-behaved client can reach from a well-formed heap by requests, releases
  of regions it holds and writes inside them, the heap is well formed: regions in use are disjoint,
  headers and payloads together make up exactly the megabyte, no two free blocks are adjacent, and
  once everything is released the heap is one free block again.
\<close>

theorem heap_reachable_safe:
  assumes "heap_step\<^sup>*\<^sup>* s s'" "heap_inv s"
  shows "heap_inv s' \<and> span (heap_abs s') = 0x100000 \<and> no_adjacent_free (heap_abs s') \<and>
    (\<forall>(q, k) \<in> live s'. \<forall>(p, j) \<in> live s'. (q, k) = (p, j) \<or> q + k \<le> p \<or> p + j \<le> q) \<and>
    (live s' = {} \<longrightarrow> heap_abs s' = [(1048556, True)])"
proof -
  have inv: "heap_inv s'" using assms by induction (auto intro: heap_step_inv)
  have "heap_abs s' = [(1048556, True)]" if "live s' = {}"
  proof -
    have "payloads 0xD0000000 (heap_abs s') = []" using that by (simp add: live_def)
    then obtain z where "heap_abs s' = [(z, True)]"
      using no_payload_single heap_invD(5) [OF inv] heap_wf_nonempty [OF heap_invD(2) [OF inv]] by blast
    then show ?thesis using heap_invD(4) [OF inv] by simp
  qed
  then show ?thesis
    using inv heap_invD(4,5) [OF inv] kheap.regions_disjoint [OF inv] by blast
qed

theorem heap_reachable_safe_witness:
  "heap_step\<^sup>*\<^sup>* sample_heap sample_heap1 \<and> heap_inv sample_heap1 \<and> no_adjacent_free (heap_abs sample_heap1)"
proof -
  have "heap_step\<^sup>*\<^sup>* sample_heap sample_heap1"
    using heap_step.malloc [OF sample_heap1_inv(1)] by blast
  then show ?thesis using heap_reachable_safe [OF _ sample_heap_inv(1)] by blast
qed

end
