(* ===== verification/ATA.thy ===== *)
theory ATA
  imports Port_IO
begin

text \<open>
  The ATA PIO driver (\<^verbatim>\<open>src/kernel/drivers/ata.c\<close>, \<^verbatim>\<open>ata.h\<close>): identification of the two drives
  of the primary bus and the reading of one sector with 28-bit addressing, over the port interface.
  A pointer argument of which the code only tests whether it is null is a Boolean (true: not null).
  A function that fills a buffer returns the bytes it stored, the empty list when it stored none.
\<close>

section \<open>Model\<close>

abbreviation ATA_DATA :: u16 where "ATA_DATA \<equiv> 0x1F0"
abbreviation ATA_FEATURES :: u16 where "ATA_FEATURES \<equiv> 0x1F1"
abbreviation ATA_SECTOR_CNT :: u16 where "ATA_SECTOR_CNT \<equiv> 0x1F2"
abbreviation ATA_LBA_LO :: u16 where "ATA_LBA_LO \<equiv> 0x1F3"
abbreviation ATA_LBA_MID :: u16 where "ATA_LBA_MID \<equiv> 0x1F4"
abbreviation ATA_LBA_HI :: u16 where "ATA_LBA_HI \<equiv> 0x1F5"
abbreviation ATA_DRIVE_HEAD :: u16 where "ATA_DRIVE_HEAD \<equiv> 0x1F6"
abbreviation ATA_STATUS :: u16 where "ATA_STATUS \<equiv> 0x1F7"
abbreviation ATA_COMMAND :: u16 where "ATA_COMMAND \<equiv> 0x1F7"
abbreviation ATA_ALT_STATUS :: u16 where "ATA_ALT_STATUS \<equiv> 0x3F6"

abbreviation ATA_SR_BSY :: u8 where "ATA_SR_BSY \<equiv> 0x80"
abbreviation ATA_SR_DF :: u8 where "ATA_SR_DF \<equiv> 0x20"
abbreviation ATA_SR_DRQ :: u8 where "ATA_SR_DRQ \<equiv> 0x08"
abbreviation ATA_SR_ERR :: u8 where "ATA_SR_ERR \<equiv> 0x01"

abbreviation ATA_CMD_READ_PIO :: u8 where "ATA_CMD_READ_PIO \<equiv> 0x20"
abbreviation ATA_CMD_IDENTIFY :: u8 where "ATA_CMD_IDENTIFY \<equiv> 0xEC"

abbreviation ATA_DRIVE_MASTER :: int where "ATA_DRIVE_MASTER \<equiv> 0"
abbreviation ATA_DRIVE_SLAVE :: int where "ATA_DRIVE_SLAVE \<equiv> 1"
abbreviation ATA_LBA28_MAX :: u32 where "ATA_LBA28_MAX \<equiv> 0x0FFFFFFF"

abbreviation ATA_OK :: int where "ATA_OK \<equiv> 0"
abbreviation ATA_ERR_TIMEOUT_BSY :: int where "ATA_ERR_TIMEOUT_BSY \<equiv> 1"
abbreviation ATA_ERR_TIMEOUT_DRQ :: int where "ATA_ERR_TIMEOUT_DRQ \<equiv> 2"
abbreviation ATA_ERR_DEVICE :: int where "ATA_ERR_DEVICE \<equiv> 3"
abbreviation ATA_ERR_INVALID_PARAM :: int where "ATA_ERR_INVALID_PARAM \<equiv> 4"
abbreviation ATA_ERR_LBA_RANGE :: int where "ATA_ERR_LBA_RANGE \<equiv> 5"
abbreviation ATA_ERR_NO_DEVICE :: int where "ATA_ERR_NO_DEVICE \<equiv> 6"
abbreviation ATA_ERR_UNSUPPORTED :: int where "ATA_ERR_UNSUPPORTED \<equiv> 7"

definition ATA_PIO_TIMEOUT :: nat where
  "ATA_PIO_TIMEOUT = 200000"

record ata_drive =
  present :: bool
  lba28_sectors :: u32

record 'h ata_state = "'h ports" +
  g_ata_drive :: "ata_drive list"

definition ata_400ns_delay :: "'h bus \<Rightarrow> ('h, 'a) ports_scheme \<Rightarrow> ('h, 'a) ports_scheme" where
  "ata_400ns_delay B s =
     (let s = snd (inb B ATA_ALT_STATUS s);
          s = snd (inb B ATA_ALT_STATUS s);
          s = snd (inb B ATA_ALT_STATUS s)
      in snd (inb B ATA_ALT_STATUS s))"

definition ata_valid_drive :: "int \<Rightarrow> bool" where
  "ata_valid_drive drive \<longleftrightarrow> drive = ATA_DRIVE_MASTER \<or> drive = ATA_DRIVE_SLAVE"

definition ata_drive_select_value :: "int \<Rightarrow> bool \<Rightarrow> u8" where
  "ata_drive_select_value drive lba =
     (if lba then (if drive = ATA_DRIVE_MASTER then 0xE0 else 0xF0)
      else (if drive = ATA_DRIVE_MASTER then 0xA0 else 0xB0))"

definition ata_select_drive :: "'h bus \<Rightarrow> int \<Rightarrow> bool \<Rightarrow> ('h, 'a) ports_scheme \<Rightarrow> ('h, 'a) ports_scheme" where
  "ata_select_drive B drive lba s =
     ata_400ns_delay B (outb B ATA_DRIVE_HEAD (ata_drive_select_value drive lba) s)"

text \<open>The two polling loops; the number is that of the iterations left.\<close>

fun ata_wait_not_busy_loop :: "'h bus \<Rightarrow> nat \<Rightarrow> ('h, 'a) ports_scheme \<Rightarrow> int \<times> ('h, 'a) ports_scheme" where
  "ata_wait_not_busy_loop B 0 s = (ATA_ERR_TIMEOUT_BSY, s)"
| "ata_wait_not_busy_loop B (Suc n) s =
     (let (status, s) = inb B ATA_STATUS s in
      if status AND ATA_SR_ERR \<noteq> 0 then (ATA_ERR_DEVICE, s)
      else if status AND ATA_SR_DF \<noteq> 0 then (ATA_ERR_DEVICE, s)
      else if status AND ATA_SR_BSY = 0 then (ATA_OK, s)
      else ata_wait_not_busy_loop B n s)"

definition ata_wait_not_busy :: "'h bus \<Rightarrow> ('h, 'a) ports_scheme \<Rightarrow> int \<times> ('h, 'a) ports_scheme" where
  "ata_wait_not_busy B = ata_wait_not_busy_loop B ATA_PIO_TIMEOUT"

fun ata_wait_drq_loop :: "'h bus \<Rightarrow> nat \<Rightarrow> ('h, 'a) ports_scheme \<Rightarrow> int \<times> ('h, 'a) ports_scheme" where
  "ata_wait_drq_loop B 0 s = (ATA_ERR_TIMEOUT_DRQ, s)"
| "ata_wait_drq_loop B (Suc n) s =
     (let (status, s) = inb B ATA_STATUS s in
      if status AND ATA_SR_ERR \<noteq> 0 then (ATA_ERR_DEVICE, s)
      else if status AND ATA_SR_DF \<noteq> 0 then (ATA_ERR_DEVICE, s)
      else if status AND ATA_SR_DRQ \<noteq> 0 then (ATA_OK, s)
      else ata_wait_drq_loop B n s)"

definition ata_wait_drq :: "'h bus \<Rightarrow> ('h, 'a) ports_scheme \<Rightarrow> int \<times> ('h, 'a) ports_scheme" where
  "ata_wait_drq B = ata_wait_drq_loop B ATA_PIO_TIMEOUT"

definition ata_identify_pio ::
    "'h bus \<Rightarrow> int \<Rightarrow> bool \<Rightarrow> ('h, 'a) ports_scheme \<Rightarrow> int \<times> u16 list \<times> ('h, 'a) ports_scheme" where
  "ata_identify_pio B drive out_ident s =
     (if \<not> ata_valid_drive drive \<or> \<not> out_ident then (ATA_ERR_INVALID_PARAM, [], s)
      else
        let s = ata_select_drive B drive False s;
            s = outb B ATA_SECTOR_CNT 0 s;
            s = outb B ATA_LBA_LO 0 s;
            s = outb B ATA_LBA_MID 0 s;
            s = outb B ATA_LBA_HI 0 s;
            s = outb B ATA_COMMAND ATA_CMD_IDENTIFY s;
            s = ata_400ns_delay B s;
            (status, s) = inb B ATA_STATUS s
        in if status = 0 then (ATA_ERR_NO_DEVICE, [], s)
        else let (rc, s) = ata_wait_not_busy B s
        in if rc \<noteq> ATA_OK then (rc, [], s)
        else let (mid, s) = inb B ATA_LBA_MID s;
                 (hi, s) = inb B ATA_LBA_HI s
        in if mid \<noteq> 0 \<or> hi \<noteq> 0 then (ATA_ERR_UNSUPPORTED, [], s)
        else let (rc, s) = ata_wait_drq B s
        in if rc \<noteq> ATA_OK then (rc, [], s)
        else let (ident, s) = insw B ATA_DATA 256 s;
                 (_, s) = inb B ATA_STATUS s
        in (ATA_OK, ident, s))"

definition ata_probe :: "'h bus \<Rightarrow> nat \<Rightarrow> ('h, 'a) ata_state_scheme \<Rightarrow> ('h, 'a) ata_state_scheme" where
  "ata_probe B d s =
     (let (rc, ident, s) = ata_identify_pio B (int d) True s in
      if rc = ATA_OK
      then s\<lparr>g_ata_drive := (g_ata_drive s)
             [d := \<lparr>present = True, lba28_sectors = ucast (ident ! 60) OR push_bit 16 (ucast (ident ! 61))\<rparr>]\<rparr>
      else s\<lparr>g_ata_drive := (g_ata_drive s)[d := \<lparr>present = False, lba28_sectors = 0\<rparr>]\<rparr>)"

definition ata_init :: "'h bus \<Rightarrow> ('h, 'a) ata_state_scheme \<Rightarrow> ('h, 'a) ata_state_scheme" where
  "ata_init B s =
     (let s = fold (\<lambda>d s. s\<lparr>g_ata_drive := (g_ata_drive s)[d := \<lparr>present = False, lba28_sectors = 0\<rparr>]\<rparr>) [0..<2] s
      in fold (ata_probe B) [0..<2] s)"

definition ata_is_present :: "int \<Rightarrow> ('h, 'a) ata_state_scheme \<Rightarrow> bool" where
  "ata_is_present drive s = (if \<not> ata_valid_drive drive then False else present (g_ata_drive s ! nat drive))"

definition ata_get_lba28_sectors :: "int \<Rightarrow> ('h, 'a) ata_state_scheme \<Rightarrow> u32" where
  "ata_get_lba28_sectors drive s =
     (if \<not> ata_valid_drive drive then 0 else lba28_sectors (g_ata_drive s ! nat drive))"

text \<open>
  Reading a sector: the command (steps 1 to 5 of the code), then the transfer (6 to 8). The words
  read are stored in memory low byte first.
\<close>

definition ata_issue_read :: "'h bus \<Rightarrow> int \<Rightarrow> u32 \<Rightarrow> ('h, 'a) ports_scheme \<Rightarrow> ('h, 'a) ports_scheme" where
  "ata_issue_read B drive lba s =
     (let s = outb B ATA_DRIVE_HEAD (ata_drive_select_value drive True OR (ucast (drop_bit 24 lba AND 0x0F))) s;
          s = ata_400ns_delay B s;
          s = outb B ATA_FEATURES 0 s;
          s = outb B ATA_SECTOR_CNT 1 s;
          s = outb B ATA_LBA_LO (ucast (lba AND 0xFF)) s;
          s = outb B ATA_LBA_MID (ucast (drop_bit 8 lba AND 0xFF)) s;
          s = outb B ATA_LBA_HI (ucast (drop_bit 16 lba AND 0xFF)) s;
          s = outb B ATA_COMMAND ATA_CMD_READ_PIO s
      in ata_400ns_delay B s)"

definition le_bytes :: "u16 list \<Rightarrow> u8 list" where
  "le_bytes ws = concat (map (\<lambda>w. [ucast w, ucast (drop_bit 8 w)]) ws)"

definition ata_read_sector ::
    "'h bus \<Rightarrow> int \<Rightarrow> u32 \<Rightarrow> bool \<Rightarrow> ('h, 'a) ata_state_scheme \<Rightarrow> int \<times> u8 list \<times> ('h, 'a) ata_state_scheme" where
  "ata_read_sector B drive lba buffer s =
     (if \<not> buffer then (ATA_ERR_INVALID_PARAM, [], s)
      else if \<not> ata_valid_drive drive then (ATA_ERR_INVALID_PARAM, [], s)
      else if \<not> present (g_ata_drive s ! nat drive) then (ATA_ERR_NO_DEVICE, [], s)
      else if lba > ATA_LBA28_MAX then (ATA_ERR_LBA_RANGE, [], s)
      else if lba28_sectors (g_ata_drive s ! nat drive) \<noteq> 0 \<and> lba \<ge> lba28_sectors (g_ata_drive s ! nat drive)
      then (ATA_ERR_LBA_RANGE, [], s)
      else
        let s = ata_issue_read B drive lba s;
            (rc, s) = ata_wait_not_busy B s
        in if rc \<noteq> ATA_OK then (rc, [], s)
        else let (rc, s) = ata_wait_drq B s
        in if rc \<noteq> ATA_OK then (rc, [], s)
        else let (ws, s) = insw B ATA_DATA 256 s;
                 (_, s) = inb B ATA_STATUS s
        in (ATA_OK, le_bytes ws, s))"

section \<open>Polling\<close>

text \<open>
  The status values a device shows to successive reads, and the state it is in before each of them.
\<close>

fun poll_state :: "'h bus \<Rightarrow> nat \<Rightarrow> 'h \<Rightarrow> 'h" where
  "poll_state B 0 h = h"
| "poll_state B (Suc k) h = poll_state B k (snd (bus_in8 B ATA_STATUS h))"

definition status_at :: "'h bus \<Rightarrow> nat \<Rightarrow> 'h \<Rightarrow> u8" where
  "status_at B k h = fst (bus_in8 B ATA_STATUS (poll_state B k h))"

text \<open>No error for the first \<open>k\<close> reads and the awaited condition for the first time at read \<open>k\<close>.\<close>

definition settles :: "'h bus \<Rightarrow> (u8 \<Rightarrow> bool) \<Rightarrow> nat \<Rightarrow> 'h \<Rightarrow> bool" where
  "settles B good k h \<longleftrightarrow> (\<forall>j \<le> k. status_at B j h AND ATA_SR_ERR = 0 \<and> status_at B j h AND ATA_SR_DF = 0) \<and>
     (\<forall>j < k. \<not> good (status_at B j h)) \<and> good (status_at B k h)"

lemma status_at_simps [simp]:
  "status_at B 0 h = fst (bus_in8 B ATA_STATUS h)"
  "status_at B (Suc k) h = status_at B k (snd (bus_in8 B ATA_STATUS h))"
  by (simp_all add: status_at_def)

lemma settles_Suc:
  "settles B good (Suc k) h \<longleftrightarrow>
     status_at B 0 h AND ATA_SR_ERR = 0 \<and> status_at B 0 h AND ATA_SR_DF = 0 \<and> \<not> good (status_at B 0 h) \<and>
     settles B good k (snd (bus_in8 B ATA_STATUS h))"
  unfolding settles_def less_Suc_eq_le [symmetric] All_less_Suc2 by auto

lemma settles_0:
  "settles B good 0 h \<longleftrightarrow>
     status_at B 0 h AND ATA_SR_ERR = 0 \<and> status_at B 0 h AND ATA_SR_DF = 0 \<and> good (status_at B 0 h)"
  by (simp add: settles_def)

lemma wait_not_busy_settles:
  "settles B (\<lambda>v. v AND ATA_SR_BSY = 0) k (hw s) \<Longrightarrow> k < n \<Longrightarrow>
   \<exists>s'. ata_wait_not_busy_loop B n s = (ATA_OK, s') \<and> hw s' = poll_state B (Suc k) (hw s)"
proof (induction n arbitrary: k s)
  case (Suc n)
  show ?case
  proof (cases k)
    case 0
    with Suc.prems(1) show ?thesis by (simp add: settles_0 case_prod_beta Let_def io_simps)
  next
    case (Suc k')
    let ?s = "snd (inb B ATA_STATUS s)"
    have *: "settles B (\<lambda>v. v AND ATA_SR_BSY = 0) k' (hw ?s)" and
      st: "fst (inb B ATA_STATUS s) AND ATA_SR_ERR = 0" "fst (inb B ATA_STATUS s) AND ATA_SR_DF = 0"
        "fst (inb B ATA_STATUS s) AND ATA_SR_BSY \<noteq> 0"
      using Suc.prems(1) Suc by (simp_all add: settles_Suc io_simps)
    show ?thesis using Suc.IH [OF *] Suc.prems(2) Suc st by (simp add: case_prod_beta Let_def io_simps)
  qed
qed simp

lemma wait_drq_settles:
  "settles B (\<lambda>v. v AND ATA_SR_DRQ \<noteq> 0) k (hw s) \<Longrightarrow> k < n \<Longrightarrow>
   \<exists>s'. ata_wait_drq_loop B n s = (ATA_OK, s') \<and> hw s' = poll_state B (Suc k) (hw s)"
proof (induction n arbitrary: k s)
  case (Suc n)
  show ?case
  proof (cases k)
    case 0
    with Suc.prems(1) show ?thesis by (simp add: settles_0 case_prod_beta Let_def io_simps)
  next
    case (Suc k')
    let ?s = "snd (inb B ATA_STATUS s)"
    have *: "settles B (\<lambda>v. v AND ATA_SR_DRQ \<noteq> 0) k' (hw ?s)" and
      st: "fst (inb B ATA_STATUS s) AND ATA_SR_ERR = 0" "fst (inb B ATA_STATUS s) AND ATA_SR_DF = 0"
        "fst (inb B ATA_STATUS s) AND ATA_SR_DRQ = 0"
      using Suc.prems(1) Suc by (simp_all add: settles_Suc io_simps)
    show ?thesis using Suc.IH [OF *] Suc.prems(2) Suc st by (simp add: case_prod_beta Let_def io_simps)
  qed
qed simp

section \<open>Traffic of the driver\<close>

text \<open>
  \<open>traffic s s' ws n\<close>: getting from \<open>s\<close> to \<open>s'\<close> the driver changed no variable of its own, wrote
  exactly \<open>ws\<close> to the ports, in this order, and read the status register at most \<open>n\<close> times.
\<close>

definition traffic :: "('h, 'a) ports_scheme \<Rightarrow> ('h, 'a) ports_scheme \<Rightarrow> (u16 \<times> u8) list \<Rightarrow> nat \<Rightarrow> bool" where
  "traffic s s' ws n \<longleftrightarrow> ports.more s' = ports.more s \<and>
     (\<exists>es. io_log s' = io_log s @ es \<and> port_writes es = ws \<and> port_count ATA_STATUS es \<le> n)"

lemma traffic_refl: "traffic s s [] n"
  by (auto simp: traffic_def)

lemma traffic_trans:
  assumes "traffic s s1 ws1 n1" "traffic s1 s2 ws2 n2"
  shows "traffic s s2 (ws1 @ ws2) (n1 + n2)"
proof -
  obtain es1 es2 where "io_log s1 = io_log s @ es1" "port_writes es1 = ws1" "port_count ATA_STATUS es1 \<le> n1"
    "io_log s2 = io_log s1 @ es2" "port_writes es2 = ws2" "port_count ATA_STATUS es2 \<le> n2"
    using assms unfolding traffic_def by auto
  then show ?thesis
    using assms unfolding traffic_def by (intro conjI exI [of _ "es1 @ es2"]) simp_all
qed

lemma traffic_mono: "traffic s s' ws m \<Longrightarrow> m \<le> n \<Longrightarrow> traffic s s' ws n"
  by (auto simp: traffic_def)

lemma traffic_outb: "traffic s (outb B p v s) [(p, v)] 0"
  by (simp add: traffic_def io_simps)

lemma traffic_inb: "traffic s (snd (inb B p s)) [] 1"
  by (simp add: traffic_def io_simps)

lemma traffic_inb_other: "p \<noteq> ATA_STATUS \<Longrightarrow> traffic s (snd (inb B p s)) [] 0"
  by (simp add: traffic_def io_simps)

lemma traffic_insw: "traffic s (snd (insw B p n s)) [] 0"
  by (simp add: traffic_def io_simps)

lemma traffic_delay: "traffic s (ata_400ns_delay B s) [] 0"
  by (simp add: traffic_def ata_400ns_delay_def Let_def io_simps)

lemma traffic_wait_not_busy:
  "traffic s (snd (ata_wait_not_busy_loop B n s)) [] n \<and>
   fst (ata_wait_not_busy_loop B n s) \<in> {ATA_OK, ATA_ERR_DEVICE, ATA_ERR_TIMEOUT_BSY}"
proof (induction n arbitrary: s)
  case (Suc n)
  have "traffic s (snd (ata_wait_not_busy_loop B n (snd (inb B ATA_STATUS s)))) ([] @ []) (1 + n)"
    using traffic_inb Suc by (rule traffic_trans [OF _ conjunct1])
  moreover have "traffic s (snd (inb B ATA_STATUS s)) [] (Suc n)"
    by (rule traffic_mono [OF traffic_inb]) simp
  ultimately show ?case using Suc [of "snd (inb B ATA_STATUS s)"] by (simp add: case_prod_beta Let_def)
qed (simp add: traffic_refl)

lemma traffic_wait_drq:
  "traffic s (snd (ata_wait_drq_loop B n s)) [] n \<and>
   fst (ata_wait_drq_loop B n s) \<in> {ATA_OK, ATA_ERR_DEVICE, ATA_ERR_TIMEOUT_DRQ}"
proof (induction n arbitrary: s)
  case (Suc n)
  have "traffic s (snd (ata_wait_drq_loop B n (snd (inb B ATA_STATUS s)))) ([] @ []) (1 + n)"
    using traffic_inb Suc by (rule traffic_trans [OF _ conjunct1])
  moreover have "traffic s (snd (inb B ATA_STATUS s)) [] (Suc n)"
    by (rule traffic_mono [OF traffic_inb]) simp
  ultimately show ?case using Suc [of "snd (inb B ATA_STATUS s)"] by (simp add: case_prod_beta Let_def)
qed (simp add: traffic_refl)

section \<open>Commands\<close>

text \<open>
  How a drive decodes what was written to its registers: the last value written to each register
  counts, bit 6 of the drive/head register selects block addressing, bit 4 the drive, and the low
  four bits are the top of the 28-bit block number.
\<close>

definition task_reg :: "(u16 \<times> u8) list \<Rightarrow> u16 \<Rightarrow> u8" where
  "task_reg ws p = (case map_of (rev ws) p of Some v \<Rightarrow> v | None \<Rightarrow> 0)"

definition task_lba :: "(u16 \<times> u8) list \<Rightarrow> u32" where
  "task_lba ws = ucast (task_reg ws ATA_LBA_LO) OR push_bit 8 (ucast (task_reg ws ATA_LBA_MID))
     OR push_bit 16 (ucast (task_reg ws ATA_LBA_HI)) OR push_bit 24 (ucast (task_reg ws ATA_DRIVE_HEAD AND 0x0F))"

definition task_drive :: "(u16 \<times> u8) list \<Rightarrow> int" where
  "task_drive ws = (if bit (task_reg ws ATA_DRIVE_HEAD) 4 then ATA_DRIVE_SLAVE else ATA_DRIVE_MASTER)"

definition read_cmd :: "int \<Rightarrow> u32 \<Rightarrow> (u16 \<times> u8) list" where
  "read_cmd drive lba =
     [(ATA_DRIVE_HEAD, ata_drive_select_value drive True OR ucast (drop_bit 24 lba AND 0x0F)),
      (ATA_FEATURES, 0), (ATA_SECTOR_CNT, 1), (ATA_LBA_LO, ucast (lba AND 0xFF)),
      (ATA_LBA_MID, ucast (drop_bit 8 lba AND 0xFF)), (ATA_LBA_HI, ucast (drop_bit 16 lba AND 0xFF)),
      (ATA_COMMAND, ATA_CMD_READ_PIO)]"

definition identify_cmd :: "int \<Rightarrow> (u16 \<times> u8) list" where
  "identify_cmd drive =
     [(ATA_DRIVE_HEAD, ata_drive_select_value drive False), (ATA_SECTOR_CNT, 0), (ATA_LBA_LO, 0),
      (ATA_LBA_MID, 0), (ATA_LBA_HI, 0), (ATA_COMMAND, ATA_CMD_IDENTIFY)]"

lemma low_bits: "bit (0x0F :: int) n \<longleftrightarrow> n < 4" "bit (0xFF :: int) n \<longleftrightarrow> n < 8"
proof -
  have "(0x0F :: int) = mask 4" "(0xFF :: int) = mask 8" by (simp_all add: mask_eq_exp_minus_1)
  then show "bit (0x0F :: int) n \<longleftrightarrow> n < 4" "bit (0xFF :: int) n \<longleftrightarrow> n < 8"
    by (simp_all only: bit_mask_iff) simp_all
qed

lemma select_low_bits: "ata_drive_select_value drive lba AND 0x0F = 0"
  by (simp add: ata_drive_select_value_def)

lemma head_low_bits:
  "(ata_drive_select_value drive l OR ucast (drop_bit 24 lba AND 0x0F :: u32)) AND 0x0F = ucast (drop_bit 24 lba AND 0x0F :: u32)"
  (is "?l = ?r")
proof (rule bit_word_eqI)
  fix n assume n: "n < LENGTH(8)"
  have "bit (ata_drive_select_value drive l AND 0x0F) n = False" by (simp add: select_low_bits)
  then have "n < 4 \<Longrightarrow> \<not> bit (ata_drive_select_value drive l) n" by (simp add: bit_and_iff low_bits)
  then show "bit ?l n = bit ?r n"
    using n by (auto simp: bit_and_iff bit_or_iff bit_unsigned_iff low_bits)
qed

lemma bit_ge_28: "(lba :: u32) \<le> ATA_LBA28_MAX \<Longrightarrow> 28 \<le> n \<Longrightarrow> \<not> bit lba n"
proof -
  assume "lba \<le> ATA_LBA28_MAX" "28 \<le> n"
  have "lba = take_bit 28 lba"
    using \<open>lba \<le> ATA_LBA28_MAX\<close>
    by (intro word_unat_eq_iff [THEN iffD2])
      (simp add: unsigned_take_bit_eq take_bit_nat_eq_self word_le_nat_alt)
  then have "bit lba n = bit (take_bit 28 lba) n" by simp
  then show ?thesis using \<open>28 \<le> n\<close> by (simp add: bit_take_bit_iff)
qed

lemma lba28_bytes:
  fixes lba :: u32
  assumes "lba \<le> ATA_LBA28_MAX"
  shows "(ucast (ucast (lba AND 0xFF) :: u8) OR push_bit 8 (ucast (ucast (drop_bit 8 lba AND 0xFF) :: u8))
     OR push_bit 16 (ucast (ucast (drop_bit 16 lba AND 0xFF) :: u8))
     OR push_bit 24 (ucast (ucast (drop_bit 24 lba AND 0x0F) :: u8)) :: u32) = lba"
proof (rule bit_word_eqI)
  fix n assume n: "n < LENGTH(32)"
  consider "n < 8" | "8 \<le> n" "n < 16" | "16 \<le> n" "n < 24" | "24 \<le> n" "n < 28" | "28 \<le> n" by linarith
  then show "bit (ucast (ucast (lba AND 0xFF) :: u8) OR push_bit 8 (ucast (ucast (drop_bit 8 lba AND 0xFF) :: u8))
     OR push_bit 16 (ucast (ucast (drop_bit 16 lba AND 0xFF) :: u8))
     OR push_bit 24 (ucast (ucast (drop_bit 24 lba AND 0x0F) :: u8)) :: u32) n = bit lba n"
    using n bit_ge_28 [OF assms, of n]
    by cases (auto simp: bit_or_iff bit_push_bit_iff bit_unsigned_iff bit_and_iff bit_drop_bit_eq low_bits)
qed

lemma read_cmd_decodes:
  assumes "ata_valid_drive drive" "lba \<le> ATA_LBA28_MAX"
  shows "task_lba (read_cmd drive lba) = lba" "task_drive (read_cmd drive lba) = drive"
    "task_reg (read_cmd drive lba) ATA_SECTOR_CNT = 1" "bit (task_reg (read_cmd drive lba) ATA_DRIVE_HEAD) 6"
    "task_reg (read_cmd drive lba) ATA_COMMAND = ATA_CMD_READ_PIO"
proof -
  have r: "task_reg (read_cmd drive lba) ATA_DRIVE_HEAD = ata_drive_select_value drive True OR ucast (drop_bit 24 lba AND 0x0F)"
    "task_reg (read_cmd drive lba) ATA_LBA_LO = ucast (lba AND 0xFF)"
    "task_reg (read_cmd drive lba) ATA_LBA_MID = ucast (drop_bit 8 lba AND 0xFF)"
    "task_reg (read_cmd drive lba) ATA_LBA_HI = ucast (drop_bit 16 lba AND 0xFF)"
    by (simp_all add: task_reg_def read_cmd_def)
  show "task_reg (read_cmd drive lba) ATA_SECTOR_CNT = 1"
    "task_reg (read_cmd drive lba) ATA_COMMAND = ATA_CMD_READ_PIO"
    by (simp_all add: task_reg_def read_cmd_def)
  show "task_lba (read_cmd drive lba) = lba"
    unfolding task_lba_def r head_low_bits using lba28_bytes [OF assms(2)] by simp
  have four: "\<not> bit (ucast (drop_bit 24 lba AND 0x0F) :: u8) 4"
    by (simp add: bit_unsigned_iff bit_and_iff low_bits)
  have e: "bit (0xE0 :: u8) 6" "\<not> bit (0xE0 :: u8) 4" "bit (0xF0 :: u8) 6" "bit (0xF0 :: u8) 4" by simp_all
  show "task_drive (read_cmd drive lba) = drive"
    using assms(1) four e unfolding task_drive_def r ata_drive_select_value_def ata_valid_drive_def by (auto simp: bit_or_iff)
  show "bit (task_reg (read_cmd drive lba) ATA_DRIVE_HEAD) 6"
    using e unfolding r ata_drive_select_value_def by (auto simp: bit_or_iff)
qed

text \<open>The bytes of the read command, as arithmetic on the block number.\<close>

lemma read_cmd_bytes:
  assumes "lba \<le> ATA_LBA28_MAX"
  obtains h lo mid hi where "read_cmd drive lba = [(ATA_DRIVE_HEAD, h), (ATA_FEATURES, 0), (ATA_SECTOR_CNT, 1),
      (ATA_LBA_LO, lo), (ATA_LBA_MID, mid), (ATA_LBA_HI, hi), (ATA_COMMAND, ATA_CMD_READ_PIO)]"
    "unat h = (if drive = ATA_DRIVE_MASTER then 0xE0 else 0xF0) + unat lba div 2 ^ 24"
    "unat lo = unat lba mod 256" "unat mid = unat lba div 256 mod 256" "unat hi = unat lba div 65536 mod 256"
proof -
  have b: "lba AND 0xFF = take_bit 8 lba" "drop_bit 8 lba AND 0xFF = take_bit 8 (drop_bit 8 lba)"
    "drop_bit 16 lba AND 0xFF = take_bit 8 (drop_bit 16 lba)" "drop_bit 24 lba AND 0x0F = take_bit 4 (drop_bit 24 lba)"
    by (simp_all add: take_bit_eq_mask mask_eq_exp_minus_1)
  let ?v = "ucast (take_bit 4 (drop_bit 24 lba)) :: u8"
  have top: "unat lba div 2 ^ 24 < 16" using assms by (simp add: word_le_nat_alt)
  have v: "unat ?v = unat lba div 2 ^ 24"
    using top by (simp only: unsigned_ucast_eq unsigned_take_bit_eq unsigned_drop_bit_eq) (simp add: take_bit_eq_mod drop_bit_eq_div)
  have vlt: "?v < 16" using top v by (simp add: word_less_nat_alt)
  have "unat (a OR ?v) = unat a + unat ?v" if "a = 0xE0 \<or> a = 0xF0" for a :: u8
  proof -
    have "a AND ?v = 0"
    proof (rule bit_word_eqI)
      fix n assume "n < LENGTH(8)"
      have "a AND 0x0F = 0" using that by auto
      then have "bit (a AND 0x0F) n = False" by simp
      then have "n < 4 \<Longrightarrow> \<not> bit a n" by (simp add: bit_and_iff low_bits)
      then show "bit (a AND ?v) n = bit (0 :: u8) n" by (auto simp: bit_and_iff bit_unsigned_iff bit_take_bit_iff)
    qed
    then have "a OR ?v = a + ?v" by (simp add: disjunctive_add_eq_or)
    moreover have "unat a + unat ?v < 2 ^ LENGTH(8)" using that vlt by (auto simp: word_less_nat_alt)
    ultimately show ?thesis by (simp add: unat_plus_if_size word_size)
  qed
  then have "unat (ata_drive_select_value drive True OR ?v) =
      (if drive = ATA_DRIVE_MASTER then 0xE0 else 0xF0) + unat lba div 2 ^ 24"
    unfolding v [symmetric] by (simp add: ata_drive_select_value_def)
  moreover have "unat (ucast (take_bit 8 lba) :: u8) = unat lba mod 256"
    "unat (ucast (take_bit 8 (drop_bit 8 lba)) :: u8) = unat lba div 256 mod 256"
    "unat (ucast (take_bit 8 (drop_bit 16 lba)) :: u8) = unat lba div 65536 mod 256"
    by (simp_all only: unsigned_ucast_eq unsigned_take_bit_eq unsigned_drop_bit_eq) (simp_all add: take_bit_eq_mod drop_bit_eq_div)
  ultimately show thesis by (intro that [unfolded read_cmd_def b, OF refl])
qed

lemma traffic_issue_read: "traffic s (ata_issue_read B drive lba s) (read_cmd drive lba) 0"
  by (simp add: traffic_def ata_issue_read_def read_cmd_def ata_400ns_delay_def Let_def io_simps)

lemma traffic_issue_identify:
  "traffic s (ata_400ns_delay B (outb B ATA_COMMAND ATA_CMD_IDENTIFY (outb B ATA_LBA_HI 0 (outb B ATA_LBA_MID 0
     (outb B ATA_LBA_LO 0 (outb B ATA_SECTOR_CNT 0 (ata_select_drive B drive False s))))))) (identify_cmd drive) 0"
  by (simp add: traffic_def ata_select_drive_def identify_cmd_def ata_400ns_delay_def Let_def io_simps)

lemma length_le_bytes [simp]: "length (le_bytes ws) = 2 * length ws"
  by (induction ws) (simp_all add: le_bytes_def)

lemma le_bytes_nth:
  "k < length ws \<Longrightarrow> le_bytes ws ! (2 * k) = ucast (ws ! k) \<and> le_bytes ws ! (2 * k + 1) = ucast (drop_bit 8 (ws ! k))"
proof (induction ws arbitrary: k)
  case (Cons w ws)
  then show ?case by (cases k) (auto simp: le_bytes_def)
qed simp

section \<open>A simulated drive\<close>

text \<open>
  An executable drive that is always ready: its state is what was written to its registers and the
  words it still has to deliver. It answers every read command with the words of its image and every
  identification with 256 words that give its size.
\<close>

definition ident_words :: "u32 \<Rightarrow> u16 list" where
  "ident_words n = replicate 60 0 @ [ucast n, ucast (drop_bit 16 n)] @ replicate 194 0"

definition disk_bus :: "(int \<Rightarrow> u32 \<Rightarrow> u16 list) \<Rightarrow> u32 \<Rightarrow> ((u16 \<times> u8) list \<times> u16 list) bus" where
  "disk_bus img n =
     \<lparr>bus_in8 = \<lambda>p h. (if p = ATA_STATUS \<or> p = ATA_ALT_STATUS then 0x48 else 0, h),
      bus_out8 = \<lambda>p v (regs, q). (let regs = regs @ [(p, v)] in
        if p = ATA_COMMAND \<and> v = ATA_CMD_READ_PIO then (regs, img (task_drive regs) (task_lba regs))
        else if p = ATA_COMMAND \<and> v = ATA_CMD_IDENTIFY then (regs, ident_words n)
        else (regs, q)),
      bus_in16 = \<lambda>p (regs, q). (case q of [] \<Rightarrow> (0, regs, []) | w # ws \<Rightarrow> (w, regs, ws)),
      bus_out16 = \<lambda>p w h. h\<rparr>"

lemma disk_bus_in8 [simp]:
  "bus_in8 (disk_bus img n) p h = (if p = ATA_STATUS \<or> p = ATA_ALT_STATUS then 0x48 else 0, h)"
  by (simp add: disk_bus_def)

lemma disk_bus_out8 [simp]:
  "p \<noteq> ATA_COMMAND \<Longrightarrow> bus_out8 (disk_bus img n) p v (regs, q) = (regs @ [(p, v)], q)"
  "bus_out8 (disk_bus img n) ATA_COMMAND ATA_CMD_READ_PIO (regs, q) =
     (regs @ [(ATA_COMMAND, ATA_CMD_READ_PIO)], img (task_drive (regs @ [(ATA_COMMAND, ATA_CMD_READ_PIO)]))
        (task_lba (regs @ [(ATA_COMMAND, ATA_CMD_READ_PIO)])))"
  "bus_out8 (disk_bus img n) ATA_COMMAND ATA_CMD_IDENTIFY (regs, q) =
     (regs @ [(ATA_COMMAND, ATA_CMD_IDENTIFY)], ident_words n)"
  by (simp_all add: disk_bus_def Let_def)

lemma disk_bus_words: "bus_words (disk_bus img n) p (length ws) (regs, ws) = (ws, regs, [])"
  by (induction ws) (simp_all add: disk_bus_def Let_def)

lemma disk_poll_state [simp]: "poll_state (disk_bus img n) k h = h"
  by (induction k) simp_all

lemma disk_bus_settles:
  "settles (disk_bus img n) (\<lambda>v. v AND ATA_SR_BSY = 0) 0 h"
  "settles (disk_bus img n) (\<lambda>v. v AND ATA_SR_DRQ \<noteq> 0) 0 h"
  by (simp_all add: settles_0)

lemma task_reg_append:
  "task_reg (regs @ ws) p = (if p \<in> fst ` set ws then task_reg ws p else task_reg regs p)"
proof (cases "p \<in> fst ` set ws")
  case True
  then have "map_of (rev ws) p \<noteq> None" by (simp add: map_of_eq_None_iff)
  then obtain v where "map_of (rev ws) p = Some v" by blast
  with True show ?thesis by (simp add: task_reg_def map_add_def)
next
  case False
  then have "map_of (rev ws) p = None" by (simp add: map_of_eq_None_iff)
  with False show ?thesis by (simp add: task_reg_def map_add_def)
qed

lemma task_append_read_cmd:
  "task_drive (regs @ read_cmd drive lba) = task_drive (read_cmd drive lba)"
  "task_lba (regs @ read_cmd drive lba) = task_lba (read_cmd drive lba)"
proof -
  have "task_reg (regs @ read_cmd drive lba) p = task_reg (read_cmd drive lba) p"
    if "p \<in> {ATA_DRIVE_HEAD, ATA_LBA_LO, ATA_LBA_MID, ATA_LBA_HI}" for p
    using that unfolding task_reg_append by (auto simp: read_cmd_def)
  then show "task_drive (regs @ read_cmd drive lba) = task_drive (read_cmd drive lba)"
    "task_lba (regs @ read_cmd drive lba) = task_lba (read_cmd drive lba)"
    by (simp_all add: task_drive_def task_lba_def)
qed

lemma disk_bus_issue_read:
  assumes "hw s = (regs, q)" "ata_valid_drive drive" "lba \<le> ATA_LBA28_MAX"
  shows "hw (ata_issue_read (disk_bus img n) drive lba s) = (regs @ read_cmd drive lba, img drive lba)"
proof -
  have c: "hw (ata_issue_read (disk_bus img n) drive lba s) = (regs @ read_cmd drive lba,
      img (task_drive (regs @ read_cmd drive lba)) (task_lba (regs @ read_cmd drive lba)))"
    unfolding ata_issue_read_def ata_400ns_delay_def Let_def read_cmd_def
    by (simp add: io_simps assms(1))
  show ?thesis
    unfolding c task_append_read_cmd read_cmd_decodes(1,2) [OF assms(2,3)] ..
qed

section \<open>Reading a sector\<close>

text \<open>The reasons for which a read is refused before the bus is touched.\<close>

definition ata_refusal :: "int \<Rightarrow> u32 \<Rightarrow> bool \<Rightarrow> ('h, 'a) ata_state_scheme \<Rightarrow> int option" where
  "ata_refusal drive lba buffer s =
     (if \<not> buffer \<or> \<not> ata_valid_drive drive then Some ATA_ERR_INVALID_PARAM
      else if \<not> ata_is_present drive s then Some ATA_ERR_NO_DEVICE
      else if ATA_LBA28_MAX < lba \<or>
        ata_get_lba28_sectors drive s \<noteq> 0 \<and> ata_get_lba28_sectors drive s \<le> lba then Some ATA_ERR_LBA_RANGE
      else None)"

lemma ata_read_sector_refused:
  "ata_refusal drive lba buffer s = Some e \<Longrightarrow> ata_read_sector B drive lba buffer s = (e, [], s)"
  by (auto simp: ata_refusal_def ata_read_sector_def ata_is_present_def ata_get_lba28_sectors_def split: if_splits)

lemma ata_refusal_None:
  assumes "ata_refusal drive lba buffer s = None"
  shows "buffer" "ata_valid_drive drive" "ata_is_present drive s" "lba \<le> ATA_LBA28_MAX"
    "ata_get_lba28_sectors drive s \<noteq> 0 \<Longrightarrow> lba < ata_get_lba28_sectors drive s"
  using assms by (auto simp: ata_refusal_def not_less split: if_splits)

lemma ata_read_sector_accepted:
  assumes "ata_refusal drive lba buffer s = None"
  shows "ata_read_sector B drive lba buffer s =
    (let (rc, s) = ata_wait_not_busy B (ata_issue_read B drive lba s)
     in if rc \<noteq> ATA_OK then (rc, [], s)
     else let (rc, s) = ata_wait_drq B s
     in if rc \<noteq> ATA_OK then (rc, [], s)
     else (ATA_OK, le_bytes (fst (insw B ATA_DATA 256 s)), snd (inb B ATA_STATUS (snd (insw B ATA_DATA 256 s)))))"
  using assms
  by (auto simp: ata_refusal_def ata_read_sector_def ata_is_present_def ata_get_lba28_sectors_def case_prod_beta Let_def split: if_splits)

text \<open>A machine with one drive of 2048 sectors, whose sector \<open>l\<close> is filled with the word \<open>l\<close>.\<close>

definition sample_ata :: "((u16 \<times> u8) list \<times> u16 list) ata_state" where
  "sample_ata = \<lparr>hw = ([], []), io_log = [],
     g_ata_drive = [\<lparr>present = True, lba28_sectors = 2048\<rparr>, \<lparr>present = False, lba28_sectors = 0\<rparr>]\<rparr>"

definition sample_bus :: "((u16 \<times> u8) list \<times> u16 list) bus" where
  "sample_bus = disk_bus (\<lambda>d l. replicate 256 (ucast l)) 2048"

lemma ata_read_sector_result:
  fixes B :: "'h bus" and s :: "('h, 'a) ata_state_scheme"
  assumes "ata_read_sector B drive lba buffer s = (rc, data, s')"
  shows "case ata_refusal drive lba buffer s of
      Some e \<Rightarrow> rc = e \<and> data = [] \<and> s' = s
    | None \<Rightarrow> traffic s s' (read_cmd drive lba) 400001 \<and>
        (rc = ATA_OK \<and> length data = 512 \<or>
         rc \<in> {ATA_ERR_TIMEOUT_BSY, ATA_ERR_TIMEOUT_DRQ, ATA_ERR_DEVICE} \<and> data = [])"
proof (cases "ata_refusal drive lba buffer s")
  case None
  define s1 where "s1 = ata_issue_read B drive lba s"
  define r2 where "r2 = ata_wait_not_busy B s1"
  define r3 where "r3 = ata_wait_drq B (snd r2)"
  define s4 where "s4 = snd (inb B ATA_STATUS (snd (insw B ATA_DATA 256 (snd r3))))"
  have t1: "traffic s s1 (read_cmd drive lba) 0" unfolding s1_def by (rule traffic_issue_read)
  have t2: "traffic s1 (snd r2) [] 200000" "fst r2 \<in> {ATA_OK, ATA_ERR_DEVICE, ATA_ERR_TIMEOUT_BSY}"
    using traffic_wait_not_busy [of s1 B 200000] by (simp_all add: r2_def ata_wait_not_busy_def ATA_PIO_TIMEOUT_def)
  have t3: "traffic (snd r2) (snd r3) [] 200000" "fst r3 \<in> {ATA_OK, ATA_ERR_DEVICE, ATA_ERR_TIMEOUT_DRQ}"
    using traffic_wait_drq [of "snd r2" B 200000] by (simp_all add: r3_def ata_wait_drq_def ATA_PIO_TIMEOUT_def)
  have t4: "traffic (snd r3) s4 [] 1"
    unfolding s4_def using traffic_trans [OF traffic_insw traffic_inb] by simp
  have T2: "traffic s (snd r2) (read_cmd drive lba) 200000" using traffic_trans [OF t1 t2(1)] by simp
  have T3: "traffic s (snd r3) (read_cmd drive lba) 400000" using traffic_trans [OF T2 t3(1)] by simp
  have T4: "traffic s s4 (read_cmd drive lba) 400001" using traffic_trans [OF T3 t4] by simp
  have r: "(rc, data, s') = (if fst r2 \<noteq> ATA_OK then (fst r2, [], snd r2)
      else if fst r3 \<noteq> ATA_OK then (fst r3, [], snd r3)
      else (ATA_OK, le_bytes (fst (insw B ATA_DATA 256 (snd r3))), s4))"
    using ata_read_sector_accepted [OF None, of B] assms
    by (simp add: case_prod_beta Let_def s1_def r2_def r3_def s4_def)
  have "traffic s s' (read_cmd drive lba) 400001"
    using r T4 traffic_mono [OF T2, of 400001] traffic_mono [OF T3, of 400001] by (auto split: if_splits)
  moreover have "rc = ATA_OK \<and> length data = 512 \<or>
      rc \<in> {ATA_ERR_TIMEOUT_BSY, ATA_ERR_TIMEOUT_DRQ, ATA_ERR_DEVICE} \<and> data = []"
    using r t2(2) t3(2) by (auto split: if_splits)
  ultimately show ?thesis using None by simp
qed (use assms in \<open>simp add: ata_read_sector_refused\<close>)

lemma traffic_more: "traffic s s' ws n \<Longrightarrow> ports.more s' = ports.more s"
  by (simp add: traffic_def)

lemma ata_more: "ports.more s' = ports.more s \<Longrightarrow> g_ata_drive s' = g_ata_drive s"
  for s s' :: "('h, 'a) ata_state_scheme"
  by (cases s; cases s') simp

lemma ata_read_sector_keeps:
  fixes s :: "('h, 'a) ata_state_scheme"
  assumes "ata_read_sector B drive lba buffer s = (rc, data, s')"
  shows "g_ata_drive s' = g_ata_drive s" "rc = ATA_OK \<Longrightarrow> length data = 512" "rc \<noteq> ATA_OK \<Longrightarrow> data = []"
proof -
  note R = ata_read_sector_result [OF assms]
  have "ports.more s' = ports.more s" using R by (auto dest: traffic_more split: option.splits)
  then show "g_ata_drive s' = g_ata_drive s" by (rule ata_more)
  show "length data = 512" if "rc = ATA_OK"
    using R that by (auto simp: ata_refusal_def split: option.splits if_splits)
  show "data = []" if "rc \<noteq> ATA_OK" using R that by (auto split: option.splits)
qed

text \<open>
  C25. What a sector read does, for every state, drive and block number, and whatever the hardware
  answers. A refused request returns its code and causes no port access at all. An accepted one writes
  to the ports exactly seven bytes, in this order: the drive and the top four bits of the block number
  with block addressing selected, no features, one sector, the low, middle and high byte of the block
  number, and last of all the command. The status register is read at most 400001 times, so the call
  returns; it returns a full sector of 512 bytes exactly if it returns 0, and otherwise a timeout or
  device error. The driver's own variables do not change.
\<close>

theorem ata_read_sector_command:
  fixes B :: "'h bus" and s :: "('h, 'a) ata_state_scheme"
  assumes "ata_read_sector B drive lba buffer s = (rc, data, s')"
  shows "case ata_refusal drive lba buffer s of
      Some e \<Rightarrow> rc = e \<and> data = [] \<and> s' = s
    | None \<Rightarrow> (\<exists>es h lo mid hi. io_log s' = io_log s @ es \<and>
          port_writes es = [(ATA_DRIVE_HEAD, h), (ATA_FEATURES, 0), (ATA_SECTOR_CNT, 1),
            (ATA_LBA_LO, lo), (ATA_LBA_MID, mid), (ATA_LBA_HI, hi), (ATA_COMMAND, ATA_CMD_READ_PIO)] \<and>
          unat h = (if drive = ATA_DRIVE_MASTER then 0xE0 else 0xF0) + unat lba div 2 ^ 24 \<and>
          unat lo = unat lba mod 256 \<and> unat mid = unat lba div 256 mod 256 \<and> unat hi = unat lba div 65536 mod 256 \<and>
          port_count ATA_STATUS es \<le> 400001) \<and>
        g_ata_drive s' = g_ata_drive s \<and>
        (rc = ATA_OK \<and> length data = 512 \<or>
         rc \<in> {ATA_ERR_TIMEOUT_BSY, ATA_ERR_TIMEOUT_DRQ, ATA_ERR_DEVICE} \<and> data = [])"
proof (cases "ata_refusal drive lba buffer s")
  case None
  obtain h lo mid hi where c: "read_cmd drive lba = [(ATA_DRIVE_HEAD, h), (ATA_FEATURES, 0), (ATA_SECTOR_CNT, 1),
      (ATA_LBA_LO, lo), (ATA_LBA_MID, mid), (ATA_LBA_HI, hi), (ATA_COMMAND, ATA_CMD_READ_PIO)]"
    "unat h = (if drive = ATA_DRIVE_MASTER then 0xE0 else 0xF0) + unat lba div 2 ^ 24"
    "unat lo = unat lba mod 256" "unat mid = unat lba div 256 mod 256" "unat hi = unat lba div 65536 mod 256"
    using ata_refusal_None(4) [OF None] by (rule read_cmd_bytes)
  have R: "traffic s s' (read_cmd drive lba) 400001" "rc = ATA_OK \<and> length data = 512 \<or>
      rc \<in> {ATA_ERR_TIMEOUT_BSY, ATA_ERR_TIMEOUT_DRQ, ATA_ERR_DEVICE} \<and> data = []"
    using ata_read_sector_result [OF assms] None by simp_all
  from R(1) obtain es where es: "io_log s' = io_log s @ es" "port_writes es = read_cmd drive lba" "port_count ATA_STATUS es \<le> 400001"
    unfolding traffic_def by blast
  show ?thesis
    unfolding None option.case using es [unfolded c(1)] c(2-5) R(2) ata_read_sector_keeps(1) [OF assms] by blast
qed (use ata_read_sector_result [OF assms] in simp)

text \<open>Block \<open>0x07A3B2C1\<close> of a master drive that holds so many: every byte of the command is different.\<close>

definition sample_ata_big :: "((u16 \<times> u8) list \<times> u16 list) ata_state" where
  "sample_ata_big = sample_ata\<lparr>g_ata_drive := [\<lparr>present = True, lba28_sectors = 0x0FFFFFFF\<rparr>, \<lparr>present = False, lba28_sectors = 0\<rparr>]\<rparr>"

theorem ata_read_sector_command_witness:
  "\<exists>rc data s'. ata_read_sector sample_bus 0 0x07A3B2C1 True sample_ata_big = (rc, data, s') \<and>
     port_writes (io_log s') = [(0x1F6, 0xE7), (0x1F1, 0), (0x1F2, 1), (0x1F3, 0xC1), (0x1F4, 0xB2), (0x1F5, 0xA3), (0x1F7, 0x20)] \<and>
     port_count ATA_STATUS (io_log s') \<le> 400001"
proof -
  have r: "ata_refusal 0 0x07A3B2C1 True sample_ata_big = None"
    by (simp add: ata_refusal_def sample_ata_big_def sample_ata_def ata_valid_drive_def ata_is_present_def ata_get_lba28_sectors_def)
  obtain rc data s' where e: "ata_read_sector sample_bus 0 0x07A3B2C1 True sample_ata_big = (rc, data, s')" by (metis prod_cases3)
  have l: "io_log sample_ata_big = []" by (simp add: sample_ata_big_def sample_ata_def)
  have bytes: "w = word_of_nat n" if "unat w = n" for w :: u8 and n using that by auto
  from ata_read_sector_command [OF e] obtain h lo mid hi where
    w: "port_writes (io_log s') = [(ATA_DRIVE_HEAD, h), (ATA_FEATURES, 0), (ATA_SECTOR_CNT, 1),
      (ATA_LBA_LO, lo), (ATA_LBA_MID, mid), (ATA_LBA_HI, hi), (ATA_COMMAND, ATA_CMD_READ_PIO)]"
    "unat h = 0xE7" "unat lo = 0xC1" "unat mid = 0xB2" "unat hi = 0xA3" "port_count ATA_STATUS (io_log s') \<le> 400001"
    by (auto simp: r l)
  have "h = 0xE7" "lo = 0xC1" "mid = 0xB2" "hi = 0xA3" using w(2-5) by (auto dest!: bytes)
  with e w show ?thesis by simp
qed

text \<open>
  A drive that answers a command: within the polling bounds it first clears BSY and then raises DRQ,
  never showing ERR or DF, and then delivers the words \<open>ws\<close>, ending in state \<open>h'\<close>.
\<close>

definition drive_answers :: "'h bus \<Rightarrow> 'h \<Rightarrow> u16 list \<Rightarrow> 'h \<Rightarrow> bool" where
  "drive_answers B h ws h' \<longleftrightarrow>
     (\<exists>i < ATA_PIO_TIMEOUT. \<exists>j < ATA_PIO_TIMEOUT. \<exists>h1.
        settles B (\<lambda>v. v AND ATA_SR_BSY = 0) i h \<and>
        settles B (\<lambda>v. v AND ATA_SR_DRQ \<noteq> 0) j (poll_state B (Suc i) h) \<and>
        bus_words B ATA_DATA 256 (poll_state B (Suc j) (poll_state B (Suc i) h)) = (ws, h1) \<and>
        h' = snd (bus_in8 B ATA_STATUS h1))"

lemma disk_bus_answers:
  assumes "length (img drive lba) = 256"
  shows "drive_answers (disk_bus img n) (regs, img drive lba) (img drive lba) (regs, [])"
proof -
  let ?B = "disk_bus img n"
  have w: "bus_words ?B ATA_DATA 256 (poll_state ?B (Suc 0) (poll_state ?B (Suc 0) (regs, img drive lba))) =
      (img drive lba, regs, [])"
    using disk_bus_words [of img n ATA_DATA "img drive lba" regs] assms by simp
  show ?thesis
    unfolding drive_answers_def using w disk_bus_settles
    by (intro exI [of _ 0] conjI exI [of _ "(regs, [])"]) (simp_all add: ATA_PIO_TIMEOUT_def)
qed

lemma ata_read_sector_answered:
  assumes ok: "ata_refusal drive lba buffer s = None"
    and ans: "drive_answers B (hw (ata_issue_read B drive lba s)) ws h'"
  shows "\<exists>s'. ata_read_sector B drive lba buffer s = (ATA_OK, le_bytes ws, s') \<and> hw s' = h'"
proof -
  let ?s1 = "ata_issue_read B drive lba s"
  from ans obtain i j h1 where a: "i < ATA_PIO_TIMEOUT" "j < ATA_PIO_TIMEOUT"
    "settles B (\<lambda>v. v AND ATA_SR_BSY = 0) i (hw ?s1)"
    "settles B (\<lambda>v. v AND ATA_SR_DRQ \<noteq> 0) j (poll_state B (Suc i) (hw ?s1))"
    "bus_words B ATA_DATA 256 (poll_state B (Suc j) (poll_state B (Suc i) (hw ?s1))) = (ws, h1)"
    "h' = snd (bus_in8 B ATA_STATUS h1)"
    unfolding drive_answers_def by blast
  obtain s2 where s2: "ata_wait_not_busy B ?s1 = (ATA_OK, s2)" "hw s2 = poll_state B (Suc i) (hw ?s1)"
    using wait_not_busy_settles [OF a(3,1)] unfolding ata_wait_not_busy_def by blast
  obtain s3 where s3: "ata_wait_drq B s2 = (ATA_OK, s3)" "hw s3 = poll_state B (Suc j) (hw s2)"
    using wait_drq_settles [of B j s2 ATA_PIO_TIMEOUT] a(2,4) s2(2) unfolding ata_wait_drq_def by auto
  show ?thesis
    using ata_read_sector_accepted [OF ok, of B] s2 s3 a(5,6) by (simp add: io_simps)
qed

lemma disk_bus_read:
  assumes "ata_refusal drive lba True s = None" "length (img drive lba) = 256"
  shows "\<exists>a. ata_read_sector (disk_bus img n) drive lba True s = (ATA_OK, le_bytes (img drive lba), a)"
proof -
  obtain regs q where h: "hw s = (regs, q)" by fastforce
  note v = ata_refusal_None(2,4) [OF assms(1)]
  have "drive_answers (disk_bus img n) (hw (ata_issue_read (disk_bus img n) drive lba s)) (img drive lba) (regs @ read_cmd drive lba, [])"
    unfolding disk_bus_issue_read [OF h v] using assms(2) by (rule disk_bus_answers)
  then show ?thesis using ata_read_sector_answered [OF assms(1)] by blast
qed

text \<open>
  C26. When the request is accepted and the drive answers the command, the read returns 0 and stores
  the words the drive delivered, low byte first: byte \<open>2 k\<close> of the buffer is the low and byte
  \<open>2 k + 1\<close> the high half of word \<open>k\<close>.
\<close>

theorem ata_read_sector_delivers:
  assumes "ata_refusal drive lba buffer s = None"
    and "drive_answers B (hw (ata_issue_read B drive lba s)) ws h'"
  shows "\<exists>data s'. ata_read_sector B drive lba buffer s = (ATA_OK, data, s') \<and> hw s' = h' \<and>
    length data = 2 * length ws \<and>
    (\<forall>k < length ws. data ! (2 * k) = ucast (ws ! k) \<and> data ! (2 * k + 1) = ucast (drop_bit 8 (ws ! k)))"
  using ata_read_sector_answered [OF assms] le_bytes_nth [of _ ws] by force

theorem ata_read_sector_delivers_witness:
  "\<exists>data s'. ata_read_sector sample_bus 0 7 True sample_ata = (ATA_OK, data, s') \<and> length data = 512 \<and>
     data ! 20 = 7 \<and> data ! 21 = 0"
proof -
  have r: "ata_refusal 0 7 True sample_ata = None"
    by (simp add: ata_refusal_def sample_ata_def ata_valid_drive_def ata_is_present_def ata_get_lba28_sectors_def)
  have v: "ata_valid_drive 0" "(7 :: u32) \<le> ATA_LBA28_MAX" by (simp_all add: ata_valid_drive_def)
  have i: "hw (ata_issue_read sample_bus 0 7 sample_ata) = (read_cmd 0 7, replicate 256 7)"
    using disk_bus_issue_read [OF _ v, of sample_ata "[]" "[]"] by (simp add: sample_bus_def sample_ata_def)
  have "drive_answers sample_bus (read_cmd 0 7, replicate 256 7) (replicate 256 7) (read_cmd 0 7, [])"
    using disk_bus_answers [of "\<lambda>d l. replicate 256 (ucast l)" 0 7] by (simp add: sample_bus_def)
  from ata_read_sector_delivers [OF r, of sample_bus, unfolded i, OF this]
  obtain data s' where d: "ata_read_sector sample_bus 0 7 True sample_ata = (ATA_OK, data, s')" "length data = 512"
      "\<forall>k < 256. data ! (2 * k) = ucast (replicate 256 (7 :: u16) ! k) \<and>
         data ! (2 * k + 1) = ucast (drop_bit 8 (replicate 256 (7 :: u16) ! k))" by auto
  from d(3) [rule_format, of 10] have "data ! 20 = 7" "data ! 21 = 0" by simp_all
  with d show ?thesis by auto
qed

section \<open>Initialisation\<close>

lemma traffic_identify:
  assumes "ata_identify_pio B drive True s = (rc, ident, s')" "ata_valid_drive drive"
  shows "traffic s s' (identify_cmd drive) 400002 \<and> (rc = ATA_OK \<longrightarrow> length ident = 256)"
proof -
  define s1 where "s1 = ata_400ns_delay B (outb B ATA_COMMAND ATA_CMD_IDENTIFY (outb B ATA_LBA_HI 0 (outb B ATA_LBA_MID 0
     (outb B ATA_LBA_LO 0 (outb B ATA_SECTOR_CNT 0 (ata_select_drive B drive False s))))))"
  define s2 where "s2 = snd (inb B ATA_STATUS s1)"
  define r3 where "r3 = ata_wait_not_busy B s2"
  define s4 where "s4 = snd (inb B ATA_LBA_HI (snd (inb B ATA_LBA_MID (snd r3))))"
  define r5 where "r5 = ata_wait_drq B s4"
  define s6 where "s6 = snd (inb B ATA_STATUS (snd (insw B ATA_DATA 256 (snd r5))))"
  have t1: "traffic s s1 (identify_cmd drive) 0" unfolding s1_def by (rule traffic_issue_identify)
  have t2: "traffic s s2 (identify_cmd drive) 1" unfolding s2_def using traffic_trans [OF t1 traffic_inb] by simp
  have t3: "traffic s (snd r3) (identify_cmd drive) 200001"
    using traffic_trans [OF t2, of "snd r3" "[]" 200000] traffic_wait_not_busy [of s2 B 200000]
    by (simp add: r3_def ata_wait_not_busy_def ATA_PIO_TIMEOUT_def)
  have t4: "traffic s s4 (identify_cmd drive) 200001"
    unfolding s4_def using traffic_trans [OF traffic_trans [OF t3 traffic_inb_other] traffic_inb_other] by simp
  have t5: "traffic s (snd r5) (identify_cmd drive) 400001"
    using traffic_trans [OF t4, of "snd r5" "[]" 200000] traffic_wait_drq [of s4 B 200000]
    by (simp add: r5_def ata_wait_drq_def ATA_PIO_TIMEOUT_def)
  have t6: "traffic s s6 (identify_cmd drive) 400002"
    unfolding s6_def using traffic_trans [OF traffic_trans [OF t5 traffic_insw] traffic_inb] by simp
  have "s' \<in> {s2, snd r3, s4, snd r5, s6} \<and> (rc = ATA_OK \<longrightarrow> length ident = 256)"
    using assms(1) [unfolded ata_identify_pio_def Let_def case_prod_beta fst_conv snd_conv,
        folded s1_def, folded s2_def, folded r3_def, folded s4_def, folded r5_def, folded s6_def] assms(2)
    by (auto split: if_splits)
  then show ?thesis
    using t6 traffic_mono [OF t2, of 400002] traffic_mono [OF t3, of 400002] traffic_mono [OF t4, of 400002]
      traffic_mono [OF t5, of 400002] by auto
qed

text \<open>A drive that is not present has size 0, and no other drive exists.\<close>

definition ata_inv :: "('h, 'a) ata_state_scheme \<Rightarrow> bool" where
  "ata_inv s \<longleftrightarrow> length (g_ata_drive s) = 2 \<and> (\<forall>d \<in> set (g_ata_drive s). \<not> present d \<longrightarrow> lba28_sectors d = 0)"

lemma ata_probe_traffic:
  assumes "d < 2" "ata_inv s"
  shows "ata_inv (ata_probe B d s) \<and>
    (\<exists>es. io_log (ata_probe B d s) = io_log s @ es \<and> port_writes es = identify_cmd (int d) \<and>
      port_count ATA_STATUS es \<le> 400002)"
proof -
  obtain rc ident s' where r: "ata_identify_pio B (int d) True s = (rc, ident, s')" by (metis prod_cases3)
  have "ata_valid_drive (int d)" using assms(1) by (auto simp: ata_valid_drive_def)
  with r have t: "traffic s s' (identify_cmd (int d)) 400002" by (blast dest: traffic_identify)
  then have g: "g_ata_drive s' = g_ata_drive s" by (intro ata_more traffic_more)
  have "\<And>x. x \<in> set (g_ata_drive s) \<Longrightarrow> \<not> present x \<Longrightarrow> lba28_sectors x = 0" "length (g_ata_drive s) = 2"
    using assms(2) by (auto simp: ata_inv_def)
  then have "ata_inv (ata_probe B d s)"
    using r g set_update_subset_insert [of "g_ata_drive s" d]
    by (auto simp: ata_inv_def ata_probe_def dest!: subsetD [OF set_update_subset_insert])
  moreover have "io_log (ata_probe B d s) = io_log s'" using r by (auto simp: ata_probe_def)
  ultimately show ?thesis using t by (auto simp: traffic_def)
qed

lemma ata_init_result:
  assumes "length (g_ata_drive s) = 2"
  shows "ata_inv (ata_init B s) \<and>
    (\<exists>es. io_log (ata_init B s) = io_log s @ es \<and> port_writes es = identify_cmd 0 @ identify_cmd 1 \<and>
      port_count ATA_STATUS es \<le> 800004)"
proof -
  define s0 where "s0 = s\<lparr>g_ata_drive := [\<lparr>present = False, lba28_sectors = 0\<rparr>, \<lparr>present = False, lba28_sectors = 0\<rparr>]\<rparr>"
  have two: "[0..<2] = [0, 1 :: nat]" by (simp add: upt_rec)
  obtain a b where g: "g_ata_drive s = [a, b]"
    using assms by (auto simp: length_Suc_conv numeral_2_eq_2)
  have i: "ata_init B s = ata_probe B 1 (ata_probe B 0 s0)"
    by (simp add: ata_init_def two s0_def g)
  have "ata_inv s0" by (simp add: ata_inv_def s0_def)
  then have p0: "ata_inv (ata_probe B 0 s0)" "\<exists>es. io_log (ata_probe B 0 s0) = io_log s @ es \<and>
      port_writes es = identify_cmd 0 \<and> port_count ATA_STATUS es \<le> 400002"
    using ata_probe_traffic [of 0 s0 B] by (simp_all add: s0_def)
  from p0(2) obtain es0 where e0: "io_log (ata_probe B 0 s0) = io_log s @ es0" "port_writes es0 = identify_cmd 0"
    "port_count ATA_STATUS es0 \<le> 400002" by blast
  from ata_probe_traffic [OF _ p0(1), of 1 B] obtain es1 where e1: "ata_inv (ata_probe B 1 (ata_probe B 0 s0))"
    "io_log (ata_probe B 1 (ata_probe B 0 s0)) = io_log (ata_probe B 0 s0) @ es1" "port_writes es1 = identify_cmd 1"
    "port_count ATA_STATUS es1 \<le> 400002" by auto
  from e0 e1 show ?thesis unfolding i by (intro conjI exI [of _ "es0 @ es1"]) simp_all
qed

text \<open>The example disks identify themselves with their size.\<close>

lemma disk_bus_identify:
  fixes s :: "((u16 \<times> u8) list \<times> u16 list, 'a) ata_state_scheme"
  assumes "ata_valid_drive drive"
  shows "\<exists>s'. ata_identify_pio (disk_bus img n) drive True s = (ATA_OK, ident_words n, s') \<and> g_ata_drive s' = g_ata_drive s"
proof -
  let ?B = "disk_bus img n"
  define s1 where "s1 = ata_400ns_delay ?B (outb ?B ATA_COMMAND ATA_CMD_IDENTIFY (outb ?B ATA_LBA_HI 0 (outb ?B ATA_LBA_MID 0
     (outb ?B ATA_LBA_LO 0 (outb ?B ATA_SECTOR_CNT 0 (ata_select_drive ?B drive False s))))))"
  obtain regs0 q0 where h0: "hw s = (regs0, q0)" by fastforce
  have "\<exists>regs. hw s1 = (regs, ident_words n)"
    unfolding s1_def ata_400ns_delay_def ata_select_drive_def Let_def by (simp add: io_simps h0)
  then obtain regs where h1: "hw s1 = (regs, ident_words n)" by blast
  define s2 where "s2 = snd (inb ?B ATA_STATUS s1)"
  have h2: "hw s2 = hw s1" "fst (inb ?B ATA_STATUS s1) = 0x48" by (simp_all add: s2_def io_simps)
  have T: "0 < ATA_PIO_TIMEOUT" by (simp add: ATA_PIO_TIMEOUT_def)
  obtain s3 where s3: "ata_wait_not_busy ?B s2 = (ATA_OK, s3)" "hw s3 = hw s1"
    using wait_not_busy_settles [OF disk_bus_settles(1) T, of img n s2] h2(1) by (auto simp: ata_wait_not_busy_def)
  define s4 where "s4 = snd (inb ?B ATA_LBA_HI (snd (inb ?B ATA_LBA_MID s3)))"
  have h4: "hw s4 = hw s1" "fst (inb ?B ATA_LBA_MID s3) = 0" "fst (inb ?B ATA_LBA_HI (snd (inb ?B ATA_LBA_MID s3))) = 0"
    using s3(2) by (simp_all add: s4_def io_simps)
  obtain s5 where s5: "ata_wait_drq ?B s4 = (ATA_OK, s5)" "hw s5 = hw s1"
    using wait_drq_settles [OF disk_bus_settles(2) T, of img n s4] h4(1) by (auto simp: ata_wait_drq_def)
  have "length (ident_words n) = 256" by (simp add: ident_words_def)
  then have w: "fst (insw ?B ATA_DATA 256 s5) = ident_words n"
    using disk_bus_words [of img n ATA_DATA "ident_words n" regs] s5(2) h1 by (simp add: io_simps)
  define s6 where "s6 = snd (inb ?B ATA_STATUS (snd (insw ?B ATA_DATA 256 s5)))"
  have r: "ata_identify_pio ?B drive True s = (ATA_OK, ident_words n, s6)"
    using assms unfolding ata_identify_pio_def Let_def case_prod_beta s1_def [symmetric] s2_def [symmetric] h2(2) s3(1) fst_conv snd_conv
      h4(2,3) s4_def [symmetric] s5(1) w s6_def [symmetric] by simp
  then have "g_ata_drive s6 = g_ata_drive s" using traffic_identify [OF r assms] by (intro ata_more traffic_more) blast
  with r show ?thesis by blast
qed

lemma ident_words_size: "ucast (ident_words n ! 60) OR push_bit 16 (ucast (ident_words n ! 61)) = (n :: u32)"
proof -
  have "ident_words n ! 60 = ucast n" "ident_words n ! 61 = ucast (drop_bit 16 n)" by (simp_all add: ident_words_def nth_append)
  then show ?thesis by (simp only:) (auto intro!: bit_word_eqI simp: bit_simps)
qed

lemma disk_bus_init:
  fixes s :: "((u16 \<times> u8) list \<times> u16 list, 'a) ata_state_scheme"
  assumes "length (g_ata_drive s) = 2"
  shows "g_ata_drive (ata_init (disk_bus img n) s) = [\<lparr>present = True, lba28_sectors = n\<rparr>, \<lparr>present = True, lba28_sectors = n\<rparr>]"
proof -
  have p: "g_ata_drive (ata_probe (disk_bus img n) d u) = (g_ata_drive u)[d := \<lparr>present = True, lba28_sectors = n\<rparr>]"
    if "d < 2" for d and u :: "((u16 \<times> u8) list \<times> u16 list, 'a) ata_state_scheme"
  proof -
    have "ata_valid_drive (int d)" using that by (auto simp: ata_valid_drive_def)
    from disk_bus_identify [OF this, of img n u] show ?thesis by (auto simp: ata_probe_def ident_words_size)
  qed
  have two: "[0..<2] = [0, 1 :: nat]" by (simp add: upt_rec)
  obtain a b where "g_ata_drive s = [a, b]" using assms by (auto simp: length_Suc_conv numeral_2_eq_2)
  then show ?thesis by (simp add: ata_init_def two p)
qed



end
