(* ===== verification/Block.thy ===== *)
theory Block
  imports Heap_Correct ATA
begin

text \<open>
  The block device layer's data and its registry (\<^verbatim>\<open>src/kernel/drivers/block.c\<close>, \<^verbatim>\<open>block.h\<close>). A
  device is reached through a pointer: one of the two static disks of the ATA bridge, or a structure on
  the kernel heap. Structures on the heap are kept in typed stores, indexed by the address that
  \<^verbatim>\<open>kmalloc\<close> returned for them. The registry is proved to implement a map from names to devices.
\<close>

section \<open>State\<close>

abbreviation BLOCK_SUCCESS :: int where "BLOCK_SUCCESS \<equiv> 0"
abbreviation BLOCK_ERROR :: int where "BLOCK_ERROR \<equiv> 1"
abbreviation BLOCK_BUSY :: int where "BLOCK_BUSY \<equiv> 2"
abbreviation BLOCK_MAX_DEVICES :: nat where "BLOCK_MAX_DEVICES \<equiv> 8"
abbreviation BLOCK_NAME_MAX :: nat where "BLOCK_NAME_MAX \<equiv> 32"

text \<open>The driver functions a device structure can point to.\<close>

datatype read_fn = No_read | Ata_block_read | Mbr_partition_read

datatype write_fn = No_write | Ata_block_write | Mbr_partition_write

datatype dptr = Null_dev | G_disk0 | G_disk1 | Heap_dev u32

record block_device =
  bd_name :: string
  bd_sector_size :: u32
  bd_ctx :: u32
  bd_read :: read_fn
  bd_write :: write_fn

record mbr_partition_ctx =
  parent :: dptr
  base_lba :: u32
  sector_count :: u32

record 'h disk_state = heap_state +
  ata :: "'h ata_state"
  dev_at :: "dptr \<Rightarrow> block_device"
  part_at :: "u32 \<Rightarrow> mbr_partition_ctx"
  g_devices :: "dptr list"
  g_device_count :: nat

section \<open>Registry operations\<close>

definition block_init :: "('h, 'a) disk_state_scheme \<Rightarrow> ('h, 'a) disk_state_scheme" where
  "block_init s = (fold (\<lambda>i s. s\<lparr>g_devices := (g_devices s)[i := Null_dev]\<rparr>) [0..<BLOCK_MAX_DEVICES] s)
     \<lparr>g_device_count := 0\<rparr>"

text \<open>The test in both loops: the slot is used and holds a device of this name.\<close>

definition block_slot_named :: "('h, 'a) disk_state_scheme \<Rightarrow> string \<Rightarrow> nat \<Rightarrow> bool" where
  "block_slot_named s name i \<longleftrightarrow>
     g_devices s ! i \<noteq> Null_dev \<and> strcmp (bd_name (dev_at s (g_devices s ! i))) name = 0"

definition block_register :: "dptr \<Rightarrow> ('h, 'a) disk_state_scheme \<Rightarrow> int \<times> ('h, 'a) disk_state_scheme" where
  "block_register dev s =
     (if dev = Null_dev then (BLOCK_ERROR, s)
      else if bd_name (dev_at s dev) = [] then (BLOCK_ERROR, s)
      else if bd_sector_size (dev_at s dev) = 0 then (BLOCK_ERROR, s)
      else if bd_read (dev_at s dev) = No_read then (BLOCK_ERROR, s)
      else if g_device_count s \<ge> BLOCK_MAX_DEVICES then (BLOCK_BUSY, s)
      else if list_ex (block_slot_named s (bd_name (dev_at s dev))) [0..<g_device_count s] then (BLOCK_ERROR, s)
      else (BLOCK_SUCCESS,
            s\<lparr>g_devices := (g_devices s)[g_device_count s := dev], g_device_count := g_device_count s + 1\<rparr>))"

definition block_count :: "('h, 'a) disk_state_scheme \<Rightarrow> nat" where
  "block_count s = g_device_count s"

definition block_get :: "nat \<Rightarrow> ('h, 'a) disk_state_scheme \<Rightarrow> dptr" where
  "block_get index s = (if index \<ge> g_device_count s then Null_dev else g_devices s ! index)"

definition block_get_by_name :: "string option \<Rightarrow> ('h, 'a) disk_state_scheme \<Rightarrow> dptr" where
  "block_get_by_name name s =
     (case name of None \<Rightarrow> Null_dev
      | Some n \<Rightarrow> (case find (block_slot_named s n) [0..<g_device_count s] of
          None \<Rightarrow> Null_dev | Some i \<Rightarrow> g_devices s ! i))"

section \<open>The registry as a map from names to devices\<close>

definition dev_name :: "('h, 'a) disk_state_scheme \<Rightarrow> dptr \<Rightarrow> string" where
  "dev_name s d = bd_name (dev_at s d)"

definition registered :: "('h, 'a) disk_state_scheme \<Rightarrow> dptr list" where
  "registered s = take (g_device_count s) (g_devices s)"

definition usable :: "('h, 'a) disk_state_scheme \<Rightarrow> dptr \<Rightarrow> bool" where
  "usable s d \<longleftrightarrow> d \<noteq> Null_dev \<and> dev_name s d \<noteq> [] \<and> bd_sector_size (dev_at s d) \<noteq> 0 \<and> bd_read (dev_at s d) \<noteq> No_read"

definition reg_inv :: "('h, 'a) disk_state_scheme \<Rightarrow> bool" where
  "reg_inv s \<longleftrightarrow> length (g_devices s) = BLOCK_MAX_DEVICES \<and> g_device_count s \<le> BLOCK_MAX_DEVICES \<and>
     (\<forall>d. cstring (dev_name s d)) \<and> (\<forall>d \<in> set (registered s). usable s d) \<and>
     distinct (map (dev_name s) (registered s))"

text \<open>
  The contract of a registry of named objects, as its clients use it: an object enters only under a
  name that is not taken, a refused registration changes nothing, and a lookup finds the object
  registered under the name.
\<close>

locale name_registry =
  fixes ok :: "'s \<Rightarrow> bool"
    and nm :: "'s \<Rightarrow> 'd \<Rightarrow> string"
    and entries :: "'s \<Rightarrow> 'd list"
    and register :: "'d \<Rightarrow> 's \<Rightarrow> int \<times> 's"
    and lookup :: "string \<Rightarrow> 's \<Rightarrow> 'd option"
    and valid :: "string \<Rightarrow> bool"
  assumes entries_distinct: "ok s \<Longrightarrow> distinct (map (nm s) (entries s))"
    and register_result: "ok s \<Longrightarrow> register d s = (rc, s') \<Longrightarrow>
      (if rc = 0 then ok s' \<and> entries s' = entries s @ [d] \<and> nm s' = nm s \<and> nm s d \<notin> nm s ` set (entries s)
       else s' = s)"
    and lookup_entries: "ok s \<Longrightarrow> valid n \<Longrightarrow> lookup n s = find (\<lambda>d. nm s d = n) (entries s)"
begin

lemma lookup_iff:
  assumes "ok s" "valid n"
  shows "lookup n s = Some d \<longleftrightarrow> d \<in> set (entries s) \<and> nm s d = n"
proof -
  have inj: "inj_on (nm s) (set (entries s))" using entries_distinct [OF assms(1)] by (simp add: distinct_map)
  have f: "find (\<lambda>d. nm s d = n) (entries s) = Some e \<Longrightarrow> e \<in> set (entries s) \<and> nm s e = n" for e
    by (auto simp: find_Some_iff)
  show ?thesis
  proof
    assume "lookup n s = Some d"
    then show "d \<in> set (entries s) \<and> nm s d = n" using f by (simp add: lookup_entries [OF assms])
  next
    assume d: "d \<in> set (entries s) \<and> nm s d = n"
    then obtain e where e: "find (\<lambda>d. nm s d = n) (entries s) = Some e"
      by (cases "find (\<lambda>d. nm s d = n) (entries s)") (auto simp: find_None_iff)
    with f [OF e] d inj have "e = d" by (auto dest: inj_onD)
    with e show "lookup n s = Some d" by (simp add: lookup_entries [OF assms])
  qed
qed

lemma lookup_None: "ok s \<Longrightarrow> valid n \<Longrightarrow> lookup n s = None \<longleftrightarrow> n \<notin> nm s ` set (entries s)"
  by (auto simp: lookup_entries find_None_iff)

lemma lookup_register:
  assumes "ok s" "register d s = (rc, s')" "valid n"
  shows "lookup n s' = (if rc = 0 \<and> n = nm s d then Some d else lookup n s)"
proof (cases "rc = 0")
  case True
  note R = register_result [OF assms(1,2), unfolded if_P [OF True]]
  have "lookup n s' = Some e \<longleftrightarrow> (if n = nm s d then Some d else lookup n s) = Some e" for e
    using R lookup_iff [OF assms(1,3)] lookup_iff [of s' n e] assms(3) by (auto simp: image_iff)
  then have "lookup n s' = (if n = nm s d then Some d else lookup n s)"
    by (metis not_None_eq)
  with True show ?thesis by simp
next
  case False
  with register_result [OF assms(1,2)] show ?thesis by simp
qed

end

definition dev_lookup :: "string \<Rightarrow> ('h, 'a) disk_state_scheme \<Rightarrow> dptr option" where
  "dev_lookup n s = (case block_get_by_name (Some n) s of Null_dev \<Rightarrow> None | d \<Rightarrow> Some d)"

lemma registered_nth:
  "reg_inv s \<Longrightarrow> i < g_device_count s \<Longrightarrow> registered s ! i = g_devices s ! i \<and> g_devices s ! i \<in> set (registered s)"
  by (auto simp: reg_inv_def registered_def in_set_conv_nth intro!: exI [of _ i])

lemma length_registered: "reg_inv s \<Longrightarrow> length (registered s) = g_device_count s"
  by (simp add: reg_inv_def registered_def)

lemma slot_named_iff:
  assumes "reg_inv s" "i < g_device_count s" "cstring n"
  shows "block_slot_named s n i \<longleftrightarrow> dev_name s (registered s ! i) = n"
  using assms registered_nth [OF assms(1,2)]
  by (auto simp: reg_inv_def block_slot_named_def usable_def simp flip: dev_name_def)

lemma map_registered: "reg_inv s \<Longrightarrow> map (\<lambda>i. g_devices s ! i) [0..<g_device_count s] = registered s"
  by (intro nth_equalityI) (simp_all add: registered_def reg_inv_def)

lemma find_map_nth: "find P (map f xs) = map_option f (find (P \<circ> f) xs)"
  by (induction xs) auto

lemma dev_lookup_find:
  assumes "reg_inv s" "cstring n"
  shows "dev_lookup n s = find (\<lambda>d. dev_name s d = n) (registered s)"
proof -
  have "find (block_slot_named s n) [0..<g_device_count s] = find ((\<lambda>d. dev_name s d = n) \<circ> (\<lambda>i. g_devices s ! i)) [0..<g_device_count s]"
    by (rule find_cong) (use slot_named_iff [OF assms(1) _ assms(2)] registered_nth [OF assms(1)] in auto)
  then have *: "find (\<lambda>d. dev_name s d = n) (registered s) =
      map_option (\<lambda>i. g_devices s ! i) (find (block_slot_named s n) [0..<g_device_count s])"
    by (simp add: find_map_nth flip: map_registered [OF assms(1)])
  show ?thesis
  proof (cases "find (block_slot_named s n) [0..<g_device_count s]")
    case (Some i)
    then have "g_devices s ! i \<noteq> Null_dev" by (auto simp: find_Some_iff block_slot_named_def)
    with Some * show ?thesis by (auto simp: dev_lookup_def block_get_by_name_def split: dptr.split)
  qed (simp add: * dev_lookup_def block_get_by_name_def)
qed

lemma block_register_success:
  assumes "reg_inv s" "block_register d s = (BLOCK_SUCCESS, s')"
  shows "s' = s\<lparr>g_devices := (g_devices s)[g_device_count s := d], g_device_count := g_device_count s + 1\<rparr>"
    "usable s d" "g_device_count s < BLOCK_MAX_DEVICES" "registered s' = registered s @ [d]"
    "dev_name s d \<notin> dev_name s ` set (registered s)" "reg_inv s'"
proof -
  have b: "s' = s\<lparr>g_devices := (g_devices s)[g_device_count s := d], g_device_count := g_device_count s + 1\<rparr>"
    "usable s d" "g_device_count s < BLOCK_MAX_DEVICES"
    "\<not> list_ex (block_slot_named s (dev_name s d)) [0..<g_device_count s]"
    using assms(2) by (auto simp: block_register_def usable_def dev_name_def split: if_splits)
  then show "s' = s\<lparr>g_devices := (g_devices s)[g_device_count s := d], g_device_count := g_device_count s + 1\<rparr>"
    "usable s d" "g_device_count s < BLOCK_MAX_DEVICES" by simp_all
  have l: "length (g_devices s) = 8" "cstring (dev_name s d)" using assms(1) by (simp_all add: reg_inv_def)
  show r: "registered s' = registered s @ [d]"
    using b(1,3) l by (simp add: registered_def take_Suc_conv_app_nth)
  show n: "dev_name s d \<notin> dev_name s ` set (registered s)"
  proof
    assume "dev_name s d \<in> dev_name s ` set (registered s)"
    then obtain i where "i < g_device_count s" "dev_name s (registered s ! i) = dev_name s d"
      using length_registered [OF assms(1)] by (auto simp: in_set_conv_nth)
    then show False using b(4) slot_named_iff [OF assms(1) _ l(2)] by (auto simp: list_ex_iff)
  qed
  have "dev_name s' = dev_name s" "usable s' = usable s" using b(1) by (auto simp: dev_name_def usable_def)
  then show "reg_inv s'" using assms(1) b n r by (simp add: reg_inv_def)
qed

lemma block_register_failure:
  "block_register d s = (rc, s') \<Longrightarrow> rc \<noteq> BLOCK_SUCCESS \<Longrightarrow> s' = s"
  by (auto simp: block_register_def split: if_splits)

interpretation breg: name_registry reg_inv dev_name registered block_register dev_lookup cstring
proof
  fix s s' :: "('a, 'b) disk_state_scheme" and d rc n
  assume inv: "reg_inv s"
  show "distinct (map (dev_name s) (registered s))" using inv by (simp add: reg_inv_def)
  show "dev_lookup n s = find (\<lambda>d. dev_name s d = n) (registered s)" if "cstring n"
    using inv that by (rule dev_lookup_find)
  assume r: "block_register d s = (rc, s')"
  show "if rc = 0 then reg_inv s' \<and> registered s' = registered s @ [d] \<and> dev_name s' = dev_name s \<and>
        dev_name s d \<notin> dev_name s ` set (registered s) else s' = s"
  proof (cases "rc = 0")
    case True
    note B = block_register_success [OF inv r [unfolded True]]
    have "dev_name s' = dev_name s" unfolding B(1) by (auto simp: dev_name_def)
    with B True show ?thesis by simp
  qed (use r in \<open>auto dest: block_register_failure\<close>)
qed

lemma block_register_iff:
  assumes "reg_inv s" "block_register d s = (rc, s')"
  shows "rc = BLOCK_SUCCESS \<longleftrightarrow> usable s d \<and> block_count s < BLOCK_MAX_DEVICES \<and> dev_name s d \<notin> dev_name s ` set (registered s)"
proof
  assume "rc = BLOCK_SUCCESS"
  with block_register_success [OF assms(1), of d s'] assms(2)
  show "usable s d \<and> block_count s < BLOCK_MAX_DEVICES \<and> dev_name s d \<notin> dev_name s ` set (registered s)"
    by (simp add: block_count_def)
next
  assume a: "usable s d \<and> block_count s < BLOCK_MAX_DEVICES \<and> dev_name s d \<notin> dev_name s ` set (registered s)"
  have "cstring (dev_name s d)" using assms(1) by (simp add: reg_inv_def)
  then have "\<not> block_slot_named s (dev_name s d) i" if "i < g_device_count s" for i
    using a slot_named_iff [OF assms(1) that] registered_nth [OF assms(1) that] by (metis image_eqI)
  then have "\<not> list_ex (block_slot_named s (dev_name s d)) [0..<g_device_count s]"
    by (simp add: list_ex_iff)
  with a show "rc = BLOCK_SUCCESS"
    using assms(2) by (auto simp: block_register_def usable_def dev_name_def block_count_def split: if_splits)
qed

lemma block_init_inv:
  fixes s :: "('h, 'a) disk_state_scheme"
  assumes "length (g_devices s) = BLOCK_MAX_DEVICES" "\<And>d. cstring (dev_name s d)"
  shows "reg_inv (block_init s)" "registered (block_init s) = []"
proof -
  have f: "fold (\<lambda>i s. s\<lparr>g_devices := (g_devices s)[i := Null_dev]\<rparr>) is s =
      s\<lparr>g_devices := fold (\<lambda>i g. g[i := Null_dev]) is (g_devices s)\<rparr>" for "is" and s :: "('h, 'a) disk_state_scheme"
    by (induction "is" arbitrary: s) simp_all
  have l: "length (fold (\<lambda>i g. g[i := Null_dev]) is g) = length g" for "is" and g :: "dptr list"
    by (induction "is" arbitrary: g) simp_all
  show "reg_inv (block_init s)" "registered (block_init s) = []"
    using assms unfolding block_init_def f by (simp_all add: reg_inv_def registered_def dev_name_def l)
qed

section \<open>Properties\<close>

text \<open>A machine with a freshly initialised heap, one drive, and the two static disk structures.\<close>

definition sample_dev :: "dptr \<Rightarrow> block_device" where
  "sample_dev d = \<lparr>bd_name = (case d of G_disk0 \<Rightarrow> ''disk0'' | G_disk1 \<Rightarrow> ''disk1'' | _ \<Rightarrow> []),
     bd_sector_size = 512, bd_ctx = (if d = G_disk1 then 1 else 0), bd_read = Ata_block_read, bd_write = Ata_block_write\<rparr>"

definition sample_disk :: "((u16 \<times> u8) list \<times> u16 list) disk_state" where
  "sample_disk = heap_state.extend sample_heap
     \<lparr>ata = sample_ata, dev_at = sample_dev, part_at = (\<lambda>_. \<lparr>parent = Null_dev, base_lba = 0, sector_count = 0\<rparr>),
      g_devices = replicate 8 Null_dev, g_device_count = 0\<rparr>"

lemma sample_disk_reg: "reg_inv sample_disk" "registered sample_disk = []"
  by (auto simp: reg_inv_def registered_def sample_disk_def heap_state.defs dev_name_def sample_dev_def NUL_def split: dptr.split)

text \<open>
  C28. The device registry is a map from names to devices: a registration succeeds exactly if the
  device is complete, a slot is free and no registered device has its name; then its name, and no
  other, leads to it and every other lookup is unchanged. Any other registration changes nothing.
  Names stay unique, so a lookup does not depend on the order of registration.
\<close>

theorem block_register_lookup:
  assumes "reg_inv s" "block_register d s = (rc, s')"
  shows "reg_inv s' \<and>
    (rc = BLOCK_SUCCESS \<longleftrightarrow> usable s d \<and> block_count s < BLOCK_MAX_DEVICES \<and> dev_name s d \<notin> dev_name s ` set (registered s)) \<and>
    (rc \<noteq> BLOCK_SUCCESS \<longrightarrow> s' = s) \<and>
    (\<forall>n. cstring n \<longrightarrow> block_get_by_name (Some n) s' =
       (if rc = BLOCK_SUCCESS \<and> n = dev_name s d then d else block_get_by_name (Some n) s)) \<and>
    (\<forall>d \<in> set (registered s'). block_get_by_name (Some (dev_name s' d)) s' = d)"
proof -
  note R = breg.register_result [OF assms]
  have inv': "reg_inv s'" using R assms(1) by (auto split: if_splits)
  have get: "block_get_by_name (Some n) t = (case dev_lookup n t of None \<Rightarrow> Null_dev | Some d \<Rightarrow> d)"
    for n and t :: "('a, 'b) disk_state_scheme"
    by (simp add: dev_lookup_def split: dptr.split)
  note ok = block_register_iff [OF assms]
  have fail: "rc \<noteq> BLOCK_SUCCESS \<longrightarrow> s' = s" using R by simp
  have "block_get_by_name (Some n) s' = (if rc = BLOCK_SUCCESS \<and> n = dev_name s d then d else block_get_by_name (Some n) s)"
    if "cstring n" for n
    using breg.lookup_register [OF assms that] by (simp add: get)
  moreover have "block_get_by_name (Some (dev_name s' e)) s' = e" if "e \<in> set (registered s')" for e
    using breg.lookup_iff [OF inv', of "dev_name s' e" e] that inv' by (simp add: get reg_inv_def)
  ultimately show ?thesis using inv' ok fail by blast
qed

theorem block_register_lookup_witness:
  "case block_register G_disk0 sample_disk of (rc, s') \<Rightarrow> rc = BLOCK_SUCCESS \<and>
     block_get_by_name (Some ''disk0'') s' = G_disk0 \<and> block_get_by_name (Some ''disk1'') s' = Null_dev"
proof -
  obtain rc s' where r: "block_register G_disk0 sample_disk = (rc, s')" by fastforce
  have n: "dev_name sample_disk G_disk0 = ''disk0''" "usable sample_disk G_disk0" "block_count sample_disk = 0"
    by (simp_all add: dev_name_def usable_def sample_disk_def heap_state.defs sample_dev_def block_count_def)
  have "block_get_by_name (Some ''disk1'') sample_disk = Null_dev"
    by (simp add: block_get_by_name_def sample_disk_def heap_state.defs)
  with block_register_lookup [OF sample_disk_reg(1) r] show ?thesis
    by (simp add: r n sample_disk_reg(2) NUL_def)
qed

end
