(* ===== verification/Disk.thy ===== *)
theory Disk
  imports Block
begin

text \<open>
  The two drivers behind block devices: the ATA bridge (\<^verbatim>\<open>src/kernel/drivers/ata_block.c\<close>) and the
  partitions of a DOS partition table (\<^verbatim>\<open>src/kernel/drivers/mbr.c\<close>). A read through a device's
  function pointer goes to one of the two; a partition passes it on to its parent device, so the
  dispatch is a partial function: \<open>None\<close> for a chain of parents that never ends or a call through a
  null pointer.
\<close>

section \<open>The ATA bridge\<close>

definition ata_block_read ::
    "'h bus \<Rightarrow> dptr \<Rightarrow> u32 \<Rightarrow> bool \<Rightarrow> ('h, 'a) disk_state_scheme \<Rightarrow> int \<times> u8 list \<times> ('h, 'a) disk_state_scheme" where
  "ata_block_read B dev lba buffer s =
     (if dev = Null_dev \<or> \<not> buffer then (BLOCK_ERROR, [], s)
      else let drive = bd_ctx (dev_at s dev);
               (rc, data, a) = ata_read_sector B (sint drive) lba buffer (ata s)
           in (if rc = ATA_OK then BLOCK_SUCCESS else BLOCK_ERROR, data, s\<lparr>ata := a\<rparr>))"

definition ata_block_write :: "dptr \<Rightarrow> u32 \<Rightarrow> bool \<Rightarrow> int" where
  "ata_block_write dev lba buffer = BLOCK_ERROR"

definition g_disk0 :: block_device where
  "g_disk0 = \<lparr>bd_name = ''disk0'', bd_sector_size = 512, bd_ctx = 0, bd_read = Ata_block_read, bd_write = Ata_block_write\<rparr>"

definition g_disk1 :: block_device where
  "g_disk1 = \<lparr>bd_name = ''disk1'', bd_sector_size = 512, bd_ctx = 1, bd_read = Ata_block_read, bd_write = Ata_block_write\<rparr>"

definition set_disk0_ctx :: "u32 \<Rightarrow> ('h, 'a) disk_state_scheme \<Rightarrow> ('h, 'a) disk_state_scheme" where
  "set_disk0_ctx drive s = s\<lparr>dev_at := (dev_at s)(G_disk0 := (dev_at s G_disk0)\<lparr>bd_ctx := drive\<rparr>)\<rparr>"

definition ata_block_register_devices ::
    "'h bus \<Rightarrow> ('h, 'a) disk_state_scheme \<Rightarrow> int \<times> ('h, 'a) disk_state_scheme" where
  "ata_block_register_devices B s =
     (let s = s\<lparr>ata := ata_init B (ata s)\<rparr>;
          master = ata_is_present ATA_DRIVE_MASTER (ata s);
          slave = ata_is_present ATA_DRIVE_SLAVE (ata s)
      in if \<not> master \<and> \<not> slave then (BLOCK_ERROR, s)
      else if master then
        let s = set_disk0_ctx 0 s;
            (rc, s) = block_register G_disk0 s
        in if rc \<noteq> BLOCK_SUCCESS then (rc, s)
        else if slave then
          let (rc, s) = block_register G_disk1 s
          in if rc \<noteq> BLOCK_SUCCESS then (rc, s) else (BLOCK_SUCCESS, s)
        else (BLOCK_SUCCESS, s)
      else block_register G_disk0 (set_disk0_ctx 1 s))"

section \<open>Partitions\<close>

abbreviation MBR_OK :: int where "MBR_OK \<equiv> 0"
abbreviation MBR_ERR_INVALID_PARAM :: int where "MBR_ERR_INVALID_PARAM \<equiv> 1"
abbreviation MBR_ERR_IO :: int where "MBR_ERR_IO \<equiv> 2"
abbreviation MBR_ERR_BAD_SIGNATURE :: int where "MBR_ERR_BAD_SIGNATURE \<equiv> 3"
abbreviation MBR_ERR_NO_SPACE :: int where "MBR_ERR_NO_SPACE \<equiv> 4"
abbreviation MBR_ERR_NOT_SUPPORTED :: int where "MBR_ERR_NOT_SUPPORTED \<equiv> 5"

abbreviation sizeof_BlockDevice :: u32 where "sizeof_BlockDevice \<equiv> 48"
abbreviation sizeof_MbrPartitionCtx :: u32 where "sizeof_MbrPartitionCtx \<equiv> 12"

definition mbr_read_u32_le :: "u8 list \<Rightarrow> nat \<Rightarrow> u32" where
  "mbr_read_u32_le p i = ucast (p ! i) OR push_bit 8 (ucast (p ! (i + 1)))
     OR push_bit 16 (ucast (p ! (i + 2))) OR push_bit 24 (ucast (p ! (i + 3)))"

text \<open>The name built in the caller's buffer \<^verbatim>\<open>out_name\<close>, and the return code.\<close>

definition mbr_build_partition_name :: "string \<Rightarrow> string option \<Rightarrow> nat \<Rightarrow> int \<times> string" where
  "mbr_build_partition_name out_name disk_name part_index =
     (case disk_name of None \<Rightarrow> (MBR_ERR_INVALID_PARAM, out_name)
      | Some n \<Rightarrow>
        if part_index = 0 \<or> part_index > 9 then (MBR_ERR_INVALID_PARAM, out_name)
        else if length n + 3 > BLOCK_NAME_MAX then (MBR_ERR_NO_SPACE, [])
        else (MBR_OK, n @ [CHR ''p'', digit_char part_index]))"

text \<open>The checks of \<^verbatim>\<open>mbr_partition_read\<close>: \<open>None\<close> for its errors, or the parent and the block to read there.\<close>

definition mbr_partition_target :: "dptr \<Rightarrow> u32 \<Rightarrow> bool \<Rightarrow> ('h, 'a) disk_state_scheme \<Rightarrow> (dptr \<times> u32) option" where
  "mbr_partition_target dev lba buffer s =
     (if dev = Null_dev \<or> \<not> buffer then None
      else let c = bd_ctx (dev_at s dev); ctx = part_at s c in
        if c = 0 \<or> parent ctx = Null_dev \<or> bd_read (dev_at s (parent ctx)) = No_read then None
        else if sector_count ctx \<noteq> 0 \<and> lba \<ge> sector_count ctx then None
        else if base_lba ctx > 0xFFFFFFFF - lba then None
        else Some (parent ctx, base_lba ctx + lba))"

partial_function (option) dev_read ::
    "'h bus \<Rightarrow> dptr \<Rightarrow> u32 \<Rightarrow> bool \<Rightarrow> ('h, 'a) disk_state_scheme \<Rightarrow> (int \<times> u8 list \<times> ('h, 'a) disk_state_scheme) option" where
  "dev_read B dev lba buffer s =
     (case bd_read (dev_at s dev) of
        No_read \<Rightarrow> None
      | Ata_block_read \<Rightarrow> Some (ata_block_read B dev lba buffer s)
      | Mbr_partition_read \<Rightarrow>
          (case mbr_partition_target dev lba buffer s of
             None \<Rightarrow> Some (BLOCK_ERROR, [], s)
           | Some (pdev, parent_lba) \<Rightarrow> dev_read B pdev parent_lba buffer s))"

definition mbr_partition_write :: "dptr \<Rightarrow> u32 \<Rightarrow> bool \<Rightarrow> int" where
  "mbr_partition_write dev lba buffer = BLOCK_ERROR"

definition mbr_free_both :: "u32 \<Rightarrow> u32 \<Rightarrow> ('h, 'a) disk_state_scheme \<Rightarrow> ('h, 'a) disk_state_scheme kres" where
  "mbr_free_both ctx pdev s = kbind (kfree ctx s) (kfree pdev)"

text \<open>
  One turn of the loop over the partition table: the new state, and the code with which the function
  returns from inside the loop, if it does. The first definition is the part that allocates, fills in
  and registers the two structures.
\<close>

definition mbr_add_partition ::
    "dptr \<Rightarrow> string \<Rightarrow> nat \<Rightarrow> u32 \<Rightarrow> u32 \<Rightarrow> ('h, 'a) disk_state_scheme \<Rightarrow> (int option \<times> ('h, 'a) disk_state_scheme) kres" where
  "mbr_add_partition disk disk_name i lba_start lba_count s =
     kbind (kmalloc sizeof_BlockDevice s) (\<lambda>(pdev, s).
       if pdev = 0 then Inr (Some MBR_ERR_NO_SPACE, s)
       else kbind (kmalloc sizeof_MbrPartitionCtx s) (\<lambda>(ctx, s).
         if ctx = 0 then kbind (kfree pdev s) (\<lambda>s. Inr (Some MBR_ERR_NO_SPACE, s))
         else
           let s = s\<lparr>part_at := (part_at s)(ctx := \<lparr>parent = disk, base_lba = lba_start, sector_count = lba_count\<rparr>)\<rparr>;
               (rc, name) = mbr_build_partition_name [] (Some disk_name) (i + 1);
               s = s\<lparr>dev_at := (dev_at s)(Heap_dev pdev := (dev_at s (Heap_dev pdev))\<lparr>bd_name := name\<rparr>)\<rparr>
           in if rc \<noteq> MBR_OK then kbind (mbr_free_both ctx pdev s) (\<lambda>s. Inr (None, s))
           else
             let s = s\<lparr>dev_at := (dev_at s)(Heap_dev pdev := (dev_at s (Heap_dev pdev))
                       \<lparr>bd_sector_size := bd_sector_size (dev_at s disk), bd_ctx := ctx,
                        bd_read := Mbr_partition_read, bd_write := Mbr_partition_write\<rparr>)\<rparr>;
                 (rc, s) = block_register (Heap_dev pdev) s
             in if rc \<noteq> BLOCK_SUCCESS then kbind (mbr_free_both ctx pdev s) (\<lambda>s. Inr (Some MBR_ERR_NO_SPACE, s))
             else Inr (None, s)))"

definition mbr_entry ::
    "dptr \<Rightarrow> string \<Rightarrow> u8 list \<Rightarrow> nat \<Rightarrow> ('h, 'a) disk_state_scheme \<Rightarrow> (int option \<times> ('h, 'a) disk_state_scheme) kres" where
  "mbr_entry disk disk_name mbr i s =
     (let entry_off = 446 + i * 16;
          part_type = mbr ! (entry_off + 4);
          lba_start = mbr_read_u32_le mbr (entry_off + 8);
          lba_count = mbr_read_u32_le mbr (entry_off + 12)
      in if part_type = 0 \<or> lba_count = 0 then Inr (None, s)
      else if part_type = 0x05 \<or> part_type = 0x0F then Inr (None, s)
      else mbr_add_partition disk disk_name i lba_start lba_count s)"

fun mbr_entries ::
    "dptr \<Rightarrow> string \<Rightarrow> u8 list \<Rightarrow> nat list \<Rightarrow> ('h, 'a) disk_state_scheme \<Rightarrow> (int \<times> ('h, 'a) disk_state_scheme) kres" where
  "mbr_entries disk disk_name mbr [] s = Inr (MBR_OK, s)"
| "mbr_entries disk disk_name mbr (i # is) s =
     kbind (mbr_entry disk disk_name mbr i s) (\<lambda>(r, s).
       case r of Some rc \<Rightarrow> Inr (rc, s) | None \<Rightarrow> mbr_entries disk disk_name mbr is s)"

definition mbr_scan_and_register ::
    "'h bus \<Rightarrow> dptr \<Rightarrow> string option \<Rightarrow> ('h, 'a) disk_state_scheme \<Rightarrow> (int \<times> ('h, 'a) disk_state_scheme) kres" where
  "mbr_scan_and_register B disk disk_name s =
     (if disk = Null_dev \<or> bd_read (dev_at s disk) = No_read then Inr (MBR_ERR_INVALID_PARAM, s)
      else let name = (case disk_name of None \<Rightarrow> bd_name (dev_at s disk) | Some n \<Rightarrow> n) in
        if name = [] then Inr (MBR_ERR_INVALID_PARAM, s)
        else if bd_sector_size (dev_at s disk) \<noteq> 512 then Inr (MBR_ERR_NOT_SUPPORTED, s)
        else case dev_read B disk 0 True s of
          None \<Rightarrow> Inl Hang
        | Some (rc, mbr, s) \<Rightarrow>
            if rc \<noteq> BLOCK_SUCCESS then Inr (MBR_ERR_IO, s)
            else if mbr ! 510 \<noteq> 0x55 \<or> mbr ! 511 \<noteq> 0xAA then Inr (MBR_ERR_BAD_SIGNATURE, s)
            else mbr_entries disk name mbr [0..<4] s)"

end
