(* ===== verification/Disk_Spec.thy ===== *)
theory Disk_Spec
  imports Disk
begin

text \<open>
  What the block drivers guarantee: the invariant that ties the registry to the heap and to the chain
  of parents, reads that stay inside their partition, and the exact set of partitions a scan
  registers, with the memory it keeps.
\<close>

section \<open>Memory\<close>

lemma kmalloc_frame: "kmalloc sz s = Inr (p, s') \<Longrightarrow> s' = s\<lparr>heap_mem := heap_mem s'\<rparr>"
  by (auto simp: kmalloc_def Let_def kres_simps split: if_splits option.splits)

lemma kfree_frame: "kfree p s = Inr s' \<Longrightarrow> s' = s\<lparr>heap_mem := heap_mem s'\<rparr>"
  by (auto simp: kfree_def Let_def split: if_splits)

lemma heap_cong:
  assumes "start_header s = start_header t" "heap_mem s = heap_mem t"
  shows "heap_inv s = heap_inv t" "live s = live t" "heap_abs s = heap_abs t"
proof -
  show "heap_abs s = heap_abs t" using assms by (simp add: heap_abs_def)
  then show "heap_inv s = heap_inv t" "live s = live t" using assms by (simp_all add: heap_inv_def live_def)
qed

text \<open>An allocation fails exactly if no free block is large enough; otherwise the first one is taken.\<close>

lemma kmalloc_blocks:
  assumes "heap_inv s" "kmalloc sz s = Inr (p, s')" "0 < unat sz" "unat sz \<le> 1048556"
  shows "if p = 0 then first_fit (round4 (unat sz)) 0xD0000000 (heap_abs s) = None
    else first_fit (round4 (unat sz)) 0xD0000000 (heap_abs s) \<noteq> None \<and>
      heap_abs s' = alloc_blocks (round4 (unat sz)) (heap_abs s)"
  using assms(1,3,4)
proof (cases rule: kmalloc_refines)
  case oom
  then show ?thesis using assms(2) by simp
next
  case (block h m)
  obtain k where "live s' = insert (h + 20, k) (live s)" "0 < k" "(h + 20, k) \<notin> live s"
  proof -
    obtain k where k: "round4 (unat sz) \<le> k" "set (payloads 0xD0000000 (alloc_blocks (round4 (unat sz)) (heap_abs s))) =
        insert (h + 20, k) (set (payloads 0xD0000000 (heap_abs s)))"
      "\<And>j. 0 < j \<Longrightarrow> (h + 20, j) \<notin> set (payloads 0xD0000000 (heap_abs s))"
      using block(1) by (rule alloc_blocks_payloads) (rule that)
    moreover have "0 < k" using k(1) round4_bounds [of "unat sz"] assms(3) by linarith
    ultimately show thesis using block(2,4) assms(2) by (intro that [of k]) (simp_all add: live_def)
  qed
  then have "s' \<noteq> s" by auto
  then have "p \<noteq> 0" using kheap.alloc_result [OF assms(1), of sz] assms(2) by auto
  then show ?thesis using block(1,2,4) assms(2) by simp
qed

text \<open>An object of \<open>n\<close> bytes lives at \<open>p\<close>.\<close>

definition object_at :: "'a heap_state_scheme \<Rightarrow> u32 \<Rightarrow> nat \<Rightarrow> bool" where
  "object_at s p n \<longleftrightarrow> (\<exists>k \<ge> n. (unat p, k) \<in> live s)"

lemma object_at_mono: "live s \<subseteq> live s' \<Longrightarrow> object_at s p n \<Longrightarrow> object_at s' p n"
  by (auto simp: object_at_def)

text \<open>
  An allocation gives a new object: at no address of an object that lives, and no object that lives is
  lost. Releasing it leaves exactly the objects there were.
\<close>

lemma kmalloc_object:
  assumes "heap_inv s" "sz \<noteq> 0"
  obtains (none) "kmalloc sz s = Inr (0, s)"
  | (new) p k m where "kmalloc sz s = Inr (p, s\<lparr>heap_mem := m\<rparr>)" "p \<noteq> 0" "heap_inv (s\<lparr>heap_mem := m\<rparr>)" "unat sz \<le> k"
      "live (s\<lparr>heap_mem := m\<rparr>) = insert (unat p, k) (live s)" "(unat p, k) \<notin> live s"
      "\<And>q n. object_at s q n \<Longrightarrow> 0 < n \<Longrightarrow> q \<noteq> p"
proof -
  obtain p s' where a: "kmalloc sz s = Inr (p, s')" "heap_inv s'"
    "p = 0 \<and> s' = s \<or> p \<noteq> 0 \<and> (\<exists>k \<ge> unat sz. (unat p, k) \<notin> live s \<and> live s' = insert (unat p, k) (live s))"
    using kheap.alloc_result [OF assms(1), of sz] by auto
  show thesis
  proof (cases "p = 0")
    case True
    with a show thesis by (intro none) auto
  next
    case False
    then obtain k where k: "unat sz \<le> k" "(unat p, k) \<notin> live s" "live s' = insert (unat p, k) (live s)" using a(3) by auto
    have "0 < unat sz" using assms(2) by (simp add: unat_gt_0)
    with k(1) have "0 < k" by simp
    have "q \<noteq> p" if "object_at s q n" "0 < n" for q n
    proof
      assume "q = p"
      from that(1) obtain j where "n \<le> j" "(unat q, j) \<in> live s" unfolding object_at_def by blast
      with that(2) \<open>q = p\<close> have j: "0 < j" "(unat p, j) \<in> live s" by simp_all
      then have "(unat p, j) = (unat p, k) \<or> unat p + j \<le> unat p \<or> unat p + k \<le> unat p"
        using k(3) by (intro kheap.regions_disjoint [OF a(2)]) auto
      with \<open>0 < k\<close> j k(2) show False by auto
    qed
    then show thesis
      using a(1,2) False k kmalloc_frame [OF a(1)] by (intro new [of p "heap_mem s'" k]) auto
  qed
qed

lemma kfree_object:
  assumes "heap_inv s" "(unat p, k) \<in> live s"
  obtains m where "kfree p s = Inr (s\<lparr>heap_mem := m\<rparr>)" "heap_inv (s\<lparr>heap_mem := m\<rparr>)"
    "live (s\<lparr>heap_mem := m\<rparr>) = live s - {(unat p, k)}"
proof -
  obtain s' where s': "kfree p s = Inr s'" "heap_inv s'" "live s' = live s - {(unat p, k)}"
    using kheap.release_result [OF assms] by auto
  with kfree_frame [OF s'(1)] show thesis by (intro that [of "heap_mem s'"]) simp_all
qed

section \<open>The invariant of the block layer\<close>

text \<open>
  Every registered partition has a parent that was registered before it, and its two structures are
  objects on the heap; the static disks are ATA devices.
\<close>

definition dev_links :: "('h, 'a) disk_state_scheme \<Rightarrow> dptr list \<Rightarrow> dptr \<Rightarrow> bool" where
  "dev_links s before d \<longleftrightarrow>
     (case d of Null_dev \<Rightarrow> False
      | Heap_dev p \<Rightarrow> bd_read (dev_at s d) = Mbr_partition_read \<and> object_at s p 48 \<and> object_at s (bd_ctx (dev_at s d)) 12 \<and>
          bd_ctx (dev_at s d) \<noteq> 0 \<and> parent (part_at s (bd_ctx (dev_at s d))) \<in> set before
      | _ \<Rightarrow> bd_read (dev_at s d) = Ata_block_read)"

fun dev_chain :: "('h, 'a) disk_state_scheme \<Rightarrow> dptr list \<Rightarrow> dptr list \<Rightarrow> bool" where
  "dev_chain s before [] = True"
| "dev_chain s before (d # ds) = (dev_links s before d \<and> dev_chain s (before @ [d]) ds)"

definition disk_inv :: "('h, 'a) disk_state_scheme \<Rightarrow> bool" where
  "disk_inv s \<longleftrightarrow> heap_inv s \<and> reg_inv s \<and> ata_inv (ata s) \<and> dev_chain s [] (registered s)"

lemma dev_chain_append: "dev_chain s before (xs @ ys) \<longleftrightarrow> dev_chain s before xs \<and> dev_chain s (before @ xs) ys"
  by (induction xs arbitrary: before) auto

lemma dev_chain_links: "dev_chain s before ds \<Longrightarrow> d \<in> set ds \<Longrightarrow> \<exists>xs. dev_links s xs d \<and> set xs \<subseteq> set before \<union> set ds"
  by (induction ds arbitrary: before) fastforce+

text \<open>What a device means to its users: its structure and, for a partition, its extent.\<close>

definition dev_view :: "('h, 'a) disk_state_scheme \<Rightarrow> dptr \<Rightarrow> block_device \<times> mbr_partition_ctx option" where
  "dev_view s d = (dev_at s d, case d of Heap_dev p \<Rightarrow> Some (part_at s (bd_ctx (dev_at s d))) | _ \<Rightarrow> None)"

lemma dev_links_cong:
  assumes "dev_view s' d = dev_view s d" "live s \<subseteq> live s'"
  shows "dev_links s before d \<Longrightarrow> dev_links s' before d"
  using assms by (auto simp: dev_links_def dev_view_def object_at_mono [OF assms(2)] split: dptr.splits)

lemma dev_chain_cong:
  assumes "\<And>d. d \<in> set ds \<Longrightarrow> dev_view s' d = dev_view s d" "live s \<subseteq> live s'"
  shows "dev_chain s before ds \<Longrightarrow> dev_chain s' before ds"
  using assms by (induction ds arbitrary: before) (auto intro: dev_links_cong)

section \<open>Reads\<close>

lemma dev_view_ata [simp]: "dev_view (s\<lparr>ata := a\<rparr>) d = dev_view s d"
  by (simp add: dev_view_def split: dptr.split)

lemma reg_cong:
  assumes "g_devices s' = g_devices s" "g_device_count s' = g_device_count s" "dev_at s' = dev_at s"
  shows "reg_inv s' = reg_inv s" "registered s' = registered s"
proof -
  have "dev_name s' = dev_name s" "usable s' = usable s" "registered s' = registered s"
    using assms by (auto simp: dev_name_def usable_def registered_def)
  then show "reg_inv s' = reg_inv s" "registered s' = registered s" using assms by (simp_all add: reg_inv_def)
qed

lemma disk_inv_ata: "disk_inv s \<Longrightarrow> ata_inv a \<Longrightarrow> disk_inv (s\<lparr>ata := a\<rparr>)"
  using heap_cong [of "s\<lparr>ata := a\<rparr>" s] reg_cong [of "s\<lparr>ata := a\<rparr>" s]
    dev_chain_cong [of "registered s" "s\<lparr>ata := a\<rparr>" s "[]"]
  by (simp add: disk_inv_def)

text \<open>
  A read returns, moves only the hardware, and fills a whole sector when it reports success.
\<close>

definition read_returns :: "'h bus \<Rightarrow> ('h, 'a) disk_state_scheme \<Rightarrow> dptr \<Rightarrow> bool" where
  "read_returns B s d \<longleftrightarrow> (\<forall>lba buffer. \<exists>rc data a. dev_read B d lba buffer s = Some (rc, data, s\<lparr>ata := a\<rparr>) \<and>
     g_ata_drive a = g_ata_drive (ata s) \<and> rc \<in> {BLOCK_SUCCESS, BLOCK_ERROR} \<and> (if rc = BLOCK_SUCCESS then length data = 512 else data = []))"

lemma ata_block_read_result:
  obtains rc data a where "ata_block_read B d lba buffer s = (rc, data, s\<lparr>ata := a\<rparr>)"
    "g_ata_drive a = g_ata_drive (ata s)" "rc \<in> {BLOCK_SUCCESS, BLOCK_ERROR}" "if rc = BLOCK_SUCCESS then length data = 512 else data = []"
proof (cases "d = Null_dev \<or> \<not> buffer")
  case True
  then show thesis by (intro that [of BLOCK_ERROR "[]" "ata s"]) (simp_all add: ata_block_read_def)
next
  case False
  obtain rc data a where r: "ata_read_sector B (sint (bd_ctx (dev_at s d))) lba buffer (ata s) = (rc, data, a)"
    by (metis prod_cases3)
  show thesis
    using ata_read_sector_keeps [OF r] False r
    by (intro that [of "if rc = ATA_OK then BLOCK_SUCCESS else BLOCK_ERROR" data a]) (auto simp: ata_block_read_def)
qed

lemma read_returns_links:
  assumes "dev_links s before d" "\<And>e. e \<in> set before \<Longrightarrow> read_returns B s e"
  shows "read_returns B s d"
  unfolding read_returns_def
proof (intro allI)
  fix lba buffer
  show "\<exists>rc data a. dev_read B d lba buffer s = Some (rc, data, s\<lparr>ata := a\<rparr>) \<and>
     g_ata_drive a = g_ata_drive (ata s) \<and> rc \<in> {BLOCK_SUCCESS, BLOCK_ERROR} \<and> (if rc = BLOCK_SUCCESS then length data = 512 else data = [])"
  proof (cases "bd_read (dev_at s d)")
    case Ata_block_read
    then show ?thesis
      using ata_block_read_result [of B d lba buffer s] by (simp add: dev_read.simps) metis
  next
    case Mbr_partition_read
    then have "parent (part_at s (bd_ctx (dev_at s d))) \<in> set before"
      using assms(1) by (auto simp: dev_links_def split: dptr.splits)
    from assms(2) [OF this] have p: "read_returns B s (parent (part_at s (bd_ctx (dev_at s d))))" .
    show ?thesis
    proof (cases "mbr_partition_target d lba buffer s")
      case None
      then show ?thesis using Mbr_partition_read
        by (intro exI [of _ BLOCK_ERROR] exI [of _ "[]"] exI [of _ "ata s"]) (simp add: dev_read.simps [of B d])
    next
      case (Some x)
      obtain q l where x: "x = (q, l)" by (cases x)
      have "q = parent (part_at s (bd_ctx (dev_at s d)))"
        using Some x by (auto simp: mbr_partition_target_def Let_def split: if_splits)
      with p Some x Mbr_partition_read show ?thesis
        unfolding read_returns_def by (simp add: dev_read.simps [of B d])
    qed
  qed (use assms(1) in \<open>auto simp: dev_links_def split: dptr.splits\<close>)
qed

lemma read_returns_chain:
  "dev_chain s before ds \<Longrightarrow> (\<And>e. e \<in> set before \<Longrightarrow> read_returns B s e) \<Longrightarrow> d \<in> set ds \<Longrightarrow> read_returns B s d"
proof (induction ds arbitrary: before)
  case (Cons e ds)
  have e: "read_returns B s e" using read_returns_links [of s before e] Cons.prems by simp
  show ?case
  proof (cases "d = e")
    case False
    then show ?thesis using Cons.IH [of "before @ [e]"] Cons.prems e by auto
  qed (use e in simp)
qed simp

lemma read_registered: "disk_inv s \<Longrightarrow> d \<in> set (registered s) \<Longrightarrow> read_returns B s d"
  using read_returns_chain [of s "[]" "registered s" B d] by (simp add: disk_inv_def)

lemma dev_read_inv:
  assumes "disk_inv s" "d \<in> set (registered s)" "dev_read B d lba buffer s = Some (rc, data, s')"
  shows "disk_inv s'" "s' = s\<lparr>ata := ata s'\<rparr>" "rc \<in> {BLOCK_SUCCESS, BLOCK_ERROR}" "if rc = BLOCK_SUCCESS then length data = 512 else data = []"
proof -
  obtain rc0 data0 a where r: "dev_read B d lba buffer s = Some (rc0, data0, s\<lparr>ata := a\<rparr>)"
    "g_ata_drive a = g_ata_drive (ata s)" "rc0 \<in> {BLOCK_SUCCESS, BLOCK_ERROR}" "if rc0 = BLOCK_SUCCESS then length data0 = 512 else data0 = []"
    using read_registered [OF assms(1,2), of B] unfolding read_returns_def by blast
  then have a: "s' = s\<lparr>ata := a\<rparr>" "g_ata_drive a = g_ata_drive (ata s)"
    "rc \<in> {BLOCK_SUCCESS, BLOCK_ERROR}" "if rc = BLOCK_SUCCESS then length data = 512 else data = []"
    using assms(3) by simp_all
  then show "s' = s\<lparr>ata := ata s'\<rparr>" "rc \<in> {BLOCK_SUCCESS, BLOCK_ERROR}" "if rc = BLOCK_SUCCESS then length data = 512 else data = []" by auto
  have "ata_inv a" using assms(1) a(2) by (simp add: disk_inv_def ata_inv_def)
  then show "disk_inv s'" using disk_inv_ata [OF assms(1)] a(1) by simp
qed

section \<open>Scanning a partition table\<close>

text \<open>The heap has room for the two structures of a partition, one after the other.\<close>

definition partition_room :: "hblock list \<Rightarrow> bool" where
  "partition_room bs \<longleftrightarrow> first_fit 48 0xD0000000 bs \<noteq> None \<and> first_fit 12 0xD0000000 (alloc_blocks 48 bs) \<noteq> None"

lemma mbr_objects:
  fixes s :: "('h, 'a) disk_state_scheme"
  assumes inv: "heap_inv s"
  obtains (none) "kmalloc 48 s = Inr (0, s)" "\<not> partition_room (heap_abs s)"
  | (one) p s1 m where "kmalloc 48 s = Inr (p, s1)" "p \<noteq> 0" "kmalloc 12 s1 = Inr (0, s1)"
      "kfree p s1 = Inr (s\<lparr>heap_mem := m\<rparr>)" "heap_inv (s\<lparr>heap_mem := m\<rparr>)" "live (s\<lparr>heap_mem := m\<rparr>) = live s"
      "heap_abs (s\<lparr>heap_mem := m\<rparr>) = heap_abs s" "\<not> partition_room (heap_abs s)"
  | (two) p c k j s1 m where "kmalloc 48 s = Inr (p, s1)" "p \<noteq> 0" "kmalloc 12 s1 = Inr (c, s\<lparr>heap_mem := m\<rparr>)" "c \<noteq> 0"
      "heap_inv (s\<lparr>heap_mem := m\<rparr>)" "live (s\<lparr>heap_mem := m\<rparr>) = insert (unat c, j) (insert (unat p, k) (live s))"
      "48 \<le> k" "12 \<le> j" "(unat p, k) \<notin> live s" "(unat c, j) \<notin> insert (unat p, k) (live s)" "p \<noteq> c"
      "\<And>q n. object_at s q n \<Longrightarrow> 0 < n \<Longrightarrow> q \<noteq> p \<and> q \<noteq> c"
      "\<And>t t' :: ('h, 'a) disk_state_scheme. heap_inv t \<Longrightarrow> heap_abs t = heap_abs (s\<lparr>heap_mem := m\<rparr>) \<Longrightarrow> mbr_free_both c p t = Inr t' \<Longrightarrow> heap_abs t' = heap_abs s"
proof -
  have z: "(48 :: u32) \<noteq> 0" "(12 :: u32) \<noteq> 0" by simp_all
  have n: "0 < unat (48 :: u32)" "unat (48 :: u32) \<le> 1048556" "round4 (unat (48 :: u32)) = 48"
    "0 < unat (12 :: u32)" "unat (12 :: u32) \<le> 1048556" "round4 (unat (12 :: u32)) = 12"
    by (simp_all add: round4_def)
  from inv z(1) show thesis
  proof (cases rule: kmalloc_object)
    case none
    then show thesis using kmalloc_blocks [OF inv none n(1,2)] n(3) by (intro that(1)) (simp_all add: partition_room_def)
  next
    case (new p k m1)
    let ?s1 = "s\<lparr>heap_mem := m1\<rparr>"
    have b1: "heap_abs ?s1 = alloc_blocks 48 (heap_abs s)" using kmalloc_blocks [OF inv new(1) n(1,2)] new(2) n(3) by simp
    from new(3) z(2) show thesis
    proof (cases rule: kmalloc_object)
      case none
      obtain m where "kfree p ?s1 = Inr (?s1\<lparr>heap_mem := m\<rparr>)" "heap_inv (?s1\<lparr>heap_mem := m\<rparr>)"
          "live (?s1\<lparr>heap_mem := m\<rparr>) = live ?s1 - {(unat p, k)}"
        using kfree_object [OF new(3), of p k] new(5) by auto
      moreover have "heap_abs (s\<lparr>heap_mem := m\<rparr>) = heap_abs s"
      proof -
        obtain t' where "kfree p ?s1 = Inr t'" "heap_abs t' = heap_abs s" using kmalloc_undo [OF inv new(1,2,3) refl] by blast
        then show ?thesis using calculation(1) by simp
      qed
      moreover have "\<not> partition_room (heap_abs s)"
        using kmalloc_blocks [OF new(3) none n(4,5)] n(6) b1 by (simp add: partition_room_def)
      ultimately show thesis using new none by (intro that(2) [of p ?s1 m]) simp_all
    next
      case c: (new c j m)
      have "object_at ?s1 q n" if "object_at s q n" for q n
        using that new(5) by (intro object_at_mono [of s ?s1]) auto
      moreover have "object_at ?s1 p 48" using new(4,5) by (auto simp: object_at_def)
      ultimately have f: "\<And>q n. object_at s q n \<Longrightarrow> 0 < n \<Longrightarrow> q \<noteq> c" "p \<noteq> c" using c(7) by auto
      have "heap_abs t' = heap_abs s"
        if t: "heap_inv t" "heap_abs t = heap_abs (s\<lparr>heap_mem := m\<rparr>)" "mbr_free_both c p t = Inr t'" for t t' :: "('h, 'a) disk_state_scheme"
      proof -
        obtain t1 where t1: "kfree c t = Inr t1" "heap_inv t1" "heap_abs t1 = heap_abs ?s1"
          using kmalloc_undo [OF new(3) c(1,2) t(1)] t(2) by auto
        obtain t2 where "kfree p t1 = Inr t2" "heap_abs t2 = heap_abs s" using kmalloc_undo [OF inv new(1,2) t1(2,3)] by blast
        with t(3) t1(1) show ?thesis by (simp add: mbr_free_both_def)
      qed
      note undo = this
      show thesis
      proof (rule that(3) [of p ?s1 c m j k])
        show "heap_abs t' = heap_abs s"
          if "heap_inv t" "heap_abs t = heap_abs (s\<lparr>heap_mem := m\<rparr>)" "mbr_free_both c p t = Inr t'"
          for t t' :: "('h, 'a) disk_state_scheme" using that by (rule undo)
      qed (use new c f in simp_all)
    qed
  qed
qed

lemma mbr_free_both_result:
  assumes "heap_inv t" "live t = insert (unat c, j) (insert (unat p, k) L)" "(unat p, k) \<notin> L"
    "(unat c, j) \<notin> insert (unat p, k) L"
  obtains m where "mbr_free_both c p t = Inr (t\<lparr>heap_mem := m\<rparr>)" "heap_inv (t\<lparr>heap_mem := m\<rparr>)" "live (t\<lparr>heap_mem := m\<rparr>) = L"
proof -
  obtain m1 where m1: "kfree c t = Inr (t\<lparr>heap_mem := m1\<rparr>)" "heap_inv (t\<lparr>heap_mem := m1\<rparr>)"
      "live (t\<lparr>heap_mem := m1\<rparr>) = live t - {(unat c, j)}"
    using kfree_object [OF assms(1), of c j] assms(2) by auto
  then have l: "live (t\<lparr>heap_mem := m1\<rparr>) = insert (unat p, k) L" using assms by auto
  obtain m where "kfree p (t\<lparr>heap_mem := m1\<rparr>) = Inr (t\<lparr>heap_mem := m1\<rparr>\<lparr>heap_mem := m\<rparr>)"
      "heap_inv (t\<lparr>heap_mem := m1\<rparr>\<lparr>heap_mem := m\<rparr>)" "live (t\<lparr>heap_mem := m1\<rparr>\<lparr>heap_mem := m\<rparr>) = insert (unat p, k) L - {(unat p, k)}"
    using kfree_object [OF m1(2), of p k] l by auto
  with m1 assms(3) show thesis by (intro that [of m]) (simp_all add: mbr_free_both_def)
qed

text \<open>
  Filling in structures at addresses where no object lived changes no registered device.
\<close>

lemma fresh_structs:
  assumes inv: "disk_inv s" and fresh: "\<forall>q n. object_at s q n \<longrightarrow> 0 < n \<longrightarrow> q \<noteq> p \<and> q \<noteq> c"
    and t: "t = s\<lparr>heap_mem := m, part_at := (part_at s)(c := x), dev_at := (dev_at s)(Heap_dev p := D)\<rparr>"
    and h: "heap_inv (s\<lparr>heap_mem := m\<rparr>)" "live s \<subseteq> live (s\<lparr>heap_mem := m\<rparr>)" and D: "cstring (bd_name D)"
  shows "disk_inv t" "registered t = registered s" "live t = live (s\<lparr>heap_mem := m\<rparr>)"
    "\<And>d. d \<in> set (registered s) \<Longrightarrow> dev_view t d = dev_view s d"
proof -
  have chain: "dev_chain s [] (registered s)" and reg: "reg_inv s" using inv by (simp_all add: disk_inv_def)
  show r: "registered t = registered s" by (simp add: t registered_def)
  have hc: "heap_inv t = heap_inv (s\<lparr>heap_mem := m\<rparr>)" "live t = live (s\<lparr>heap_mem := m\<rparr>)"
    by (rule heap_cong; simp add: t)+
  then show "live t = live (s\<lparr>heap_mem := m\<rparr>)" by simp
  have ne: "d \<noteq> Heap_dev p \<and> (\<forall>q. d = Heap_dev q \<longrightarrow> bd_ctx (dev_at s d) \<noteq> c)" if d: "d \<in> set (registered s)" for d
  proof -
    obtain xs where "dev_links s xs d" using dev_chain_links [OF chain d] by blast
    then show ?thesis using fresh by (fastforce simp: dev_links_def split: dptr.splits)
  qed
  show v: "dev_view t d = dev_view s d" if "d \<in> set (registered s)" for d
    using ne [OF that] by (auto simp: t dev_view_def split: dptr.split)
  have n: "dev_name t d = dev_name s d \<and> (usable t d \<longleftrightarrow> usable s d)" if "d \<in> set (registered s)" for d
    using ne [OF that] by (auto simp: t dev_name_def usable_def)
  have "cstring (dev_name t d)" for d using reg D by (auto simp: t dev_name_def reg_inv_def)
  moreover have "distinct (map (dev_name t) (registered s))" using reg by (simp add: reg_inv_def n cong: map_cong)
  moreover have "length (g_devices t) = length (g_devices s)" "g_device_count t = g_device_count s" by (simp_all add: t)
  ultimately have "reg_inv t" using reg n r by (simp add: reg_inv_def)
  moreover have "dev_chain t [] (registered s)"
    using chain h(2) hc(2) by (intro dev_chain_cong [of "registered s" t s]) (auto simp: v)
  ultimately show "disk_inv t" using inv h(1) hc(1) r by (simp add: disk_inv_def t)
qed

definition mbr_valid :: "u8 list \<Rightarrow> nat \<Rightarrow> bool" where
  "mbr_valid mbr i \<longleftrightarrow> mbr ! (446 + i * 16 + 4) \<notin> {0, 0x05, 0x0F} \<and> mbr_read_u32_le mbr (446 + i * 16 + 12) \<noteq> 0"

text \<open>Device \<open>d\<close> is the partition that entry \<open>i\<close> of the table describes.\<close>

definition is_partition ::
    "('h, 'a) disk_state_scheme \<Rightarrow> dptr \<Rightarrow> string \<Rightarrow> u8 list \<Rightarrow> nat \<Rightarrow> dptr \<Rightarrow> bool" where
  "is_partition s disk name mbr i d \<longleftrightarrow> (\<exists>p c. d = Heap_dev p \<and>
     dev_at s d = \<lparr>bd_name = name @ [CHR ''p'', digit_char (i + 1)], bd_sector_size = bd_sector_size (dev_at s disk),
       bd_ctx = c, bd_read = Mbr_partition_read, bd_write = Mbr_partition_write\<rparr> \<and>
     part_at s c = \<lparr>parent = disk, base_lba = mbr_read_u32_le mbr (446 + i * 16 + 8),
       sector_count = mbr_read_u32_le mbr (446 + i * 16 + 12)\<rparr>)"

lemma is_partition_cong:
  assumes "dev_view s' d = dev_view s d" "dev_view s' disk = dev_view s disk"
  shows "is_partition s disk name mbr i d \<Longrightarrow> is_partition s' disk name mbr i d"
  using assms by (auto simp: is_partition_def dev_view_def)

lemma cstring_digit: "k < 10 \<Longrightarrow> digit_char k \<noteq> NUL"
  by (metis of_char_digit of_char_NUL add_nonneg_eq_0_iff of_nat_0_le_iff zero_le_numeral zero_neq_numeral)

text \<open>The outcomes of one turn of the loop: nothing registered and nothing kept, or one partition.\<close>

definition entry_kept :: "('h, 'a) disk_state_scheme \<Rightarrow> ('h, 'a) disk_state_scheme \<Rightarrow> bool" where
  "entry_kept s s' \<longleftrightarrow> disk_inv s' \<and> registered s' = registered s \<and> live s' = live s \<and> ata s' = ata s \<and>
     (\<forall>d \<in> set (registered s). dev_view s' d = dev_view s d)"

text \<open>The heap addresses a device refers to: its own structure and that of its partition.\<close>

definition dev_addrs :: "('h, 'a) disk_state_scheme \<Rightarrow> dptr \<Rightarrow> u32 set" where
  "dev_addrs s d = (case d of Heap_dev p \<Rightarrow> {p, bd_ctx (dev_at s d)} | _ \<Rightarrow> {})"

lemma dev_addrs_cong: "dev_view t d = dev_view s d \<Longrightarrow> dev_addrs t d = dev_addrs s d"
  by (auto simp: dev_view_def dev_addrs_def split: dptr.split)

definition entry_added :: "dptr \<Rightarrow> string \<Rightarrow> u8 list \<Rightarrow> nat \<Rightarrow> ('h, 'a) disk_state_scheme \<Rightarrow> ('h, 'a) disk_state_scheme \<Rightarrow> bool" where
  "entry_added disk name mbr i s s' \<longleftrightarrow> disk_inv s' \<and> ata s' = ata s \<and> live s \<subseteq> live s' \<and> card (live s' - live s) = 2 \<and>
     (\<exists>d. registered s' = registered s @ [d] \<and> is_partition s' disk name mbr i d \<and> fst ` (live s' - live s) \<subseteq> unat ` dev_addrs s' d) \<and>
     (\<forall>d \<in> set (registered s). dev_view s' d = dev_view s d)"

lemma entry_registered:
  assumes inv: "disk_inv t" and disk: "disk \<in> set (registered t)" and p: "is_partition t disk name mbr i (Heap_dev p)"
    and o: "object_at t p 48" "object_at t (bd_ctx (dev_at t (Heap_dev p))) 12" "bd_ctx (dev_at t (Heap_dev p)) \<noteq> 0"
    and r: "block_register (Heap_dev p) t = (BLOCK_SUCCESS, u)"
  shows "disk_inv u" "registered u = registered t @ [Heap_dev p]" "is_partition u disk name mbr i (Heap_dev p)"
    "live u = live t" "ata u = ata t" "\<And>d. dev_view u d = dev_view t d"
proof -
  have reg: "reg_inv t" using inv by (simp add: disk_inv_def)
  note B = block_register_success [OF reg r]
  have c: "heap_inv u = heap_inv t" "live u = live t" by (rule heap_cong; simp add: B(1))+
  show v: "dev_view u d = dev_view t d" for d by (simp add: B(1) dev_view_def split: dptr.split)
  show "registered u = registered t @ [Heap_dev p]" by (rule B(4))
  show "is_partition u disk name mbr i (Heap_dev p)" using is_partition_cong [OF v v p] .
  show "live u = live t" "ata u = ata t" using c by (simp_all add: B(1))
  have "dev_links t (registered t) (Heap_dev p)" using p o disk by (auto simp: dev_links_def is_partition_def)
  then have "dev_chain t [] (registered t @ [Heap_dev p])" using inv by (simp add: disk_inv_def dev_chain_append)
  then have "dev_chain u [] (registered t @ [Heap_dev p])" by (rule dev_chain_cong [rotated 2]) (simp_all add: v c)
  then show "disk_inv u" using inv B(4,6) c by (simp add: disk_inv_def B(1))
qed

lemma entry_keptI:
  assumes "disk_inv s" "\<forall>q n. object_at s q n \<longrightarrow> 0 < n \<longrightarrow> q \<noteq> p \<and> q \<noteq> c"
    and "t = s\<lparr>heap_mem := m, part_at := (part_at s)(c := x), dev_at := (dev_at s)(Heap_dev p := D)\<rparr>"
    and "heap_inv (s\<lparr>heap_mem := m\<rparr>)" "live (s\<lparr>heap_mem := m\<rparr>) = live s" "cstring (bd_name D)"
  shows "entry_kept s t"
  using fresh_structs [OF assms(1,2,3,4) _ assms(6)] assms(3,5) by (simp add: entry_kept_def)

lemma entry_kept_heap:
  assumes "disk_inv s" "heap_inv (s\<lparr>heap_mem := m\<rparr>)" "live (s\<lparr>heap_mem := m\<rparr>) = live s"
  shows "entry_kept s (s\<lparr>heap_mem := m\<rparr>)"
proof -
  let ?t = "s\<lparr>heap_mem := m\<rparr>"
  have v: "dev_view ?t d = dev_view s d" for d by (simp add: dev_view_def split: dptr.split)
  have "dev_chain ?t [] (registered s)"
    using assms by (intro dev_chain_cong [of "registered s" ?t s]) (simp_all add: v disk_inv_def)
  then show ?thesis
    using assms v reg_cong [of ?t s] by (simp add: entry_kept_def disk_inv_def)
qed

lemma mbr_name:
  "i < 4 \<Longrightarrow> mbr_build_partition_name [] (Some name) (Suc i) =
     (if length name \<le> 29 then (MBR_OK, name @ [CHR ''p'', digit_char (i + 1)]) else (MBR_ERR_NO_SPACE, []))"
  by (auto simp: mbr_build_partition_name_def)

lemma device_all:
  "r\<lparr>bd_name := a, bd_sector_size := b, bd_ctx := c, bd_read := f, bd_write := g\<rparr> =
     \<lparr>bd_name = a, bd_sector_size = b, bd_ctx = c, bd_read = f, bd_write = g\<rparr>" for r :: block_device
  by (cases r) simp

text \<open>
  Why a partition cannot be registered: there is no memory for its structures, the registry is full, or
  its name is taken.
\<close>

definition no_room :: "string \<Rightarrow> nat \<Rightarrow> ('h, 'a) disk_state_scheme \<Rightarrow> bool" where
  "no_room name i s \<longleftrightarrow> \<not> partition_room (heap_abs s) \<or>
     length name \<le> 29 \<and> (length (registered s) = BLOCK_MAX_DEVICES \<or>
       name @ [CHR ''p'', digit_char (i + 1)] \<in> dev_name s ` set (registered s))"

lemma no_room_kept:
  assumes "entry_kept s t" "heap_abs t = heap_abs s"
  shows "no_room name i t \<longleftrightarrow> no_room name i s"
proof -
  have "dev_name t d = dev_name s d" if "d \<in> set (registered s)" for d
    using assms(1) that by (auto simp: entry_kept_def dev_view_def dev_name_def)
  moreover have "registered t = registered s" using assms(1) by (simp add: entry_kept_def)
  ultimately show ?thesis unfolding no_room_def assms(2) by (simp cong: image_cong)
qed

lemma mbr_add_partition_result:
  fixes s :: "('h, 'a) disk_state_scheme"
  assumes inv: "disk_inv s" and disk: "disk \<in> set (registered s)" and name: "cstring name" and i: "i < 4"
    and e: "start = mbr_read_u32_le mbr (446 + i * 16 + 8)" "count = mbr_read_u32_le mbr (446 + i * 16 + 12)"
  obtains (long) s' where "mbr_add_partition disk name i start count s = Inr (None, s')" "entry_kept s s'" "29 < length name"
  | (added) s' where "mbr_add_partition disk name i start count s = Inr (None, s')" "entry_added disk name mbr i s s'" "length name \<le> 29"
  | (full) s' where "mbr_add_partition disk name i start count s = Inr (Some MBR_ERR_NO_SPACE, s')" "entry_kept s s'" "no_room name i s'"
proof -
  have hinv: "heap_inv s" using inv by (simp add: disk_inv_def)
  note def = mbr_add_partition_def [of disk name i start count s]
  from hinv show thesis
  proof (cases rule: mbr_objects)
    case none
    then show thesis using entry_kept_heap [OF inv, of "heap_mem s"] hinv by (intro full [of s]) (simp_all add: def no_room_def)
  next
    case (one p s1 m)
    have "entry_kept s (s\<lparr>heap_mem := m\<rparr>)" using inv one(5,6) by (rule entry_kept_heap)
    then show thesis using one by (intro full [of "s\<lparr>heap_mem := m\<rparr>"]) (simp_all add: def no_room_def)
  next
    case (two p c k j s1 m)
    have fr: "\<forall>q n. object_at s q n \<longrightarrow> 0 < n \<longrightarrow> q \<noteq> p \<and> q \<noteq> c" using two(12) by blast
    let ?x = "\<lparr>parent = disk, base_lba = start, sector_count = count\<rparr>"
    define T where "T D = s\<lparr>heap_mem := m, part_at := (part_at s)(c := ?x), dev_at := (dev_at s)(Heap_dev p := D)\<rparr>" for D
    have lT: "heap_inv (T D)" "live (T D) = insert (unat c, j) (insert (unat p, k) (live s))" for D
      using two(5,6) heap_cong [of "T D" "s\<lparr>heap_mem := m\<rparr>"] by (simp_all add: T_def)
    have undo: "\<exists>m'. mbr_free_both c p (T D) = Inr (T D\<lparr>heap_mem := m'\<rparr>) \<and> entry_kept s (T D\<lparr>heap_mem := m'\<rparr>) \<and>
        heap_abs (T D\<lparr>heap_mem := m'\<rparr>) = heap_abs s"
      if D: "cstring (bd_name D)" for D
    proof -
      obtain m' where m': "mbr_free_both c p (T D) = Inr (T D\<lparr>heap_mem := m'\<rparr>)" "heap_inv (T D\<lparr>heap_mem := m'\<rparr>)"
          "live (T D\<lparr>heap_mem := m'\<rparr>) = live s"
        using mbr_free_both_result [OF lT two(9,10)] by blast
      have c: "heap_inv (T D\<lparr>heap_mem := m'\<rparr>) = heap_inv (s\<lparr>heap_mem := m'\<rparr>)" "live (T D\<lparr>heap_mem := m'\<rparr>) = live (s\<lparr>heap_mem := m'\<rparr>)"
        by (rule heap_cong; simp add: T_def)+
      have "entry_kept s (T D\<lparr>heap_mem := m'\<rparr>)"
        using m' c by (intro entry_keptI [OF inv fr _ _ _ D, where m = m' and x = ?x]) (simp_all add: T_def)
      moreover have "heap_abs (T D) = heap_abs (s\<lparr>heap_mem := m\<rparr>)" by (rule heap_cong; simp add: T_def)
      then have "heap_abs (T D\<lparr>heap_mem := m'\<rparr>) = heap_abs s" using two(13) [OF lT(1) _ m'(1)] by simp
      ultimately show ?thesis using m' by blast
    qed
    show thesis
    proof (cases "length name \<le> 29")
      case False
      define D where "D = (dev_at s (Heap_dev p))\<lparr>bd_name := []\<rparr>"
      have "mbr_add_partition disk name i start count s = kbind (mbr_free_both c p (T D)) (\<lambda>s. Inr (None, s))"
        using False two(1,2,3,4) unfolding def by (simp add: mbr_name [OF i] T_def D_def)
      moreover have "cstring (bd_name D)" by (simp add: D_def)
      ultimately show thesis using undo [of D] False by (auto intro: long)
    next
      case True
      define D where "D = \<lparr>bd_name = name @ [CHR ''p'', digit_char (i + 1)], bd_sector_size = bd_sector_size (dev_at s disk),
          bd_ctx = c, bd_read = Mbr_partition_read, bd_write = Mbr_partition_write\<rparr>"
      have cD: "cstring (bd_name D)" using name cstring_digit [of "i + 1"] i by (simp add: D_def NUL_def)
      have sub: "live s \<subseteq> live (s\<lparr>heap_mem := m\<rparr>)" using two(6) by auto
      note F = fresh_structs [OF inv fr T_def [of D] two(5) sub cD]
      obtain xs where "dev_links s xs disk" using dev_chain_links [of s "[]" "registered s" disk] inv disk by (auto simp: disk_inv_def)
      then have ne: "disk \<noteq> Heap_dev p" using two(12) [of p 48] by (auto simp: dev_links_def)
      obtain rc u where r: "block_register (Heap_dev p) (T D) = (rc, u)" by fastforce
      have run: "mbr_add_partition disk name i start count s =
          (if rc \<noteq> BLOCK_SUCCESS then kbind (mbr_free_both c p u) (\<lambda>s. Inr (Some MBR_ERR_NO_SPACE, s)) else Inr (None, u))"
        using two(1,2,3,4) True r ne unfolding def by (simp add: mbr_name [OF i] T_def D_def device_all)
      show thesis
      proof (cases "rc = BLOCK_SUCCESS")
        case False
        then have u: "u = T D" using r by (auto dest: block_register_failure)
        obtain m' where m': "mbr_free_both c p (T D) = Inr (T D\<lparr>heap_mem := m'\<rparr>)" "entry_kept s (T D\<lparr>heap_mem := m'\<rparr>)"
            "heap_abs (T D\<lparr>heap_mem := m'\<rparr>) = heap_abs s" using undo [OF cD] by blast
        have rT: "reg_inv (T D)" using F(1) by (simp add: disk_inv_def)
        have rs: "reg_inv s" using inv by (simp add: disk_inv_def)
        have "usable s disk" using rs disk by (simp add: reg_inv_def)
        then have us: "usable (T D) (Heap_dev p)" by (simp add: usable_def T_def D_def dev_name_def)
        have nT: "dev_name (T D) d = dev_name s d" if "d \<in> set (registered s)" for d
          using F(4) [OF that] by (simp add: dev_view_def dev_name_def)
        have pn: "dev_name (T D) (Heap_dev p) = name @ [CHR ''p'', digit_char (i + 1)]" by (simp add: T_def D_def dev_name_def)
        have bc: "block_count (T D) = length (registered s)" "length (registered s) \<le> BLOCK_MAX_DEVICES"
          using length_registered [OF rs] rs by (simp_all add: block_count_def T_def reg_inv_def)
        have "no_room name i s"
          using block_register_iff [OF rT r] us False True bc nT unfolding F(2) pn no_room_def by (auto cong: image_cong)
        then have "no_room name i (T D\<lparr>heap_mem := m'\<rparr>)" using no_room_kept [OF m'(2,3)] by simp
        with m' run False u show thesis by (intro full [of "T D\<lparr>heap_mem := m'\<rparr>"]) simp_all
      next
        case ok: True
        have P: "is_partition (T D) disk name mbr i (Heap_dev p)" using ne e by (simp add: is_partition_def T_def D_def)
        have "object_at (T D) p 48" "object_at (T D) (bd_ctx (dev_at (T D) (Heap_dev p))) 12" "bd_ctx (dev_at (T D) (Heap_dev p)) \<noteq> 0"
          using lT(2) [of D] two(4,7,8) by (auto simp: object_at_def) (auto simp: T_def D_def)
        note E = entry_registered [OF F(1) _ P this r [unfolded ok], unfolded F(2), OF disk]
        have n: "live u - live s = {(unat p, k), (unat c, j)}" using E(4) lT(2) two(9,10) by auto
        have "dev_addrs u (Heap_dev p) = {p, c}" using dev_addrs_cong [OF E(6), of "Heap_dev p"] by (simp add: dev_addrs_def T_def D_def)
        then have "fst ` (live u - live s) \<subseteq> unat ` dev_addrs u (Heap_dev p)" by (simp add: n)
        moreover have "card (live u - live s) = 2" unfolding n using two(10) by (auto simp: card_insert_if)
        ultimately have "entry_added disk name mbr i s u"
          using E F(4) lT(2) by (auto simp: entry_added_def T_def)
        with run ok True show thesis by (intro added) simp_all
      qed
    qed
  qed
qed

text \<open>The table entries that describe a partition which the driver supports and can name.\<close>

definition mbr_primary :: "string \<Rightarrow> u8 list \<Rightarrow> nat list \<Rightarrow> nat list" where
  "mbr_primary name mbr is = (if length name \<le> 29 then filter (mbr_valid mbr) is else [])"

text \<open>What a run over the entries \<open>is\<close> leaves behind.\<close>

definition scan_result ::
    "dptr \<Rightarrow> string \<Rightarrow> u8 list \<Rightarrow> nat list \<Rightarrow> ('h, 'a) disk_state_scheme \<Rightarrow> int \<Rightarrow> ('h, 'a) disk_state_scheme \<Rightarrow> bool" where
  "scan_result disk name mbr is s rc s' \<longleftrightarrow> disk_inv s' \<and> ata s' = ata s \<and> live s \<subseteq> live s' \<and>
     (\<forall>d \<in> set (registered s). dev_view s' d = dev_view s d) \<and>
     (\<exists>ds. registered s' = registered s @ ds \<and> card (live s' - live s) = 2 * length ds \<and> finite (live s' - live s) \<and>
        fst ` (live s' - live s) \<subseteq> unat ` (\<Union>d \<in> set ds. dev_addrs s' d) \<and>
        list_all2 (\<lambda>i d. is_partition s' disk name mbr i d) (take (length ds) (mbr_primary name mbr is)) ds \<and>
        (rc = MBR_OK \<and> length ds = length (mbr_primary name mbr is) \<or>
         rc = MBR_ERR_NO_SPACE \<and> (\<exists>i \<in> set is. mbr_valid mbr i \<and> no_room name i s' \<and>
           (length name \<le> 29 \<longrightarrow> length ds < length (mbr_primary name mbr is) \<and> mbr_primary name mbr is ! length ds = i))))"

lemma mbr_entry_add: "mbr_valid mbr i \<Longrightarrow> mbr_entry disk name mbr i s =
   mbr_add_partition disk name i (mbr_read_u32_le mbr (446 + i * 16 + 8)) (mbr_read_u32_le mbr (446 + i * 16 + 12)) s"
  by (simp add: mbr_entry_def mbr_valid_def Let_def)

lemma mbr_entry_skip: "\<not> mbr_valid mbr i \<Longrightarrow> mbr_entry disk name mbr i s = Inr (None, s)"
  by (auto simp: mbr_entry_def mbr_valid_def Let_def)

lemma entry_kept_refl: "disk_inv s \<Longrightarrow> entry_kept s s"
  by (simp add: entry_kept_def)

lemma mbr_entry_result:
  fixes s :: "('h, 'a) disk_state_scheme"
  assumes inv: "disk_inv s" and disk: "disk \<in> set (registered s)" and name: "cstring name" and i: "i < 4"
  obtains (skip) s' where "mbr_entry disk name mbr i s = Inr (None, s')" "entry_kept s s'" "mbr_primary name mbr [i] = []"
  | (added) s' where "mbr_entry disk name mbr i s = Inr (None, s')" "entry_added disk name mbr i s s'" "mbr_primary name mbr [i] = [i]"
  | (full) s' where "mbr_entry disk name mbr i s = Inr (Some MBR_ERR_NO_SPACE, s')" "entry_kept s s'"
      "mbr_valid mbr i" "no_room name i s'"
proof (cases "mbr_valid mbr i")
  case True
  note run = mbr_entry_add [OF True, of disk name s]
  show thesis
    by (rule mbr_add_partition_result [OF inv disk name i refl refl, of mbr])
      (use True in \<open>auto simp: run mbr_primary_def intro: skip added full\<close>)
next
  case False
  then show thesis
    using mbr_entry_skip [OF False, of disk name s] entry_kept_refl [OF inv] by (intro skip [of s]) (simp_all add: mbr_primary_def)
qed

lemma mbr_primary_Cons: "mbr_primary name mbr (i # is) = mbr_primary name mbr [i] @ mbr_primary name mbr is"
  by (simp add: mbr_primary_def)

lemma scan_result_kept:
  assumes "entry_kept s s1" "mbr_primary name mbr [i] = []" "scan_result disk name mbr is s1 rc s'"
  shows "scan_result disk name mbr (i # is) s rc s'"
  using assms by (auto simp: scan_result_def entry_kept_def mbr_primary_Cons [of name mbr i "is"])

lemma scan_resultD:
  assumes "scan_result disk name mbr is s rc s'"
  shows "disk_inv s'" "ata s' = ata s" "live s \<subseteq> live s'" "\<forall>d \<in> set (registered s). dev_view s' d = dev_view s d"
  using assms by (simp_all add: scan_result_def)

lemma scan_result_added:
  assumes a: "entry_added disk name mbr i s s1" "mbr_primary name mbr [i] = [i]" and r: "scan_result disk name mbr is s1 rc s'"
    and disk: "disk \<in> set (registered s)"
  shows "scan_result disk name mbr (i # is) s rc s'"
proof -
  obtain d where d: "registered s1 = registered s @ [d]" "is_partition s1 disk name mbr i d" "fst ` (live s1 - live s) \<subseteq> unat ` dev_addrs s1 d"
    using a by (auto simp: entry_added_def)
  obtain ds where ds: "registered s' = registered s1 @ ds" "card (live s' - live s1) = 2 * length ds" "finite (live s' - live s1)"
    "list_all2 (\<lambda>i d. is_partition s' disk name mbr i d) (take (length ds) (mbr_primary name mbr is)) ds"
    "rc = MBR_OK \<and> length ds = length (mbr_primary name mbr is) \<or>
     rc = MBR_ERR_NO_SPACE \<and> (\<exists>i \<in> set is. mbr_valid mbr i \<and> no_room name i s' \<and>
       (length name \<le> 29 \<longrightarrow> length ds < length (mbr_primary name mbr is) \<and> mbr_primary name mbr is ! length ds = i))"
    "fst ` (live s' - live s1) \<subseteq> unat ` (\<Union>d \<in> set ds. dev_addrs s' d)"
    using r unfolding scan_result_def by (elim conjE exE) (rule that)
  note R = scan_resultD [OF r]
  have A: "disk_inv s1" "ata s1 = ata s" "live s \<subseteq> live s1" "card (live s1 - live s) = 2" "\<forall>d \<in> set (registered s). dev_view s1 d = dev_view s d"
    using a(1) by (simp_all add: entry_added_def)
  have k: "\<forall>d \<in> set (registered s1). dev_view s' d = dev_view s1 d" "live s1 \<subseteq> live s'" "live s \<subseteq> live s1"
    "card (live s1 - live s) = 2" using A R by simp_all
  have p: "is_partition s' disk name mbr i d"
    using k(1) d(1) disk by (intro is_partition_cong [OF _ _ d(2)]) auto
  have u: "live s' - live s = (live s' - live s1) \<union> (live s1 - live s)" using k by auto
  have da: "dev_addrs s' d = dev_addrs s1 d" using k(1) d(1) by (intro dev_addrs_cong) simp
  have "unat ` dev_addrs s' d \<subseteq> unat ` (\<Union>d \<in> set (d # ds). dev_addrs s' d)"
    "unat ` (\<Union>d \<in> set ds. dev_addrs s' d) \<subseteq> unat ` (\<Union>d \<in> set (d # ds). dev_addrs s' d)"
    by (intro image_mono; auto)+
  then have own: "fst ` (live s' - live s) \<subseteq> unat ` (\<Union>d \<in> set (d # ds). dev_addrs s' d)"
    unfolding u image_Un using d(3) [folded da] ds(6) by (intro Un_least) (rule order_trans, assumption, assumption)+
  note u
  moreover have "finite (live s1 - live s)" using k(4) by (auto intro: card_ge_0_finite)
  ultimately have c: "card (live s' - live s) = 2 * length (d # ds)" "finite (live s' - live s)"
    using ds(2,3) k(4) card_Un_disjoint [of "live s' - live s1" "live s1 - live s"] by auto
  have pr: "mbr_primary name mbr (i # is) = i # mbr_primary name mbr is" using a(2) by (simp add: mbr_primary_Cons [of name mbr i "is"])
  have rc: "rc = MBR_OK \<and> length (d # ds) = length (mbr_primary name mbr (i # is)) \<or>
     rc = MBR_ERR_NO_SPACE \<and> (\<exists>j \<in> set (i # is). mbr_valid mbr j \<and> no_room name j s' \<and>
       (length name \<le> 29 \<longrightarrow> length (d # ds) < length (mbr_primary name mbr (i # is)) \<and> mbr_primary name mbr (i # is) ! length (d # ds) = j))"
    using ds(5)
  proof (elim disjE conjE bexE)
    fix j assume "rc = MBR_ERR_NO_SPACE" "j \<in> set is" "mbr_valid mbr j" "no_room name j s'"
      "length name \<le> 29 \<longrightarrow> length ds < length (mbr_primary name mbr is) \<and> mbr_primary name mbr is ! length ds = j"
    then show ?thesis unfolding pr by (intro disjI2 conjI bexI [of _ j]) simp_all
  qed (simp add: pr)
  have parts: "list_all2 (\<lambda>i d. is_partition s' disk name mbr i d) (take (length (d # ds)) (mbr_primary name mbr (i # is))) (d # ds)"
    using p ds(4) by (simp add: pr)
  have "disk_inv s'" "ata s' = ata s" "live s \<subseteq> live s'" "\<forall>d \<in> set (registered s). dev_view s' d = dev_view s d"
    "registered s' = registered s @ d # ds"
    using A R d(1) ds(1) by auto
  then show ?thesis unfolding scan_result_def using c own rc parts by blast
qed

lemma scan_result_full:
  assumes "entry_kept s s'" "mbr_valid mbr i" "no_room name i s'"
  shows "scan_result disk name mbr (i # is) s MBR_ERR_NO_SPACE s'"
  using assms unfolding scan_result_def by (auto simp: entry_kept_def mbr_primary_def)

lemma mbr_entries_result:
  fixes s :: "('h, 'a) disk_state_scheme"
  assumes "disk_inv s" "disk \<in> set (registered s)" "cstring name" "set is \<subseteq> {..<4}"
  shows "\<exists>rc s'. mbr_entries disk name mbr is s = Inr (rc, s') \<and> scan_result disk name mbr is s rc s'"
  using assms
proof (induction "is" arbitrary: s)
  case Nil
  then show ?case by (auto simp: scan_result_def mbr_primary_def)
next
  case (Cons i "is")
  have i: "i < 4" "set is \<subseteq> {..<4}" using Cons.prems(4) by auto
  from Cons.prems(1,2,3) i(1) show ?case
  proof (cases rule: mbr_entry_result [where mbr = mbr])
    case (skip s1)
    then have "disk_inv s1" "disk \<in> set (registered s1)" using Cons.prems by (auto simp: entry_kept_def)
    from Cons.IH [OF this Cons.prems(3) i(2)] skip show ?thesis by (auto intro: scan_result_kept)
  next
    case (added s1)
    then have "disk_inv s1" "disk \<in> set (registered s1)" using Cons.prems by (auto simp: entry_added_def)
    from Cons.IH [OF this Cons.prems(3) i(2)] added Cons.prems(2) show ?thesis by (auto intro: scan_result_added)
  next
    case (full s1)
    then show ?thesis by (auto intro: scan_result_full)
  qed
qed

end
