(* ===== verification/Filesystems.thy ===== *)
theory Filesystems
  imports Disk_Spec
begin

text \<open>
  The file interface of \<^verbatim>\<open>src/kernel/fs/vfs.h\<close> and the three file systems behind it: NullFS
  (\<^verbatim>\<open>nullfs.c\<close>), DevFS (\<^verbatim>\<open>devfs.c\<close>) and PyFS (\<^verbatim>\<open>pyfs.c\<close>). Tables of function pointers are
  constructors of a datatype. A string argument is an optional string and a file argument an optional
  file (\<open>None\<close>: the null pointer); a data buffer is the optional list of its bytes, so that a write past
  its end would make it longer; \<^verbatim>\<open>out_read\<close> is the optional value it points to. Contexts that the
  file systems allocate are in typed stores indexed by address; the sector cache of PyFS is raw bytes of
  heap memory.
\<close>

section \<open>Interface\<close>

abbreviation VFS_OK :: int where "VFS_OK \<equiv> 0"
abbreviation VFS_ERR_INVALID_PARAM :: int where "VFS_ERR_INVALID_PARAM \<equiv> 1"
abbreviation VFS_ERR_NO_SPACE :: int where "VFS_ERR_NO_SPACE \<equiv> 2"
abbreviation VFS_ERR_NOT_FOUND :: int where "VFS_ERR_NOT_FOUND \<equiv> 3"
abbreviation VFS_ERR_NOT_SUPPORTED :: int where "VFS_ERR_NOT_SUPPORTED \<equiv> 4"
abbreviation VFS_ERR_IO :: int where "VFS_ERR_IO \<equiv> 5"
abbreviation VFS_ERR_NO_MOUNT :: int where "VFS_ERR_NO_MOUNT \<equiv> 6"
abbreviation VFS_ERR_BAD_FD :: int where "VFS_ERR_BAD_FD \<equiv> 7"

abbreviation VFS_OPEN_WRITE :: u32 where "VFS_OPEN_WRITE \<equiv> 2"

datatype file_ops = DEVFS_NULL_FILE_OPS | DEVFS_ZERO_FILE_OPS | DEVFS_BLOCK_FILE_OPS | PYFS_FILE_OPS

datatype fs_ops = NULLFS_OPS | DEVFS_OPS | PYFS_OPS

record vfs_file =
  f_ops :: "file_ops option"
  file_ctx :: u32
  f_size :: u32
  f_pos :: u32

definition empty_file :: vfs_file where
  "empty_file = \<lparr>f_ops = None, file_ctx = 0, f_size = 0, f_pos = 0\<rparr>"

record vfs_mount =
  m_used :: bool
  m_mountpoint :: string
  m_fs_name :: string
  m_ops :: "fs_ops option"
  m_ctx :: u32

record vfs_open_entry =
  o_used :: bool
  o_file :: vfs_file

record devfs_file_ctx =
  kind :: u32
  blk :: dptr

record pyfs_superblock =
  sb_magic :: u32
  sb_version :: u32
  sb_block_size :: u32
  sb_reserved0 :: u32

record pyfs_ctx =
  px_dev :: dptr
  px_sb :: pyfs_superblock

record pyfs_file_ctx =
  pf_fs :: u32
  pf_file_id :: u32
  pf_cache :: u32

record 'h vfs_state = "'h disk_state" +
  g_mounts :: "vfs_mount list"
  g_open :: "vfs_open_entry list"
  devfs_at :: "u32 \<Rightarrow> devfs_file_ctx"
  pyfs_at :: "u32 \<Rightarrow> pyfs_ctx"
  pyfs_file_at :: "u32 \<Rightarrow> pyfs_file_ctx"

type_synonym ('h, 'a) open_result = "(int \<times> vfs_file option \<times> ('h, 'a) vfs_state_scheme) kres"
type_synonym ('h, 'a) read_result = "(int \<times> u8 list option \<times> u32 option \<times> ('h, 'a) vfs_state_scheme) kres"
type_synonym ('h, 'a) close_result = "(int \<times> vfs_file option \<times> ('h, 'a) vfs_state_scheme) kres"

text \<open>Bytes stored into a buffer from an offset on.\<close>

definition buf_write :: "nat \<Rightarrow> 'b list \<Rightarrow> 'b list \<Rightarrow> 'b list" where
  "buf_write off data buf = take off buf @ data @ drop (off + length data) buf"

section \<open>NullFS\<close>

definition nullfs_open ::
    "u32 \<Rightarrow> string option \<Rightarrow> u32 \<Rightarrow> vfs_file option \<Rightarrow> ('h, 'a) vfs_state_scheme \<Rightarrow> ('h, 'a) open_result" where
  "nullfs_open fs_ctx path flags out_file s =
     (if out_file = None then Inr (VFS_ERR_INVALID_PARAM, out_file, s) else Inr (VFS_ERR_NOT_FOUND, out_file, s))"

section \<open>DevFS\<close>

abbreviation DEVFS_KIND_NULL :: u32 where "DEVFS_KIND_NULL \<equiv> 0"
abbreviation DEVFS_KIND_ZERO :: u32 where "DEVFS_KIND_ZERO \<equiv> 1"
abbreviation DEVFS_KIND_BLOCK :: u32 where "DEVFS_KIND_BLOCK \<equiv> 2"

definition devfs_read_null ::
    "vfs_file option \<Rightarrow> u32 \<Rightarrow> u8 list option \<Rightarrow> u32 \<Rightarrow> u32 option \<Rightarrow> ('h, 'a) vfs_state_scheme \<Rightarrow> ('h, 'a) read_result" where
  "devfs_read_null file offset buffer sz out_read s =
     (if out_read = None then Inr (VFS_ERR_INVALID_PARAM, buffer, out_read, s)
      else Inr (VFS_OK, buffer, Some 0, s))"

definition devfs_read_zero ::
    "vfs_file option \<Rightarrow> u32 \<Rightarrow> u8 list option \<Rightarrow> u32 \<Rightarrow> u32 option \<Rightarrow> ('h, 'a) vfs_state_scheme \<Rightarrow> ('h, 'a) read_result" where
  "devfs_read_zero file offset buffer sz out_read s =
     (if buffer = None \<and> sz > 0 then Inr (VFS_ERR_INVALID_PARAM, buffer, out_read, s)
      else if out_read = None then Inr (VFS_ERR_INVALID_PARAM, buffer, out_read, s)
      else Inr (VFS_OK, map_option (buf_write 0 (replicate (unat sz) 0)) buffer, Some sz, s))"

text \<open>The loop over the sectors, from sector \<open>i\<close> on, with the number of sectors left.\<close>

fun devfs_read_sectors ::
    "'h bus \<Rightarrow> dptr \<Rightarrow> u32 \<Rightarrow> u32 \<Rightarrow> u32 \<Rightarrow> nat \<Rightarrow> u8 list \<Rightarrow> ('h, 'a) vfs_state_scheme \<Rightarrow> (int \<times> u32 \<times> u8 list \<times> ('h, 'a) vfs_state_scheme) kres" where
  "devfs_read_sectors B dev sector_size lba i 0 buf s = Inr (VFS_OK, 0, buf, s)"
| "devfs_read_sectors B dev sector_size lba i (Suc n) buf s =
     (case dev_read B dev (lba + i) True s of
        None \<Rightarrow> Inl Hang
      | Some (rc, data, s) \<Rightarrow>
          let buf = buf_write (unat (i * sector_size)) data buf in
          if rc \<noteq> BLOCK_SUCCESS then Inr (VFS_ERR_IO, i * sector_size, buf, s)
          else devfs_read_sectors B dev sector_size lba (i + 1) n buf s)"

definition devfs_read_block ::
    "'h bus \<Rightarrow> vfs_file option \<Rightarrow> u32 \<Rightarrow> u8 list option \<Rightarrow> u32 \<Rightarrow> u32 option \<Rightarrow> ('h, 'a) vfs_state_scheme \<Rightarrow> ('h, 'a) read_result" where
  "devfs_read_block B file offset buffer sz out_read s =
     (case (file, buffer, out_read) of
        (Some f, Some buf, Some r) \<Rightarrow>
          let ctx = devfs_at s (file_ctx f) in
          if file_ctx f = 0 \<or> kind ctx \<noteq> DEVFS_KIND_BLOCK \<or> blk ctx = Null_dev then Inr (VFS_ERR_IO, buffer, out_read, s)
          else if bd_read (dev_at s (blk ctx)) = No_read then Inr (VFS_ERR_IO, buffer, out_read, s)
          else let sector_size = bd_sector_size (dev_at s (blk ctx)) in
            if sector_size = 0 then Inl (Panic ''Divide By Zero'')
            else if offset mod sector_size \<noteq> 0 then Inr (VFS_ERR_NOT_SUPPORTED, buffer, out_read, s)
            else if sz mod sector_size \<noteq> 0 then Inr (VFS_ERR_NOT_SUPPORTED, buffer, out_read, s)
            else
              let sectors = sz div sector_size; lba = offset div sector_size in
              kbind (devfs_read_sectors B (blk ctx) sector_size lba 0 (unat sectors) buf s) (\<lambda>(rc, done, buf, s).
                if rc \<noteq> VFS_OK then Inr (rc, Some buf, Some done, s) else Inr (VFS_OK, Some buf, Some sz, s))
      | _ \<Rightarrow> Inr (VFS_ERR_INVALID_PARAM, buffer, out_read, s))"

definition devfs_close :: "vfs_file option \<Rightarrow> ('h, 'a) vfs_state_scheme \<Rightarrow> ('h, 'a) close_result" where
  "devfs_close file s =
     (case file of None \<Rightarrow> Inr (VFS_ERR_INVALID_PARAM, None, s)
      | Some f \<Rightarrow> kbind (if file_ctx f \<noteq> 0 then kfree (file_ctx f) s else Inr s) (\<lambda>s.
          Inr (VFS_OK, Some (f\<lparr>file_ctx := 0, f_ops := None, f_size := 0, f_pos := 0\<rparr>), s)))"

text \<open>The common tail of the three branches of \<^verbatim>\<open>devfs_open\<close>.\<close>

definition devfs_new_file ::
    "u32 \<Rightarrow> dptr \<Rightarrow> file_ops \<Rightarrow> vfs_file \<Rightarrow> ('h, 'a) vfs_state_scheme \<Rightarrow> ('h, 'a) open_result" where
  "devfs_new_file k b fops f s =
     kbind (kmalloc 8 s) (\<lambda>(ctx, s).
       if ctx = 0 then Inr (VFS_ERR_NO_SPACE, Some f, s)
       else Inr (VFS_OK, Some (f\<lparr>f_ops := Some fops, file_ctx := ctx, f_size := 0, f_pos := 0\<rparr>),
              s\<lparr>devfs_at := (devfs_at s)(ctx := \<lparr>kind = k, blk = b\<rparr>)\<rparr>))"

definition devfs_open ::
    "u32 \<Rightarrow> string option \<Rightarrow> u32 \<Rightarrow> vfs_file option \<Rightarrow> ('h, 'a) vfs_state_scheme \<Rightarrow> ('h, 'a) open_result" where
  "devfs_open fs_ctx path flags out_file s =
     (case (path, out_file) of
        (Some p, Some f) \<Rightarrow>
          if flags AND VFS_OPEN_WRITE \<noteq> 0 then Inr (VFS_ERR_NOT_SUPPORTED, out_file, s)
          else if strcmp p ''null'' = 0 then devfs_new_file DEVFS_KIND_NULL Null_dev DEVFS_NULL_FILE_OPS f s
          else if strcmp p ''zero'' = 0 then devfs_new_file DEVFS_KIND_ZERO Null_dev DEVFS_ZERO_FILE_OPS f s
          else if strncmp p ''disk'' 4 = 0 then
            let dev = block_get_by_name (Some p) s in
            if dev = Null_dev then Inr (VFS_ERR_NOT_FOUND, out_file, s)
            else devfs_new_file DEVFS_KIND_BLOCK dev DEVFS_BLOCK_FILE_OPS f s
          else Inr (VFS_ERR_NOT_FOUND, out_file, s)
      | _ \<Rightarrow> Inr (VFS_ERR_INVALID_PARAM, out_file, s))"

section \<open>PyFS\<close>

abbreviation PYFS_MAGIC :: u32 where "PYFS_MAGIC \<equiv> 0x53465950"
abbreviation PYFS_BLOCK_SIZE :: u32 where "PYFS_BLOCK_SIZE \<equiv> 512"
abbreviation PYFS_ERR_INVALID_PARAM :: int where "PYFS_ERR_INVALID_PARAM \<equiv> 1"
abbreviation PYFS_ERR_IO :: int where "PYFS_ERR_IO \<equiv> 2"
abbreviation PYFS_ERR_BAD_SUPERBLOCK :: int where "PYFS_ERR_BAD_SUPERBLOCK \<equiv> 3"
abbreviation PYFS_ERR_NO_SPACE :: int where "PYFS_ERR_NO_SPACE \<equiv> 4"
abbreviation PYFS_FILE_SUPERBLOCK :: u32 where "PYFS_FILE_SUPERBLOCK \<equiv> 1"

definition u32_at :: "u8 list \<Rightarrow> nat \<Rightarrow> u32" where
  "u32_at p i = ucast (p ! i) OR push_bit 8 (ucast (p ! (i + 1)))
     OR push_bit 16 (ucast (p ! (i + 2))) OR push_bit 24 (ucast (p ! (i + 3)))"

definition superblock_of :: "u8 list \<Rightarrow> pyfs_superblock" where
  "superblock_of sector = \<lparr>sb_magic = u32_at sector 0, sb_version = u32_at sector 4,
     sb_block_size = u32_at sector 8, sb_reserved0 = u32_at sector 12\<rparr>"

definition pyfs_read_superblock ::
    "'h bus \<Rightarrow> u32 \<Rightarrow> ('h, 'a) vfs_state_scheme \<Rightarrow> (int \<times> u8 list \<times> ('h, 'a) vfs_state_scheme) kres" where
  "pyfs_read_superblock B fs s =
     (if fs = 0 \<or> px_dev (pyfs_at s fs) = Null_dev \<or> bd_read (dev_at s (px_dev (pyfs_at s fs))) = No_read
      then Inr (PYFS_ERR_INVALID_PARAM, [], s)
      else case dev_read B (px_dev (pyfs_at s fs)) 0 True s of
        None \<Rightarrow> Inl Hang
      | Some (rc, data, s) \<Rightarrow> if rc \<noteq> BLOCK_SUCCESS then Inr (PYFS_ERR_IO, data, s) else Inr (0, data, s))"

definition pyfs_probe :: "'h bus \<Rightarrow> u32 \<Rightarrow> ('h, 'a) vfs_state_scheme \<Rightarrow> (int \<times> ('h, 'a) vfs_state_scheme) kres" where
  "pyfs_probe B fs s =
     kbind (pyfs_read_superblock B fs s) (\<lambda>(rc, sector, s).
       if rc \<noteq> 0 then Inr (rc, s)
       else let sb = superblock_of sector in
         if sb_magic sb \<noteq> PYFS_MAGIC then Inr (PYFS_ERR_BAD_SUPERBLOCK, s)
         else if sb_version sb \<noteq> 1 then Inr (PYFS_ERR_BAD_SUPERBLOCK, s)
         else if sb_block_size sb \<noteq> PYFS_BLOCK_SIZE then Inr (PYFS_ERR_BAD_SUPERBLOCK, s)
         else Inr (0, s\<lparr>pyfs_at := (pyfs_at s)(fs := (pyfs_at s fs)\<lparr>px_sb := sb\<rparr>)\<rparr>))"

text \<open>Returns the code and the context stored through \<^verbatim>\<open>out_ctx\<close> (\<open>None\<close>: nothing stored).\<close>

definition pyfs_create ::
    "'h bus \<Rightarrow> dptr \<Rightarrow> bool \<Rightarrow> ('h, 'a) vfs_state_scheme \<Rightarrow> (int \<times> u32 option \<times> ('h, 'a) vfs_state_scheme) kres" where
  "pyfs_create B dev out_ctx s =
     (if dev = Null_dev \<or> \<not> out_ctx then Inr (PYFS_ERR_INVALID_PARAM, None, s)
      else kbind (kmalloc 20 s) (\<lambda>(ctx, s).
        if ctx = 0 then Inr (PYFS_ERR_NO_SPACE, None, s)
        else
          let s = s\<lparr>pyfs_at := (pyfs_at s)(ctx := \<lparr>px_dev = dev,
                px_sb = \<lparr>sb_magic = 0, sb_version = 0, sb_block_size = 0, sb_reserved0 = 0\<rparr>\<rparr>)\<rparr>
          in kbind (pyfs_probe B ctx s) (\<lambda>(rc, s).
            if rc \<noteq> 0 then kbind (kfree ctx s) (\<lambda>s. Inr (rc, None, s))
            else Inr (0, Some ctx, s))))"

definition pyfs_destroy :: "u32 \<Rightarrow> ('h, 'a) vfs_state_scheme \<Rightarrow> ('h, 'a) vfs_state_scheme kres" where
  "pyfs_destroy ctx s = (if ctx = 0 then Inr s else kfree ctx s)"

text \<open>Bytes stored into and read from heap memory.\<close>

fun heap_store :: "u32 \<Rightarrow> u8 list \<Rightarrow> mem \<Rightarrow> mem" where
  "heap_store p [] m = m"
| "heap_store p (b # bs) m = heap_store (p + 1) bs (m(p := b))"

definition heap_bytes :: "mem \<Rightarrow> u32 \<Rightarrow> nat \<Rightarrow> u8 list" where
  "heap_bytes m p n = map (\<lambda>i. m (p + of_nat i)) [0..<n]"

definition set_pf_cache :: "u32 \<Rightarrow> u32 \<Rightarrow> ('h, 'a) vfs_state_scheme \<Rightarrow> ('h, 'a) vfs_state_scheme" where
  "set_pf_cache fctx c s = s\<lparr>pyfs_file_at := (pyfs_file_at s)(fctx := (pyfs_file_at s fctx)\<lparr>pf_cache := c\<rparr>)\<rparr>"

text \<open>The lazy allocation of the cache: an error code and the new state.\<close>

definition pyfs_fill_cache ::
    "'h bus \<Rightarrow> u32 \<Rightarrow> ('h, 'a) vfs_state_scheme \<Rightarrow> (int \<times> ('h, 'a) vfs_state_scheme) kres" where
  "pyfs_fill_cache B fctx s =
     (if pf_cache (pyfs_file_at s fctx) \<noteq> 0 then Inr (VFS_OK, s)
      else kbind (kmalloc PYFS_BLOCK_SIZE s) (\<lambda>(c, s).
        let s = set_pf_cache fctx c s in
        if c = 0 then Inr (VFS_ERR_NO_SPACE, s)
        else case dev_read B (px_dev (pyfs_at s (pf_fs (pyfs_file_at s fctx)))) 0 True s of
          None \<Rightarrow> Inl Hang
        | Some (rc, data, s) \<Rightarrow>
            let s = s\<lparr>heap_mem := heap_store c data (heap_mem s)\<rparr> in
            if rc \<noteq> BLOCK_SUCCESS then Inr (VFS_ERR_IO, s) else Inr (VFS_OK, s)))"

definition pyfs_file_read ::
    "'h bus \<Rightarrow> vfs_file option \<Rightarrow> u32 \<Rightarrow> u8 list option \<Rightarrow> u32 \<Rightarrow> u32 option \<Rightarrow> ('h, 'a) vfs_state_scheme \<Rightarrow> ('h, 'a) read_result" where
  "pyfs_file_read B file offset buffer sz out_read s =
     (case (file, buffer, out_read) of
        (Some f, Some buf, Some r) \<Rightarrow>
          let fctx = file_ctx f in
          if fctx = 0 \<or> pf_fs (pyfs_file_at s fctx) = 0 then Inr (VFS_ERR_IO, buffer, out_read, s)
          else if pf_file_id (pyfs_file_at s fctx) \<noteq> PYFS_FILE_SUPERBLOCK then Inr (VFS_ERR_NOT_FOUND, buffer, out_read, s)
          else kbind (pyfs_fill_cache B fctx s) (\<lambda>(rc, s).
            if rc \<noteq> VFS_OK then Inr (rc, buffer, out_read, s)
            else if offset \<ge> PYFS_BLOCK_SIZE then Inr (VFS_OK, buffer, Some 0, s)
            else
              let remaining = PYFS_BLOCK_SIZE - offset;
                  to_copy = (if sz < remaining then sz else remaining)
              in Inr (VFS_OK, Some (buf_write 0 (heap_bytes (heap_mem s) (pf_cache (pyfs_file_at s fctx) + offset) (unat to_copy)) buf),
                   Some to_copy, s))
      | _ \<Rightarrow> Inr (VFS_ERR_INVALID_PARAM, buffer, out_read, s))"

definition pyfs_file_close :: "vfs_file option \<Rightarrow> ('h, 'a) vfs_state_scheme \<Rightarrow> ('h, 'a) close_result" where
  "pyfs_file_close file s =
     (case file of None \<Rightarrow> Inr (VFS_ERR_INVALID_PARAM, None, s)
      | Some f \<Rightarrow>
          let fctx = file_ctx f in
          kbind (if fctx \<noteq> 0 then
                   kbind (if pf_cache (pyfs_file_at s fctx) \<noteq> 0 then kfree (pf_cache (pyfs_file_at s fctx)) s else Inr s) (kfree fctx)
                 else Inr s) (\<lambda>s.
            Inr (VFS_OK, Some (f\<lparr>file_ctx := 0, f_ops := None, f_size := 0, f_pos := 0\<rparr>), s)))"

definition pyfs_open ::
    "u32 \<Rightarrow> string option \<Rightarrow> u32 \<Rightarrow> vfs_file option \<Rightarrow> ('h, 'a) vfs_state_scheme \<Rightarrow> ('h, 'a) open_result" where
  "pyfs_open fs_ctx path flags out_file s =
     (case (path, out_file) of
        (Some p, Some f) \<Rightarrow>
          if fs_ctx = 0 then Inr (VFS_ERR_INVALID_PARAM, out_file, s)
          else if flags AND VFS_OPEN_WRITE \<noteq> 0 then Inr (VFS_ERR_NOT_SUPPORTED, out_file, s)
          else if strcmp p ''superblock'' \<noteq> 0 then Inr (VFS_ERR_NOT_FOUND, out_file, s)
          else kbind (kmalloc 12 s) (\<lambda>(fctx, s).
            if fctx = 0 then Inr (VFS_ERR_NO_SPACE, out_file, s)
            else Inr (VFS_OK, Some (f\<lparr>f_ops := Some PYFS_FILE_OPS, file_ctx := fctx, f_pos := 0, f_size := PYFS_BLOCK_SIZE\<rparr>),
                   s\<lparr>pyfs_file_at := (pyfs_file_at s)(fctx := \<lparr>pf_fs = fs_ctx, pf_file_id = PYFS_FILE_SUPERBLOCK, pf_cache = 0\<rparr>)\<rparr>))
      | _ \<Rightarrow> Inr (VFS_ERR_INVALID_PARAM, out_file, s))"

end
