(* ===== verification/VFS.thy ===== *)
theory VFS
  imports Filesystems
begin

text \<open>
  The virtual file system switch (\<^verbatim>\<open>src/kernel/fs/vfs.c\<close>): the mount table, the choice of the mount
  with the longest matching mountpoint, and the table of open files. Calls through the tables of
  function pointers go to the three file systems.
\<close>

section \<open>Model\<close>

abbreviation VFS_MAX_MOUNTS :: nat where "VFS_MAX_MOUNTS \<equiv> 8"
abbreviation VFS_MAX_OPEN_FILES :: nat where "VFS_MAX_OPEN_FILES \<equiv> 32"
abbreviation VFS_MOUNTPOINT_MAX :: nat where "VFS_MOUNTPOINT_MAX \<equiv> 32"
abbreviation VFS_FSNAME_MAX :: nat where "VFS_FSNAME_MAX \<equiv> 16"

abbreviation SLASH :: char where "SLASH \<equiv> CHR 0x2F"

text \<open>The calls through \<^verbatim>\<open>VfsFsOps\<close> and \<^verbatim>\<open>VfsFileOps\<close>.\<close>

fun fs_open ::
    "fs_ops \<Rightarrow> u32 \<Rightarrow> string option \<Rightarrow> u32 \<Rightarrow> vfs_file option \<Rightarrow> ('h, 'a) vfs_state_scheme \<Rightarrow> ('h, 'a) open_result" where
  "fs_open NULLFS_OPS = nullfs_open"
| "fs_open DEVFS_OPS = devfs_open"
| "fs_open PYFS_OPS = pyfs_open"

fun file_read ::
    "'h bus \<Rightarrow> file_ops \<Rightarrow> vfs_file option \<Rightarrow> u32 \<Rightarrow> u8 list option \<Rightarrow> u32 \<Rightarrow> u32 option \<Rightarrow> ('h, 'a) vfs_state_scheme \<Rightarrow> ('h, 'a) read_result" where
  "file_read B DEVFS_NULL_FILE_OPS = devfs_read_null"
| "file_read B DEVFS_ZERO_FILE_OPS = devfs_read_zero"
| "file_read B DEVFS_BLOCK_FILE_OPS = devfs_read_block B"
| "file_read B PYFS_FILE_OPS = pyfs_file_read B"

fun file_close :: "file_ops \<Rightarrow> vfs_file option \<Rightarrow> ('h, 'a) vfs_state_scheme \<Rightarrow> ('h, 'a) close_result" where
  "file_close PYFS_FILE_OPS = pyfs_file_close"
| "file_close DEVFS_NULL_FILE_OPS = devfs_close"
| "file_close DEVFS_ZERO_FILE_OPS = devfs_close"
| "file_close DEVFS_BLOCK_FILE_OPS = devfs_close"

fun vfs_strnlen_loop :: "string \<Rightarrow> nat \<Rightarrow> nat \<Rightarrow> nat" where
  "vfs_strnlen_loop s i 0 = i"
| "vfs_strnlen_loop [] i (Suc n) = i"
| "vfs_strnlen_loop (c # cs) i (Suc n) = vfs_strnlen_loop cs (i + 1) n"

definition vfs_strnlen :: "string option \<Rightarrow> nat \<Rightarrow> nat" where
  "vfs_strnlen s max_len = (case s of None \<Rightarrow> 0 | Some cs \<Rightarrow> vfs_strnlen_loop cs 0 max_len)"

text \<open>The code and the new contents of the destination.\<close>

definition vfs_strlcpy :: "string \<Rightarrow> nat \<Rightarrow> string option \<Rightarrow> int \<times> string" where
  "vfs_strlcpy dst dst_size src =
     (case src of None \<Rightarrow> (VFS_ERR_INVALID_PARAM, dst)
      | Some cs \<Rightarrow>
          if dst_size = 0 then (VFS_ERR_INVALID_PARAM, dst)
          else let n = vfs_strnlen src dst_size in
            if n \<ge> dst_size then (VFS_ERR_NO_SPACE, dst) else (VFS_OK, take n cs))"

definition vfs_mountpoint_matches :: "string option \<Rightarrow> string option \<Rightarrow> bool" where
  "vfs_mountpoint_matches mountpoint path =
     (case (mountpoint, path) of
        (Some m, Some p) \<Rightarrow>
          if m = [SLASH] then p \<noteq> [] \<and> hd p = SLASH
          else let mlen = length m in
            if mlen = 0 then False
            else if strncmp p m mlen \<noteq> 0 then False
            else if length p = mlen then True
            else p ! mlen = SLASH
      | _ \<Rightarrow> False)"

text \<open>The search loop: index and length of the best mount so far (-1 for none).\<close>

fun vfs_best_mount :: "vfs_mount list \<Rightarrow> string \<Rightarrow> int \<Rightarrow> int \<times> nat \<Rightarrow> int \<times> nat" where
  "vfs_best_mount [] path i best = best"
| "vfs_best_mount (m # ms) path i best =
     vfs_best_mount ms path (i + 1)
       (if \<not> m_used m then best
        else if \<not> vfs_mountpoint_matches (Some (m_mountpoint m)) (Some path) then best
        else let mlen = length (m_mountpoint m) in if mlen > snd best then (i, mlen) else best)"

definition vfs_find_mount :: "string option \<Rightarrow> ('h, 'a) vfs_state_scheme \<Rightarrow> int \<times> nat \<times> string" where
  "vfs_find_mount path s =
     (case path of None \<Rightarrow> (VFS_ERR_INVALID_PARAM, 0, [])
      | Some p \<Rightarrow>
          if p = [] \<or> hd p \<noteq> SLASH then (VFS_ERR_INVALID_PARAM, 0, [])
          else let (best, best_len) = vfs_best_mount (g_mounts s) p 0 (- 1, 0) in
            if best < 0 then (VFS_ERR_NO_MOUNT, 0, [])
            else
              let rel = (if best_len = 1 then drop 1 p
                         else let rel = drop best_len p in
                           if rel \<noteq> [] \<and> hd rel = SLASH then tl rel else rel)
              in (VFS_OK, nat best, rel))"

definition vfs_init :: "('h, 'a) vfs_state_scheme \<Rightarrow> ('h, 'a) vfs_state_scheme" where
  "vfs_init s =
     s\<lparr>g_mounts := map (\<lambda>m. m\<lparr>m_used := False, m_ops := None, m_ctx := 0, m_mountpoint := [], m_fs_name := []\<rparr>) (g_mounts s),
       g_open := map (\<lambda>e. e\<lparr>o_used := False, o_file := (o_file e)\<lparr>f_ops := None, file_ctx := 0, f_size := 0, f_pos := 0\<rparr>\<rparr>) (g_open s)\<rparr>"

text \<open>
  The two loops of \<^verbatim>\<open>vfs_mount\<close>: the test for a mount in use at the same mountpoint, and the first
  slot that is not in use, with what is stored there.
\<close>

definition vfs_is_mounted :: "string \<Rightarrow> ('h, 'a) vfs_state_scheme \<Rightarrow> bool" where
  "vfs_is_mounted mp s \<longleftrightarrow>
     list_ex (\<lambda>i. m_used (g_mounts s ! i) \<and> strcmp (m_mountpoint (g_mounts s ! i)) mp = 0) [0..<VFS_MAX_MOUNTS]"

definition vfs_fill_mount ::
    "string option \<Rightarrow> string option \<Rightarrow> fs_ops option \<Rightarrow> u32 \<Rightarrow> nat \<Rightarrow> ('h, 'a) vfs_state_scheme \<Rightarrow> int \<times> ('h, 'a) vfs_state_scheme" where
  "vfs_fill_mount mountpoint fs_name ops fs_ctx i s =
     (let (rc, dst) = vfs_strlcpy (m_mountpoint (g_mounts s ! i)) VFS_MOUNTPOINT_MAX mountpoint;
          s = s\<lparr>g_mounts := (g_mounts s)[i := (g_mounts s ! i)\<lparr>m_mountpoint := dst\<rparr>]\<rparr>
      in if rc \<noteq> VFS_OK then (rc, s)
      else
        let (rc, dst) = vfs_strlcpy (m_fs_name (g_mounts s ! i)) VFS_FSNAME_MAX fs_name;
            s = s\<lparr>g_mounts := (g_mounts s)[i := (g_mounts s ! i)\<lparr>m_fs_name := dst\<rparr>]\<rparr>
        in if rc \<noteq> VFS_OK then (rc, s)
        else (VFS_OK, s\<lparr>g_mounts := (g_mounts s)[i := (g_mounts s ! i)\<lparr>m_ops := ops, m_ctx := fs_ctx, m_used := True\<rparr>]\<rparr>))"

definition vfs_mount ::
    "string option \<Rightarrow> string option \<Rightarrow> fs_ops option \<Rightarrow> u32 \<Rightarrow> ('h, 'a) vfs_state_scheme \<Rightarrow> int \<times> ('h, 'a) vfs_state_scheme" where
  "vfs_mount mountpoint fs_name ops fs_ctx s =
     (case (mountpoint, fs_name, ops) of
        (Some mp, Some fn, Some fo) \<Rightarrow>
          if mp = [] \<or> hd mp \<noteq> SLASH then (VFS_ERR_INVALID_PARAM, s)
          else if vfs_is_mounted mp s then (VFS_ERR_INVALID_PARAM, s)
          else (case find (\<lambda>i. \<not> m_used (g_mounts s ! i)) [0..<VFS_MAX_MOUNTS] of
              None \<Rightarrow> (VFS_ERR_NO_SPACE, s)
            | Some i \<Rightarrow> vfs_fill_mount mountpoint fs_name ops fs_ctx i s)
      | _ \<Rightarrow> (VFS_ERR_INVALID_PARAM, s))"

definition vfs_mount_count :: "('h, 'a) vfs_state_scheme \<Rightarrow> nat" where
  "vfs_mount_count s = length (filter m_used (g_mounts s))"

fun vfs_nth_used :: "vfs_mount list \<Rightarrow> nat \<Rightarrow> nat \<Rightarrow> vfs_mount option" where
  "vfs_nth_used [] n index = None"
| "vfs_nth_used (m # ms) n index =
     (if \<not> m_used m then vfs_nth_used ms n index
      else if n = index then Some m else vfs_nth_used ms (n + 1) index)"

definition vfs_mountpoint :: "nat \<Rightarrow> ('h, 'a) vfs_state_scheme \<Rightarrow> string option" where
  "vfs_mountpoint index s = map_option m_mountpoint (vfs_nth_used (g_mounts s) 0 index)"

definition vfs_fs_name :: "nat \<Rightarrow> ('h, 'a) vfs_state_scheme \<Rightarrow> string option" where
  "vfs_fs_name index s = map_option m_fs_name (vfs_nth_used (g_mounts s) 0 index)"

text \<open>
  The result is the code and the value stored through \<^verbatim>\<open>out_fd\<close> (\<open>None\<close>: nothing stored).
\<close>

definition vfs_open ::
    "string option \<Rightarrow> u32 \<Rightarrow> bool \<Rightarrow> ('h, 'a) vfs_state_scheme \<Rightarrow> (int \<times> nat option \<times> ('h, 'a) vfs_state_scheme) kres" where
  "vfs_open path flags out_fd s =
     (if path = None \<or> \<not> out_fd then Inr (VFS_ERR_INVALID_PARAM, None, s)
      else let (rc, mount_index, rel) = vfs_find_mount path s in
        if rc \<noteq> VFS_OK then Inr (rc, None, s)
        else case find (\<lambda>i. \<not> o_used (g_open s ! i)) [0..<VFS_MAX_OPEN_FILES] of
          None \<Rightarrow> Inr (VFS_ERR_NO_SPACE, None, s)
        | Some fd \<Rightarrow>
            (case m_ops (g_mounts s ! mount_index) of
               None \<Rightarrow> Inl Hang
             | Some fo \<Rightarrow>
                 kbind (fs_open fo (m_ctx (g_mounts s ! mount_index)) (Some rel) flags (Some empty_file) s) (\<lambda>(rc, tmp, s).
                   if rc \<noteq> VFS_OK then Inr (rc, None, s)
                   else case tmp of
                     None \<Rightarrow> Inr (VFS_ERR_IO, None, s)
                   | Some f \<Rightarrow>
                       if f_ops f = None then Inr (VFS_ERR_IO, None, s)
                       else Inr (VFS_OK, Some fd, s\<lparr>g_open := (g_open s)[fd := \<lparr>o_used = True, o_file = f\<lparr>f_pos := 0\<rparr>\<rparr>]\<rparr>))))"

definition vfs_read ::
    "'h bus \<Rightarrow> nat \<Rightarrow> u8 list option \<Rightarrow> u32 \<Rightarrow> u32 option \<Rightarrow> ('h, 'a) vfs_state_scheme \<Rightarrow> ('h, 'a) read_result" where
  "vfs_read B fd buffer sz out_read s =
     (if fd \<ge> VFS_MAX_OPEN_FILES then Inr (VFS_ERR_BAD_FD, buffer, out_read, s)
      else if \<not> o_used (g_open s ! fd) then Inr (VFS_ERR_BAD_FD, buffer, out_read, s)
      else if sz > 0 \<and> buffer = None then Inr (VFS_ERR_INVALID_PARAM, buffer, out_read, s)
      else
        let f = o_file (g_open s ! fd);
            store = (\<lambda>v. if out_read = None then None else Some v)
        in case f_ops f of
             None \<Rightarrow> Inr (VFS_ERR_NOT_SUPPORTED, buffer, store 0, s)
           | Some ops \<Rightarrow>
               kbind (file_read B ops (Some f) (f_pos f) buffer sz (Some 0) s) (\<lambda>(rc, buffer, r, s).
                 let n = (case r of None \<Rightarrow> 0 | Some n \<Rightarrow> n) in
                 if rc \<noteq> VFS_OK then Inr (rc, buffer, store n, s)
                 else if n > sz then Inr (VFS_ERR_IO, buffer, store n, s)
                 else
                   let f = o_file (g_open s ! fd);
                       s = s\<lparr>g_open := (g_open s)[fd := (g_open s ! fd)\<lparr>o_file := f\<lparr>f_pos := f_pos f + n\<rparr>\<rparr>]\<rparr>
                   in Inr (VFS_OK, buffer, store n, s)))"

definition vfs_close :: "nat \<Rightarrow> ('h, 'a) vfs_state_scheme \<Rightarrow> (int \<times> ('h, 'a) vfs_state_scheme) kres" where
  "vfs_close fd s =
     (if fd \<ge> VFS_MAX_OPEN_FILES then Inr (VFS_ERR_BAD_FD, s)
      else if \<not> o_used (g_open s ! fd) then Inr (VFS_ERR_BAD_FD, s)
      else
        let f = o_file (g_open s ! fd) in
        kbind (case f_ops f of
                 None \<Rightarrow> Inr (VFS_OK, Some f, s)
               | Some ops \<Rightarrow> file_close ops (Some f) s) (\<lambda>(rc, _, s).
          Inr (rc, s\<lparr>g_open := (g_open s)[fd := \<lparr>o_used = False, o_file = empty_file\<rparr>]\<rparr>)))"

end
