(* ===== verification/Keyboard.thy ===== *)
theory Keyboard
  imports Kernel_Prelude "HOL-Library.Char_ord"
begin

text \<open>
  The keyboard driver (\<^verbatim>\<open>src/kernel/drivers/keyboard.c\<close>): scancode translation in the interrupt
  handler and the ring buffer between the handler and its readers. The interrupt flag is part of the
  state. A blocked reader is modelled against the sequence of scancode batches that the interrupts
  deliver while the processor is halted.
\<close>

section \<open>Model\<close>

abbreviation KB_BUFFER_SIZE :: nat where
  "KB_BUFFER_SIZE \<equiv> 256"

record kb_state =
  kb_buffer :: "char list"
  write_ptr :: u16
  read_ptr :: u16
  shift_pressed :: bool
  caps_lock :: bool
  int_flag :: bool

abbreviation NUL_CHAR :: char where
  "NUL_CHAR \<equiv> CHR 0x00"

definition scancode_set1 :: "char list" where
  "scancode_set1 =
     [NUL_CHAR, CHR 0x1B] @ ''1234567890-='' @ [CHR 0x08, CHR 0x09] @ ''qwertyuiop[]'' @ [CHR 0x0A] @
     [NUL_CHAR] @ ''asdfghjkl;'' @ [CHR 0x27] @ [CHR 0x60] @
     [NUL_CHAR, CHR 0x5C] @ ''zxcvbnm,./'' @ [NUL_CHAR] @
     ''*'' @ [NUL_CHAR] @ '' ''"

definition scancode_set1_shifted :: "char list" where
  "scancode_set1_shifted =
     [NUL_CHAR, CHR 0x1B] @ ''!@#$%^&*()_+'' @ [CHR 0x08, CHR 0x09] @ ''QWERTYUIOP{}'' @ [CHR 0x0A] @
     [NUL_CHAR] @ ''ASDFGHJKL:'' @ [CHR 0x22] @ ''~'' @
     [NUL_CHAR] @ ''|ZXCVBNM<>?'' @ [NUL_CHAR] @
     ''*'' @ [NUL_CHAR] @ '' ''"

definition keyboard_init :: "kb_state \<Rightarrow> kb_state" where
  "keyboard_init s = s\<lparr>shift_pressed := False, caps_lock := False, write_ptr := 0, read_ptr := 0\<rparr>"

definition buffer_write :: "char \<Rightarrow> kb_state \<Rightarrow> kb_state" where
  "buffer_write c s =
     (let next = (write_ptr s + 1) mod 256 in
      if next \<noteq> read_ptr s
      then s\<lparr>kb_buffer := (kb_buffer s)[unat (write_ptr s) := c], write_ptr := next\<rparr>
      else s)"

definition keyboard_try_get_char :: "kb_state \<Rightarrow> char \<times> kb_state" where
  "keyboard_try_get_char s =
     (if read_ptr s = write_ptr s then (NUL_CHAR, s)
      else (kb_buffer s ! unat (read_ptr s), s\<lparr>read_ptr := (read_ptr s + 1) mod 256\<rparr>))"

definition keyboard_handler :: "u8 \<Rightarrow> kb_state \<Rightarrow> kb_state" where
  "keyboard_handler scancode s =
     (if scancode = 0x2A \<or> scancode = 0x36 then s\<lparr>shift_pressed := True\<rparr>
      else if scancode = 0xAA \<or> scancode = 0xB6 then s\<lparr>shift_pressed := False\<rparr>
      else if scancode = 0x3A then s\<lparr>caps_lock := \<not> caps_lock s\<rparr>
      else if scancode < 0x80 then
        if scancode < 58 then
          let use_upper = shift_pressed s;
              base = scancode_set1 ! unat scancode;
              use_upper = (if caps_lock s \<and> CHR ''a'' \<le> base \<and> base \<le> CHR ''z'' then \<not> use_upper else use_upper);
              ascii = (if use_upper then scancode_set1_shifted ! unat scancode else scancode_set1 ! unat scancode)
          in if ascii \<noteq> NUL_CHAR then buffer_write ascii s else s
        else s
      else s)"

text \<open>
  The blocking read: one recursive call per turn of the loop. \<^verbatim>\<open>cpu_cli\<close> clears the interrupt flag,
  \<^verbatim>\<open>cpu_idle\<close> sets it and halts; the next batch of scancodes then arrives. \<open>None\<close>: still waiting
  when the given batches have been delivered.
\<close>

fun keyboard_get_char :: "u8 list list \<Rightarrow> kb_state \<Rightarrow> (char \<times> u8 list list \<times> kb_state) option" where
  "keyboard_get_char batches s =
     (let s = s\<lparr>int_flag := False\<rparr> in
      if read_ptr s \<noteq> write_ptr s
      then let c = kb_buffer s ! unat (read_ptr s);
               s = s\<lparr>read_ptr := (read_ptr s + 1) mod 256\<rparr>
           in Some (c, batches, s\<lparr>int_flag := True\<rparr>)
      else case batches of
             [] \<Rightarrow> None
           | b # bs \<Rightarrow> keyboard_get_char bs (fold keyboard_handler b (s\<lparr>int_flag := True\<rparr>)))"

declare keyboard_get_char.simps [simp del]

section \<open>The ring buffer as a queue\<close>

definition kb_inv :: "kb_state \<Rightarrow> bool" where
  "kb_inv s \<longleftrightarrow> length (kb_buffer s) = 256 \<and> unat (write_ptr s) < 256 \<and> unat (read_ptr s) < 256"

definition kb_used :: "kb_state \<Rightarrow> nat" where
  "kb_used s = (unat (write_ptr s) + 256 - unat (read_ptr s)) mod 256"

definition kb_queue :: "kb_state \<Rightarrow> char list" where
  "kb_queue s = map (\<lambda>i. kb_buffer s ! ((unat (read_ptr s) + i) mod 256)) [0..<kb_used s]"

lemma length_kb_queue [simp]: "length (kb_queue s) = kb_used s"
  by (simp add: kb_queue_def)

lemma kb_used_less: "kb_used s < 256"
  by (simp add: kb_used_def)

lemma unat_u16_succ_mod: "unat (w :: u16) < 256 \<Longrightarrow> unat ((w + 1) mod 256) = (unat w + 1) mod 256"
  by (simp add: unat_mod_distrib unat_word_ariths)

lemma ring_next:
  fixes r w :: nat
  assumes "r < 256" "w < 256"
  shows "(w + 1) mod 256 = r \<longleftrightarrow> (w + 256 - r) mod 256 = 255"
    "(w + 1) mod 256 \<noteq> r \<Longrightarrow> ((w + 1) mod 256 + 256 - r) mod 256 = (w + 256 - r) mod 256 + 1"
    "r \<noteq> w \<Longrightarrow> (w + 256 - (r + 1) mod 256) mod 256 + 1 = (w + 256 - r) mod 256"
    "(r + (w + 256 - r) mod 256) mod 256 = w"
    "r = w \<longleftrightarrow> (w + 256 - r) mod 256 = 0"
  using assms by (cases "w < r"; cases "w = 255"; cases "r = 255"; auto simp: mod_if)+

lemma ring_slots:
  fixes r i j :: nat
  assumes "r < 256" "i < j" "j < 256"
  shows "(r + i) mod 256 \<noteq> (r + j) mod 256"
  using assms by (auto simp: mod_if)

lemma kb_empty_iff: "kb_inv s \<Longrightarrow> read_ptr s = write_ptr s \<longleftrightarrow> kb_used s = 0"
  using ring_next(5) [of "unat (read_ptr s)" "unat (write_ptr s)"]
  by (simp add: kb_inv_def kb_used_def word_unat_eq_iff)

lemma buffer_write_spec:
  assumes inv: "kb_inv s"
  shows "kb_inv (buffer_write c s)"
    "kb_queue (buffer_write c s) = (if length (kb_queue s) < 255 then kb_queue s @ [c] else kb_queue s)"
proof -
  let ?r = "unat (read_ptr s)" and ?w = "unat (write_ptr s)"
  have b: "?r < 256" "?w < 256" "length (kb_buffer s) = 256" using inv by (auto simp: kb_inv_def)
  have n: "unat ((write_ptr s + 1) mod 256) = (?w + 1) mod 256" using b(2) by (rule unat_u16_succ_mod)
  have full: "(write_ptr s + 1) mod 256 = read_ptr s \<longleftrightarrow> kb_used s = 255"
    using ring_next(1) [OF b(1,2)] n by (simp add: word_unat_eq_iff kb_used_def)
  show "kb_inv (buffer_write c s)"
    using inv n by (simp add: buffer_write_def kb_inv_def Let_def)
  show "kb_queue (buffer_write c s) = (if length (kb_queue s) < 255 then kb_queue s @ [c] else kb_queue s)"
  proof (cases "kb_used s = 255")
    case True
    then show ?thesis using full by (simp add: buffer_write_def Let_def)
  next
    case False
    let ?s = "s\<lparr>kb_buffer := (kb_buffer s)[?w := c], write_ptr := (write_ptr s + 1) mod 256\<rparr>"
    have bw: "buffer_write c s = ?s" using False full by (simp add: buffer_write_def Let_def)
    have u: "kb_used ?s = kb_used s + 1"
      using ring_next(2) [OF b(1,2)] False full n by (simp add: kb_used_def word_unat_eq_iff)
    have old: "?w \<noteq> (?r + i) mod 256" if "i < kb_used s" for i
    proof
      assume "?w = (?r + i) mod 256"
      then have "(?r + i) mod 256 = (?r + kb_used s) mod 256" using ring_next(4) [OF b(1,2)] by (simp add: kb_used_def)
      then show False using ring_slots [OF b(1) that kb_used_less] by simp
    qed
    have "kb_queue ?s = map (\<lambda>i. (kb_buffer s)[?w := c] ! ((?r + i) mod 256)) [0..<kb_used s] @ [(kb_buffer s)[?w := c] ! ?w]"
      unfolding kb_queue_def u using ring_next(4) [OF b(1,2)] by (simp add: kb_used_def)
    also have "\<dots> = kb_queue s @ [c]"
      using b by (simp add: kb_queue_def nth_list_update_neq [OF old])
    finally show ?thesis using bw False kb_used_less [of s] by simp
  qed
qed

lemma try_get_char_spec:
  assumes inv: "kb_inv s"
  shows "kb_inv (snd (keyboard_try_get_char s))"
    "keyboard_try_get_char s = (if kb_queue s = [] then (NUL_CHAR, s) else (hd (kb_queue s), snd (keyboard_try_get_char s)))"
    "kb_queue (snd (keyboard_try_get_char s)) = tl (kb_queue s)"
proof -
  let ?r = "unat (read_ptr s)" and ?w = "unat (write_ptr s)"
  have b: "?r < 256" "?w < 256" using inv by (auto simp: kb_inv_def)
  have n: "unat ((read_ptr s + 1) mod 256) = (?r + 1) mod 256" using b(1) by (rule unat_u16_succ_mod)
  have e: "kb_queue s = [] \<longleftrightarrow> read_ptr s = write_ptr s"
    using kb_empty_iff [OF inv] by (simp add: kb_queue_def)
  let ?s = "s\<lparr>read_ptr := (read_ptr s + 1) mod 256\<rparr>"
  show "kb_inv (snd (keyboard_try_get_char s))"
    using inv n by (simp add: keyboard_try_get_char_def kb_inv_def)
  have q: "kb_queue s = kb_buffer s ! ?r # kb_queue ?s" if ne: "read_ptr s \<noteq> write_ptr s"
  proof -
    have u: "kb_used s = Suc (kb_used ?s)"
      using ring_next(3) [OF b] ne n by (simp add: kb_used_def word_unat_eq_iff)
    have "kb_queue s = kb_buffer s ! ?r # map (\<lambda>i. kb_buffer s ! ((?r + i) mod 256)) (map Suc [0..<kb_used ?s])"
      using b(1) by (simp add: kb_queue_def u upt_conv_Cons map_Suc_upt del: upt_Suc)
    also have "map (\<lambda>i. kb_buffer s ! ((?r + i) mod 256)) (map Suc [0..<kb_used ?s]) = kb_queue ?s"
      using n by (simp add: kb_queue_def mod_simps)
    finally show ?thesis .
  qed
  show "keyboard_try_get_char s = (if kb_queue s = [] then (NUL_CHAR, s) else (hd (kb_queue s), snd (keyboard_try_get_char s)))"
    using q e by (simp add: keyboard_try_get_char_def)
  show "kb_queue (snd (keyboard_try_get_char s)) = tl (kb_queue s)"
    using q e by (cases "read_ptr s = write_ptr s") (simp_all add: keyboard_try_get_char_def)
qed

section \<open>The queue contract\<close>

text \<open>
  A bounded queue that drops what does not fit: \<open>put\<close> appends while there is room, \<open>get\<close> takes the
  oldest element.
\<close>

fun drain :: "('s \<Rightarrow> 'e \<times> 's) \<Rightarrow> nat \<Rightarrow> 's \<Rightarrow> 'e list" where
  "drain get 0 s = []"
| "drain get (Suc n) s = fst (get s) # drain get n (snd (get s))"

locale bounded_queue =
  fixes inv :: "'s \<Rightarrow> bool"
    and contents :: "'s \<Rightarrow> 'e list"
    and capacity :: nat
    and put :: "'e \<Rightarrow> 's \<Rightarrow> 's"
    and get :: "'s \<Rightarrow> 'e \<times> 's"
  assumes put_inv: "inv s \<Longrightarrow> inv (put x s)"
    and put_contents: "inv s \<Longrightarrow> contents (put x s) = (if length (contents s) < capacity then contents s @ [x] else contents s)"
    and get_inv: "inv s \<Longrightarrow> inv (snd (get s))"
    and get_value: "inv s \<Longrightarrow> contents s \<noteq> [] \<Longrightarrow> fst (get s) = hd (contents s)"
    and get_contents: "inv s \<Longrightarrow> contents (snd (get s)) = tl (contents s)"
begin

lemma puts_contents:
  "inv s \<Longrightarrow> inv (fold put xs s) \<and> contents (fold put xs s) = contents s @ take (capacity - length (contents s)) xs"
proof (induction xs arbitrary: s)
  case (Cons x xs)
  have "capacity - length (contents s) = Suc (capacity - Suc (length (contents s)))" if "length (contents s) < capacity"
    using that by simp
  then show ?case using Cons.IH [OF put_inv [OF Cons.prems], of x] put_contents [OF Cons.prems, of x] by auto
qed simp

lemma drain_contents: "inv s \<Longrightarrow> n \<le> length (contents s) \<Longrightarrow> drain get n s = take n (contents s)"
proof (induction n arbitrary: s)
  case (Suc n)
  then have ne: "contents s \<noteq> []" by auto
  have "drain get n (snd (get s)) = take n (tl (contents s))"
    using Suc get_inv get_contents by simp
  then show ?case using get_value [OF Suc.prems(1) ne] ne by (cases "contents s") auto
qed simp

end

interpretation kb: bounded_queue kb_inv kb_queue 255 buffer_write keyboard_try_get_char
proof
  fix s :: kb_state and c :: char
  assume inv: "kb_inv s"
  show "kb_inv (buffer_write c s)" by (rule buffer_write_spec(1) [OF inv])
  show "kb_queue (buffer_write c s) = (if length (kb_queue s) < 255 then kb_queue s @ [c] else kb_queue s)"
    by (rule buffer_write_spec(2) [OF inv])
  show "kb_inv (snd (keyboard_try_get_char s))" by (rule try_get_char_spec(1) [OF inv])
  show "kb_queue (snd (keyboard_try_get_char s)) = tl (kb_queue s)" by (rule try_get_char_spec(3) [OF inv])
  show "fst (keyboard_try_get_char s) = hd (kb_queue s)" if "kb_queue s \<noteq> []"
    using try_get_char_spec(2) [OF inv] that by (metis fst_conv)
qed

section \<open>Scancode translation\<close>

definition is_lower :: "char \<Rightarrow> bool" where
  "is_lower c \<longleftrightarrow> CHR ''a'' \<le> c \<and> c \<le> CHR ''z''"

definition to_upper :: "char \<Rightarrow> char" where
  "to_upper c = char_of (of_char c - 32 :: nat)"

text \<open>
  What a key produces, given the state of shift and caps lock: letters are upper case when exactly
  one of the two is active, other keys only look at shift.
\<close>

definition key_output :: "bool \<Rightarrow> bool \<Rightarrow> nat \<Rightarrow> char list" where
  "key_output sh caps i =
     (let base = scancode_set1 ! i in
      if base = NUL_CHAR then []
      else if is_lower base then [if sh \<noteq> caps then to_upper base else base]
      else [if sh then scancode_set1_shifted ! i else base])"

fun typed :: "bool \<Rightarrow> bool \<Rightarrow> u8 list \<Rightarrow> char list" where
  "typed sh caps [] = []"
| "typed sh caps (sc # scs) =
     (if sc = 0x2A \<or> sc = 0x36 then typed True caps scs
      else if sc = 0xAA \<or> sc = 0xB6 then typed False caps scs
      else if sc = 0x3A then typed sh (\<not> caps) scs
      else if unat sc < 58 then key_output sh caps (unat sc) @ typed sh caps scs
      else typed sh caps scs)"

lemma scancode_tables:
  "length scancode_set1 = 58" "length scancode_set1_shifted = 58"
  "list_all2 (\<lambda>b u. (b = NUL_CHAR \<longleftrightarrow> u = NUL_CHAR) \<and> (is_lower b \<longrightarrow> u = to_upper b)) scancode_set1 scancode_set1_shifted"
  by (simp_all add: scancode_set1_def scancode_set1_shifted_def) code_simp

lemma scancode_nth:
  assumes "i < 58"
  shows "scancode_set1_shifted ! i = NUL_CHAR \<longleftrightarrow> scancode_set1 ! i = NUL_CHAR"
    "is_lower (scancode_set1 ! i) \<Longrightarrow> scancode_set1_shifted ! i = to_upper (scancode_set1 ! i)"
  using list_all2_nthD [OF scancode_tables(3), of i] scancode_tables(1) assms by auto

lemma keyboard_handler_key:
  assumes "unat sc < 58" "sc \<notin> {0x2A, 0x36}"
  shows "keyboard_handler sc s = fold buffer_write (key_output (shift_pressed s) (caps_lock s) (unat sc)) s"
proof -
  have "sc < 58" "sc < 0x80" "sc \<noteq> 0xAA" "sc \<noteq> 0xB6" "sc \<noteq> 0x3A"
    using assms(1) by (auto simp: word_less_nat_alt)
  then show ?thesis
    using assms(2) scancode_nth [OF assms(1)]
    by (auto simp: keyboard_handler_def key_output_def is_lower_def Let_def)
qed

lemma handler_no_key:
  assumes "\<not> unat sc < 58" "sc \<notin> {0x3A, 0xAA, 0xB6}"
  shows "keyboard_handler sc s = s"
  using assms by (auto simp: keyboard_handler_def word_less_nat_alt)

lemma fold_buffer_write_mods [simp]:
  "shift_pressed (fold buffer_write cs s) = shift_pressed s" "caps_lock (fold buffer_write cs s) = caps_lock s"
  by (induction cs arbitrary: s) (simp_all add: buffer_write_def Let_def)

lemma kb_fields_update [simp]:
  "kb_inv (s\<lparr>shift_pressed := b\<rparr>) = kb_inv s" "kb_inv (s\<lparr>caps_lock := b\<rparr>) = kb_inv s" "kb_inv (s\<lparr>int_flag := b\<rparr>) = kb_inv s"
  "kb_queue (s\<lparr>shift_pressed := b\<rparr>) = kb_queue s" "kb_queue (s\<lparr>caps_lock := b\<rparr>) = kb_queue s"
  "kb_queue (s\<lparr>int_flag := b\<rparr>) = kb_queue s"
  by (simp_all add: kb_inv_def kb_queue_def kb_used_def)

lemma handler_sequence:
  "kb_inv s \<Longrightarrow> kb_inv (fold keyboard_handler scs s) \<and> kb_queue (fold keyboard_handler scs s) =
     kb_queue s @ take (255 - length (kb_queue s)) (typed (shift_pressed s) (caps_lock s) scs)"
proof (induction scs arbitrary: s)
  case (Cons sc scs)
  consider (shift) "sc = 0x2A \<or> sc = 0x36" | (unshift) "sc = 0xAA \<or> sc = 0xB6" | (caps) "sc = 0x3A"
    | (key) "unat sc < 58" "sc \<notin> {0x2A, 0x36}" | (other) "\<not> unat sc < 58" "sc \<notin> {0x3A, 0xAA, 0xB6}"
    by (cases "unat sc < 58") auto
  then show ?case
  proof cases
    case key
    let ?ks = "key_output (shift_pressed s) (caps_lock s) (unat sc)"
    have p: "kb_inv (fold buffer_write ?ks s)"
        "kb_queue (fold buffer_write ?ks s) = kb_queue s @ take (255 - length (kb_queue s)) ?ks"
      using kb.puts_contents [OF Cons.prems] by simp_all
    have "sc \<notin> {0xAA, 0xB6, 0x3A}" using key(1) by auto
    then have "typed (shift_pressed s) (caps_lock s) (sc # scs) = ?ks @ typed (shift_pressed s) (caps_lock s) scs"
      using key by simp
    moreover have "255 - length (kb_queue (fold buffer_write ?ks s)) = 255 - length (kb_queue s) - length ?ks"
      unfolding p(2) by simp
    ultimately show ?thesis
      using Cons.IH [OF p(1)] p(2) keyboard_handler_key [OF key] by simp
  next
    case other
    then have "sc \<notin> {0x2A, 0x36}" by auto
    then show ?thesis using Cons.IH [OF Cons.prems] handler_no_key [OF other] other by simp
  next
    case shift
    then have "keyboard_handler sc s = s\<lparr>shift_pressed := True\<rparr>" by (simp add: keyboard_handler_def)
    then show ?thesis using Cons.IH [of "s\<lparr>shift_pressed := True\<rparr>"] Cons.prems shift by simp
  next
    case unshift
    then have "keyboard_handler sc s = s\<lparr>shift_pressed := False\<rparr>" by (auto simp: keyboard_handler_def)
    then show ?thesis using Cons.IH [of "s\<lparr>shift_pressed := False\<rparr>"] Cons.prems unshift by auto
  next
    case caps
    then have "keyboard_handler sc s = s\<lparr>caps_lock := \<not> caps_lock s\<rparr>" by (simp add: keyboard_handler_def)
    then show ?thesis using Cons.IH [of "s\<lparr>caps_lock := \<not> caps_lock s\<rparr>"] Cons.prems caps by simp
  qed
qed simp

lemma handler_mods:
  "typed (shift_pressed s) (caps_lock s) (xs @ ys) = typed (shift_pressed s) (caps_lock s) xs @
     typed (shift_pressed (fold keyboard_handler xs s)) (caps_lock (fold keyboard_handler xs s)) ys"
proof (induction xs arbitrary: s)
  case (Cons sc xs)
  consider (mods) "sc \<in> {0x2A, 0x36, 0xAA, 0xB6, 0x3A}"
    | (key) "unat sc < 58" "sc \<notin> {0x2A, 0x36}" | (other) "\<not> unat sc < 58" "sc \<notin> {0x3A, 0xAA, 0xB6}"
    by (cases "unat sc < 58") auto
  then show ?case
  proof cases
    case mods
    then show ?thesis using Cons.IH [of "keyboard_handler sc s"] by (auto simp: keyboard_handler_def)
  next
    case key
    then have "sc \<notin> {0xAA, 0xB6, 0x3A}" by auto
    then show ?thesis using Cons.IH [of "keyboard_handler sc s"] key by (simp add: keyboard_handler_key)
  next
    case other
    then have "sc \<notin> {0x2A, 0x36}" by auto
    then show ?thesis using Cons.IH [of s] other by (simp add: handler_no_key)
  qed
qed simp

section \<open>Blocking read\<close>

lemma get_char_now:
  assumes "kb_inv s" "kb_queue s \<noteq> []"
  shows "\<exists>s'. keyboard_get_char bs s = Some (hd (kb_queue s), bs, s') \<and> kb_inv s' \<and> kb_queue s' = tl (kb_queue s) \<and> int_flag s'"
proof -
  let ?t = "snd (keyboard_try_get_char s)"
  have ne: "read_ptr s \<noteq> write_ptr s" using assms kb_empty_iff [OF assms(1)] by (auto simp: kb_queue_def)
  then have tr: "keyboard_try_get_char s = (kb_buffer s ! unat (read_ptr s), s\<lparr>read_ptr := (read_ptr s + 1) mod 256\<rparr>)"
    by (simp add: keyboard_try_get_char_def)
  have "keyboard_get_char bs s = Some (kb_buffer s ! unat (read_ptr s), bs,
      s\<lparr>int_flag := True, read_ptr := (read_ptr s + 1) mod 256\<rparr>)"
    using ne by (subst keyboard_get_char.simps) (simp add: Let_def)
  moreover have "s\<lparr>int_flag := True, read_ptr := (read_ptr s + 1) mod 256\<rparr> = ?t\<lparr>int_flag := True\<rparr>"
    using tr by simp
  moreover have "kb_buffer s ! unat (read_ptr s) = hd (kb_queue s)"
    using kb.get_value [OF assms] tr by simp
  ultimately show ?thesis using kb.get_inv [OF assms(1)] kb.get_contents [OF assms(1)] by simp
qed

lemma get_char_wait:
  assumes "kb_inv s" "kb_queue s = []"
  shows "keyboard_get_char (b # bs) s = keyboard_get_char bs (fold keyboard_handler b (s\<lparr>int_flag := True\<rparr>))"
    "keyboard_get_char [] s = None"
  using assms kb_empty_iff [OF assms(1)]
  by (subst keyboard_get_char.simps; simp add: Let_def kb_queue_def)+

section \<open>Properties\<close>

definition sample_kb :: kb_state where
  "sample_kb = \<lparr>kb_buffer = replicate 256 NUL_CHAR, write_ptr = 250, read_ptr = 250, shift_pressed = False,
     caps_lock = False, int_flag = True\<rparr>"

lemma sample_kb_inv: "kb_inv sample_kb" "kb_queue sample_kb = []"
  by (simp_all add: sample_kb_def kb_inv_def kb_queue_def kb_used_def)

text \<open>
  C15. Whatever is typed comes out of the buffer in order: after the interrupts of any sequence of
  scancodes, readers get exactly the characters those keys stand for under shift and caps lock, up
  to the 255 characters the buffer holds beyond which keys are dropped, wherever the pointers of the
  ring stand.
\<close>

theorem keyboard_typing_order:
  assumes "kb_inv s" "kb_queue s = []" "n \<le> 255" "n \<le> length (typed (shift_pressed s) (caps_lock s) scs)"
  shows "drain keyboard_try_get_char n (fold keyboard_handler scs s) = take n (typed (shift_pressed s) (caps_lock s) scs)"
  using handler_sequence [OF assms(1), of scs] assms(2-4)
    kb.drain_contents [of "fold keyboard_handler scs s" n] by (simp add: min_def)

theorem keyboard_typing_order_witness:
  "drain keyboard_try_get_char 3 (fold keyboard_handler [0x2A, 0x23, 0xAA, 0x17, 0x3A, 0x02, 0x1E] sample_kb) = ''Hi1''"
proof -
  have "typed False False [0x2A, 0x23, 0xAA, 0x17, 0x3A, 0x02, 0x1E] = ''Hi1A''" by code_simp
  then show ?thesis
    using keyboard_typing_order [OF sample_kb_inv, of 3 "[0x2A, 0x23, 0xAA, 0x17, 0x3A, 0x02, 0x1E]"]
    by (simp add: sample_kb_def)
qed

text \<open>
  C16. The blocking read returns as soon as the batches of scancodes delivered while it waits have
  produced a character: it consumes exactly the batches up to that one, returns the first character
  produced, leaves the rest in the buffer, and has interrupts enabled again.
\<close>

theorem keyboard_get_char_returns:
  assumes "kb_inv s" "kb_queue s = []" "typed (shift_pressed s) (caps_lock s) (concat bs) = []"
    "typed (shift_pressed s) (caps_lock s) (concat bs @ b) = c # cs" "length cs < 255"
  shows "\<exists>s'. keyboard_get_char (bs @ b # rest) s = Some (c, rest, s') \<and> kb_inv s' \<and> kb_queue s' = cs \<and> int_flag s'"
  using assms
proof (induction bs arbitrary: s)
  case Nil
  let ?s = "fold keyboard_handler b (s\<lparr>int_flag := True\<rparr>)"
  have "kb_inv ?s" "kb_queue ?s = c # cs"
    using handler_sequence [of "s\<lparr>int_flag := True\<rparr>" b] Nil by simp_all
  then show ?case using get_char_wait(1) [OF Nil(1,2), of b rest] get_char_now [of ?s rest] by simp
next
  case (Cons d bs)
  let ?s = "fold keyboard_handler d (s\<lparr>int_flag := True\<rparr>)"
  let ?sh = "shift_pressed s" and ?cp = "caps_lock s"
  have h: "typed ?sh ?cp (d @ ys) = typed ?sh ?cp d @ typed (shift_pressed ?s) (caps_lock ?s) ys" for ys
    using handler_mods [of "s\<lparr>int_flag := True\<rparr>" d ys] by simp
  have d: "typed ?sh ?cp d = []" using Cons.prems(3) h [of "concat bs"] by simp
  have "kb_inv ?s" "kb_queue ?s = []"
    using handler_sequence [of "s\<lparr>int_flag := True\<rparr>" d] Cons.prems(1,2) d by simp_all
  then have "\<exists>s'. keyboard_get_char (bs @ b # rest) ?s = Some (c, rest, s') \<and> kb_inv s' \<and> kb_queue s' = cs \<and> int_flag s'"
    using Cons.prems(3-5) d h [of "concat bs"] h [of "concat bs @ b"] by (intro Cons.IH) simp_all
  then show ?case using get_char_wait(1) [OF Cons.prems(1,2)] by simp
qed

theorem keyboard_get_char_returns_witness:
  "\<exists>s'. keyboard_get_char [[0x2A], [0x9C], [0x1E, 0x30], [0x02]] sample_kb = Some (CHR ''A'', [[0x02]], s') \<and>
     kb_queue s' = ''B'' \<and> int_flag s'"
proof -
  have "typed False False [0x2A, 0x9C] = []" "typed False False [0x2A, 0x9C, 0x1E, 0x30] = ''AB''" by code_simp+
  then show ?thesis
    using keyboard_get_char_returns [OF sample_kb_inv, of "[[0x2A], [0x9C]]" "[0x1E, 0x30]" "CHR ''A''" "''B''" "[[0x02]]"]
    by (auto simp: sample_kb_def)
qed

text \<open>The non-blocking read with interrupts taken after the character was fetched.\<close>

definition try_get_char_interrupted :: "u8 list \<Rightarrow> kb_state \<Rightarrow> char \<times> kb_state" where
  "try_get_char_interrupted scs s =
     (if read_ptr s = write_ptr s then (NUL_CHAR, s)
      else let c = kb_buffer s ! unat (read_ptr s);
               s = fold keyboard_handler scs s
           in (c, s\<lparr>read_ptr := (read_ptr s + 1) mod 256\<rparr>))"

text \<open>
  C17. An interrupt that arrives in the middle of a non-blocking read, between taking the character
  and advancing the read pointer, corrupts nothing: the reader gets the oldest character and the
  buffer then holds the others followed by what the interrupt added.
\<close>

theorem keyboard_read_interrupted:
  assumes "kb_inv s" "kb_queue s = c # cs"
  shows "\<exists>s'. try_get_char_interrupted scs s = (c, s') \<and> kb_inv s' \<and>
    kb_queue s' = cs @ take (255 - length (kb_queue s)) (typed (shift_pressed s) (caps_lock s) scs)"
proof -
  let ?t = "fold keyboard_handler scs s"
  have ne: "read_ptr s \<noteq> write_ptr s" using assms kb_empty_iff [OF assms(1)] by (auto simp: kb_queue_def)
  have c: "kb_buffer s ! unat (read_ptr s) = c"
    using kb.get_value [OF assms(1)] assms(2) ne by (simp add: keyboard_try_get_char_def)
  have t: "kb_inv ?t" "kb_queue ?t = c # cs @ take (255 - length (kb_queue s)) (typed (shift_pressed s) (caps_lock s) scs)"
    using handler_sequence [OF assms(1), of scs] assms(2) by simp_all
  then have "read_ptr ?t \<noteq> write_ptr ?t" using kb_empty_iff [OF t(1)] by (auto simp: kb_queue_def)
  then have "snd (keyboard_try_get_char ?t) = ?t\<lparr>read_ptr := (read_ptr ?t + 1) mod 256\<rparr>"
    by (simp add: keyboard_try_get_char_def)
  then show ?thesis
    using kb.get_inv [OF t(1)] kb.get_contents [OF t(1)] t(2) c ne
    by (simp add: try_get_char_interrupted_def Let_def)
qed

theorem keyboard_read_interrupted_witness:
  "\<exists>s'. try_get_char_interrupted [0x30] (fold keyboard_handler [0x1E] sample_kb) = (CHR ''a'', s') \<and> kb_queue s' = ''b''"
proof -
  let ?s = "fold keyboard_handler [0x1E] sample_kb"
  have m: "shift_pressed sample_kb = False" "caps_lock sample_kb = False" by (simp_all add: sample_kb_def)
  have "typed False False [0x1E] = ''a''" "typed False False [0x30] = ''b''" by code_simp+
  moreover have "shift_pressed ?s = False" "caps_lock ?s = False"
    by (simp_all add: keyboard_handler_key m)
  moreover have "kb_inv ?s" "kb_queue ?s = ''a''"
    using handler_sequence [OF sample_kb_inv(1), of "[0x1E]"] calculation(1) by (simp_all add: sample_kb_inv m)
  ultimately show ?thesis
    using keyboard_read_interrupted [of ?s "CHR ''a''" "[]" "[0x30]"] by (auto simp: Let_def)
qed

end
