(* ===== verification/Devices.thy ===== *)
theory Devices
  imports Port_IO
begin

text \<open>
  Three small drivers over the port interface: the interval timer (\<^verbatim>\<open>src/kernel/drivers/timer.c\<close>), the
  pair of interrupt controllers (\<^verbatim>\<open>pic.c\<close>) and the real time clock (\<^verbatim>\<open>rtc.c\<close>). The controllers and the
  clock are also given as simulated devices, so that the drivers can be shown to program them as intended.
\<close>

section \<open>Timer\<close>

abbreviation TIMER_DIVISOR :: u16 where "TIMER_DIVISOR \<equiv> 11931"

record 'h timer_state = "'h ports" +
  ticks :: u64

definition timer_init :: "'h bus \<Rightarrow> ('h, 'a) ports_scheme \<Rightarrow> ('h, 'a) ports_scheme" where
  "timer_init B s =
     (let s = outb B 0x43 0x36 s;
          s = outb B 0x40 (ucast (TIMER_DIVISOR AND 0xFF)) s
      in outb B 0x40 (ucast (drop_bit 8 TIMER_DIVISOR AND 0xFF)) s)"

definition timer_handler :: "('h, 'a) timer_state_scheme \<Rightarrow> ('h, 'a) timer_state_scheme" where
  "timer_handler s = s\<lparr>ticks := ticks s + 1\<rparr>"

definition timer_get_ticks :: "('h, 'a) timer_state_scheme \<Rightarrow> u64" where
  "timer_get_ticks s = ticks s"

text \<open>The tick count that ends a sleep of \<^verbatim>\<open>ms\<close> milliseconds.\<close>

definition timer_target :: "u32 \<Rightarrow> ('h, 'a) timer_state_scheme \<Rightarrow> u64" where
  "timer_target ms s = ticks s + ucast (ms div 10)"

section \<open>Interrupt controllers\<close>

abbreviation PIC1_COMMAND :: u16 where "PIC1_COMMAND \<equiv> 0x20"
abbreviation PIC1_DATA :: u16 where "PIC1_DATA \<equiv> 0x21"
abbreviation PIC2_COMMAND :: u16 where "PIC2_COMMAND \<equiv> 0xA0"
abbreviation PIC2_DATA :: u16 where "PIC2_DATA \<equiv> 0xA1"
abbreviation ICW1_INIT :: u8 where "ICW1_INIT \<equiv> 0x10"
abbreviation ICW1_ICW4 :: u8 where "ICW1_ICW4 \<equiv> 0x01"
abbreviation ICW4_8086 :: u8 where "ICW4_8086 \<equiv> 0x01"
abbreviation PIC_EOI :: u8 where "PIC_EOI \<equiv> 0x20"

definition pic_remap :: "'h bus \<Rightarrow> ('h, 'a) ports_scheme \<Rightarrow> ('h, 'a) ports_scheme" where
  "pic_remap B s =
     (let (a1, s) = inb B PIC1_DATA s;
          (a2, s) = inb B PIC2_DATA s;
          s = io_wait B (outb B PIC1_COMMAND (ICW1_INIT OR ICW1_ICW4) s);
          s = io_wait B (outb B PIC2_COMMAND (ICW1_INIT OR ICW1_ICW4) s);
          s = io_wait B (outb B PIC1_DATA 0x20 s);
          s = io_wait B (outb B PIC2_DATA 0x28 s);
          s = io_wait B (outb B PIC1_DATA 4 s);
          s = io_wait B (outb B PIC2_DATA 2 s);
          s = io_wait B (outb B PIC1_DATA ICW4_8086 s);
          s = io_wait B (outb B PIC2_DATA ICW4_8086 s);
          s = outb B PIC1_DATA a1 s
      in outb B PIC2_DATA a2 s)"

definition pic_send_eoi :: "'h bus \<Rightarrow> u8 \<Rightarrow> ('h, 'a) ports_scheme \<Rightarrow> ('h, 'a) ports_scheme" where
  "pic_send_eoi B irq s =
     (let s = (if irq \<ge> 8 then outb B PIC2_COMMAND PIC_EOI s else s)
      in outb B PIC1_COMMAND PIC_EOI s)"

definition pic_get_mask :: "'h bus \<Rightarrow> ('h, 'a) ports_scheme \<Rightarrow> u16 \<times> ('h, 'a) ports_scheme" where
  "pic_get_mask B s =
     (let (master, s) = inb B PIC1_DATA s;
          (slave, s) = inb B PIC2_DATA s
      in (ucast master OR push_bit 8 (ucast slave), s))"

text \<open>
  The port and the bit of a line. In C the shift is undefined for counts above 31, that is, for lines
  above 39; the interface is documented for lines 0 to 15.
\<close>

definition pic_line :: "u8 \<Rightarrow> u16 \<times> u8" where
  "pic_line irq = (if irq < 8 then (PIC1_DATA, irq) else (PIC2_DATA, irq - 8))"

definition pic_bit :: "u8 \<Rightarrow> u8" where
  "pic_bit irq = ucast (push_bit (unat irq) (1 :: u32))"

definition pic_set_mask :: "'h bus \<Rightarrow> u8 \<Rightarrow> ('h, 'a) ports_scheme \<Rightarrow> ('h, 'a) ports_scheme" where
  "pic_set_mask B irq s =
     (let (port, irq) = pic_line irq;
          (v, s) = inb B port s
      in outb B port (v OR pic_bit irq) s)"

definition pic_clear_mask :: "'h bus \<Rightarrow> u8 \<Rightarrow> ('h, 'a) ports_scheme \<Rightarrow> ('h, 'a) ports_scheme" where
  "pic_clear_mask B irq s =
     (let (port, irq) = pic_line irq;
          (v, s) = inb B port s
      in outb B port (v AND NOT (pic_bit irq)) s)"

definition pic_disable :: "'h bus \<Rightarrow> ('h, 'a) ports_scheme \<Rightarrow> ('h, 'a) ports_scheme" where
  "pic_disable B s = outb B PIC2_DATA 0xFF (outb B PIC1_DATA 0xFF s)"

section \<open>Real time clock\<close>

abbreviation CMOS_ADDR :: u16 where "CMOS_ADDR \<equiv> 0x70"
abbreviation CMOS_DATA :: u16 where "CMOS_DATA \<equiv> 0x71"

record date_time =
  second :: u8
  minute :: u8
  hour :: u8
  day :: u8
  month :: u8
  year :: u16

definition get_rtc_register :: "'h bus \<Rightarrow> u8 \<Rightarrow> ('h, 'a) ports_scheme \<Rightarrow> u8 \<times> ('h, 'a) ports_scheme" where
  "get_rtc_register B reg s = inb B CMOS_DATA (outb B CMOS_ADDR reg s)"

definition get_update_in_progress_flag :: "'h bus \<Rightarrow> ('h, 'a) ports_scheme \<Rightarrow> u8 \<times> ('h, 'a) ports_scheme" where
  "get_update_in_progress_flag B s =
     (let (v, s) = inb B CMOS_DATA (outb B CMOS_ADDR 0x0A s) in (v AND 0x80, s))"

definition bcd2bin :: "u8 \<Rightarrow> u8" where
  "bcd2bin bcd = (bcd div 16) * 10 + (bcd AND 0x0F)"

text \<open>The wait for the end of an update has no bound in the code.\<close>

partial_function (option) rtc_wait :: "'h bus \<Rightarrow> ('h, 'a) ports_scheme \<Rightarrow> ('h, 'a) ports_scheme option" where
  "rtc_wait B s =
     (let (busy, s) = get_update_in_progress_flag B s in
      if busy \<noteq> 0 then rtc_wait B s else Some s)"

definition rtc_from_bcd :: "date_time \<Rightarrow> date_time" where
  "rtc_from_bcd dt = \<lparr>second = bcd2bin (second dt), minute = bcd2bin (minute dt), hour = bcd2bin (hour dt),
     day = bcd2bin (day dt), month = bcd2bin (month dt), year = ucast (bcd2bin (ucast (year dt)))\<rparr>"

definition rtc_get_time :: "'h bus \<Rightarrow> ('h, 'a) ports_scheme \<Rightarrow> (date_time \<times> ('h, 'a) ports_scheme) option" where
  "rtc_get_time B s =
     (case rtc_wait B s of None \<Rightarrow> None
      | Some s \<Rightarrow>
          let (sec, s) = get_rtc_register B 0x00 s;
              (mi, s) = get_rtc_register B 0x02 s;
              (ho, s) = get_rtc_register B 0x04 s;
              (da, s) = get_rtc_register B 0x07 s;
              (mo, s) = get_rtc_register B 0x08 s;
              (ye, s) = get_rtc_register B 0x09 s;
              dt = \<lparr>second = sec, minute = mi, hour = ho, day = da, month = mo, year = ucast ye\<rparr>;
              (statusB, s) = get_rtc_register B 0x0B s;
              dt = (if statusB AND 0x04 = 0 then rtc_from_bcd dt else dt)
          in Some (dt\<lparr>year := year dt + 2000\<rparr>, s))"

section \<open>A simulated pair of 8259 controllers\<close>

text \<open>
  One controller: its interrupt mask, the three words of the initialisation sequence, and how far this
  sequence has come (0: done). A command with bit 4 set starts it and clears the mask; the next three
  writes to the data port are taken as its words, every other one as the mask.
\<close>

record pic_chip =
  imr :: u8
  icw2 :: u8
  icw3 :: u8
  icw4 :: u8
  stage :: nat

definition chip_command :: "u8 \<Rightarrow> pic_chip \<Rightarrow> pic_chip" where
  "chip_command v c = (if bit v 4 then c\<lparr>stage := 1, imr := 0\<rparr> else c)"

definition chip_data :: "u8 \<Rightarrow> pic_chip \<Rightarrow> pic_chip" where
  "chip_data v c =
     (if stage c = 1 then c\<lparr>icw2 := v, stage := 2\<rparr>
      else if stage c = 2 then c\<lparr>icw3 := v, stage := 3\<rparr>
      else if stage c = 3 then c\<lparr>icw4 := v, stage := 0\<rparr>
      else c\<lparr>imr := v\<rparr>)"

definition pic_bus :: "(pic_chip \<times> pic_chip) bus" where
  "pic_bus = \<lparr>
     bus_in8 = (\<lambda>p (m, s). (if p = PIC1_DATA then imr m else if p = PIC2_DATA then imr s else 0, (m, s))),
     bus_out8 = (\<lambda>p v (m, s). if p = PIC1_COMMAND then (chip_command v m, s) else if p = PIC1_DATA then (chip_data v m, s)
       else if p = PIC2_COMMAND then (m, chip_command v s) else if p = PIC2_DATA then (m, chip_data v s) else (m, s)),
     bus_in16 = (\<lambda>_ h. (0, h)), bus_out16 = (\<lambda>_ _ h. h)\<rparr>"

lemma pic_bus_simps [simp]:
  "bus_in8 pic_bus p (m, s) = (if p = PIC1_DATA then imr m else if p = PIC2_DATA then imr s else 0, (m, s))"
  "bus_out8 pic_bus p v (m, s) = (if p = PIC1_COMMAND then (chip_command v m, s) else if p = PIC1_DATA then (chip_data v m, s)
       else if p = PIC2_COMMAND then (m, chip_command v s) else if p = PIC2_DATA then (m, chip_data v s) else (m, s))"
  by (simp_all add: pic_bus_def)

text \<open>The mask of all sixteen lines.\<close>

definition line_masked :: "pic_chip \<times> pic_chip \<Rightarrow> nat \<Rightarrow> bool" where
  "line_masked h k = (if k < 8 then bit (imr (fst h)) k else bit (imr (snd h)) (k - 8))"

lemma pic_bit_u8:
  assumes "unat irq < 8"
  shows "bit (pic_bit irq) k \<longleftrightarrow> k = unat irq"
  using assms by (auto simp: pic_bit_def bit_simps)

lemma pic_remap_chips:
  assumes "hw s = (m, sl)" "stage m = 0" "stage sl = 0"
  shows "hw (pic_remap pic_bus s) = (\<lparr>imr = imr m, icw2 = 0x20, icw3 = 4, icw4 = 1, stage = 0\<rparr>,
    \<lparr>imr = imr sl, icw2 = 0x28, icw3 = 2, icw4 = 1, stage = 0\<rparr>)"
  using assms
  by (simp add: pic_remap_def Let_def case_prod_beta io_wait_def io_simps chip_command_def chip_data_def)

lemma pic_mask_lines:
  assumes "hw s = h" "stage (fst h) = 0" "stage (snd h) = 0" "unat irq < 16" "k < 16"
  shows "line_masked (hw (pic_set_mask pic_bus irq s)) k \<longleftrightarrow> k = unat irq \<or> line_masked h k"
    "line_masked (hw (pic_clear_mask pic_bus irq s)) k \<longleftrightarrow> k \<noteq> unat irq \<and> line_masked h k"
    "line_masked (hw (pic_disable pic_bus s)) k"
proof -
  obtain m sl where h: "h = (m, sl)" by fastforce
  have sub: "unat (irq - 8) = unat irq - 8" if "\<not> irq < 8"
    using that by (simp add: unat_sub_if_size word_less_nat_alt word_le_nat_alt)
  note D = pic_set_mask_def pic_clear_mask_def pic_line_def line_masked_def chip_data_def case_prod_beta Let_def io_simps
  show "line_masked (hw (pic_set_mask pic_bus irq s)) k \<longleftrightarrow> k = unat irq \<or> line_masked h k"
  proof (cases "irq < 8")
    case True
    then show ?thesis using assms h pic_bit_u8 [of irq k] by (auto simp: D bit_or_iff word_less_nat_alt)
  next
    case False
    then have "8 \<le> unat irq" by (simp add: word_less_nat_alt)
    with False show ?thesis using assms h sub pic_bit_u8 [of "irq - 8" "k - 8"] by (auto simp: D bit_or_iff)
  qed
  show "line_masked (hw (pic_clear_mask pic_bus irq s)) k \<longleftrightarrow> k \<noteq> unat irq \<and> line_masked h k"
  proof (cases "irq < 8")
    case True
    then show ?thesis using assms h pic_bit_u8 [of irq k] by (auto simp: D bit_and_iff bit_not_iff word_less_nat_alt)
  next
    case False
    then have "8 \<le> unat irq" by (simp add: word_less_nat_alt)
    with False show ?thesis using assms h sub pic_bit_u8 [of "irq - 8" "k - 8"] by (auto simp: D bit_and_iff bit_not_iff)
  qed
  have "(0xFF :: u8) = - 1" by simp
  then have "bit (0xFF :: u8) j" if "j < 8" for j using that by (simp only: bit_minus_1_iff possible_bit_word) simp
  then show "line_masked (hw (pic_disable pic_bus s)) k"
    using assms h by (auto simp: pic_disable_def D)
qed

lemma pic_ready:
  assumes "hw s = h" "stage (fst h) = 0" "stage (snd h) = 0"
  shows "stage (fst (hw (pic_clear_mask pic_bus irq s))) = 0" "stage (snd (hw (pic_clear_mask pic_bus irq s))) = 0"
    "stage (fst (hw (pic_disable pic_bus s))) = 0" "stage (snd (hw (pic_disable pic_bus s))) = 0"
  using assms by (cases h; simp add: pic_clear_mask_def pic_disable_def pic_line_def chip_data_def case_prod_beta Let_def io_simps)+

section \<open>A simulated clock\<close>

text \<open>A register file behind an index register; the update flag reads as set for a number of polls.\<close>

definition cmos_bus :: "(u8 \<Rightarrow> u8) \<Rightarrow> (u8 \<times> nat) bus" where
  "cmos_bus regs = \<lparr>
     bus_in8 = (\<lambda>p (i, n). if p = CMOS_DATA then
        if i = 0x0A then (if n > 0 then 0x80 else 0, (i, n - 1)) else (regs i, (i, n)) else (0, (i, n))),
     bus_out8 = (\<lambda>p v (i, n). if p = CMOS_ADDR then (v, n) else (i, n)),
     bus_in16 = (\<lambda>_ h. (0, h)), bus_out16 = (\<lambda>_ _ h. h)\<rparr>"

lemma cmos_bus_simps [simp]:
  "bus_in8 (cmos_bus regs) CMOS_DATA (i, n) =
     (if i = 0x0A then (if n > 0 then 0x80 else 0, (i, n - 1)) else (regs i, (i, n)))"
  "bus_out8 (cmos_bus regs) p v (i, n) = (if p = CMOS_ADDR then (v, n) else (i, n))"
  by (simp_all add: cmos_bus_def)

lemma rtc_wait_ends: "hw s = (i, n) \<Longrightarrow> \<exists>s'. rtc_wait (cmos_bus regs) s = Some s' \<and> hw s' = (0x0A, 0)"
proof (induction n arbitrary: i s)
  case 0
  then show ?case by (subst rtc_wait.simps) (simp add: get_update_in_progress_flag_def case_prod_beta Let_def io_simps)
next
  case (Suc n)
  let ?s = "snd (inb (cmos_bus regs) CMOS_DATA (outb (cmos_bus regs) CMOS_ADDR 0x0A s))"
  have "hw ?s = (0x0A, n)" using Suc.prems by (simp add: io_simps)
  from Suc.IH [OF this] show ?case
    using Suc.prems by (subst rtc_wait.simps) (simp add: get_update_in_progress_flag_def case_prod_beta Let_def io_simps)
qed

definition bcd :: "nat \<Rightarrow> u8" where
  "bcd n = of_nat (16 * (n div 10) + n mod 10)"

lemma bcd2bin_bcd: "n < 100 \<Longrightarrow> bcd2bin (bcd n) = of_nat n"
proof -
  assume n: "n < 100"
  have "unat (bcd n) = 16 * (n div 10) + n mod 10" 
  proof -
    have "n div 10 < 10" "n mod 10 < 10" using n by auto
    then have "16 * (n div 10) + n mod 10 < 2 ^ LENGTH(8)" by simp
    then show ?thesis unfolding bcd_def unat_of_nat by (rule mod_less)
  qed
  moreover have "bcd n AND 0x0F = bcd n mod 16"
    using take_bit_eq_mask [of 4 "bcd n"] by (simp add: take_bit_eq_mod mask_eq_exp_minus_1)
  ultimately have "unat (bcd2bin (bcd n)) = n"
    using n unfolding bcd2bin_def by (simp add: unat_word_ariths unat_div_distrib unat_mod_distrib)
  from arg_cong [OF this, of "of_nat :: nat \<Rightarrow> u8"] show ?thesis by simp
qed

section \<open>Properties\<close>

text \<open>
  C37. The controllers are programmed as the interrupt table expects: remapping moves the lines of the
  master to the vectors from 32 and those of the slave to the vectors from 40, connects the slave to line 2
  of the master and keeps both masks; and the policy of the kernel, to mask everything and then to clear
  lines 0 and 1, leaves exactly the timer and the keyboard enabled.
\<close>

theorem pic_programmed:
  fixes s t :: "(pic_chip \<times> pic_chip, 'a) ports_scheme"
  assumes "stage (fst (hw s)) = 0" "stage (snd (hw s)) = 0"
    and "t = pic_clear_mask pic_bus 1 (pic_clear_mask pic_bus 0 (pic_disable pic_bus (pic_remap pic_bus s)))"
  shows "(\<forall>k. line_masked (hw (pic_remap pic_bus s)) k = line_masked (hw s) k) \<and>
    (case hw t of (m, sl) \<Rightarrow> stage m = 0 \<and> stage sl = 0 \<and> icw2 m = 32 \<and> icw2 sl = 40 \<and> icw3 m = 2 ^ 2 \<and> icw3 sl = 2 \<and>
       icw4 m = 1 \<and> icw4 sl = 1) \<and>
    (\<forall>k < 16. line_masked (hw t) k \<longleftrightarrow> k \<noteq> 0 \<and> k \<noteq> 1)"
proof -
  obtain m sl where h: "hw s = (m, sl)" by fastforce
  define r where "r = pic_remap pic_bus s"
  have r: "hw r = (\<lparr>imr = imr m, icw2 = 0x20, icw3 = 4, icw4 = 1, stage = 0\<rparr>, \<lparr>imr = imr sl, icw2 = 0x28, icw3 = 2, icw4 = 1, stage = 0\<rparr>)"
    unfolding r_def using pic_remap_chips [OF h] assms(1,2) h by simp
  let ?d = "pic_disable pic_bus r" and ?e = "pic_clear_mask pic_bus 0 (pic_disable pic_bus r)"
  have st: "stage (fst (hw r)) = 0" "stage (snd (hw r)) = 0" by (simp_all add: r)
  note sd = pic_ready(3,4) [OF refl st]
  note se = pic_ready(1,2) [OF refl sd, of 0]
  have "line_masked (hw t) k \<longleftrightarrow> k \<noteq> 0 \<and> k \<noteq> 1" if "k < 16" for k
    using pic_mask_lines(2) [OF refl se, of 1 k] pic_mask_lines(2) [OF refl sd, of 0 k] pic_mask_lines(3) [OF refl st, of 0 k] that
    unfolding assms(3) r_def [symmetric] by auto
  moreover have "case hw t of (m, sl) \<Rightarrow> stage m = 0 \<and> stage sl = 0 \<and> icw2 m = 32 \<and> icw2 sl = 40 \<and> icw3 m = 2 ^ 2 \<and> icw3 sl = 2 \<and>
       icw4 m = 1 \<and> icw4 sl = 1"
    unfolding assms(3) r_def [symmetric] using r
    by (simp add: pic_disable_def pic_clear_mask_def pic_line_def chip_data_def case_prod_beta Let_def io_simps)
  moreover have "line_masked (hw r) k = line_masked (hw s) k" for k by (simp add: r h line_masked_def)
  ultimately show ?thesis unfolding r_def by blast
qed

theorem pic_programmed_witness:
  "let c = \<lparr>imr = 0xB8, icw2 = 8, icw3 = 0, icw4 = 0, stage = 0\<rparr>;
       s = \<lparr>hw = (c, c), io_log = []\<rparr> :: (pic_chip \<times> pic_chip) ports;
       t = pic_clear_mask pic_bus 1 (pic_clear_mask pic_bus 0 (pic_disable pic_bus (pic_remap pic_bus s)))
   in \<not> line_masked (hw t) 1 \<and> line_masked (hw t) 2 \<and> line_masked (hw t) 14"
  unfolding Let_def
  by (intro conjI) (use pic_programmed [OF _ _ refl, of "\<lparr>hw = (\<lparr>imr = 0xB8, icw2 = 8, icw3 = 0, icw4 = 0, stage = 0\<rparr>,
      \<lparr>imr = 0xB8, icw2 = 8, icw3 = 0, icw4 = 0, stage = 0\<rparr>), io_log = []\<rparr> :: (pic_chip \<times> pic_chip) ports"] in simp_all)

text \<open>
  Reading the clock: however long an update takes, the date is read after it, the packed decimal digits
  are decoded, and the year counts from 2000.
\<close>

lemma cmos_register:
  assumes "snd (hw t) = 0" "r \<noteq> 0x0A"
  shows "fst (get_rtc_register (cmos_bus regs) r t) = regs r" "snd (hw (snd (get_rtc_register (cmos_bus regs) r t))) = 0"
proof -
  obtain i where "hw t = (i, 0)" using assms(1) by (cases "hw t") simp
  then show "fst (get_rtc_register (cmos_bus regs) r t) = regs r" "snd (hw (snd (get_rtc_register (cmos_bus regs) r t))) = 0"
    using assms(2) by (simp_all add: get_rtc_register_def io_simps)
qed

lemma rtc_reads_date:
  assumes "hw s = (i, n)" "regs 0x0B AND 4 = 0" "se < 100" "mi < 100" "ho < 100" "da < 100" "mo < 100" "ye < 100"
    and "regs 0x00 = bcd se" "regs 0x02 = bcd mi" "regs 0x04 = bcd ho" "regs 0x07 = bcd da" "regs 0x08 = bcd mo" "regs 0x09 = bcd ye"
  shows "\<exists>s'. rtc_get_time (cmos_bus regs) s =
    Some (\<lparr>second = of_nat se, minute = of_nat mi, hour = of_nat ho, day = of_nat da, month = of_nat mo, year = of_nat (2000 + ye)\<rparr>, s')"
proof -
  obtain s1 where s1: "rtc_wait (cmos_bus regs) s = Some s1" "hw s1 = (0x0A, 0)"
    using rtc_wait_ends [OF assms(1), of regs] by blast
  have u: "(ucast (of_nat ye :: u8) :: u16) = of_nat ye"
    using assms(8) by (simp add: word_unat_eq_iff unsigned_ucast_eq unat_of_nat take_bit_nat_eq_self)
  have b: "(ucast (ucast (bcd ye) :: u16) :: u8) = bcd ye"
    by (rule bit_word_eqI) (simp add: bit_unsigned_iff)
  have z: "snd (hw s1) = 0" using s1(2) by simp
  have y: "(of_nat ye :: u16) + 2000 = of_nat (2000 + ye)" by simp
  show ?thesis
    unfolding rtc_get_time_def s1(1) option.case Let_def case_prod_beta using assms(2) z b u y
    by (simp add: cmos_register assms(9-14) rtc_from_bcd_def bcd2bin_bcd assms(3-8))
qed

end
