(* ===== verification/Interrupts.thy ===== *)
theory Interrupts
  imports VFS Keyboard Devices
begin

text \<open>
  The state of the whole kernel, the kernel panic (\<^verbatim>\<open>src/kernel/core/debug.c\<close>), and interrupts
  (\<^verbatim>\<open>src/kernel/arch/i386/idt.c\<close>, \<^verbatim>\<open>idt.h\<close>, \<^verbatim>\<open>cpu.h\<close>): the descriptor table and the central handler. The
  addresses of the assembly entry points and of the static table are parameters. The disk controller and
  the other devices are on separate buses, since no port is shared.
\<close>

section \<open>State\<close>

record registers =
  r_ds :: u32
  r_edi :: u32
  r_esi :: u32
  r_ebp :: u32
  r_esp :: u32
  r_ebx :: u32
  r_edx :: u32
  r_ecx :: u32
  r_eax :: u32
  int_no :: u32
  err_code :: u32
  r_eip :: u32
  r_cs :: u32
  r_eflags :: u32
  r_useresp :: u32
  r_ss :: u32

record idt_entry =
  e_offset_low :: u16
  e_selector :: u16
  e_zero :: u8
  e_type_attr :: u8
  e_offset_high :: u16

record idt_ptr =
  ip_limit :: u16
  ip_base :: u32

record 'g machine = "'g timer_state" +
  kbd :: kb_state
  idt :: "idt_entry list"
  g_idt_ptr :: idt_ptr
  idtr :: idt_ptr
  halted :: bool

record ('h, 'g) kernel = "'h vfs_state" +
  mach :: "'g machine"
  cmd_buffer :: "char list"
  cmd_idx :: int
  pmm_test_pages :: "u32 list"

definition on_mach :: "('g machine \<Rightarrow> 'g machine) \<Rightarrow> ('h, 'g, 'a) kernel_scheme \<Rightarrow> ('h, 'g, 'a) kernel_scheme" where
  "on_mach f s = s\<lparr>mach := f (mach s)\<rparr>"

definition term_calls :: "con_call list \<Rightarrow> 'a kbase_scheme \<Rightarrow> 'a kbase_scheme" where
  "term_calls cs s = fold term_call cs s"

lemma term_calls_log: "term_calls cs s = s\<lparr>con_log := con_log s @ cs\<rparr>"
  by (induction cs arbitrary: s) (simp_all add: term_calls_def term_call_def)

section \<open>Kernel panic\<close>

text \<open>
  \<^verbatim>\<open>hang\<close> switches interrupts off and halts the processor in a loop that nothing leaves: the state stays
  as it is from then on.
\<close>

definition hang :: "('h, 'g, 'a) kernel_scheme \<Rightarrow> ('h, 'g, 'a) kernel_scheme" where
  "hang = on_mach (\<lambda>m. m\<lparr>kbd := (kbd m)\<lparr>int_flag := False\<rparr>, halted := True\<rparr>)"

abbreviation NL :: string where "NL \<equiv> [CHR 0x0A]"

definition panic_calls :: "string \<Rightarrow> con_call list" where
  "panic_calls message =
     [TermPrint (NL @ NL @ ''*** KERNEL PANIC ***'' @ NL) 0x0C, TermPrint ''Reason: '' 0x0F, TermPrint message 0x0F,
      TermPrint (NL @ NL @ ''System Halted.'') 0x0C]"

definition panic :: "string \<Rightarrow> ('h, 'g, 'a) kernel_scheme \<Rightarrow> ('h, 'g, 'a) kernel_scheme" where
  "panic message s = hang (term_calls (panic_calls message) s)"

definition panic_regs_calls :: "string \<Rightarrow> registers \<Rightarrow> con_call list" where
  "panic_regs_calls message regs =
     [TermPrint (NL @ NL @ ''*** KERNEL PANIC (Exception) ***'' @ NL) 0x0C,
      TermPrint ''Reason: '' 0x0F, TermPrint message 0x0F, TermPrint NL 0x0F,
      TermPrint ''INT: 0x'' 0x0E, TermPrintHex (int_no regs) 0x0E,
      TermPrint ''  ERR: 0x'' 0x0E, TermPrintHex (err_code regs) 0x0E, TermPrint NL 0x0F,
      TermPrint ''EIP: 0x'' 0x0E, TermPrintHex (r_eip regs) 0x0E,
      TermPrint ''  CS:  0x'' 0x0E, TermPrintHex (r_cs regs) 0x0E,
      TermPrint ''  EFLAGS: 0x'' 0x0E, TermPrintHex (r_eflags regs) 0x0E, TermPrint NL 0x0F,
      TermPrint ''EAX: 0x'' 0x07, TermPrintHex (r_eax regs) 0x07,
      TermPrint ''  EBX: 0x'' 0x07, TermPrintHex (r_ebx regs) 0x07,
      TermPrint ''  ECX: 0x'' 0x07, TermPrintHex (r_ecx regs) 0x07, TermPrint NL 0x0F,
      TermPrint ''EDX: 0x'' 0x07, TermPrintHex (r_edx regs) 0x07,
      TermPrint ''  ESI: 0x'' 0x07, TermPrintHex (r_esi regs) 0x07,
      TermPrint ''  EDI: 0x'' 0x07, TermPrintHex (r_edi regs) 0x07, TermPrint NL 0x0F,
      TermPrint ''ESP: 0x'' 0x07, TermPrintHex (r_esp regs) 0x07,
      TermPrint ''  EBP: 0x'' 0x07, TermPrintHex (r_ebp regs) 0x07, TermPrint NL 0x0F,
      TermPrint (NL @ ''System Halted.'') 0x0C]"

definition panic_with_regs :: "string \<Rightarrow> registers \<Rightarrow> ('h, 'g, 'a) kernel_scheme \<Rightarrow> ('h, 'g, 'a) kernel_scheme" where
  "panic_with_regs message regs s = hang (term_calls (panic_regs_calls message regs) s)"

section \<open>The interrupt descriptor table\<close>

definition idt_set_gate :: "nat \<Rightarrow> u32 \<Rightarrow> u16 \<Rightarrow> u8 \<Rightarrow> 'g machine \<Rightarrow> 'g machine" where
  "idt_set_gate n handler sel type m =
     m\<lparr>idt := (idt m)[n := \<lparr>e_offset_low = ucast (handler AND 0xFFFF), e_selector = sel, e_zero = 0, e_type_attr = type,
        e_offset_high = ucast (drop_bit 16 handler AND 0xFFFF)\<rparr>]\<rparr>"

definition idt_load :: "'g machine \<Rightarrow> 'g machine" where
  "idt_load m = m\<lparr>idtr := g_idt_ptr m\<rparr>"

definition idt_init :: "u32 \<Rightarrow> (nat \<Rightarrow> u32) \<Rightarrow> (nat \<Rightarrow> u32) \<Rightarrow> ('h, 'g, 'a) kernel_scheme \<Rightarrow> ('h, 'g, 'a) kernel_scheme" where
  "idt_init idt_addr isr irq s =
     (let s = on_mach (\<lambda>m.
         let m = m\<lparr>g_idt_ptr := \<lparr>ip_limit = 8 * 256 - 1, ip_base = idt_addr\<rparr>\<rparr>;
             m = fold (\<lambda>i. idt_set_gate i 0 0x08 0) [0..<256] m;
             m = fold (\<lambda>i. idt_set_gate i (isr i) 0x08 0x8E) [0..<32] m;
             m = fold (\<lambda>i. idt_set_gate (32 + i) (irq i) 0x08 0x8E) [0..<16] m
         in idt_load m) s
      in term_call (TermPrint (''IDT Loaded. Interrupts configured.'' @ NL) 0x0F) s)"

section \<open>The interrupt handler\<close>

definition keyboard_interrupt :: "'g bus \<Rightarrow> 'g machine \<Rightarrow> 'g machine" where
  "keyboard_interrupt D m = (let (scancode, m) = inb D 0x60 m in m\<lparr>kbd := keyboard_handler scancode (kbd m)\<rparr>)"

definition exception_message :: "u32 \<Rightarrow> string" where
  "exception_message n =
     (if n = 0 then ''Divide By Zero''
      else if n = 13 then ''General Protection Fault''
      else if n = 14 then ''Page Fault''
      else if n = 6 then ''Invalid Opcode''
      else if n = 8 then ''Double Fault''
      else ''Unknown Exception'')"

definition isr_handler :: "'g bus \<Rightarrow> registers \<Rightarrow> ('h, 'g, 'a) kernel_scheme \<Rightarrow> ('h, 'g, 'a) kernel_scheme" where
  "isr_handler D regs s =
     (if int_no regs \<ge> 32 \<and> int_no regs \<le> 47 then
        let s = (if int_no regs = 32 then on_mach timer_handler s
                 else if int_no regs = 33 then on_mach (keyboard_interrupt D) s
                 else s)
        in on_mach (pic_send_eoi D (ucast (int_no regs - 32))) s
      else panic_with_regs (exception_message (int_no regs)) regs s)"

text \<open>
  Sleeping (\<^verbatim>\<open>timer_sleep\<close> of \<^verbatim>\<open>src/kernel/drivers/timer.c\<close>): each turn of the loop enables interrupts and
  halts until one arrives, and its handler runs. The interrupts that arrive are given as a list; \<open>None\<close>:
  still asleep after all of them, or halted by one.
\<close>

definition cpu_idle :: "'g bus \<Rightarrow> registers \<Rightarrow> ('h, 'g, 'a) kernel_scheme \<Rightarrow> ('h, 'g, 'a) kernel_scheme" where
  "cpu_idle D regs s = isr_handler D regs (on_mach (\<lambda>m. m\<lparr>kbd := (kbd m)\<lparr>int_flag := True\<rparr>\<rparr>) s)"

fun timer_sleep_loop :: "'g bus \<Rightarrow> u64 \<Rightarrow> registers list \<Rightarrow> ('h, 'g, 'a) kernel_scheme \<Rightarrow>
    (registers list \<times> ('h, 'g, 'a) kernel_scheme) option" where
  "timer_sleep_loop D target irqs s =
     (if halted (mach s) then None
      else if \<not> ticks (mach s) < target then Some (irqs, s)
      else case irqs of [] \<Rightarrow> None
         | r # rs \<Rightarrow> timer_sleep_loop D target rs (cpu_idle D r s))"

declare timer_sleep_loop.simps [simp del]

definition timer_sleep :: "'g bus \<Rightarrow> u32 \<Rightarrow> registers list \<Rightarrow> ('h, 'g, 'a) kernel_scheme \<Rightarrow>
    (registers list \<times> ('h, 'g, 'a) kernel_scheme) option" where
  "timer_sleep D ms irqs s = timer_sleep_loop D (timer_target ms (mach s)) irqs s"

end
