(* ===== verification/Selftest.thy ===== *)
theory Selftest
  imports Interrupts
begin

text \<open>
  The built-in diagnostics (\<^verbatim>\<open>src/kernel/core/selftest.c\<close>): a test of the frame allocator with a pattern of
  allocations and releases, one of the heap, and one of the disk that checks the signature of the first
  sector. Each returns a code and the new state, or stops the machine.
\<close>

abbreviation COLOR_GREEN :: u8 where "COLOR_GREEN \<equiv> 0x0A"
abbreviation COLOR_WHITE :: u8 where "COLOR_WHITE \<equiv> 0x0F"
abbreviation COLOR_RED :: u8 where "COLOR_RED \<equiv> 0x0C"
abbreviation COLOR_CYAN :: u8 where "COLOR_CYAN \<equiv> 0x0B"
abbreviation COLOR_YELLOW :: u8 where "COLOR_YELLOW \<equiv> 0x0E"
abbreviation SELFTEST_PMM_MAX_PAGES :: u32 where "SELFTEST_PMM_MAX_PAGES \<equiv> 256"

definition selftest_print_status :: "string \<Rightarrow> int \<Rightarrow> 'a kbase_scheme \<Rightarrow> 'a kbase_scheme" where
  "selftest_print_status name rc =
     term_calls [TermPrint ''['' COLOR_WHITE,
       (if rc = 0 then TermPrint '' OK '' COLOR_GREEN else TermPrint ''FAIL'' COLOR_RED),
       TermPrint ''] '' COLOR_WHITE, TermPrint name COLOR_WHITE, TermPrint '' (rc='' COLOR_WHITE,
       TermPrintHex (word_of_int rc) COLOR_YELLOW, TermPrint ('')'' @ NL) COLOR_WHITE]"

section \<open>Frame allocator\<close>

definition selftest_pages :: "u32 \<Rightarrow> u32" where
  "selftest_pages free_pages =
     (let pages_to_test = free_pages div 8;
          pages_to_test = (if pages_to_test > SELFTEST_PMM_MAX_PAGES then SELFTEST_PMM_MAX_PAGES else pages_to_test)
      in if pages_to_test < 8 then (if free_pages \<ge> 8 then 8 else free_pages) else pages_to_test)"

definition set_page :: "nat \<Rightarrow> u32 \<Rightarrow> ('h, 'g, 'a) kernel_scheme \<Rightarrow> ('h, 'g, 'a) kernel_scheme" where
  "set_page i p s = s\<lparr>pmm_test_pages := (pmm_test_pages s)[i := p]\<rparr>"

text \<open>The allocation loops; the Boolean is false where the code jumps to \<^verbatim>\<open>fail\<close>.\<close>

fun selftest_alloc :: "nat list \<Rightarrow> ('h, 'g, 'a) kernel_scheme \<Rightarrow> (bool \<times> ('h, 'g, 'a) kernel_scheme) kres" where
  "selftest_alloc [] s = Inr (True, s)"
| "selftest_alloc (i # is) s =
     kbind (pmm_alloc_page s) (\<lambda>(p, s).
       let s = set_page i p s in if p = 0 then Inr (False, s) else selftest_alloc is s)"

definition selftest_release :: "nat \<Rightarrow> ('h, 'g, 'a) kernel_scheme \<Rightarrow> ('h, 'g, 'a) kernel_scheme kres" where
  "selftest_release i s = kbind (pmm_free_page (pmm_test_pages s ! i) s) (\<lambda>s. Inr (set_page i 0 s))"

definition selftest_cleanup :: "nat \<Rightarrow> ('h, 'g, 'a) kernel_scheme \<Rightarrow> ('h, 'g, 'a) kernel_scheme kres" where
  "selftest_cleanup n = kfold (\<lambda>i s. if pmm_test_pages s ! i \<noteq> 0 then selftest_release i s else Inr s) [0..<n]"

definition every_other :: "nat \<Rightarrow> nat list" where
  "every_other n = filter even [0..<n]"

definition selftest_pmm :: "('h, 'g, 'a) kernel_scheme \<Rightarrow> (int \<times> ('h, 'g, 'a) kernel_scheme) kres" where
  "selftest_pmm s =
     (let s = term_call (TermPrint (NL @ ''[SELFTEST] PMM (Next-Fit)'' @ NL) COLOR_CYAN) s;
          free_before = pmm_get_free_memory s;
          n = unat (selftest_pages (free_before div of_nat PMM_PAGE_SIZE));
          s = term_calls [TermPrint ''Free before: '' COLOR_WHITE, TermPrintHex free_before COLOR_YELLOW,
                TermPrint ('' bytes'' @ NL) COLOR_WHITE] s
      in if n = 0 then Inr (1, s)
      else
        let s = fold (\<lambda>i. set_page i 0) [0..<n] s;
            fail = (\<lambda>s. kbind (selftest_cleanup n s) (\<lambda>s. Inr (3, s)))
        in kbind (selftest_alloc [0..<n] s) (\<lambda>(ok, s).
          if \<not> ok then fail s
          else kbind (kfold selftest_release (every_other n) s) (\<lambda>s.
            kbind (selftest_alloc (every_other n) s) (\<lambda>(ok, s).
              if \<not> ok then fail s
              else kbind (selftest_cleanup n s) (\<lambda>s.
                let free_after = pmm_get_free_memory s;
                    s = term_calls [TermPrint ''Free after:  '' COLOR_WHITE, TermPrintHex free_after COLOR_YELLOW,
                          TermPrint ('' bytes'' @ NL) COLOR_WHITE] s
                in Inr (if free_after = free_before then 0 else 2, s))))))"

section \<open>Heap\<close>

definition selftest_heap :: "('h, 'a) vfs_state_scheme \<Rightarrow> (int \<times> ('h, 'a) vfs_state_scheme) kres" where
  "selftest_heap s =
     (let s = term_call (TermPrint (NL @ ''[SELFTEST] Heap'' @ NL) COLOR_CYAN) s in
      kbind (kmalloc 10 s) (\<lambda>(ptr1, s).
        if ptr1 = 0 then Inr (1, s)
        else
          let s = s\<lparr>heap_mem := heap_store ptr1 (bytes_of ''Pyramid'' @ [0]) (heap_mem s)\<rparr> in
          kbind (kmalloc 4096 s) (\<lambda>(ptr2, s).
            if ptr2 = 0 then kbind (kfree ptr1 s) (\<lambda>s. Inr (2, s))
            else kbind (kfree ptr1 s) (\<lambda>s.
              kbind (kmalloc 5 s) (\<lambda>(ptr3, s).
                if ptr3 = 0 then kbind (kfree ptr2 s) (\<lambda>s. Inr (3, s))
                else kbind (kfree ptr2 s) (\<lambda>s. kbind (kfree ptr3 s) (\<lambda>s. Inr (0, s))))))))"

section \<open>Disk\<close>

definition selftest_ata :: "'h bus \<Rightarrow> ('h, 'a) vfs_state_scheme \<Rightarrow> (int \<times> ('h, 'a) vfs_state_scheme) kres" where
  "selftest_ata B s =
     (let s = term_call (TermPrint (NL @ ''[SELFTEST] ATA (Read Sector 0)'' @ NL) COLOR_CYAN) s;
          s = s\<lparr>ata := ata_init B (ata s)\<rparr>
      in kbind (kmalloc 512 s) (\<lambda>(buffer, s).
        if buffer = 0 then Inr (1, s)
        else
          let (ret, data, a) = ata_read_sector B 0 0 True (ata s);
              s = s\<lparr>ata := a, heap_mem := heap_store buffer data (heap_mem s)\<rparr>
          in if ret \<noteq> 0 then kbind (kfree buffer s) (\<lambda>s. Inr (2, s))
          else
            let ok = heap_mem s (buffer + 510) = 0x55 \<and> heap_mem s (buffer + 511) = 0xAA
            in kbind (kfree buffer s) (\<lambda>s. Inr (if ok then 0 else 3, s))))"

definition selftest_run_all :: "'h bus \<Rightarrow> ('h, 'g, 'a) kernel_scheme \<Rightarrow> ('h, 'g, 'a) kernel_scheme kres" where
  "selftest_run_all B s =
     (let s = term_call (TermPrint (NL @ ''=== PyramidOS Diagnostics ==='' @ NL) COLOR_YELLOW) s in
      kbind (selftest_pmm s) (\<lambda>(rc_pmm, s).
      let s = selftest_print_status ''Physical Memory Manager'' rc_pmm s in
      kbind (selftest_heap s) (\<lambda>(rc_heap, s).
      let s = selftest_print_status ''Kernel Heap'' rc_heap s in
      kbind (selftest_ata B s) (\<lambda>(rc_ata, s).
      let s = selftest_print_status ''ATA Disk Controller'' rc_ata s;
          failures = of_bool (rc_pmm \<noteq> 0) + of_bool (rc_heap \<noteq> 0) + of_bool (rc_ata \<noteq> 0) :: int
      in Inr (term_calls
           [TermPrint (''----------------------------'' @ NL) COLOR_WHITE,
            TermPrint ''Summary: failures='' COLOR_WHITE, TermPrintHex (word_of_int failures) COLOR_YELLOW,
            TermPrint ''  ('' COLOR_WHITE, TermPrint ''PMM='' COLOR_WHITE, TermPrintHex (word_of_int rc_pmm) COLOR_YELLOW,
            TermPrint ''  HEAP='' COLOR_WHITE, TermPrintHex (word_of_int rc_heap) COLOR_YELLOW,
            TermPrint ''  ATA='' COLOR_WHITE, TermPrintHex (word_of_int rc_ata) COLOR_YELLOW,
            TermPrint ('')'' @ NL) COLOR_WHITE] s)))))"

end
