(* ===== verification/Shell.thy ===== *)
theory Shell
  imports Selftest
begin

text \<open>
  The kernel shell (\<^verbatim>\<open>src/kernel/core/shell.c\<close>): the line editor and the commands. \<open>B\<close> is the bus of the
  disk controller and \<open>D\<close> that of the other devices. Interrupts that wake the processor up during a command
  are given as a list. Where C leaves a value undefined (an overflowing \<^verbatim>\<open>atoi\<close>, a local array before it is
  filled) the model takes it from a parameter.
\<close>

section \<open>Commands\<close>

abbreviation CMD_BUF_SIZE :: nat where "CMD_BUF_SIZE \<equiv> 128"

record c_undef =
  undef_int :: int
  undef_bytes :: "u8 list"

type_synonym ('h, 'g, 'a) shell_result = "(registers list \<times> ('h, 'g, 'a) kernel_scheme) kres"

definition shell_reset :: "('h, 'g, 'a) kernel_scheme \<Rightarrow> ('h, 'g, 'a) kernel_scheme" where
  "shell_reset s = s\<lparr>cmd_idx := 0, cmd_buffer := replicate CMD_BUF_SIZE NUL\<rparr>"

definition shell_init :: "('h, 'g, 'a) kernel_scheme \<Rightarrow> ('h, 'g, 'a) kernel_scheme" where
  "shell_init s =
     shell_reset (term_calls
       [TermPrint (NL @ ''Welcome to PyramidOS Shell (KShell v1.0)'' @ NL) 0x0B,
        TermPrint (''Type '' @ [CHR 0x27] @ ''help'' @ [CHR 0x27] @ '' for a list of commands.'' @ NL @ NL) 0x07,
        TermPrint ''PyramidOS> '' 0x0E] s)"

definition cmd_text :: "('h, 'g, 'a) kernel_scheme \<Rightarrow> string" where
  "cmd_text s = takeWhile (\<lambda>c. c \<noteq> NUL) (cmd_buffer s)"

definition help_calls :: "con_call list" where
  "help_calls = TermPrint (''Available Commands:'' @ NL) 0x0F # map (\<lambda>l. TermPrint (l @ NL) 0x07)
     [''  help    - Show this list'', ''  clear   - Clear the screen'', ''  mem     - Show memory statistics'',
      ''  uptime  - Show system uptime'', ''  time    - Show current date and time'', ''  sleep   - Sleep for 1 second'',
      ''  reboot   - Restart the system'', ''  crash    - Force a kernel crash (for testing)'',
      ''  diskread - Read a disk sector (e.g., diskread 0)'', ''  blkinfo  - List registered block devices'',
      ''  mounts   - List VFS mounts'', ''  pyfs_sb  - Read /py/superblock (PyFS probe via VFS)'',
      ''  diagnose - Run kernel diagnostics (PMM/Heap/ATA)'']"

definition mem_calls :: "'a pmm_state_scheme \<Rightarrow> con_call list" where
  "mem_calls s = [TermPrint ''Total RAM: '' 0x07, TermPrintHex (pmm_get_total_memory s) 0x07,
     TermPrint (NL @ ''Free RAM:  '') 0x07, TermPrintHex (pmm_get_free_memory s) 0x07, TermPrint NL 0x07]"

definition blkinfo_calls :: "('h, 'a) disk_state_scheme \<Rightarrow> con_call list" where
  "blkinfo_calls s =
     [TermPrint ''Block devices: '' 0x07, TermPrintHex (of_nat (block_count s)) 0x0E, TermPrint NL 0x07] @
     concat (map (\<lambda>i. let dev = block_get i s in
       if dev = Null_dev then []
       else [TermPrint ''  ['' 0x07, TermPrintHex (of_nat i) 0x07, TermPrint ''] '' 0x07, TermPrint (bd_name (dev_at s dev)) 0x0B,
             TermPrint ''  sector_size='' 0x07, TermPrintHex (bd_sector_size (dev_at s dev)) 0x0E, TermPrint NL 0x07])
       [0..<block_count s])"

definition mounts_calls :: "('h, 'a) vfs_state_scheme \<Rightarrow> con_call list" where
  "mounts_calls s =
     [TermPrint ''Mounts: '' 0x07, TermPrintHex (of_nat (vfs_mount_count s)) 0x0E, TermPrint NL 0x07] @
     concat (map (\<lambda>i. case (vfs_mountpoint i s, vfs_fs_name i s) of
         (Some mp, Some fs) \<Rightarrow> [TermPrint ''  '' 0x07, TermPrint mp 0x0B, TermPrint '' -> '' 0x07, TermPrint fs 0x0E, TermPrint NL 0x07]
       | _ \<Rightarrow> []) [0..<vfs_mount_count s])"

definition hexdump_calls :: "u8 list \<Rightarrow> nat \<Rightarrow> con_call list" where
  "hexdump_calls buf n =
     concat (map (\<lambda>i. [TermPrintHex (ucast (buf ! i)) 0x07, TermPrint '' '' 0x07] @
       (if (i + 1) mod 16 = 0 then [TermPrint NL 0x07] else [])) [0..<n])"

definition rc_calls :: "string \<Rightarrow> int \<Rightarrow> con_call list" where
  "rc_calls msg rc = [TermPrint msg 0x0C, TermPrintHex (word_of_int rc) 0x0C, TermPrint ('')'' @ NL) 0x0C]"

definition cmd_pyfs_sb :: "c_undef \<Rightarrow> 'h bus \<Rightarrow> ('h, 'g, 'a) kernel_scheme \<Rightarrow> ('h, 'g, 'a) kernel_scheme kres" where
  "cmd_pyfs_sb U B s =
     kbind (vfs_open (Some ''/py/superblock'') 1 True s) (\<lambda>(rc, fd, s).
       let fd = (case fd of None \<Rightarrow> 0 | Some fd \<Rightarrow> fd) in
       if rc \<noteq> VFS_OK then Inr (term_calls (rc_calls ''PyFS: open failed (rc='' rc) s)
       else kbind (vfs_read B fd (Some (undef_bytes U)) 64 (Some 0) s) (\<lambda>(rc, buf, n, s).
         let buf = (case buf of None \<Rightarrow> [] | Some b \<Rightarrow> b);
             n = unat (case n of None \<Rightarrow> 0 | Some n \<Rightarrow> n);
             s = (if rc \<noteq> VFS_OK then term_calls (rc_calls ''PyFS: read failed (rc='' rc) s
                  else term_calls ([TermPrint (''PyFS superblock (first 64 bytes):'' @ NL) 0x0B] @ hexdump_calls buf n @
                         [TermPrint NL 0x07]) s)
         in kbind (vfs_close fd s) (\<lambda>(_, s). Inr s)))"

definition uptime_calls :: "u64 \<Rightarrow> con_call list" where
  "uptime_calls t = [TermPrint ''System Uptime: '' 0x07, TermPrintHex (ucast (t div 100)) 0x07, TermPrint '' seconds ('' 0x07,
     TermPrintHex (ucast t) 0x07, TermPrint ('' ticks)'' @ NL) 0x07]"

definition time_calls :: "date_time \<Rightarrow> con_call list" where
  "time_calls dt =
     [TermPrint ''Date: '' 0x0B, TermPrintHex (ucast (year dt)) 0x0B, TermPrint ''/'' 0x0B, TermPrintHex (ucast (month dt)) 0x0B,
      TermPrint ''/'' 0x0B, TermPrintHex (ucast (day dt)) 0x0B, TermPrint (NL @ ''Time: '') 0x0B, TermPrintHex (ucast (hour dt)) 0x0B,
      TermPrint '':'' 0x0B, TermPrintHex (ucast (minute dt)) 0x0B, TermPrint '':'' 0x0B, TermPrintHex (ucast (second dt)) 0x0B,
      TermPrint NL 0x07]"

definition cmd_time :: "'g bus \<Rightarrow> ('h, 'g, 'a) kernel_scheme \<Rightarrow> ('h, 'g, 'a) kernel_scheme kres" where
  "cmd_time D s =
     (case rtc_get_time D (mach s) of None \<Rightarrow> Inl Hang
      | Some (dt, m) \<Rightarrow> Inr (term_calls (time_calls dt) (s\<lparr>mach := m\<rparr>)))"

definition cmd_sleep :: "'g bus \<Rightarrow> registers list \<Rightarrow> ('h, 'g, 'a) kernel_scheme \<Rightarrow> ('h, 'g, 'a) shell_result" where
  "cmd_sleep D irqs s =
     (let s = term_call (TermPrint (''Sleeping for 1 second...'' @ NL) 0x07) s in
      case timer_sleep D 1000 irqs s of None \<Rightarrow> Inl Hang
      | Some (irqs, s) \<Rightarrow> Inr (irqs, term_call (TermPrint (''Done.'' @ NL) 0x07) s))"

text \<open>
  The wait for the keyboard controller before the reset pulse. After the pulse the processor halts; if the
  reset does not happen it goes on with the next interrupt.
\<close>

partial_function (option) reboot_wait :: "'g bus \<Rightarrow> 'g machine \<Rightarrow> 'g machine option" where
  "reboot_wait D m = (let (good, m) = inb D 0x64 m in if good AND 0x02 \<noteq> 0 then reboot_wait D m else Some m)"

definition cmd_reboot :: "'g bus \<Rightarrow> registers list \<Rightarrow> ('h, 'g, 'a) kernel_scheme \<Rightarrow> ('h, 'g, 'a) shell_result" where
  "cmd_reboot D irqs s =
     (let s = term_call (TermPrint (''Rebooting...'' @ NL) 0x0C) s in
      case reboot_wait D (mach s) of None \<Rightarrow> Inl Hang
      | Some m \<Rightarrow>
          let s = s\<lparr>mach := outb D 0x64 0xFE m\<rparr> in
          (case irqs of [] \<Rightarrow> Inl Hang
           | r # rs \<Rightarrow> let s = isr_handler D r s in if halted (mach s) then Inl Hang else Inr (rs, s)))"

definition cmd_crash :: "('h, 'g, 'a) kernel_scheme \<Rightarrow> ('h, 'g, 'a) kernel_scheme kres" where
  "cmd_crash s =
     (let s = term_call (TermPrint (''Forcing a crash...'' @ NL) 0x0C) s in
      case walk s 0xC0000000 of
        None \<Rightarrow> Inl (Panic ''Page Fault'')
      | Some a \<Rightarrow> Inr (s\<lparr>phys := write32 (phys s) a 0\<rparr>))"

text \<open>Reading a sector; the Boolean is false where the code returns early.\<close>

definition cmd_diskread :: "c_undef \<Rightarrow> 'h bus \<Rightarrow> string \<Rightarrow> ('h, 'g, 'a) kernel_scheme \<Rightarrow> (bool \<times> ('h, 'g, 'a) kernel_scheme) kres" where
  "cmd_diskread U B arg s =
     (let lba = (case atoi arg of None \<Rightarrow> undef_int U | Some v \<Rightarrow> v);
          s = term_calls [TermPrint ''Reading Sector '' 0x07, TermPrintHex (word_of_int lba) 0x0E, TermPrint (''...'' @ NL) 0x07] s
      in kbind (kmalloc 512 s) (\<lambda>(buf, s).
        if buf = 0 then Inr (False, term_call (TermPrint (''Error: Out of Memory'' @ NL) 0x0C) s)
        else if lba < 0 then
          let s = term_call (TermPrint (''Error: LBA must be >= 0'' @ NL) 0x0C) s in kbind (kfree buf s) (\<lambda>s. Inr (False, s))
        else
          let (ret, data, a) = ata_read_sector B 0 (word_of_int lba) True (ata s);
              s = s\<lparr>ata := a, heap_mem := heap_store buf data (heap_mem s)\<rparr>;
              s = (if ret \<noteq> 0 then term_calls (rc_calls ''Disk Error (code: '' ret) s
                   else term_calls ([TermPrint (''Data (First 64 bytes):'' @ NL) 0x0B] @ hexdump_calls (heap_bytes (heap_mem s) buf 64) 64) s)
          in kbind (kfree buf s) (\<lambda>s. Inr (True, s))))"

definition shell_prompt :: "('h, 'g, 'a) kernel_scheme \<Rightarrow> ('h, 'g, 'a) kernel_scheme" where
  "shell_prompt s = shell_reset (term_call (TermPrint ''PyramidOS> '' 0x0E) s)"

text \<open>The chain of comparisons, in two halves.\<close>

definition execute_more ::
    "c_undef \<Rightarrow> 'h bus \<Rightarrow> 'g bus \<Rightarrow> registers list \<Rightarrow> string \<Rightarrow> ('h, 'g, 'a) kernel_scheme \<Rightarrow> ('h, 'g, 'a) shell_result" where
  "execute_more U B D irqs cmd s =
     (let go = (\<lambda>r. kbind r (\<lambda>s. Inr (irqs, shell_prompt s)));
          wake = (\<lambda>r. kbind r (\<lambda>(irqs, s). Inr (irqs, shell_prompt s)))
      in if strcmp cmd ''sleep'' = 0 then wake (cmd_sleep D irqs s)
      else if strcmp cmd ''reboot'' = 0 then wake (cmd_reboot D irqs s)
      else if strcmp cmd ''crash'' = 0 then go (cmd_crash s)
      else if strcmp cmd ''diagnose'' = 0 then go (selftest_run_all B s)
      else if strncmp cmd ''diskread '' 9 = 0 then
        kbind (cmd_diskread U B (drop 9 cmd) s) (\<lambda>(prompt, s). Inr (irqs, if prompt then shell_prompt s else s))
      else if length cmd > 0 then
        go (Inr (term_calls [TermPrint ''Unknown command: '' 0x0C, TermPrint cmd 0x0C, TermPrint NL 0x0C] s))
      else go (Inr s))"

definition execute_command ::
    "c_undef \<Rightarrow> 'h bus \<Rightarrow> 'g bus \<Rightarrow> registers list \<Rightarrow> ('h, 'g, 'a) kernel_scheme \<Rightarrow> ('h, 'g, 'a) shell_result" where
  "execute_command U B D irqs s =
     (let s = term_call (TermPrint NL 0x07) s; cmd = cmd_text s;
          go = (\<lambda>r. kbind r (\<lambda>s. Inr (irqs, shell_prompt s)))
      in if strcmp cmd ''help'' = 0 then go (Inr (term_calls help_calls s))
      else if strcmp cmd ''clear'' = 0 then go (Inr (term_call TermClear s))
      else if strcmp cmd ''mem'' = 0 then go (Inr (term_calls (mem_calls s) s))
      else if strcmp cmd ''blkinfo'' = 0 then go (Inr (term_calls (blkinfo_calls s) s))
      else if strcmp cmd ''mounts'' = 0 then go (Inr (term_calls (mounts_calls s) s))
      else if strcmp cmd ''pyfs_sb'' = 0 then go (cmd_pyfs_sb U B s)
      else if strcmp cmd ''uptime'' = 0 then go (Inr (term_calls (uptime_calls (timer_get_ticks (mach s))) s))
      else if strcmp cmd ''time'' = 0 then go (cmd_time D s)
      else execute_more U B D irqs cmd s)"

section \<open>The line editor\<close>

definition set_cmd :: "int \<Rightarrow> char \<Rightarrow> ('h, 'g, 'a) kernel_scheme \<Rightarrow> ('h, 'g, 'a) kernel_scheme" where
  "set_cmd i c s = s\<lparr>cmd_buffer := (cmd_buffer s)[nat i := c]\<rparr>"

text \<open>One turn of the loop of \<^verbatim>\<open>shell_run\<close>, with the character the keyboard delivered.\<close>

definition shell_key ::
    "c_undef \<Rightarrow> 'h bus \<Rightarrow> 'g bus \<Rightarrow> char \<Rightarrow> registers list \<Rightarrow> ('h, 'g, 'a) kernel_scheme \<Rightarrow> ('h, 'g, 'a) shell_result" where
  "shell_key U B D c irqs s =
     (if c = NUL then Inr (irqs, s)
      else if c = CHR 0x0A then execute_command U B D irqs (set_cmd (cmd_idx s) NUL s)
      else if c = CHR 0x08 then
        if cmd_idx s > 0 then
          let s = s\<lparr>cmd_idx := cmd_idx s - 1\<rparr>;
              s = set_cmd (cmd_idx s) NUL s
          in Inr (irqs, term_call (TermPrint [CHR 0x08] 0x07) s)
        else Inr (irqs, s)
      else if cmd_idx s < int CMD_BUF_SIZE - 1 then
        let s = set_cmd (cmd_idx s) c s;
            s = s\<lparr>cmd_idx := cmd_idx s + 1\<rparr>
        in Inr (irqs, term_call (TermPrint [c] 0x0F) s)
      else Inr (irqs, s))"

text \<open>
  The first \<open>n\<close> turns of the endless loop; it waits where the interrupts given have been used up.
\<close>

fun shell_run ::
    "nat \<Rightarrow> c_undef \<Rightarrow> 'h bus \<Rightarrow> 'g bus \<Rightarrow> u8 list list \<Rightarrow> registers list \<Rightarrow> ('h, 'g, 'a) kernel_scheme \<Rightarrow> ('h, 'g, 'a) kernel_scheme kres" where
  "shell_run 0 U B D batches irqs s = Inr s"
| "shell_run (Suc n) U B D batches irqs s =
     (case keyboard_get_char batches (kbd (mach s)) of
        None \<Rightarrow> Inr s
      | Some (c, batches, k) \<Rightarrow>
          kbind (shell_key U B D c irqs (on_mach (\<lambda>m. m\<lparr>kbd := k\<rparr>) s)) (\<lambda>(irqs, s).
            shell_run n U B D batches irqs s))"

end
