(* ===== verification/Boot.thy ===== *)
theory Boot
  imports Shell
begin

text \<open>
  The kernel entry (\<^verbatim>\<open>k_main\<close> of \<^verbatim>\<open>src/kernel/core/main.c\<close>): the order in which the components are brought
  up, the boot file systems, the diagnostics, the interrupt policy, and the shell. The code between
  \<^verbatim>\<open>#if 0\<close> and \<^verbatim>\<open>#endif\<close> is not compiled and not modelled.
\<close>

text \<open>What the linker fixes: the addresses of the interrupt table and of the interrupt entry points.\<close>

record link_map =
  idt_addr :: u32
  isr_stub :: "nat \<Rightarrow> u32"
  irq_stub :: "nat \<Rightarrow> u32"

definition say :: "string \<Rightarrow> 'a kbase_scheme \<Rightarrow> 'a kbase_scheme" where
  "say msg = term_call (TermPrint (msg @ NL) COLOR_WHITE)"

definition warn_rc :: "string \<Rightarrow> int \<Rightarrow> 'a kbase_scheme \<Rightarrow> 'a kbase_scheme" where
  "warn_rc msg rc = term_calls [TermPrint msg COLOR_WHITE, TermPrintHex (word_of_int rc) COLOR_YELLOW, TermPrint ('')'' @ NL) COLOR_WHITE]"

text \<open>Core and hardware initialisation, up to the heap.\<close>

definition boot_core :: "link_map \<Rightarrow> 'g bus \<Rightarrow> ('h, 'g, 'a) kernel_scheme \<Rightarrow> ('h, 'g, 'a) kernel_scheme kres" where
  "boot_core L D s =
     (let s = term_calls [TermClear, TermPrint (''PyramidOS Kernel v0.8 - Storage Test'' @ NL) COLOR_GREEN,
            TermPrint (''------------------------------------'' @ NL) COLOR_WHITE] s
      in kbind (pmm_init 0x5000 s) (\<lambda>s.
        let s = idt_init (idt_addr L) (isr_stub L) (irq_stub L) s;
            s = on_mach (pic_remap D) s
        in kbind (vmm_init s) (\<lambda>s.
          let s = on_mach (timer_init D) (say ''Initializing PIT Timer...'' s);
              s = on_mach (\<lambda>m. m\<lparr>kbd := keyboard_init (kbd m)\<rparr>) (say ''Initializing Keyboard...'' s)
          in heap_init (say ''Initializing Heap...'' s))))"

text \<open>Block devices and partitions.\<close>

definition boot_disks :: "'h bus \<Rightarrow> ('h, 'g, 'a) kernel_scheme \<Rightarrow> ('h, 'g, 'a) kernel_scheme kres" where
  "boot_disks B s =
     (let s = block_init (say ''Initializing Block Layer...'' s);
          (blk_rc, s) = ata_block_register_devices B (say ''Registering ATA Block Devices...'' s);
          s = (if blk_rc \<noteq> BLOCK_SUCCESS then warn_rc ''WARN: ATA block registration failed (rc='' blk_rc s else s);
          s = say ''Scanning MBR Partitions...'' s;
          disk0 = block_get_by_name (Some ''disk0'') s
      in if disk0 \<noteq> Null_dev then
           kbind (mbr_scan_and_register B disk0 (Some ''disk0'') s) (\<lambda>(mbr_rc, s).
             Inr (if mbr_rc \<noteq> 0 then warn_rc ''WARN: MBR scan failed (rc='' mbr_rc s else s))
         else Inr (say ''WARN: disk0 not present; skipping MBR scan'' s))"

text \<open>File systems.\<close>

definition boot_pyfs :: "'h bus \<Rightarrow> ('h, 'g, 'a) kernel_scheme \<Rightarrow> ('h, 'g, 'a) kernel_scheme kres" where
  "boot_pyfs B s =
     (let s = say ''Probing PyFS on disk0p1...'' s; p1 = block_get_by_name (Some ''disk0p1'') s in
      if p1 \<noteq> Null_dev then
        kbind (pyfs_create B p1 True s) (\<lambda>(pyfs_rc, ctx, s).
          let pyfs = (case ctx of None \<Rightarrow> 0 | Some c \<Rightarrow> c) in
          if pyfs_rc = 0 then
            let (vfs_rc, s) = vfs_mount (Some ''/py'') (Some ''pyfs'') (Some PYFS_OPS) pyfs s
            in Inr (if vfs_rc \<noteq> VFS_OK then warn_rc ''WARN: PyFS mount failed (rc='' vfs_rc s else s)
          else Inr (warn_rc ''WARN: PyFS probe failed (rc='' pyfs_rc s))
      else Inr (say ''WARN: disk0p1 not found; skipping PyFS mount'' s))"

definition boot_files :: "'h bus \<Rightarrow> ('h, 'g, 'a) kernel_scheme \<Rightarrow> ('h, 'g, 'a) kernel_scheme kres" where
  "boot_files B s =
     (let s = vfs_init (say ''Initializing VFS...'' s);
          (vfs_rc, s) = vfs_mount (Some ''/'') (Some ''nullfs'') (Some NULLFS_OPS) 0 s
      in if vfs_rc \<noteq> VFS_OK then Inl (Panic (''VFS: mount('' @ [CHR 0x27] @ ''/'' @ [CHR 0x27] @ '') failed''))
      else
        let (vfs_rc, s) = vfs_mount (Some ''/dev'') (Some ''devfs'') (Some DEVFS_OPS) 0 s
        in if vfs_rc \<noteq> VFS_OK then Inl (Panic (''VFS: mount('' @ [CHR 0x27] @ ''/dev'' @ [CHR 0x27] @ '') failed''))
        else boot_pyfs B s)"

text \<open>Diagnostics, interrupt policy and the shell.\<close>

definition boot_finish :: "'h bus \<Rightarrow> 'g bus \<Rightarrow> ('h, 'g, 'a) kernel_scheme \<Rightarrow> ('h, 'g, 'a) kernel_scheme kres" where
  "boot_finish B D s =
     kbind (selftest_run_all B s) (\<lambda>s.
       let s = on_mach (\<lambda>m. pic_clear_mask D 1 (pic_clear_mask D 0 (pic_disable D m))) s;
           s = on_mach (\<lambda>m. m\<lparr>kbd := (kbd m)\<lparr>int_flag := True\<rparr>\<rparr>) s
       in Inr (shell_init s))"

definition k_boot :: "link_map \<Rightarrow> 'h bus \<Rightarrow> 'g bus \<Rightarrow> ('h, 'g, 'a) kernel_scheme \<Rightarrow> ('h, 'g, 'a) kernel_scheme kres" where
  "k_boot L B D s =
     kbind (boot_core L D s) (\<lambda>s. kbind (boot_disks B s) (\<lambda>s. kbind (boot_files B s) (boot_finish B D)))"

text \<open>The whole of \<^verbatim>\<open>k_main\<close>, with \<open>n\<close> turns of the shell.\<close>

definition k_main ::
    "nat \<Rightarrow> c_undef \<Rightarrow> link_map \<Rightarrow> 'h bus \<Rightarrow> 'g bus \<Rightarrow> u8 list list \<Rightarrow> registers list \<Rightarrow> ('h, 'g, 'a) kernel_scheme \<Rightarrow>
      ('h, 'g, 'a) kernel_scheme kres" where
  "k_main n U L B D batches irqs s = kbind (k_boot L B D s) (shell_run n U B D batches irqs)"

end
