(* ===== verification/Disk_Correct.thy ===== *)
theory Disk_Correct
  imports Disk_Spec
begin

text \<open>
  The properties of the block layer: reads through partitions, the scan of a partition table, and the
  registration of the ATA disks, with the example machines that show them at work.
\<close>

section \<open>Properties\<close>

text \<open>
  The machine of the examples with its first disk registered, and one where a partition of 100 sectors
  from block 63 on is registered as well.
\<close>

definition sample_disk1 :: "((u16 \<times> u8) list \<times> u16 list) disk_state" where
  "sample_disk1 = sample_disk\<lparr>g_devices := G_disk0 # replicate 7 Null_dev, g_device_count := 1\<rparr>"

definition sample_heap2 :: heap_state where
  "sample_heap2 = snd (projr (kmalloc 12 (snd (projr (kmalloc 48 sample_heap)))))"

definition sample_disk2 :: "((u16 \<times> u8) list \<times> u16 list) disk_state" where
  "sample_disk2 = sample_disk\<lparr>heap_mem := heap_mem sample_heap2,
     part_at := (part_at sample_disk)(0xD0000058 := \<lparr>parent = G_disk0, base_lba = 63, sector_count = 100\<rparr>),
     dev_at := (dev_at sample_disk)(Heap_dev 0xD0000014 := \<lparr>bd_name = ''disk0p1'', bd_sector_size = 512, bd_ctx = 0xD0000058,
       bd_read = Mbr_partition_read, bd_write = Mbr_partition_write\<rparr>),
     g_devices := G_disk0 # Heap_dev 0xD0000014 # replicate 6 Null_dev, g_device_count := 2\<rparr>"

lemma sample_disk1_inv: "disk_inv sample_disk1" "registered sample_disk1 = [G_disk0]"
proof -
  have h: "heap_inv sample_disk1"
    using heap_cong [of sample_disk1 sample_heap] sample_heap_inv(1)
    by (simp add: sample_disk1_def sample_disk_def heap_state.defs)
  show r: "registered sample_disk1 = [G_disk0]" by (simp add: registered_def sample_disk1_def)
  have "reg_inv sample_disk1"
    unfolding reg_inv_def r
    by (auto simp: sample_disk1_def sample_disk_def heap_state.defs dev_name_def usable_def sample_dev_def NUL_def split: dptr.split)
  moreover have "dev_links sample_disk1 [] G_disk0"
    by (simp add: dev_links_def sample_disk1_def sample_disk_def heap_state.defs sample_dev_def)
  moreover have "ata_inv (ata sample_disk1)"
    by (simp add: ata_inv_def sample_disk1_def sample_disk_def heap_state.defs sample_ata_def)
  ultimately show "disk_inv sample_disk1" using h r by (simp add: disk_inv_def)
qed

lemma sample_heap2_inv:
  "heap_inv sample_heap2" "live sample_heap2 = {(0xD0000014, 48), (0xD0000058, 12)}" "start_header sample_heap2 = HEAP_START_ADDR"
  "heap_abs sample_heap2 = [(48, False), (12, False), (1048456, True)]"
proof -
  have n: "0 < unat (48 :: u32)" "unat (48 :: u32) \<le> 1048556" "round4 48 = 48"
    "0 < unat (12 :: u32)" "unat (12 :: u32) \<le> 1048556" "round4 12 = 12"
    by (simp_all add: round4_def)
  define s1 where "s1 = snd (projr (kmalloc 48 sample_heap))"
  have 1: "heap_inv s1 \<and> heap_abs s1 = [(48, False), (1048488, True)]"
    using kmalloc_refines [OF sample_heap_inv(1) n(1,2)]
    by cases (auto simp: n(3) sample_heap_inv(2) s1_def)
  have 2: "heap_inv sample_heap2 \<and> heap_abs sample_heap2 = [(48, False), (12, False), (1048456, True)]"
    using kmalloc_refines [OF conjunct1 [OF 1] n(4,5)]
    by cases (auto simp: n(6) 1 sample_heap2_def simp flip: s1_def)
  then show "heap_inv sample_heap2" "live sample_heap2 = {(0xD0000014, 48), (0xD0000058, 12)}"
    by (auto simp: live_def)
  show "start_header sample_heap2 = HEAP_START_ADDR" using 2 by (simp add: heap_inv_def)
  show "heap_abs sample_heap2 = [(48, False), (12, False), (1048456, True)]" using 2 by simp
qed

lemma sample_disk2_inv: "disk_inv sample_disk2" "registered sample_disk2 = [G_disk0, Heap_dev 0xD0000014]"
proof -
  have h: "heap_inv sample_disk2" "live sample_disk2 = {(0xD0000014, 48), (0xD0000058, 12)}"
    using heap_cong [of sample_disk2 sample_heap2] sample_heap2_inv
    by (simp_all add: sample_disk2_def sample_disk_def heap_state.defs sample_heap_def)
  show r: "registered sample_disk2 = [G_disk0, Heap_dev 0xD0000014]" by (simp add: registered_def sample_disk2_def)
  have "reg_inv sample_disk2"
    unfolding reg_inv_def r
    by (auto simp: sample_disk2_def sample_disk_def heap_state.defs dev_name_def usable_def sample_dev_def NUL_def split: dptr.split)
  moreover have "dev_links sample_disk2 [] G_disk0" "dev_links sample_disk2 [G_disk0] (Heap_dev 0xD0000014)"
    using h(2) by (simp_all add: dev_links_def object_at_def) (simp_all add: sample_disk2_def sample_disk_def heap_state.defs sample_dev_def)
  moreover have "ata_inv (ata sample_disk2)"
    by (simp add: ata_inv_def sample_disk2_def sample_disk_def heap_state.defs sample_ata_def)
  ultimately show "disk_inv sample_disk2" using h(1) r by (simp add: disk_inv_def)
qed

text \<open>
  C23. A read through a registered partition reads block \<open>base + lba\<close> of the parent device, and only if
  \<open>lba\<close> lies inside the partition and the sum does not overflow: the block read then lies between the
  first and the last block of the partition. Every other read is an error that causes no access to the
  disk. Either way the read returns, however long the chain of parents is.
\<close>

theorem partition_read_confined:
  assumes "disk_inv s" "Heap_dev p \<in> set (registered s)" "ctx = part_at s (bd_ctx (dev_at s (Heap_dev p)))"
    and "0 < sector_count ctx"
  shows "(if unat lba < unat (sector_count ctx) \<and> unat (base_lba ctx) + unat lba < 2 ^ 32
     then dev_read B (Heap_dev p) lba True s = dev_read B (parent ctx) (base_lba ctx + lba) True s \<and>
       unat (base_lba ctx) \<le> unat (base_lba ctx + lba) \<and>
       unat (base_lba ctx + lba) < unat (base_lba ctx) + unat (sector_count ctx)
     else dev_read B (Heap_dev p) lba True s = Some (BLOCK_ERROR, [], s)) \<and>
    dev_read B (Heap_dev p) lba True s \<noteq> None"
proof -
  have chain: "dev_chain s [] (registered s)" and reg: "reg_inv s" using assms(1) by (simp_all add: disk_inv_def)
  obtain xs where l: "dev_links s xs (Heap_dev p)" "set xs \<subseteq> set (registered s)"
    using dev_chain_links [OF chain assms(2)] by auto
  then have d: "bd_read (dev_at s (Heap_dev p)) = Mbr_partition_read" "bd_ctx (dev_at s (Heap_dev p)) \<noteq> 0"
    "parent ctx \<in> set (registered s)" using assms(3) by (auto simp: dev_links_def)
  then have u: "parent ctx \<noteq> Null_dev" "bd_read (dev_at s (parent ctx)) \<noteq> No_read"
    using reg by (auto simp: reg_inv_def usable_def)
  have "unat lba \<le> 4294967295" using unat_u32_less [of lba] by linarith
  then have sum: "0xFFFFFFFF - lba < base_lba ctx \<longleftrightarrow> 2 ^ 32 \<le> unat (base_lba ctx) + unat lba"
    by (auto simp: word_less_nat_alt unat_sub_if_size word_size)
  have nz: "sector_count ctx \<noteq> 0" using assms(4) by auto
  have t: "mbr_partition_target (Heap_dev p) lba True s =
      (if unat lba < unat (sector_count ctx) \<and> unat (base_lba ctx) + unat lba < 2 ^ 32
       then Some (parent ctx, base_lba ctx + lba) else None)"
    using d u assms(3) nz sum
    by (simp add: mbr_partition_target_def Let_def word_le_nat_alt word_less_nat_alt not_less)
  have "unat (base_lba ctx + lba) = unat (base_lba ctx) + unat lba" if "unat (base_lba ctx) + unat lba < 2 ^ 32"
    using that by (simp add: unat_plus_if_size word_size)
  moreover have "read_returns B s (Heap_dev p)" using assms(1,2) by (rule read_registered)
  then have "dev_read B (Heap_dev p) lba True s \<noteq> None" unfolding read_returns_def by (metis option.distinct(1))
  ultimately show ?thesis
    by (simp add: dev_read.simps [of B "Heap_dev p"] d(1) t)
qed

theorem partition_read_confined_witness:
  "dev_read sample_bus (Heap_dev 0xD0000014) 99 True sample_disk2 = dev_read sample_bus G_disk0 162 True sample_disk2 \<and>
   dev_read sample_bus (Heap_dev 0xD0000014) 100 True sample_disk2 = Some (BLOCK_ERROR, [], sample_disk2)"
proof -
  have c: "\<lparr>parent = G_disk0, base_lba = 63, sector_count = 100\<rparr> = part_at sample_disk2 (bd_ctx (dev_at sample_disk2 (Heap_dev 0xD0000014)))"
    by (simp add: sample_disk2_def)
  have m: "Heap_dev 0xD0000014 \<in> set (registered sample_disk2)" by (simp add: sample_disk2_inv)
  show ?thesis
    using partition_read_confined [OF sample_disk2_inv(1) m c, of 99 sample_bus]
      partition_read_confined [OF sample_disk2_inv(1) m c, of 100 sample_bus] by simp
qed

lemma mbr_scan_result:
  assumes "disk_inv s" "disk \<in> set (registered s)" "cstring name" "name \<noteq> []"
  shows "\<exists>rc s'. mbr_scan_and_register B disk (Some name) s = Inr (rc, s') \<and> disk_inv s' \<and>
    (if bd_sector_size (dev_at s disk) \<noteq> 512
     then rc = MBR_ERR_NOT_SUPPORTED \<and> s' = s
     else (\<exists>brc mbr s1. dev_read B disk 0 True s = Some (brc, mbr, s1) \<and>
       (if brc \<noteq> BLOCK_SUCCESS then rc = MBR_ERR_IO \<and> s' = s1
        else if mbr ! 510 \<noteq> 0x55 \<or> mbr ! 511 \<noteq> 0xAA then rc = MBR_ERR_BAD_SIGNATURE \<and> s' = s1
        else scan_result disk name mbr [0..<4] s1 rc s') \<and>
       registered s1 = registered s \<and> live s1 = live s))"
proof (cases "bd_sector_size (dev_at s disk) = 512")
  case True
  have reg: "reg_inv s" using assms(1) by (simp add: disk_inv_def)
  then have u: "disk \<noteq> Null_dev" "bd_read (dev_at s disk) \<noteq> No_read" using assms(2) by (auto simp: reg_inv_def usable_def)
  obtain brc mbr s1 where r: "dev_read B disk 0 True s = Some (brc, mbr, s1)"
    using read_registered [OF assms(1,2), of B] unfolding read_returns_def by blast
  note I = dev_read_inv [OF assms(1,2) r]
  have same: "registered s1 = registered s" "live s1 = live s"
    using reg_cong [of s1 s] heap_cong [of s1 s] arg_cong [OF I(2), of g_devices] arg_cong [OF I(2), of g_device_count]
      arg_cong [OF I(2), of dev_at] arg_cong [OF I(2), of start_header] arg_cong [OF I(2), of heap_mem] by simp_all
  have "\<exists>rc s'. mbr_entries disk name mbr [0..<4] s1 = Inr (rc, s') \<and> scan_result disk name mbr [0..<4] s1 rc s'"
    using I(1) assms(2,3) same by (intro mbr_entries_result) auto
  moreover have "scan_result disk name mbr [0..<4] s1 rc s' \<Longrightarrow> disk_inv s'" for rc s' by (simp add: scan_result_def)
  ultimately show ?thesis
    using r same u True assms(4) I(1) by (auto simp: mbr_scan_and_register_def)
next
  case False
  have "disk \<noteq> Null_dev" "bd_read (dev_at s disk) \<noteq> No_read"
    using assms(1,2) by (auto simp: disk_inv_def reg_inv_def usable_def)
  with False show ?thesis using assms(1,4) by (simp add: mbr_scan_and_register_def)
qed

text \<open>
  C24. Scanning a registered disk always returns. If the disk cannot be read, or has no signature, or
  does not have sectors of 512 bytes, nothing is registered and no memory is kept. Otherwise the scan
  registers, after the devices that were there and in the order of the table, exactly the primary
  partitions of the table, each with the extent, the parent and the name its entry calls for; the
  memory it keeps is two objects for each of them. It stops early only with the code for lack of space,
  and only at a partition that the final state cannot take: the free blocks of the heap do not hold its
  two structures, or the registry is full, or (the code reports this as lack of space as well) a device
  of its name exists. Then the partitions registered are those before it and the memory of the one that
  failed has been released. No device registered before changes.
\<close>

theorem mbr_scan_registers:
  assumes "disk_inv s" "disk \<in> set (registered s)" "cstring name" "name \<noteq> []"
  shows "\<exists>rc s'. mbr_scan_and_register B disk (Some name) s = Inr (rc, s') \<and> disk_inv s' \<and>
    (if bd_sector_size (dev_at s disk) \<noteq> 512
     then rc = MBR_ERR_NOT_SUPPORTED \<and> s' = s
     else (\<exists>brc mbr s1. dev_read B disk 0 True s = Some (brc, mbr, s1) \<and>
       (if brc \<noteq> BLOCK_SUCCESS then rc = MBR_ERR_IO \<and> s' = s1
        else if mbr ! 510 \<noteq> 0x55 \<or> mbr ! 511 \<noteq> 0xAA then rc = MBR_ERR_BAD_SIGNATURE \<and> s' = s1
        else scan_result disk name mbr [0..<4] s1 rc s') \<and>
       registered s1 = registered s \<and> live s1 = live s))"
  using assms by (rule mbr_scan_result)

text \<open>A disk whose table describes one partition of type 0x83, and one of the extended type 0x05.\<close>

definition mbr_image :: "int \<Rightarrow> u32 \<Rightarrow> u16 list" where
  "mbr_image d l = (if l = 0 then replicate 223 0 @ [0, 0, 0x83, 0, 63, 0, 100, 0] @ [0, 0, 0x05, 0, 200, 0, 50, 0] @
     replicate 16 0 @ [0xAA55] else replicate 256 0)"

definition mbr_bus :: "((u16 \<times> u8) list \<times> u16 list) bus" where
  "mbr_bus = disk_bus mbr_image 2048"

lemma mbr_bus_read: "\<exists>s'. dev_read mbr_bus G_disk0 0 True sample_disk1 = Some (BLOCK_SUCCESS, le_bytes (mbr_image 0 0), s')"
proof -
  have r: "ata_refusal 0 0 True sample_ata = None"
    by (simp add: ata_refusal_def sample_ata_def ata_valid_drive_def ata_is_present_def ata_get_lba28_sectors_def)
  have "length (mbr_image 0 0) = 256" by (simp add: mbr_image_def)
  from disk_bus_read [where img = mbr_image and n = 2048, OF r this] obtain a where
    "ata_read_sector mbr_bus 0 0 True sample_ata = (ATA_OK, le_bytes (mbr_image 0 0), a)" unfolding mbr_bus_def by blast
  then show ?thesis
    by (simp add: dev_read.simps ata_block_read_def sample_disk1_def sample_disk_def heap_state.defs sample_dev_def)
qed

lemma mbr_image_bytes:
  "le_bytes (mbr_image 0 0) ! 510 = 0x55" "le_bytes (mbr_image 0 0) ! 511 = 0xAA"
  "mbr_primary ''disk0'' (le_bytes (mbr_image 0 0)) [0..<4] = [0]"
proof -
  have l: "length (mbr_image 0 0) = 256" by (simp add: mbr_image_def)
  have n: "le_bytes (mbr_image 0 0) ! (2 * k) = ucast (mbr_image 0 0 ! k)"
    "le_bytes (mbr_image 0 0) ! (2 * k + 1) = ucast (drop_bit 8 (mbr_image 0 0 ! k))" if "k < 256" for k
    using le_bytes_nth [of k "mbr_image 0 0"] that l by auto
  show "le_bytes (mbr_image 0 0) ! 510 = 0x55" "le_bytes (mbr_image 0 0) ! 511 = 0xAA"
    using n [of 255] by (simp_all add: mbr_image_def nth_append)
  have w: "mbr_image 0 0 ! 225 = 0x83" "mbr_image 0 0 ! 229 = 100" "mbr_image 0 0 ! 230 = 0" "mbr_image 0 0 ! 233 = 0x05"
    "mbr_image 0 0 ! 241 = 0" "mbr_image 0 0 ! 249 = 0"
    by (simp_all add: mbr_image_def nth_append)
  have v: "le_bytes (mbr_image 0 0) ! 450 = 0x83" "le_bytes (mbr_image 0 0) ! 466 = 0x05" "le_bytes (mbr_image 0 0) ! 482 = 0"
    "le_bytes (mbr_image 0 0) ! 498 = 0" "le_bytes (mbr_image 0 0) ! 458 = 100" "le_bytes (mbr_image 0 0) ! 459 = 0"
    "le_bytes (mbr_image 0 0) ! 460 = 0" "le_bytes (mbr_image 0 0) ! 461 = 0"
    using n [of 225] n [of 233] n [of 241] n [of 249] n [of 229] n [of 230] by (simp_all add: w)
  have "mbr_valid (le_bytes (mbr_image 0 0)) 0" "\<not> mbr_valid (le_bytes (mbr_image 0 0)) 1"
    "\<not> mbr_valid (le_bytes (mbr_image 0 0)) 2" "\<not> mbr_valid (le_bytes (mbr_image 0 0)) 3"
    by (simp_all add: mbr_valid_def mbr_read_u32_le_def v)
  moreover have "[0..<4] = [0, 1, 2, 3 :: nat]" by (simp add: upt_rec)
  ultimately show "mbr_primary ''disk0'' (le_bytes (mbr_image 0 0)) [0..<4] = [0]"
    by (simp add: mbr_primary_def)
qed

lemma empty_heap_room:
  assumes "heap_inv s" "live s = {}"
  shows "partition_room (heap_abs s)"
proof -
  have "payloads 0xD0000000 (heap_abs s) = []" using assms(2) by (simp add: live_def)
  then obtain z where "heap_abs s = [(z, True)]"
    using no_payload_single heap_invD(5) [OF assms(1)] heap_wf_nonempty [OF heap_invD(2) [OF assms(1)]] by blast
  with heap_invD(4) [OF assms(1)] show ?thesis by (simp add: partition_room_def)
qed

theorem mbr_scan_registers_witness:
  "\<exists>s'. mbr_scan_and_register mbr_bus G_disk0 (Some ''disk0'') sample_disk1 = Inr (MBR_OK, s') \<and>
     map (dev_name s') (registered s') = [''disk0'', ''disk0p1''] \<and> card (live s') = 2"
proof -
  have d: "G_disk0 \<in> set (registered sample_disk1)" "cstring ''disk0''" "bd_sector_size (dev_at sample_disk1 G_disk0) = 512"
    "dev_name sample_disk1 G_disk0 = ''disk0''"
    by (simp_all add: sample_disk1_inv NUL_def dev_name_def) (simp_all add: sample_disk1_def sample_disk_def heap_state.defs sample_dev_def)
  have l0: "live sample_disk1 = {}"
    using heap_cong(3) [of sample_disk1 sample_heap] sample_heap_inv(2)
    by (simp add: live_def sample_disk1_def sample_disk_def heap_state.defs)
  obtain s1 where r: "dev_read mbr_bus G_disk0 0 True sample_disk1 = Some (BLOCK_SUCCESS, le_bytes (mbr_image 0 0), s1)"
    using mbr_bus_read by blast
  obtain rc s' where s': "mbr_scan_and_register mbr_bus G_disk0 (Some ''disk0'') sample_disk1 = Inr (rc, s')" "disk_inv s'"
      "scan_result G_disk0 ''disk0'' (le_bytes (mbr_image 0 0)) [0..<4] s1 rc s'" "registered s1 = [G_disk0]" "live s1 = {}"
    using mbr_scan_registers [OF sample_disk1_inv(1) d(1,2), of mbr_bus] r
    by (auto simp: d(3) mbr_image_bytes sample_disk1_inv(2) l0)
  have "dev_at s1 = dev_at sample_disk1"
    using dev_read_inv(2) [OF sample_disk1_inv(1) d(1) r] by (metis disk_state.select_convs(2) disk_state.surjective disk_state.update_convs(1))
  then have "dev_name s1 G_disk0 = ''disk0''" using d(4) by (simp add: dev_name_def)
  moreover have "dev_view s' G_disk0 = dev_view s1 G_disk0" using s'(3,4) by (simp add: scan_result_def)
  ultimately have n: "dev_name s' G_disk0 = ''disk0''" by (simp add: dev_view_def dev_name_def)
  from s'(3) [unfolded scan_result_def mbr_image_bytes(3) s'(4,5)] obtain ds where
    ds: "registered s' = G_disk0 # ds" "card (live s') = 2 * length ds" "finite (live s')"
      "list_all2 (is_partition s' G_disk0 ''disk0'' (le_bytes (mbr_image 0 0))) (take (length ds) [0]) ds"
      "rc = MBR_OK \<and> length ds = 1 \<or> rc = MBR_ERR_NO_SPACE \<and> length ds = 0 \<and> no_room ''disk0'' 0 s'" by auto
  have "\<not> no_room ''disk0'' 0 s'" if "length ds = 0"
    using that ds(1-3) n empty_heap_room [of s'] s'(2) by (simp add: no_room_def disk_inv_def)
  with ds(5) have ok: "rc = MBR_OK" "length ds = 1" by auto
  then obtain d where "ds = [d]" by (auto simp: length_Suc_conv)
  moreover have "digit_char 1 = CHR ''1''" by code_simp
  ultimately have "map (dev_name s') (registered s') = [''disk0'', ''disk0p1'']" using ds(1,4) n by (auto simp: is_partition_def dev_name_def)
  with s'(1) ds(2) ok show ?thesis by auto
qed

text \<open>Every registered device has sectors of 512 bytes.\<close>

definition sectors_512 :: "('h, 'a) disk_state_scheme \<Rightarrow> bool" where
  "sectors_512 s \<longleftrightarrow> (\<forall>d \<in> set (registered s). bd_sector_size (dev_at s d) = 512)"

lemma scan_sectors:
  assumes "scan_result disk name mbr is s rc t" "disk \<in> set (registered s)" "sectors_512 s"
  shows "sectors_512 t"
proof -
  obtain ds where ds: "registered t = registered s @ ds"
      "list_all2 (\<lambda>i d. is_partition t disk name mbr i d) (take (length ds) (mbr_primary name mbr is)) ds"
    and v: "\<And>d. d \<in> set (registered s) \<Longrightarrow> dev_view t d = dev_view s d"
    using assms(1) unfolding scan_result_def by blast
  have old: "bd_sector_size (dev_at t d) = 512" if "d \<in> set (registered s)" for d
    using v [OF that] assms(3) that by (simp add: dev_view_def sectors_512_def)
  have "bd_sector_size (dev_at t d) = 512" if "d \<in> set ds" for d
  proof -
    have "\<exists>i. is_partition t disk name mbr i d" using ds(2) that by (induction rule: list_all2_induct) auto
    then obtain c n p where "dev_at t d = \<lparr>bd_name = n, bd_sector_size = bd_sector_size (dev_at t disk), bd_ctx = c,
        bd_read = Mbr_partition_read, bd_write = p\<rparr>"
      unfolding is_partition_def by blast
    from arg_cong [OF this, of bd_sector_size] old [OF assms(2)] show ?thesis by simp
  qed
  with old show ?thesis by (auto simp: sectors_512_def ds(1))
qed

text \<open>
  Registering the ATA disks on an empty registry follows the naming policy of the code: the master
  is \<^verbatim>\<open>disk0\<close> and the slave \<^verbatim>\<open>disk1\<close>, and a slave without a master becomes \<^verbatim>\<open>disk0\<close>; the context
  of \<^verbatim>\<open>disk0\<close> is the number of the drive it stands for. It fails exactly if no drive answers. The block
  layer is consistent afterwards.
\<close>

theorem ata_block_devices_named:
  assumes "disk_inv s" "registered s = []" "dev_at s G_disk0 = g_disk0" "dev_at s G_disk1 = g_disk1"
  shows "\<exists>rc s'. ata_block_register_devices B s = (rc, s') \<and> disk_inv s' \<and> ata s' = ata_init B (ata s) \<and> sectors_512 s' \<and>
    (let master = ata_is_present 0 (ata s'); slave = ata_is_present 1 (ata s') in
     rc = (if master \<or> slave then BLOCK_SUCCESS else BLOCK_ERROR) \<and>
     map (dev_name s') (registered s') =
       (if master \<and> slave then [''disk0'', ''disk1''] else if master \<or> slave then [''disk0''] else []) \<and>
     (master \<or> slave \<longrightarrow> block_get_by_name (Some ''disk0'') s' = G_disk0 \<and>
       dev_at s' G_disk0 = g_disk0\<lparr>bd_ctx := if master then 0 else 1\<rparr>) \<and>
     (master \<and> slave \<longrightarrow> block_get_by_name (Some ''disk1'') s' = G_disk1 \<and> bd_ctx (dev_at s' G_disk1) = 1))"
proof -
  define a where "a = ata_init B (ata s)"
  define m sl where "m = ata_is_present 0 a" and "sl = ata_is_present 1 a"
  have "ata_inv a" using ata_init_result [of "ata s" B] assms(1) by (simp add: a_def disk_inv_def ata_inv_def)
  then have s0: "disk_inv (s\<lparr>ata := a\<rparr>)" using assms(1) by (intro disk_inv_ata)
  have c0: "g_device_count s = 0" "length (g_devices s) = 8"
    using assms(1,2) length_registered [of s] by (auto simp: disk_inv_def reg_inv_def)
  define s1 where "s1 = set_disk0_ctx (if m then 0 else 1) (s\<lparr>ata := a\<rparr>)"
  have s1: "disk_inv s1" using s0 assms(3) heap_cong [of s1 "s\<lparr>ata := a\<rparr>"] c0(1)
    by (auto simp: s1_def set_disk0_ctx_def disk_inv_def reg_inv_def registered_def dev_name_def g_disk0_def NUL_def)
  define s2 where "s2 = s1\<lparr>g_devices := (g_devices s1)[0 := G_disk0], g_device_count := 1\<rparr>"
  define s3 where "s3 = s2\<lparr>g_devices := (g_devices s2)[1 := G_disk1], g_device_count := 2\<rparr>"
  have d: "dev_at s1 G_disk0 = g_disk0\<lparr>bd_ctx := if m then 0 else 1\<rparr>" "dev_at s1 G_disk1 = g_disk1" "g_device_count s1 = 0"
    "length (g_devices s1) = 8" "ata s1 = a"
    using assms(3,4) c0 by (simp_all add: s1_def set_disk0_ctx_def)
  have r2: "block_register G_disk0 s1 = (BLOCK_SUCCESS, s2)"
    using d by (simp add: block_register_def s2_def g_disk0_def)
  have r3: "block_register G_disk1 s2 = (BLOCK_SUCCESS, s3)"
    using d by (simp add: block_register_def block_slot_named_def s2_def s3_def g_disk0_def g_disk1_def)
  have reg: "reg_inv s2" "reg_inv s3" "registered s2 = [G_disk0]" "registered s3 = [G_disk0, G_disk1]"
    using block_register_success [OF _ r2] block_register_success [OF _ r3] s1 d(3) by (simp_all add: disk_inv_def registered_def)
  have "heap_inv s2 = heap_inv s1" "heap_inv s3 = heap_inv s1" by (rule heap_cong; simp add: s2_def s3_def)+
  then have I: "disk_inv s2" "disk_inv s3"
    using s1 reg d by (auto simp: disk_inv_def dev_links_def s2_def s3_def g_disk0_def g_disk1_def)
  have run: "ata_block_register_devices B s =
      (if m \<and> sl then (BLOCK_SUCCESS, s3) else if m \<or> sl then (BLOCK_SUCCESS, s2) else (BLOCK_ERROR, s\<lparr>ata := a\<rparr>))"
    using r2 r3 unfolding ata_block_register_devices_def s1_def
    by (cases m; cases sl) (simp_all add: m_def sl_def a_def)
  have x: "dev_name s2 G_disk0 = ''disk0''" "dev_name s3 G_disk0 = ''disk0''" "dev_name s3 G_disk1 = ''disk1''"
    "block_get_by_name (Some ''disk0'') s2 = G_disk0" "block_get_by_name (Some ''disk0'') s3 = G_disk0"
    "block_get_by_name (Some ''disk1'') s3 = G_disk1" "ata s2 = a" "ata s3 = a"
    "dev_at s2 G_disk0 = g_disk0\<lparr>bd_ctx := if m then 0 else 1\<rparr>" "dev_at s3 G_disk0 = g_disk0\<lparr>bd_ctx := if m then 0 else 1\<rparr>"
    "bd_ctx (dev_at s3 G_disk1) = 1"
    using d by (simp_all add: s2_def s3_def dev_name_def block_get_by_name_def block_slot_named_def g_disk0_def g_disk1_def upt_rec)
  have z: "registered (s\<lparr>ata := a\<rparr>) = []" using c0 by (simp add: registered_def)
  have "sectors_512 s2" "sectors_512 s3" "sectors_512 (s\<lparr>ata := a\<rparr>)"
    unfolding sectors_512_def reg z using d by (simp_all add: s2_def s3_def g_disk0_def g_disk1_def)
  with z show ?thesis
    using I s0 reg x unfolding run Let_def by (auto simp: m_def sl_def simp flip: a_def)
qed

theorem ata_block_devices_named_witness:
  "\<exists>rc s'. ata_block_register_devices sample_bus sample_disk = (rc, s') \<and> disk_inv s' \<and> ata s' = ata_init sample_bus sample_ata"
proof -
  have h: "heap_inv sample_disk"
    using heap_cong [of sample_disk sample_heap] sample_heap_inv(1) by (simp add: sample_disk_def heap_state.defs)
  have "disk_inv sample_disk"
    using h sample_disk_reg by (simp add: disk_inv_def ata_inv_def) (simp add: sample_disk_def heap_state.defs sample_ata_def)
  moreover have "dev_at sample_disk G_disk0 = g_disk0" "dev_at sample_disk G_disk1 = g_disk1" "ata sample_disk = sample_ata"
    by (simp_all add: sample_disk_def heap_state.defs sample_dev_def g_disk0_def g_disk1_def)
  ultimately show ?thesis using ata_block_devices_named [of sample_disk sample_bus] sample_disk_reg(2) by (simp add: Let_def) blast
qed

end
