(* ===== verification/VFS_Mounts.thy ===== *)
theory VFS_Mounts
  imports VFS Disk_Correct
begin

text \<open>
  The mount table: which mount a path belongs to. The search of the code is proved equal to the
  longest-prefix rule, stated over path components rather than characters.
\<close>

section \<open>Matching\<close>

text \<open>
  A path lies under a mountpoint if it is the mountpoint or continues it with a slash; every absolute
  path lies under the root.
\<close>

definition is_under :: "string \<Rightarrow> string \<Rightarrow> bool" where
  "is_under m p \<longleftrightarrow> (if m = [SLASH] then \<exists>q. p = SLASH # q else m \<noteq> [] \<and> (p = m \<or> (\<exists>q. p = m @ SLASH # q)))"

lemma matches_is_under:
  assumes "cstring m" "cstring p"
  shows "vfs_mountpoint_matches (Some m) (Some p) \<longleftrightarrow> is_under m p"
proof (cases "m = [SLASH]")
  case True
  then show ?thesis by (cases p) (auto simp: vfs_mountpoint_matches_def is_under_def)
next
  case False
  have "strncmp p m (length m) = 0 \<longleftrightarrow> take (length m) p = m" using strncmp_prefix [OF assms(2,1)] .
  moreover have "take (length m) p = m \<longleftrightarrow> (\<exists>q. p = m @ q)" by (metis append_eq_conv_conj append_take_drop_id)
  ultimately show ?thesis
    using False by (auto simp: vfs_mountpoint_matches_def is_under_def Let_def nth_append split: list.splits)
      (metis append_Nil2 length_0_conv neq_Nil_conv nth_Cons_0 append.right_neutral diff_self_eq_0 nth_append_length)+
qed

lemma is_under_Cons: "is_under m p \<Longrightarrow> m \<noteq> []"
  by (auto simp: is_under_def split: if_splits)

text \<open>The rest of the path below the mountpoint.\<close>

definition below :: "string \<Rightarrow> string \<Rightarrow> string" where
  "below m p = (if m = [SLASH] then drop 1 p else drop (length m + 1) p)"

section \<open>The search\<close>

definition candidates :: "vfs_mount list \<Rightarrow> string \<Rightarrow> nat set" where
  "candidates ms p = {i. i < length ms \<and> m_used (ms ! i) \<and> is_under (m_mountpoint (ms ! i)) p}"

text \<open>
  What the loop has found after a prefix of the table: the first of the longest matching mountpoints.
\<close>

definition best_of :: "vfs_mount list \<Rightarrow> string \<Rightarrow> int \<times> nat \<Rightarrow> bool" where
  "best_of ms p b \<longleftrightarrow>
     (if candidates ms p = {} then b = (- 1, 0)
      else \<exists>i \<in> candidates ms p. b = (int i, length (m_mountpoint (ms ! i))) \<and>
        (\<forall>j \<in> candidates ms p. length (m_mountpoint (ms ! j)) \<le> length (m_mountpoint (ms ! i))))"

lemma candidates_snoc:
  "candidates (ms @ [m]) p = candidates ms p \<union> (if m_used m \<and> is_under (m_mountpoint m) p then {length ms} else {})"
  by (auto simp: candidates_def nth_append less_Suc_eq)

lemma candidates_nth: "i \<in> candidates ms p \<Longrightarrow> (ms @ xs) ! i = ms ! i"
  by (simp add: candidates_def nth_append)

lemma best_of_step:
  assumes b: "best_of ms p b" and "cstring (m_mountpoint m)" "cstring p"
  shows "best_of (ms @ [m]) p
    (if \<not> m_used m then b
     else if \<not> vfs_mountpoint_matches (Some (m_mountpoint m)) (Some p) then b
     else let mlen = length (m_mountpoint m) in if mlen > snd b then (int (length ms), mlen) else b)"
proof (cases "m_used m \<and> is_under (m_mountpoint m) p")
  case False
  then have "candidates (ms @ [m]) p = candidates ms p" by (auto simp: candidates_snoc)
  with False b show ?thesis
    using assms(2,3) by (auto simp: best_of_def matches_is_under candidates_nth)
next
  case True
  let ?l = "length (m_mountpoint m)" and ?n = "length ms"
  have C: "candidates (ms @ [m]) p = insert ?n (candidates ms p)" using True by (simp add: candidates_snoc)
  have "0 < ?l" using True is_under_Cons by auto
  have nth: "i \<in> candidates ms p \<Longrightarrow> (ms @ [m]) ! i = ms ! i" for i by (rule candidates_nth)
  have "best_of (ms @ [m]) p (if ?l > snd b then (int ?n, ?l) else b)"
  proof (cases "candidates ms p = {}")
    case empty: True
    with b have "b = (- 1, 0)" by (simp add: best_of_def)
    with \<open>0 < ?l\<close> show ?thesis by (simp add: best_of_def C empty)
  next
    case False
    with b obtain i where i: "i \<in> candidates ms p" "b = (int i, length (m_mountpoint (ms ! i)))"
      "\<forall>j \<in> candidates ms p. length (m_mountpoint (ms ! j)) \<le> length (m_mountpoint (ms ! i))"
      by (auto simp: best_of_def)
    show ?thesis
    proof (cases "?l > snd b")
      case True
      with i nth show ?thesis by (force simp: best_of_def C)
    next
      case False
      with i nth show ?thesis unfolding best_of_def C by (auto intro!: bexI [of _ i])
    qed
  qed
  with True show ?thesis using assms(2,3) by (simp add: matches_is_under Let_def)
qed

lemma vfs_best_mount_best:
  assumes "best_of pre p b" "\<forall>m \<in> set ms. cstring (m_mountpoint m)" "cstring p"
  shows "best_of (pre @ ms) p (vfs_best_mount ms p (int (length pre)) b)"
  using assms(1,2)
proof (induction ms arbitrary: pre b)
  case (Cons m ms)
  have "best_of ((pre @ [m]) @ ms) p (vfs_best_mount ms p (int (length (pre @ [m])))
    (if \<not> m_used m then b
     else if \<not> vfs_mountpoint_matches (Some (m_mountpoint m)) (Some p) then b
     else let mlen = length (m_mountpoint m) in if mlen > snd b then (int (length pre), mlen) else b))"
    by (rule Cons.IH [OF best_of_step [OF Cons.prems(1) _ assms(3)]]) (use Cons.prems(2) in auto)
  then show ?case by (simp add: add.commute)
qed simp

lemma best_of_search:
  assumes "\<forall>m \<in> set ms. cstring (m_mountpoint m)" "cstring p"
  shows "best_of ms p (vfs_best_mount ms p 0 (- 1, 0))"
  using vfs_best_mount_best [of "[]" p "(- 1, 0)" ms] assms by (simp add: best_of_def candidates_def)

section \<open>The mount table\<close>

definition mounts_inv :: "vfs_mount list \<Rightarrow> bool" where
  "mounts_inv ms \<longleftrightarrow> length ms = VFS_MAX_MOUNTS \<and> (\<forall>m \<in> set ms. cstring (m_mountpoint m)) \<and>
     (\<forall>m \<in> set ms. m_used m \<longrightarrow> m_mountpoint m \<noteq> [] \<and> hd (m_mountpoint m) = SLASH \<and> m_ops m \<noteq> None) \<and>
     (\<forall>i < length ms. \<forall>j < length ms. m_used (ms ! i) \<and> m_used (ms ! j) \<and> m_mountpoint (ms ! i) = m_mountpoint (ms ! j) \<longrightarrow> i = j)"

lemma under_same_length:
  assumes "is_under m p" "is_under m' p" "length m = length m'"
  shows "m = m'"
proof -
  have "take (length n) p = n" if "is_under n p" for n
    using that by (auto simp: is_under_def split: if_splits)
  then show ?thesis using assms by metis
qed

text \<open>A path under a mountpoint is the mountpoint followed by the rest below it.\<close>

definition splits_at :: "string \<Rightarrow> string \<Rightarrow> string \<Rightarrow> bool" where
  "splits_at p m rel \<longleftrightarrow> (if m = [SLASH] then p = SLASH # rel else p = m \<and> rel = [] \<or> p = m @ SLASH # rel)"

lemma vfs_find_mount_result:
  assumes inv: "mounts_inv (g_mounts s)" and p: "cstring p" "p \<noteq> []" "hd p = SLASH"
    and r: "vfs_find_mount (Some p) s = (rc, i, rel)"
  shows "if candidates (g_mounts s) p = {} then rc = VFS_ERR_NO_MOUNT
     else rc = VFS_OK \<and> i \<in> candidates (g_mounts s) p \<and>
       (\<forall>j \<in> candidates (g_mounts s) p. j \<noteq> i \<longrightarrow> length (m_mountpoint (g_mounts s ! j)) < length (m_mountpoint (g_mounts s ! i))) \<and>
       splits_at p (m_mountpoint (g_mounts s ! i)) rel"
proof -
  let ?ms = "g_mounts s" and ?C = "candidates (g_mounts s) p"
  obtain b l where bl: "vfs_best_mount ?ms p 0 (- 1, 0) = (b, l)" by fastforce
  have B: "best_of ?ms p (b, l)" using best_of_search [of ?ms p] inv p(1) bl by (simp add: mounts_inv_def)
  show ?thesis
  proof (cases "?C = {}")
    case True
    with B have "b = - 1" by (simp add: best_of_def)
    with r bl p show ?thesis by (simp add: vfs_find_mount_def True)
  next
    case False
    with B obtain k where k: "k \<in> ?C" "b = int k" "l = length (m_mountpoint (?ms ! k))"
      "\<forall>j \<in> ?C. length (m_mountpoint (?ms ! j)) \<le> length (m_mountpoint (?ms ! k))" by (auto simp: best_of_def)
    let ?m = "m_mountpoint (?ms ! k)"
    have u: "is_under ?m p" "k < length ?ms" "m_used (?ms ! k)" using k(1) by (simp_all add: candidates_def)
    have sl: "?m \<noteq> []" "hd ?m = SLASH" using inv u(2,3) by (auto simp: mounts_inv_def)
    have one: "length ?m = 1 \<longleftrightarrow> ?m = [SLASH]" using sl by (cases ?m) auto
    have e: "rc = VFS_OK" "i = k" "rel = (if l = 1 then drop 1 p
        else if drop l p \<noteq> [] \<and> hd (drop l p) = SLASH then tl (drop l p) else drop l p)"
      using r bl p k(2) by (auto simp: vfs_find_mount_def Let_def split: if_splits)
    have "length (m_mountpoint (?ms ! j)) < length ?m" if "j \<in> ?C" "j \<noteq> k" for j
    proof -
      have j: "is_under (m_mountpoint (?ms ! j)) p" "j < length ?ms" "m_used (?ms ! j)" using that(1) by (simp_all add: candidates_def)
      have "m_mountpoint (?ms ! j) \<noteq> ?m" using inv j u that(2) unfolding mounts_inv_def by blast
      with under_same_length [OF j(1) u(1)] k(4) that(1) show ?thesis by (auto simp: le_less)
    qed
    moreover have "splits_at p ?m rel"
      using u(1) e(3) k(3) one by (auto simp: splits_at_def is_under_def split: if_splits)
    ultimately show ?thesis using False e k(1) by auto
  qed
qed

lemma strnlen_loop: "vfs_strnlen_loop cs i n = i + min (length cs) n"
  by (induction cs i n rule: vfs_strnlen_loop.induct) auto

lemma strlcpy_result:
  "0 < n \<Longrightarrow> vfs_strlcpy dst n (Some cs) = (if length cs < n then (VFS_OK, cs) else (VFS_ERR_NO_SPACE, dst))"
  by (auto simp: vfs_strlcpy_def vfs_strnlen_def strnlen_loop)

text \<open>
  The effect of a mount: either an unused slot becomes the new mount, or no mount in use changes.
\<close>

lemma vfs_is_mounted_iff:
  assumes "mounts_inv (g_mounts s)" "cstring mp"
  shows "vfs_is_mounted mp s \<longleftrightarrow> (\<exists>m \<in> set (g_mounts s). m_used m \<and> m_mountpoint m = mp)"
proof -
  have c: "length (g_mounts s) = 8" "\<And>i. i < 8 \<Longrightarrow> cstring (m_mountpoint (g_mounts s ! i))"
    using assms(1) by (auto simp: mounts_inv_def)
  have "vfs_is_mounted mp s \<longleftrightarrow> (\<exists>i < 8. m_used (g_mounts s ! i) \<and> m_mountpoint (g_mounts s ! i) = mp)"
    using c(2) assms(2) by (auto simp: vfs_is_mounted_def list_ex_iff)
  also have "\<dots> \<longleftrightarrow> (\<exists>m \<in> set (g_mounts s). m_used m \<and> m_mountpoint m = mp)"
    unfolding Bex_def in_set_conv_nth c(1) by blast
  finally show ?thesis .
qed

lemma vfs_fill_mount_result:
  assumes "i < length (g_mounts s)" "m_used (g_mounts s ! i) = False" "cstring (m_mountpoint (g_mounts s ! i))" "cstring mp"
    and r: "vfs_fill_mount (Some mp) (Some fn) ops ctx i s = (rc, s')"
  shows "if length mp < 32 \<and> length fn < 16
    then rc = VFS_OK \<and> s' = s\<lparr>g_mounts := (g_mounts s)
      [i := \<lparr>m_used = True, m_mountpoint = mp, m_fs_name = fn, m_ops = ops, m_ctx = ctx\<rparr>]\<rparr>
    else rc = VFS_ERR_NO_SPACE \<and> (\<exists>m'. s' = s\<lparr>g_mounts := (g_mounts s)[i := m']\<rparr> \<and> \<not> m_used m' \<and> cstring (m_mountpoint m'))"
proof -
  obtain u a b f g where m: "g_mounts s ! i = \<lparr>m_used = u, m_mountpoint = a, m_fs_name = b, m_ops = f, m_ctx = g\<rparr>"
    by (cases "g_mounts s ! i")
  consider "length mp < 32" "length fn < 16" | "length mp < 32" "\<not> length fn < 16" | "\<not> length mp < 32" by blast
  then show ?thesis
    using r assms(1-4) unfolding vfs_fill_mount_def
    by cases (auto simp: strlcpy_result m)
qed

lemma vfs_mount_result:
  assumes inv: "mounts_inv (g_mounts s)" and mp: "cstring mp" and r: "vfs_mount (Some mp) (Some fn) (Some fo) ctx s = (rc, s')"
  obtains (ok) i where "rc = VFS_OK" "i < VFS_MAX_MOUNTS" "\<not> m_used (g_mounts s ! i)"
      "s' = s\<lparr>g_mounts := (g_mounts s)[i := \<lparr>m_used = True, m_mountpoint = mp, m_fs_name = fn, m_ops = Some fo, m_ctx = ctx\<rparr>]\<rparr>"
      "mp \<noteq> []" "hd mp = SLASH" "\<And>m. m \<in> set (g_mounts s) \<Longrightarrow> m_used m \<Longrightarrow> m_mountpoint m \<noteq> mp" "length mp < 32" "length fn < 16"
  | (bad) "rc = VFS_ERR_INVALID_PARAM" "s' = s" "mp = [] \<or> hd mp \<noteq> SLASH \<or> (\<exists>m \<in> set (g_mounts s). m_used m \<and> m_mountpoint m = mp)"
  | (full) "rc = VFS_ERR_NO_SPACE" "s' = s" "\<forall>m \<in> set (g_mounts s). m_used m"
  | (long) i m' where "rc = VFS_ERR_NO_SPACE" "i < VFS_MAX_MOUNTS" "\<not> m_used (g_mounts s ! i)" "\<not> m_used m'" "cstring (m_mountpoint m')"
      "s' = s\<lparr>g_mounts := (g_mounts s)[i := m']\<rparr>" "32 \<le> length mp \<or> 16 \<le> length fn"
proof -
  let ?ms = "g_mounts s" and ?f = "find (\<lambda>i. \<not> m_used (g_mounts s ! i)) [0..<8]"
  have len: "length ?ms = 8" using inv by (simp add: mounts_inv_def)
  have D: "(rc, s') = (if mp = [] \<or> hd mp \<noteq> SLASH \<or> vfs_is_mounted mp s then (VFS_ERR_INVALID_PARAM, s)
      else case ?f of None \<Rightarrow> (VFS_ERR_NO_SPACE, s) | Some i \<Rightarrow> vfs_fill_mount (Some mp) (Some fn) (Some fo) ctx i s)"
    using r by (cases "mp = [] \<or> hd mp \<noteq> SLASH"; cases "vfs_is_mounted mp s") (auto simp: vfs_mount_def)
  show thesis
  proof (cases "mp = [] \<or> hd mp \<noteq> SLASH \<or> vfs_is_mounted mp s")
    case True
    with D show thesis using vfs_is_mounted_iff [OF inv mp] by (intro bad) auto
  next
    case ok': False
    show thesis
    proof (cases ?f)
      case None
      moreover have "\<forall>m \<in> set ?ms. m_used m" using None len by (auto simp: find_None_iff in_set_conv_nth)
      ultimately show thesis using D ok' by (intro full) auto
    next
      case (Some i)
      then have i: "i < 8" "\<not> m_used (?ms ! i)" by (auto simp: find_Some_iff)
      have "vfs_fill_mount (Some mp) (Some fn) (Some fo) ctx i s = (rc, s')" using D ok' Some by simp
      then have R: "if length mp < 32 \<and> length fn < 16
        then rc = VFS_OK \<and> s' = s\<lparr>g_mounts := ?ms[i := \<lparr>m_used = True, m_mountpoint = mp, m_fs_name = fn, m_ops = Some fo, m_ctx = ctx\<rparr>]\<rparr>
        else rc = VFS_ERR_NO_SPACE \<and> (\<exists>m'. s' = s\<lparr>g_mounts := ?ms[i := m']\<rparr> \<and> \<not> m_used m' \<and> cstring (m_mountpoint m'))"
        using i len inv mp by (intro vfs_fill_mount_result) (auto simp: mounts_inv_def)
      show thesis
      proof (cases "length mp < 32 \<and> length fn < 16")
        case True
        with R i ok' show thesis using vfs_is_mounted_iff [OF inv mp] by (intro ok [of i]) auto
      next
        case False
        with R obtain m' where "rc = VFS_ERR_NO_SPACE" "s' = s\<lparr>g_mounts := ?ms[i := m']\<rparr>" "\<not> m_used m'" "cstring (m_mountpoint m')" by auto
        with False i show thesis by (intro long [of i m']) auto
      qed
    qed
  qed
qed

lemma vfs_mount_inv:
  assumes inv: "mounts_inv (g_mounts s)" and mp: "cstring mp" and r: "vfs_mount (Some mp) (Some fn) (Some fo) ctx s = (rc, s')"
  shows "mounts_inv (g_mounts s')"
  using inv mp r
proof (cases rule: vfs_mount_result)
  case (ok i)
  let ?n = "\<lparr>m_used = True, m_mountpoint = mp, m_fs_name = fn, m_ops = Some fo, m_ctx = ctx\<rparr>"
  let ?ms = "(g_mounts s)[i := ?n]"
  have "set ?ms \<subseteq> insert ?n (set (g_mounts s))" by (rule set_update_subset_insert)
  then have new: "m = ?n \<or> m \<in> set (g_mounts s)" if "m \<in> set ?ms" for m using that by blast
  have uniq: "a = b" if ab: "a < 8" "b < 8" "m_used (?ms ! a)" "m_used (?ms ! b)" "m_mountpoint (?ms ! a) = m_mountpoint (?ms ! b)" for a b
  proof (rule ccontr)
    assume "a \<noteq> b"
    have len: "length (g_mounts s) = 8" using inv by (simp add: mounts_inv_def)
    have other: "m_mountpoint (g_mounts s ! j) \<noteq> mp" if "j < 8" "m_used (g_mounts s ! j)" for j
      using ok(7) that len by simp
    show False
    proof (cases "a = i \<or> b = i")
      case True
      with ab \<open>a \<noteq> b\<close> len other [of a] other [of b] show False by (auto simp: nth_list_update)
    next
      case False
      with ab \<open>a \<noteq> b\<close> inv show False unfolding mounts_inv_def by auto
    qed
  qed
  have old: "length (g_mounts s) = 8" "\<And>m. m \<in> set (g_mounts s) \<Longrightarrow> cstring (m_mountpoint m)"
    "\<And>m. m \<in> set (g_mounts s) \<Longrightarrow> m_used m \<Longrightarrow> m_mountpoint m \<noteq> [] \<and> hd (m_mountpoint m) = SLASH \<and> m_ops m \<noteq> None"
    using inv by (simp_all add: mounts_inv_def)
  have "cstring (m_mountpoint m)" if "m \<in> set ?ms" for m using new [OF that] old(2) mp by auto
  moreover have "m_mountpoint m \<noteq> [] \<and> hd (m_mountpoint m) = SLASH \<and> m_ops m \<noteq> None" if "m \<in> set ?ms" "m_used m" for m
    using new [OF that(1)] old(3) that(2) ok(5,6) by auto
  moreover have "length ?ms = 8" using old(1) by simp
  moreover have "g_mounts s' = ?ms" using ok(4) by simp
  ultimately show ?thesis using uniq by (simp add: mounts_inv_def)
next
  case (long i m')
  have "set ((g_mounts s)[i := m']) \<subseteq> insert m' (set (g_mounts s))" by (rule set_update_subset_insert)
  with long inv show ?thesis
    unfolding mounts_inv_def by (auto simp: nth_list_update split: if_splits)
qed (use inv in simp_all)

section \<open>Properties\<close>

text \<open>The mounts of a booted kernel: NullFS at the root and DevFS at \<^verbatim>\<open>/dev\<close>, on the example machine.\<close>

definition free_mount :: vfs_mount where
  "free_mount = \<lparr>m_used = False, m_mountpoint = [], m_fs_name = [], m_ops = None, m_ctx = 0\<rparr>"

definition boot_mounts :: "vfs_mount list" where
  "boot_mounts =
     \<lparr>m_used = True, m_mountpoint = ''/'', m_fs_name = ''nullfs'', m_ops = Some NULLFS_OPS, m_ctx = 0\<rparr> #
     \<lparr>m_used = True, m_mountpoint = ''/dev'', m_fs_name = ''devfs'', m_ops = Some DEVFS_OPS, m_ctx = 0\<rparr> #
     replicate 6 free_mount"

definition sample_vfs :: "((u16 \<times> u8) list \<times> u16 list) vfs_state" where
  "sample_vfs = disk_state.extend sample_disk2
     \<lparr>g_mounts = boot_mounts, g_open = replicate 32 \<lparr>o_used = False, o_file = empty_file\<rparr>,
      devfs_at = (\<lambda>_. \<lparr>kind = 0, blk = Null_dev\<rparr>),
      pyfs_at = (\<lambda>_. \<lparr>px_dev = Null_dev, px_sb = \<lparr>sb_magic = 0, sb_version = 0, sb_block_size = 0, sb_reserved0 = 0\<rparr>\<rparr>),
      pyfs_file_at = (\<lambda>_. \<lparr>pf_fs = 0, pf_file_id = 0, pf_cache = 0\<rparr>)\<rparr>"

lemma boot_mounts_inv: "mounts_inv boot_mounts"
proof -
  have "\<forall>m \<in> set boot_mounts. cstring (m_mountpoint m)"
    "\<forall>m \<in> set boot_mounts. m_used m \<longrightarrow> m_mountpoint m \<noteq> [] \<and> hd (m_mountpoint m) = SLASH \<and> m_ops m \<noteq> None"
    "length boot_mounts = 8"
    by (auto simp: boot_mounts_def free_mount_def NUL_def)
  moreover have "i = j" if "i < 8" "j < 8" "m_used (boot_mounts ! i)" "m_used (boot_mounts ! j)"
      "m_mountpoint (boot_mounts ! i) = m_mountpoint (boot_mounts ! j)" for i j
    using that by (auto simp: boot_mounts_def free_mount_def nth_Cons' split: if_splits)
  ultimately show ?thesis by (simp add: mounts_inv_def)
qed

text \<open>
  C22. An absolute path is resolved to the longest mountpoint it lies under, on whole path components:
  the mount found is in use, the path is the mountpoint or continues it at a slash, and every other mount
  the path lies under has a strictly shorter mountpoint. The file system gets the rest of the path,
  without the slash. No mount is found exactly if the path lies under none.
\<close>

theorem vfs_find_mount_longest:
  assumes "mounts_inv (g_mounts s)" "cstring p" "p \<noteq> []" "hd p = SLASH" "vfs_find_mount (Some p) s = (rc, i, rel)"
  shows "if candidates (g_mounts s) p = {} then rc = VFS_ERR_NO_MOUNT
     else rc = VFS_OK \<and> i \<in> candidates (g_mounts s) p \<and>
       (\<forall>j \<in> candidates (g_mounts s) p. j \<noteq> i \<longrightarrow> length (m_mountpoint (g_mounts s ! j)) < length (m_mountpoint (g_mounts s ! i))) \<and>
       splits_at p (m_mountpoint (g_mounts s ! i)) rel"
  using assms by (rule vfs_find_mount_result)

theorem vfs_find_mount_longest_witness:
  "vfs_find_mount (Some ''/dev/disk0'') sample_vfs = (VFS_OK, 1, ''disk0'') \<and>
   candidates (g_mounts sample_vfs) ''/dev/disk0'' \<noteq> {} \<and>
   splits_at ''/dev/disk0'' (m_mountpoint (g_mounts sample_vfs ! 1)) ''disk0''"
proof -
  have m: "g_mounts sample_vfs = boot_mounts" by (simp add: sample_vfs_def disk_state.defs)
  have r: "vfs_find_mount (Some ''/dev/disk0'') sample_vfs = (VFS_OK, 1, ''disk0'')"
    by (simp add: vfs_find_mount_def m boot_mounts_def free_mount_def vfs_mountpoint_matches_def numeral_eq_Suc)
  have "cstring ''/dev/disk0''" "''/dev/disk0'' \<noteq> []" "hd ''/dev/disk0'' = SLASH" by (simp_all add: NUL_def)
  from vfs_find_mount_longest [OF _ this r] show ?thesis
    using r boot_mounts_inv by (auto simp: m split: if_splits)
qed

lemma set_update_used:
  assumes "i < length ms" "\<not> m_used (ms ! i)"
  shows "{m \<in> set (ms[i := n]). m_used m} = {m \<in> set ms. m_used m} \<union> (if m_used n then {n} else {})"
proof (intro equalityI subsetI)
  fix m assume "m \<in> {m \<in> set ms. m_used m} \<union> (if m_used n then {n} else {})"
  then consider "m = n" "m_used n" | j where "j < length ms" "m = ms ! j" "m_used m" by (auto simp: in_set_conv_nth split: if_splits)
  then show "m \<in> {m \<in> set (ms[i := n]). m_used m}"
  proof cases
    case (2 j)
    then have "ms[i := n] ! j = m" "j < length (ms[i := n])" using assms by (auto simp: nth_list_update)
    then show ?thesis using 2(3) by (auto simp: in_set_conv_nth)
  qed (use assms in \<open>auto intro: set_update_memI\<close>)
qed (use set_update_subset_insert [of ms i n] in auto)

text \<open>
  Mounting succeeds exactly if the mountpoint is absolute and shorter than 32 characters, the name
  is shorter than 16, nothing is mounted there and a slot is free. Then exactly this mount is added to
  the mounts in use. Otherwise the mounts in use stay as they are; a name that does not fit is reported
  as lack of space. The table stays well formed, so no mountpoint is ever in use twice.
\<close>

theorem vfs_mount_adds:
  assumes "mounts_inv (g_mounts s)" "cstring mp" "vfs_mount (Some mp) (Some fn) (Some fo) ctx s = (rc, s')"
  shows "mounts_inv (g_mounts s') \<and>
    (rc = VFS_OK \<longleftrightarrow> mp \<noteq> [] \<and> hd mp = SLASH \<and> length mp < 32 \<and> length fn < 16 \<and>
       (\<exists>m \<in> set (g_mounts s). \<not> m_used m) \<and> (\<forall>m \<in> set (g_mounts s). m_used m \<longrightarrow> m_mountpoint m \<noteq> mp)) \<and>
    {m \<in> set (g_mounts s'). m_used m} = {m \<in> set (g_mounts s). m_used m} \<union>
      (if rc = VFS_OK then {\<lparr>m_used = True, m_mountpoint = mp, m_fs_name = fn, m_ops = Some fo, m_ctx = ctx\<rparr>} else {})"
proof -
  have len: "length (g_mounts s) = 8" using assms(1) by (simp add: mounts_inv_def)
  from assms have inv': "mounts_inv (g_mounts s')" by (rule vfs_mount_inv)
  from assms show ?thesis
  proof (cases rule: vfs_mount_result)
    case (ok i)
    moreover have "\<exists>m \<in> set (g_mounts s). \<not> m_used m" using ok(2,3) len by (metis nth_mem)
    ultimately show ?thesis
      using inv' set_update_used [of i "g_mounts s"] len by auto
  next
    case (long i m')
    then show ?thesis using inv' set_update_used [of i "g_mounts s" m'] len by auto
  qed (use inv' in auto)
qed

theorem vfs_mount_adds_witness:
  "\<exists>s'. vfs_mount (Some ''/py'') (Some ''pyfs'') (Some PYFS_OPS) 0xD0000078 sample_vfs = (VFS_OK, s') \<and>
     \<lparr>m_used = True, m_mountpoint = ''/py'', m_fs_name = ''pyfs'', m_ops = Some PYFS_OPS, m_ctx = 0xD0000078\<rparr> \<in> set (g_mounts s')"
proof -
  obtain rc s' where r: "vfs_mount (Some ''/py'') (Some ''pyfs'') (Some PYFS_OPS) 0xD0000078 sample_vfs = (rc, s')" by fastforce
  have m: "g_mounts sample_vfs = boot_mounts" by (simp add: sample_vfs_def disk_state.defs)
  have c: "cstring ''/py''" by (simp add: NUL_def)
  have "\<exists>m \<in> set boot_mounts. \<not> m_used m" "\<forall>m \<in> set boot_mounts. m_used m \<longrightarrow> m_mountpoint m \<noteq> ''/py''"
    by (auto simp: boot_mounts_def free_mount_def)
  then have "rc = VFS_OK" "{m \<in> set (g_mounts s'). m_used m} = {m \<in> set boot_mounts. m_used m} \<union>
      {\<lparr>m_used = True, m_mountpoint = ''/py'', m_fs_name = ''pyfs'', m_ops = Some PYFS_OPS, m_ctx = 0xD0000078\<rparr>}"
    using vfs_mount_adds [OF _ c r] boot_mounts_inv by (auto simp: m)
  with r show ?thesis by blast
qed

end
