(* ===== verification/VFS_Spec.thy ===== *)
theory VFS_Spec
  imports VFS_Mounts
begin

text \<open>
  The invariant of the open file table and who owns which object on the heap: every open file owns its
  context (and its sector cache, for PyFS), no object has two owners, and the objects of devices and of
  mounted file systems are never owned by a file. With it no sequence of calls leaks an object, frees one
  twice or stops the machine.
\<close>

section \<open>Ownership\<close>

definition dev_owned :: "('h, 'a) disk_state_scheme \<Rightarrow> u32 set" where
  "dev_owned s = (\<Union>d \<in> set (registered s). dev_addrs s d)"

definition mount_owned :: "('h, 'a) vfs_state_scheme \<Rightarrow> u32 set" where
  "mount_owned s = {m_ctx m |m. m \<in> set (g_mounts s) \<and> m_used m \<and> m_ops m = Some PYFS_OPS}"

definition file_addrs :: "('h, 'a) vfs_state_scheme \<Rightarrow> vfs_file \<Rightarrow> u32 list" where
  "file_addrs s f = (case f_ops f of None \<Rightarrow> []
     | Some PYFS_FILE_OPS \<Rightarrow> file_ctx f # (if pf_cache (pyfs_file_at s (file_ctx f)) \<noteq> 0 then [pf_cache (pyfs_file_at s (file_ctx f))] else [])
     | Some _ \<Rightarrow> [file_ctx f])"

definition slot_addrs :: "('h, 'a) vfs_state_scheme \<Rightarrow> nat \<Rightarrow> u32 list" where
  "slot_addrs s i = (if o_used (g_open s ! i) then file_addrs s (o_file (g_open s ! i)) else [])"

definition file_owned :: "('h, 'a) vfs_state_scheme \<Rightarrow> u32 set" where
  "file_owned s = (\<Union>i < VFS_MAX_OPEN_FILES. set (slot_addrs s i))"

definition file_ok :: "('h, 'a) vfs_state_scheme \<Rightarrow> vfs_file \<Rightarrow> bool" where
  "file_ok s f = (case f_ops f of None \<Rightarrow> False
     | Some PYFS_FILE_OPS \<Rightarrow> object_at s (file_ctx f) 12 \<and> pf_file_id (pyfs_file_at s (file_ctx f)) = PYFS_FILE_SUPERBLOCK \<and>
         pf_fs (pyfs_file_at s (file_ctx f)) \<in> mount_owned s \<and>
         (pf_cache (pyfs_file_at s (file_ctx f)) \<noteq> 0 \<longrightarrow> object_at s (pf_cache (pyfs_file_at s (file_ctx f))) 512)
     | Some k \<Rightarrow> object_at s (file_ctx f) 8 \<and> (k = DEVFS_BLOCK_FILE_OPS \<longrightarrow>
         kind (devfs_at s (file_ctx f)) = DEVFS_KIND_BLOCK \<and> blk (devfs_at s (file_ctx f)) \<in> set (registered s)))"

definition pyfs_mount_ok :: "('h, 'a) vfs_state_scheme \<Rightarrow> u32 \<Rightarrow> bool" where
  "pyfs_mount_ok s c \<longleftrightarrow> object_at s c 20 \<and> px_dev (pyfs_at s c) \<in> set (registered s)"

definition files_inv :: "('h, 'a) vfs_state_scheme \<Rightarrow> bool" where
  "files_inv s \<longleftrightarrow> length (g_open s) = VFS_MAX_OPEN_FILES \<and>
     (\<forall>i < VFS_MAX_OPEN_FILES. o_used (g_open s ! i) \<longrightarrow> file_ok s (o_file (g_open s ! i))) \<and>
     (\<forall>i < VFS_MAX_OPEN_FILES. distinct (slot_addrs s i)) \<and>
     (\<forall>i < VFS_MAX_OPEN_FILES. \<forall>j < VFS_MAX_OPEN_FILES. i \<noteq> j \<longrightarrow> set (slot_addrs s i) \<inter> set (slot_addrs s j) = {}) \<and>
     file_owned s \<inter> (dev_owned s \<union> mount_owned s) = {}"

definition vfs_inv :: "('h, 'a) vfs_state_scheme \<Rightarrow> bool" where
  "vfs_inv s \<longleftrightarrow> disk_inv s \<and> mounts_inv (g_mounts s) \<and> (\<forall>c \<in> mount_owned s. pyfs_mount_ok s c) \<and> files_inv s"

definition owned :: "('h, 'a) vfs_state_scheme \<Rightarrow> u32 set" where
  "owned s = file_owned s \<union> dev_owned s \<union> mount_owned s"

lemma object_at_nonzero: "heap_inv s \<Longrightarrow> object_at s p n \<Longrightarrow> p \<noteq> 0"
  by (auto simp: object_at_def dest: live_less)

lemma object_at_le: "object_at s q n \<Longrightarrow> k \<le> n \<Longrightarrow> object_at s q k"
  by (auto simp: object_at_def intro: order_trans)

lemma dev_links_object: "dev_links s xs d \<Longrightarrow> q \<in> dev_addrs s d \<Longrightarrow> object_at s q 1"
  by (auto simp: dev_links_def dev_addrs_def intro: object_at_le [of s _ 48] object_at_le [of s _ 12] split: dptr.splits)

lemma file_ok_object: "file_ok s f \<Longrightarrow> q \<in> set (file_addrs s f) \<Longrightarrow> object_at s q 1"
  by (auto simp: file_ok_def file_addrs_def intro: object_at_le [of s _ 8] object_at_le [of s _ 12] object_at_le [of s _ 512]
      split: option.splits file_ops.splits if_splits)

lemma file_ctx_addr: "file_ok s f \<Longrightarrow> file_ctx f \<in> set (file_addrs s f)"
  by (auto simp: file_ok_def file_addrs_def split: option.splits file_ops.splits)

lemma owned_object:
  assumes "vfs_inv s" "q \<in> owned s"
  shows "object_at s q 1"
proof -
  consider i where "i < 32" "q \<in> set (slot_addrs s i)" | d where "d \<in> set (registered s)" "q \<in> dev_addrs s d" | "q \<in> mount_owned s"
    using assms(2) by (auto simp: owned_def file_owned_def dev_owned_def)
  then show ?thesis
  proof cases
    case (1 i)
    then have "o_used (g_open s ! i)" "file_ok s (o_file (g_open s ! i))" "q \<in> set (file_addrs s (o_file (g_open s ! i)))"
      using assms(1) by (auto simp: vfs_inv_def files_inv_def slot_addrs_def split: if_splits)
    then show ?thesis by (blast intro: file_ok_object)
  next
    case (2 d)
    then obtain xs where "dev_links s xs d"
      using assms(1) dev_chain_links [of s "[]" "registered s" d] by (auto simp: vfs_inv_def disk_inv_def)
    with 2 show ?thesis using dev_links_object [of s xs d q] by auto
  next
    case 3
    with assms(1) show ?thesis by (auto simp: vfs_inv_def pyfs_mount_ok_def intro: object_at_le [of s _ 20])
  qed
qed

section \<open>Changes that keep the invariant\<close>

text \<open>
  A new state in which every device, mount and open file looks as before, and every object that is owned
  still lives.
\<close>

definition same_files :: "('h, 'a) vfs_state_scheme \<Rightarrow> ('h, 'a) vfs_state_scheme \<Rightarrow> bool" where
  "same_files s t \<longleftrightarrow> registered t = registered s \<and> (\<forall>d \<in> set (registered s). dev_addrs t d = dev_addrs s d) \<and>
     g_mounts t = g_mounts s \<and> (\<forall>c \<in> mount_owned s. pyfs_at t c = pyfs_at s c) \<and>
     (\<forall>q \<in> owned s. devfs_at t q = devfs_at s q \<and> pyfs_file_at t q = pyfs_file_at s q)"

lemma same_files_owned:
  assumes "same_files s t"
  shows "dev_owned t = dev_owned s" "mount_owned t = mount_owned s"
  using assms by (auto simp: same_files_def dev_owned_def mount_owned_def)

lemma same_file:
  assumes "same_files s t" "file_ctx f \<in> owned s"
  shows "file_addrs t f = file_addrs s f"
    "(\<And>q n. q \<in> set (file_addrs s f) \<Longrightarrow> object_at s q n \<Longrightarrow> object_at t q n) \<Longrightarrow> file_ok s f \<Longrightarrow> file_ok t f"
proof -
  have e: "pyfs_file_at t (file_ctx f) = pyfs_file_at s (file_ctx f)" "devfs_at t (file_ctx f) = devfs_at s (file_ctx f)"
    using assms by (auto simp: same_files_def)
  show "file_addrs t f = file_addrs s f" by (simp add: file_addrs_def e split: option.split file_ops.split)
  show "file_ok t f" if "\<And>q n. q \<in> set (file_addrs s f) \<Longrightarrow> object_at s q n \<Longrightarrow> object_at t q n" "file_ok s f"
    using that assms same_files_owned(2) [OF assms(1)]
    by (auto simp: file_ok_def file_addrs_def e same_files_def split: option.splits file_ops.splits if_splits)
qed

lemma slot_ctx_owned:
  assumes "files_inv s" "i < 32" "o_used (g_open s ! i)"
  shows "file_ctx (o_file (g_open s ! i)) \<in> owned s" "set (file_addrs s (o_file (g_open s ! i))) \<subseteq> owned s"
proof -
  have "file_ok s (o_file (g_open s ! i))" using assms by (simp add: files_inv_def)
  then have "file_ctx (o_file (g_open s ! i)) \<in> set (slot_addrs s i)"
    using file_ctx_addr [of s "o_file (g_open s ! i)"] assms(3) by (simp add: slot_addrs_def)
  then show "file_ctx (o_file (g_open s ! i)) \<in> owned s" using assms(2) by (auto simp: owned_def file_owned_def)
  show "set (file_addrs s (o_file (g_open s ! i))) \<subseteq> owned s"
    using assms(2,3) by (auto simp: owned_def file_owned_def slot_addrs_def)
qed

lemma vfs_inv_same:
  assumes inv: "vfs_inv s" and t: "disk_inv t" "same_files s t" "g_open t = g_open s"
    and live: "\<And>q n. q \<in> owned s \<Longrightarrow> object_at s q n \<Longrightarrow> object_at t q n"
  shows "vfs_inv t" "owned t = owned s"
proof -
  have f: "files_inv s" using inv by (simp add: vfs_inv_def)
  note own = same_files_owned [OF t(2)]
  have sl: "slot_addrs t i = slot_addrs s i" if "i < 32" for i
    using slot_ctx_owned(1) [OF f that] same_file(1) [OF t(2)] by (simp add: slot_addrs_def t(3))
  then have fo: "file_owned t = file_owned s" by (simp add: file_owned_def)
  with own show "owned t = owned s" by (simp add: owned_def)
  have "file_ok t (o_file (g_open s ! i))" if i: "i < 32" "o_used (g_open s ! i)" for i
    using same_file(2) [OF t(2) slot_ctx_owned(1) [OF f i]] slot_ctx_owned(2) [OF f i] live f i by (auto simp: files_inv_def)
  then have "files_inv t" using f sl fo own t(3) by (simp add: files_inv_def)
  moreover have "pyfs_mount_ok t c" if "c \<in> mount_owned s" for c
  proof -
    have "pyfs_mount_ok s c" "c \<in> owned s" using inv that by (auto simp: vfs_inv_def owned_def)
    then show ?thesis using t(2) that live [of c 20] by (simp add: pyfs_mount_ok_def same_files_def)
  qed
  moreover have "g_mounts t = g_mounts s" using t(2) by (simp add: same_files_def)
  ultimately show "vfs_inv t" using inv t(1) own by (simp add: vfs_inv_def)
qed

lemma disk_inv_cong:
  assumes "start_header t = start_header s" "heap_mem t = heap_mem s" "ata t = ata s" "dev_at t = dev_at s" "part_at t = part_at s"
    "g_devices t = g_devices s" "g_device_count t = g_device_count s"
  shows "disk_inv t = disk_inv s" "live t = live s" "registered t = registered s" "dev_addrs t d = dev_addrs s d"
proof -
  have h: "heap_inv t = heap_inv s" "live t = live s" using assms heap_cong [of t s] by simp_all
  have r: "reg_inv t = reg_inv s" "registered t = registered s" using assms reg_cong [of t s] by simp_all
  have v: "dev_view t d = dev_view s d" for d using assms by (simp add: dev_view_def split: dptr.split)
  have "dev_chain t [] (registered s) = dev_chain s [] (registered s)"
    using dev_chain_cong [of "registered s" t s "[]"] dev_chain_cong [of "registered s" s t "[]"] v h(2) by auto
  then show "disk_inv t = disk_inv s" "live t = live s" "registered t = registered s" "dev_addrs t d = dev_addrs s d"
    using h r assms by (simp_all add: disk_inv_def dev_addrs_def split: dptr.split)
qed

lemma dev_chain_mem:
  assumes "\<And>d q n. d \<in> set ds \<Longrightarrow> q \<in> dev_addrs s d \<Longrightarrow> object_at s q n \<Longrightarrow> object_at (s\<lparr>heap_mem := m\<rparr>) q n"
  shows "dev_chain s before ds \<Longrightarrow> dev_chain (s\<lparr>heap_mem := m\<rparr>) before ds"
  using assms
proof (induction ds arbitrary: before)
  case (Cons d ds)
  have "dev_links (s\<lparr>heap_mem := m\<rparr>) before d"
    using Cons.prems(1) Cons.prems(2) [of d] by (auto simp: dev_links_def dev_addrs_def split: dptr.splits)
  with Cons show ?case by auto
qed simp

lemma disk_inv_mem:
  assumes "disk_inv s" "heap_inv (s\<lparr>heap_mem := m\<rparr>)"
    and "\<And>q n. q \<in> dev_owned s \<Longrightarrow> object_at s q n \<Longrightarrow> object_at (s\<lparr>heap_mem := m\<rparr>) q n"
  shows "disk_inv (s\<lparr>heap_mem := m\<rparr>)"
proof -
  have "dev_chain (s\<lparr>heap_mem := m\<rparr>) [] (registered s)"
    by (rule dev_chain_mem) (use assms in \<open>auto simp: dev_owned_def disk_inv_def\<close>)
  then show ?thesis using assms(1,2) reg_cong [of "s\<lparr>heap_mem := m\<rparr>" s] by (simp add: disk_inv_def)
qed

text \<open>Memory: an allocation, the release of an object nobody owns, and bytes stored.\<close>

lemma vfs_inv_mem:
  assumes inv: "vfs_inv s" and h: "heap_inv (s\<lparr>heap_mem := m\<rparr>)"
    and live: "\<And>q n. q \<in> owned s \<Longrightarrow> object_at s q n \<Longrightarrow> object_at (s\<lparr>heap_mem := m\<rparr>) q n"
  shows "vfs_inv (s\<lparr>heap_mem := m\<rparr>)" "owned (s\<lparr>heap_mem := m\<rparr>) = owned s"
proof -
  have "disk_inv (s\<lparr>heap_mem := m\<rparr>)"
    using inv h live by (intro disk_inv_mem) (auto simp: vfs_inv_def owned_def)
  moreover have "same_files s (s\<lparr>heap_mem := m\<rparr>)"
    using reg_cong(2) [of "s\<lparr>heap_mem := m\<rparr>" s] by (auto simp: same_files_def dev_addrs_def split: dptr.split)
  ultimately show "vfs_inv (s\<lparr>heap_mem := m\<rparr>)" "owned (s\<lparr>heap_mem := m\<rparr>) = owned s"
    using vfs_inv_same [OF inv, of "s\<lparr>heap_mem := m\<rparr>"] live by auto
qed

lemma vfs_kmalloc:
  assumes inv: "vfs_inv s" and sz: "sz \<noteq> 0"
  obtains (none) "kmalloc sz s = Inr (0, s)"
  | (new) p k m where "kmalloc sz s = Inr (p, s\<lparr>heap_mem := m\<rparr>)" "p \<noteq> 0" "vfs_inv (s\<lparr>heap_mem := m\<rparr>)" "unat sz \<le> k"
      "live (s\<lparr>heap_mem := m\<rparr>) = insert (unat p, k) (live s)" "(unat p, k) \<notin> live s" "p \<notin> owned s"
      "owned (s\<lparr>heap_mem := m\<rparr>) = owned s"
proof -
  have h: "heap_inv s" using inv by (simp add: vfs_inv_def disk_inv_def)
  from h sz show thesis
  proof (cases rule: kmalloc_object)
    case (new p k m)
    have "object_at s q n \<Longrightarrow> object_at (s\<lparr>heap_mem := m\<rparr>) q n" for q n
      using new(5) by (intro object_at_mono [of s "s\<lparr>heap_mem := m\<rparr>"]) auto
    note V = vfs_inv_mem [OF inv new(3) this]
    have "p \<notin> owned s" using owned_object [OF inv, of p] new(7) [of p 1] by auto
    with new V show thesis by (intro that(2)) auto
  qed (rule that(1))
qed

lemma vfs_kfree:
  assumes inv: "vfs_inv s" and p: "object_at s p n" "p \<notin> owned s"
  obtains k m where "kfree p s = Inr (s\<lparr>heap_mem := m\<rparr>)" "vfs_inv (s\<lparr>heap_mem := m\<rparr>)" "(unat p, k) \<in> live s"
    "live (s\<lparr>heap_mem := m\<rparr>) = live s - {(unat p, k)}" "owned (s\<lparr>heap_mem := m\<rparr>) = owned s"
proof -
  have h: "heap_inv s" using inv by (simp add: vfs_inv_def disk_inv_def)
  obtain k where k: "(unat p, k) \<in> live s" using p(1) by (auto simp: object_at_def)
  obtain m where m: "kfree p s = Inr (s\<lparr>heap_mem := m\<rparr>)" "heap_inv (s\<lparr>heap_mem := m\<rparr>)"
      "live (s\<lparr>heap_mem := m\<rparr>) = live s - {(unat p, k)}" using kfree_object [OF h k] by blast
  have "object_at (s\<lparr>heap_mem := m\<rparr>) q n" if "q \<in> owned s" "object_at s q n" for q n
  proof -
    have "unat q \<noteq> unat p" using that(1) p(2) by (auto dest: word_unat_eq_iff [THEN iffD2])
    then show ?thesis using that(2) m(3) unfolding object_at_def by auto
  qed
  from vfs_inv_mem [OF inv m(2) this] m k show thesis by (intro that) auto
qed

text \<open>The stores of file contexts, at addresses that nobody owns.\<close>

lemma vfs_inv_devfs_at:
  assumes "vfs_inv s" "p \<notin> owned s"
  shows "vfs_inv (s\<lparr>devfs_at := (devfs_at s)(p := x)\<rparr>)" "owned (s\<lparr>devfs_at := (devfs_at s)(p := x)\<rparr>) = owned s"
proof -
  let ?t = "s\<lparr>devfs_at := (devfs_at s)(p := x)\<rparr>"
  have c: "disk_inv ?t = disk_inv s" "live ?t = live s" "registered ?t = registered s" "\<And>d. dev_addrs ?t d = dev_addrs s d"
    using disk_inv_cong [of ?t s] by simp_all
  then have "same_files s ?t" using assms(2) by (auto simp: same_files_def)
  then show "vfs_inv ?t" "owned ?t = owned s"
    using vfs_inv_same [OF assms(1), of ?t] c assms(1) by (auto simp: vfs_inv_def object_at_def)
qed

lemma vfs_inv_pyfs_file_at:
  assumes "vfs_inv s" "p \<notin> owned s"
  shows "vfs_inv (s\<lparr>pyfs_file_at := (pyfs_file_at s)(p := x)\<rparr>)" "owned (s\<lparr>pyfs_file_at := (pyfs_file_at s)(p := x)\<rparr>) = owned s"
proof -
  let ?t = "s\<lparr>pyfs_file_at := (pyfs_file_at s)(p := x)\<rparr>"
  have c: "disk_inv ?t = disk_inv s" "live ?t = live s" "registered ?t = registered s" "\<And>d. dev_addrs ?t d = dev_addrs s d"
    using disk_inv_cong [of ?t s] by simp_all
  then have "same_files s ?t" using assms(2) by (auto simp: same_files_def)
  then show "vfs_inv ?t" "owned ?t = owned s"
    using vfs_inv_same [OF assms(1), of ?t] c assms(1) by (auto simp: vfs_inv_def object_at_def)
qed

lemma vfs_inv_ata:
  assumes "vfs_inv s" "disk_inv (s\<lparr>ata := a\<rparr>)"
  shows "vfs_inv (s\<lparr>ata := a\<rparr>)" "owned (s\<lparr>ata := a\<rparr>) = owned s"
proof -
  let ?t = "s\<lparr>ata := a\<rparr>"
  have "live ?t = live s" using heap_cong [of ?t s] by simp
  moreover have "same_files s ?t"
    using reg_cong(2) [of ?t s] by (auto simp: same_files_def dev_addrs_def split: dptr.split)
  ultimately show "vfs_inv ?t" "owned ?t = owned s"
    using vfs_inv_same [OF assms(1), of ?t] assms(2) by (auto simp: object_at_def)
qed

text \<open>The table of open files: a slot is taken, emptied, or its file moves on.\<close>

definition set_slot :: "nat \<Rightarrow> vfs_open_entry \<Rightarrow> ('h, 'a) vfs_state_scheme \<Rightarrow> ('h, 'a) vfs_state_scheme" where
  "set_slot fd e s = s\<lparr>g_open := (g_open s)[fd := e]\<rparr>"

lemma set_slot_simps:
  "file_addrs (set_slot fd e s) f = file_addrs s f" "mount_owned (set_slot fd e s) = mount_owned s"
  "disk_inv (set_slot fd e s) = disk_inv s" "live (set_slot fd e s) = live s" "registered (set_slot fd e s) = registered s"
  "dev_owned (set_slot fd e s) = dev_owned s" "file_ok (set_slot fd e s) f = file_ok s f" "g_mounts (set_slot fd e s) = g_mounts s"
  "pyfs_mount_ok (set_slot fd e s) c = pyfs_mount_ok s c" "g_open (set_slot fd e s) = (g_open s)[fd := e]"
proof -
  have c: "disk_inv (set_slot fd e s) = disk_inv s" "live (set_slot fd e s) = live s" "registered (set_slot fd e s) = registered s"
    "\<And>d. dev_addrs (set_slot fd e s) d = dev_addrs s d"
    using disk_inv_cong [of "set_slot fd e s" s] by (simp_all add: set_slot_def)
  show f: "file_addrs (set_slot fd e s) f = file_addrs s f" and m: "mount_owned (set_slot fd e s) = mount_owned s"
    by (simp_all add: set_slot_def file_addrs_def mount_owned_def split: option.split file_ops.split)
  show "disk_inv (set_slot fd e s) = disk_inv s" "live (set_slot fd e s) = live s" "registered (set_slot fd e s) = registered s"
    "dev_owned (set_slot fd e s) = dev_owned s" using c by (simp_all add: dev_owned_def)
  show "g_mounts (set_slot fd e s) = g_mounts s" "g_open (set_slot fd e s) = (g_open s)[fd := e]" by (simp_all add: set_slot_def)
  show "file_ok (set_slot fd e s) f = file_ok s f" using m c
    by (simp add: file_ok_def object_at_def set_slot_def split: option.split file_ops.split)
  show "pyfs_mount_ok (set_slot fd e s) c = pyfs_mount_ok s c"
    using disk_inv_cong [of "set_slot fd e s" s] by (simp add: pyfs_mount_ok_def object_at_def set_slot_def)
qed

lemma slot_addrs_set_slot:
  assumes "fd < length (g_open s)"
  shows "slot_addrs (set_slot fd e s) i = (if i = fd then if o_used e then file_addrs s (o_file e) else [] else slot_addrs s i)"
  using assms by (auto simp: slot_addrs_def set_slot_simps)

lemma vfs_inv_set_slot:
  assumes inv: "vfs_inv s" and fd: "fd < 32"
    and e: "o_used e \<Longrightarrow> file_ok s (o_file e)" "o_used e \<Longrightarrow> distinct (file_addrs s (o_file e))"
      "o_used e \<Longrightarrow> set (file_addrs s (o_file e)) \<inter> (owned s - set (slot_addrs s fd)) = {}"
      "o_used e \<Longrightarrow> set (file_addrs s (o_file e)) \<inter> (dev_owned s \<union> mount_owned s) = {}"
  shows "vfs_inv (set_slot fd e s)"
    "owned (set_slot fd e s) = (owned s - set (slot_addrs s fd)) \<union> (if o_used e then set (file_addrs s (o_file e)) else {})"
proof -
  have f: "files_inv s" and len: "length (g_open s) = 32" using inv by (simp_all add: vfs_inv_def files_inv_def)
  note sl = slot_addrs_set_slot [of fd s e, unfolded len, OF fd]
  let ?E = "if o_used e then set (file_addrs s (o_file e)) else {}"
  have disj: "set (slot_addrs s i) \<inter> set (slot_addrs s j) = {}" if "i < 32" "j < 32" "i \<noteq> j" for i j
    using f that by (simp add: files_inv_def)
  have others: "set (slot_addrs s i) \<subseteq> owned s - set (slot_addrs s fd)" if "i < 32" "i \<noteq> fd" for i
    using that disj [of i fd] fd by (auto simp: owned_def file_owned_def)
  have fo: "file_owned (set_slot fd e s) = (\<Union>i \<in> {..<32} - {fd}. set (slot_addrs s i)) \<union> ?E"
    using fd by (auto simp: file_owned_def sl split: if_splits)
  also have "(\<Union>i \<in> {..<32} - {fd}. set (slot_addrs s i)) = file_owned s - set (slot_addrs s fd)"
    using disj [OF _ fd] by (auto simp: file_owned_def)
  finally have fo: "file_owned (set_slot fd e s) = (file_owned s - set (slot_addrs s fd)) \<union> ?E" .
  have "set (slot_addrs s fd) \<subseteq> file_owned s" using fd by (auto simp: file_owned_def)
  then have sep: "set (slot_addrs s fd) \<inter> (dev_owned s \<union> mount_owned s) = {}" using f unfolding files_inv_def by blast
  show "owned (set_slot fd e s) = (owned s - set (slot_addrs s fd)) \<union> ?E"
    using fo sep by (auto simp: owned_def set_slot_simps)
  have "files_inv (set_slot fd e s)"
    unfolding files_inv_def
  proof (intro conjI allI impI)
    show "length (g_open (set_slot fd e s)) = 32" using len by (simp add: set_slot_simps)
    fix i :: nat assume i: "i < 32"
    show "file_ok (set_slot fd e s) (o_file (g_open (set_slot fd e s) ! i))" if "o_used (g_open (set_slot fd e s) ! i)"
      using that f i e(1) len by (cases "i = fd") (auto simp: set_slot_simps files_inv_def)
    show "distinct (slot_addrs (set_slot fd e s) i)" using f i e(2) by (simp add: sl files_inv_def)
    fix j :: nat assume j: "j < 32" "i \<noteq> j"
    show "set (slot_addrs (set_slot fd e s) i) \<inter> set (slot_addrs (set_slot fd e s) j) = {}"
      using disj [OF i j] e(3) others [OF i] others [OF j(1)] j(2) by (auto simp: sl)
  next
    show "file_owned (set_slot fd e s) \<inter> (dev_owned (set_slot fd e s) \<union> mount_owned (set_slot fd e s)) = {}"
      using f e(4) unfolding fo set_slot_simps files_inv_def by auto
  qed
  then show "vfs_inv (set_slot fd e s)" using inv by (simp add: vfs_inv_def set_slot_simps)
qed

section \<open>Opening\<close>

text \<open>What a file system's open leaves behind when it succeeds: a file that owns one new object.\<close>

definition opened :: "('h, 'a) vfs_state_scheme \<Rightarrow> ('h, 'a) vfs_state_scheme \<Rightarrow> vfs_file \<Rightarrow> bool" where
  "opened s s' f \<longleftrightarrow> vfs_inv s' \<and> g_open s' = g_open s \<and> g_mounts s' = g_mounts s \<and> owned s' = owned s \<and> file_ok s' f \<and>
     (\<exists>p k. file_addrs s' f = [p] \<and> p \<notin> owned s \<and> (unat p, k) \<notin> live s \<and> live s' = insert (unat p, k) (live s))"

lemma devfs_new_file_result:
  assumes inv: "vfs_inv s" and k: "fops \<noteq> PYFS_FILE_OPS"
    "fops = DEVFS_BLOCK_FILE_OPS \<Longrightarrow> kd = DEVFS_KIND_BLOCK \<and> b \<in> set (registered s)"
  shows "(devfs_new_file kd b fops f s = Inr (VFS_ERR_NO_SPACE, Some f, s)) \<or>
    (\<exists>f' s'. devfs_new_file kd b fops f s = Inr (VFS_OK, Some f', s') \<and> opened s s' f')"
proof -
  have z: "(8 :: u32) \<noteq> 0" by simp
  from inv z show ?thesis
  proof (cases rule: vfs_kmalloc)
    case none
    then show ?thesis by (simp add: devfs_new_file_def)
  next
    case (new p k m)
    let ?s1 = "s\<lparr>heap_mem := m\<rparr>" and ?f = "f\<lparr>f_ops := Some fops, file_ctx := p, f_size := 0, f_pos := 0\<rparr>"
    let ?s2 = "?s1\<lparr>devfs_at := (devfs_at ?s1)(p := \<lparr>kind = kd, blk = b\<rparr>)\<rparr>"
    have "p \<notin> owned ?s1" using new(7,8) by simp
    note V = vfs_inv_devfs_at [OF new(3) this, of "\<lparr>kind = kd, blk = b\<rparr>"]
    have l: "live ?s2 = insert (unat p, k) (live s)" "registered ?s2 = registered s"
      using disk_inv_cong [of ?s2 ?s1] reg_cong(2) [of ?s1 s] new(5) by simp_all
    have "object_at ?s2 p 8" using l(1) new(4) by (auto simp: object_at_def)
    then have "file_ok ?s2 ?f" using assms(2,3) l(2) by (cases fops) (auto simp: file_ok_def)
    moreover have "file_addrs ?s2 ?f = [p]" using assms(2) by (cases fops) (simp_all add: file_addrs_def)
    ultimately have "opened s ?s2 ?f" using V new l by (auto simp: opened_def)
    moreover have "devfs_new_file kd b fops f s = Inr (VFS_OK, Some ?f, ?s2)" using new(1,2) by (simp add: devfs_new_file_def)
    ultimately show ?thesis by blast
  qed
qed

lemma block_get_registered:
  assumes "reg_inv s" "block_get_by_name (Some n) s = d" "d \<noteq> Null_dev"
  shows "d \<in> set (registered s)"
proof -
  obtain i where i: "find (block_slot_named s n) [0..<g_device_count s] = Some i" "d = g_devices s ! i"
    using assms(2,3) by (auto simp: block_get_by_name_def split: option.splits)
  then have "i < g_device_count s" by (auto simp: find_Some_iff)
  with registered_nth [OF assms(1)] i(2) show ?thesis by simp
qed

lemma devfs_open_result:
  assumes inv: "vfs_inv s"
  shows "(\<exists>rc fo. rc \<noteq> VFS_OK \<and> devfs_open c (Some p) flags (Some f) s = Inr (rc, fo, s)) \<or>
    (\<exists>f' s'. devfs_open c (Some p) flags (Some f) s = Inr (VFS_OK, Some f', s') \<and> opened s s' f')"
proof -
  have reg: "reg_inv s" using inv by (simp add: vfs_inv_def disk_inv_def)
  have n: "devfs_new_file kd b fops f s = Inr (VFS_ERR_NO_SPACE, Some f, s) \<or>
      (\<exists>f' s'. devfs_new_file kd b fops f s = Inr (VFS_OK, Some f', s') \<and> opened s s' f')"
    if "fops \<noteq> PYFS_FILE_OPS" "fops = DEVFS_BLOCK_FILE_OPS \<Longrightarrow> kd = DEVFS_KIND_BLOCK \<and> b \<in> set (registered s)" for kd b fops
    using devfs_new_file_result [OF inv that] .
  have err: "(\<exists>rc fo. rc \<noteq> VFS_OK \<and> X = Inr (rc, fo, s)) \<or> (\<exists>f' s'. X = Inr (VFS_OK, Some f', s') \<and> opened s s' f')"
    if "X = Inr (VFS_ERR_NO_SPACE, Some f, s) \<or> (\<exists>f' s'. X = Inr (VFS_OK, Some f', s') \<and> opened s s' f')"
    for X :: "('a, 'b) open_result"
    using that by auto
  let ?d = "block_get_by_name (Some p) s"
  consider "flags AND VFS_OPEN_WRITE \<noteq> 0" | "flags AND VFS_OPEN_WRITE = 0" "strcmp p ''null'' = 0"
    | "flags AND VFS_OPEN_WRITE = 0" "strcmp p ''null'' \<noteq> 0" "strcmp p ''zero'' = 0"
    | "flags AND VFS_OPEN_WRITE = 0" "strcmp p ''null'' \<noteq> 0" "strcmp p ''zero'' \<noteq> 0" "strncmp p ''disk'' 4 \<noteq> 0 \<or> ?d = Null_dev"
    | "flags AND VFS_OPEN_WRITE = 0" "strcmp p ''null'' \<noteq> 0" "strcmp p ''zero'' \<noteq> 0" "strncmp p ''disk'' 4 = 0" "?d \<noteq> Null_dev"
    by blast
  then show ?thesis
  proof cases
    case 2
    then have "devfs_open c (Some p) flags (Some f) s = devfs_new_file DEVFS_KIND_NULL Null_dev DEVFS_NULL_FILE_OPS f s"
      by (simp add: devfs_open_def)
    then show ?thesis using err [OF n [where fops = DEVFS_NULL_FILE_OPS and kd = DEVFS_KIND_NULL and b = Null_dev]] by simp
  next
    case 3
    then have "devfs_open c (Some p) flags (Some f) s = devfs_new_file DEVFS_KIND_ZERO Null_dev DEVFS_ZERO_FILE_OPS f s"
      by (simp add: devfs_open_def)
    then show ?thesis using err [OF n [where fops = DEVFS_ZERO_FILE_OPS and kd = DEVFS_KIND_ZERO and b = Null_dev]] by simp
  next
    case 5
    then have "devfs_open c (Some p) flags (Some f) s = devfs_new_file DEVFS_KIND_BLOCK ?d DEVFS_BLOCK_FILE_OPS f s"
      by (simp add: devfs_open_def)
    then show ?thesis using err [OF n [where fops = DEVFS_BLOCK_FILE_OPS and kd = DEVFS_KIND_BLOCK and b = ?d]]
        block_get_registered [OF reg refl 5(5)] by simp
  qed (auto simp: devfs_open_def)
qed

lemma pyfs_open_result:
  assumes inv: "vfs_inv s" and c: "c \<in> mount_owned s"
  shows "(\<exists>rc fo. rc \<noteq> VFS_OK \<and> pyfs_open c (Some p) flags (Some f) s = Inr (rc, fo, s)) \<or>
    (\<exists>f' s'. pyfs_open c (Some p) flags (Some f) s = Inr (VFS_OK, Some f', s') \<and> opened s s' f')"
proof (cases "c = 0 \<or> flags AND VFS_OPEN_WRITE \<noteq> 0 \<or> strcmp p ''superblock'' \<noteq> 0")
  case True
  then show ?thesis by (auto simp: pyfs_open_def)
next
  case ok: False
  have z: "(12 :: u32) \<noteq> 0" by simp
  from inv z show ?thesis
  proof (cases rule: vfs_kmalloc)
    case none
    then show ?thesis using ok by (auto simp: pyfs_open_def)
  next
    case (new q k m)
    let ?s1 = "s\<lparr>heap_mem := m\<rparr>" and ?f = "f\<lparr>f_ops := Some PYFS_FILE_OPS, file_ctx := q, f_pos := 0, f_size := PYFS_BLOCK_SIZE\<rparr>"
    let ?x = "\<lparr>pf_fs = c, pf_file_id = PYFS_FILE_SUPERBLOCK, pf_cache = 0\<rparr>"
    let ?s2 = "?s1\<lparr>pyfs_file_at := (pyfs_file_at ?s1)(q := ?x)\<rparr>"
    have "q \<notin> owned ?s1" using new(7,8) by simp
    note V = vfs_inv_pyfs_file_at [OF new(3) this, of ?x]
    have l: "live ?s2 = insert (unat q, k) (live s)" "registered ?s2 = registered s" "mount_owned ?s2 = mount_owned s"
      using disk_inv_cong [of ?s2 ?s1] reg_cong(2) [of ?s1 s] new(5) by (simp_all add: mount_owned_def)
    have "object_at ?s2 q 12" using l(1) new(4) by (auto simp: object_at_def)
    then have "file_ok ?s2 ?f" using l(3) c by (simp add: file_ok_def)
    moreover have "file_addrs ?s2 ?f = [q]" by (simp add: file_addrs_def)
    ultimately have "opened s ?s2 ?f" using V new l by (auto simp: opened_def)
    moreover have "pyfs_open c (Some p) flags (Some f) s = Inr (VFS_OK, Some ?f, ?s2)" using new(1,2) ok by (simp add: pyfs_open_def)
    ultimately show ?thesis by blast
  qed
qed

lemma fs_open_result:
  assumes inv: "vfs_inv s" and m: "m \<in> set (g_mounts s)" "m_used m" "m_ops m = Some fo"
  shows "(\<exists>rc fo'. rc \<noteq> VFS_OK \<and> fs_open fo (m_ctx m) (Some p) flags (Some f) s = Inr (rc, fo', s)) \<or>
    (\<exists>f' s'. fs_open fo (m_ctx m) (Some p) flags (Some f) s = Inr (VFS_OK, Some f', s') \<and> opened s s' f')"
proof (cases fo)
  case NULLFS_OPS
  then show ?thesis by (auto simp: nullfs_open_def)
next
  case DEVFS_OPS
  then show ?thesis using devfs_open_result [OF inv] by simp
next
  case PYFS_OPS
  then have "m_ctx m \<in> mount_owned s" using m by (auto simp: mount_owned_def)
  with PYFS_OPS show ?thesis using pyfs_open_result [OF inv] by simp
qed

text \<open>
  Opening a path returns a code and changes nothing, or a descriptor that was free, for a file that
  owns one new object.
\<close>

lemma file_addrs_pos: "file_addrs s (f\<lparr>f_pos := x\<rparr>) = file_addrs s f" "file_ok s (f\<lparr>f_pos := x\<rparr>) = file_ok s f"
  by (simp_all add: file_addrs_def file_ok_def split: option.split file_ops.split)

lemma vfs_open_result:
  assumes inv: "vfs_inv s" and p: "cstring p"
  obtains (error) rc where "vfs_open (Some p) flags True s = Inr (rc, None, s)" "rc \<noteq> VFS_OK"
  | (opened) fd s' q k where "vfs_open (Some p) flags True s = Inr (VFS_OK, Some fd, s')" "fd < 32" "\<not> o_used (g_open s ! fd)"
      "\<forall>j < fd. o_used (g_open s ! j)" "vfs_inv s'" "slot_addrs s' fd = [q]" "q \<notin> owned s" "owned s' = insert q (owned s)"
      "(unat q, k) \<notin> live s" "live s' = insert (unat q, k) (live s)" "o_used (g_open s' ! fd)" "f_pos (o_file (g_open s' ! fd)) = 0"
      "\<forall>j < 32. j \<noteq> fd \<longrightarrow> g_open s' ! j = g_open s ! j" "g_mounts s' = g_mounts s"
proof -
  have len: "length (g_open s) = 32" using inv by (simp add: vfs_inv_def files_inv_def)
  obtain rc i rel where r: "vfs_find_mount (Some p) s = (rc, i, rel)" by (metis prod_cases3)
  let ?fd = "find (\<lambda>i. \<not> o_used (g_open s ! i)) [0..<32]"
  show thesis
  proof (cases "rc = VFS_OK \<and> ?fd \<noteq> None")
    case False
    then show thesis using r by (intro error [of "if rc = VFS_OK then VFS_ERR_NO_SPACE else rc"]) (auto simp: vfs_open_def split: option.split)
  next
    case True
    then obtain fd where fd: "?fd = Some fd" and rc: "rc = VFS_OK" by auto
    then have fd': "fd < 32" "\<not> o_used (g_open s ! fd)" "\<forall>j < fd. o_used (g_open s ! j)" by (auto simp: find_Some_iff)
    have "p \<noteq> []" "hd p = SLASH" using r rc by (auto simp: vfs_find_mount_def split: if_splits)
    with inv p r rc have i: "i \<in> candidates (g_mounts s) p"
      using vfs_find_mount_result [of s p rc i rel] by (auto simp: vfs_inv_def split: if_splits)
    let ?m = "g_mounts s ! i"
    have m: "?m \<in> set (g_mounts s)" "m_used ?m" using i by (auto simp: candidates_def)
    then obtain fo where fo: "m_ops ?m = Some fo" using inv by (auto simp: vfs_inv_def mounts_inv_def)
    have run: "vfs_open (Some p) flags True s =
        kbind (fs_open fo (m_ctx ?m) (Some rel) flags (Some empty_file) s) (\<lambda>(rc, tmp, s).
           if rc \<noteq> VFS_OK then Inr (rc, None, s)
           else case tmp of None \<Rightarrow> Inr (VFS_ERR_IO, None, s)
             | Some f \<Rightarrow> if f_ops f = None then Inr (VFS_ERR_IO, None, s)
                 else Inr (VFS_OK, Some fd, s\<lparr>g_open := (g_open s)[fd := \<lparr>o_used = True, o_file = f\<lparr>f_pos := 0\<rparr>\<rparr>]\<rparr>))"
      using r rc fd fo by (simp add: vfs_open_def)
    from fs_open_result [OF inv m fo, of rel flags empty_file] show thesis
    proof (elim disjE exE conjE)
      fix rc' fo' assume "rc' \<noteq> VFS_OK" "fs_open fo (m_ctx ?m) (Some rel) flags (Some empty_file) s = Inr (rc', fo', s)"
      then show thesis using run by (intro error [of rc']) auto
    next
      fix f s1 assume o: "fs_open fo (m_ctx ?m) (Some rel) flags (Some empty_file) s = Inr (VFS_OK, Some f, s1)" "opened s s1 f"
      then obtain q k where q: "vfs_inv s1" "g_open s1 = g_open s" "owned s1 = owned s" "file_ok s1 f" "file_addrs s1 f = [q]"
        "q \<notin> owned s" "(unat q, k) \<notin> live s" "live s1 = insert (unat q, k) (live s)" "g_mounts s1 = g_mounts s" by (auto simp: opened_def)
      let ?e = "\<lparr>o_used = True, o_file = f\<lparr>f_pos := 0\<rparr>\<rparr>"
      have "f_ops f \<noteq> None" using q(4) by (auto simp: file_ok_def split: option.splits)
      then have run': "vfs_open (Some p) flags True s = Inr (VFS_OK, Some fd, set_slot fd ?e s1)"
        using run o(1) by (simp add: set_slot_def)
      have "slot_addrs s1 fd = []" using fd'(2) q(2) by (simp add: slot_addrs_def)
      then have V: "vfs_inv (set_slot fd ?e s1)" "owned (set_slot fd ?e s1) = insert q (owned s)"
        using vfs_inv_set_slot [OF q(1) fd'(1), of ?e] q by (auto simp: file_addrs_pos owned_def)
      show thesis
        using run' fd' V q len by (intro opened [of fd "set_slot fd ?e s1" q k])
          (auto simp: set_slot_simps slot_addrs_set_slot file_addrs_pos)
    qed
  qed
qed

section \<open>Closing\<close>

lemma heap_mem_inj:
  assumes "t\<lparr>heap_mem := a\<rparr> = t\<lparr>heap_mem := b\<rparr>"
  shows "a = b"
proof -
  have "a = heap_mem (t\<lparr>heap_mem := a\<rparr>)" by simp
  also have "\<dots> = heap_mem (t\<lparr>heap_mem := b\<rparr>)" using assms by (rule arg_cong)
  also have "\<dots> = b" by simp
  finally show ?thesis .
qed

lemma heap_mem_self: "t = t\<lparr>heap_mem := m\<rparr> \<Longrightarrow> heap_mem t = m"
  by (rule heap_mem_inj [where t = t]) simp

lemma kfree_cong:
  assumes "start_header t = start_header s" "heap_mem t = heap_mem s" "kfree p t = Inr (t\<lparr>heap_mem := m\<rparr>)"
  shows "kfree p s = Inr (s\<lparr>heap_mem := m\<rparr>)"
proof (cases "p = 0")
  case True
  then have e: "t = t\<lparr>heap_mem := m\<rparr>" using assms(3) by (simp add: kfree_def)
  have "heap_mem t = m" by (rule heap_mem_self [OF e])
  with True assms(2) show ?thesis by (auto simp: kfree_def)
next
  case False
  let ?h = "p - sizeof_HeapHeader"
  let ?m = "kfree_coalesce_left ?h (kfree_coalesce_right ?h (set_is_free ?h 1 (heap_mem t)))"
  have c: "start_header t \<noteq> 0" "h_magic (hdr (heap_mem t) ?h) = HEAP_MAGIC" "h_is_free (hdr (heap_mem t) ?h) = 0"
    "t\<lparr>heap_mem := ?m\<rparr> = t\<lparr>heap_mem := m\<rparr>"
    using assms(3) False unfolding kfree_def Let_def by (simp_all split: if_splits)
  from c(4) have "?m = m" by (rule heap_mem_inj)
  with c(1-3) False assms(1,2) show ?thesis by (simp add: kfree_def Let_def)
qed

text \<open>The objects at the given addresses are gone, and nothing else is.\<close>

definition released :: "'a heap_state_scheme \<Rightarrow> u32 set \<Rightarrow> 'b heap_state_scheme \<Rightarrow> bool" where
  "released s A s' \<longleftrightarrow> live s' = {r \<in> live s. fst r \<notin> unat ` A}"

lemma live_pos:
  assumes "heap_inv s" "(q, k) \<in> live s"
  shows "0 < k"
proof -
  obtain xs ys where "heap_abs s = xs @ (k, False) # ys" using live_split [OF assms] by blast
  then show ?thesis using heap_invD(2) [OF assms(1)] by (auto simp: heap_wf_def)
qed

lemma live_fst_unique: "heap_inv s \<Longrightarrow> (q, k) \<in> live s \<Longrightarrow> (q, j) \<in> live s \<Longrightarrow> j = k"
  using kheap.regions_disjoint [of s q k q j] live_pos [of s q k] live_pos [of s q j] by auto

lemma vfs_free_list:
  assumes "vfs_inv t" "distinct ps" "\<And>p. p \<in> set ps \<Longrightarrow> object_at t p 1 \<and> p \<notin> owned t"
  shows "\<exists>m. kfold kfree ps t = Inr (t\<lparr>heap_mem := m\<rparr>) \<and> vfs_inv (t\<lparr>heap_mem := m\<rparr>) \<and> owned (t\<lparr>heap_mem := m\<rparr>) = owned t \<and>
    released t (set ps) (t\<lparr>heap_mem := m\<rparr>)"
  using assms
proof (induction ps arbitrary: t)
  case Nil
  show ?case
    by (rule exI [of _ "heap_mem t"]) (use Nil in \<open>simp add: released_def\<close>)
next
  case (Cons p ps)
  have h: "heap_inv t" using Cons.prems(1) by (simp add: vfs_inv_def disk_inv_def)
  have p: "object_at t p 1" "p \<notin> owned t" using Cons.prems(3) by auto
  obtain k m1 where m1: "kfree p t = Inr (t\<lparr>heap_mem := m1\<rparr>)" "vfs_inv (t\<lparr>heap_mem := m1\<rparr>)" "(unat p, k) \<in> live t"
    "live (t\<lparr>heap_mem := m1\<rparr>) = live t - {(unat p, k)}" "owned (t\<lparr>heap_mem := m1\<rparr>) = owned t"
    by (rule vfs_kfree [OF Cons.prems(1) p])
  have l1: "live (t\<lparr>heap_mem := m1\<rparr>) = {r \<in> live t. fst r \<noteq> unat p}"
  proof (intro equalityI subsetI)
    fix r assume "r \<in> live (t\<lparr>heap_mem := m1\<rparr>)"
    then show "r \<in> {r \<in> live t. fst r \<noteq> unat p}" using live_fst_unique [OF h m1(3)] by (cases r) (auto simp: m1(4))
  qed (auto simp: m1(4))
  have "object_at (t\<lparr>heap_mem := m1\<rparr>) q 1 \<and> q \<notin> owned (t\<lparr>heap_mem := m1\<rparr>)" if "q \<in> set ps" for q
  proof -
    have "q \<noteq> p" using that Cons.prems(2) by auto
    then have "unat q \<noteq> unat p" by (auto dest: word_unat_eq_iff [THEN iffD2])
    then show ?thesis using Cons.prems(3) [of q] that l1 m1(5) by (auto simp: object_at_def)
  qed
  from Cons.IH [OF m1(2) _ this] Cons.prems(2) obtain m where
    m: "kfold kfree ps (t\<lparr>heap_mem := m1\<rparr>) = Inr (t\<lparr>heap_mem := m\<rparr>)" "vfs_inv (t\<lparr>heap_mem := m\<rparr>)" "owned (t\<lparr>heap_mem := m\<rparr>) = owned t"
      "released (t\<lparr>heap_mem := m1\<rparr>) (set ps) (t\<lparr>heap_mem := m\<rparr>)" using m1(5) by auto
  have "released t (set (p # ps)) (t\<lparr>heap_mem := m\<rparr>)" using m(4) l1 by (auto simp: released_def)
  with m m1(1) show ?case by auto
qed

lemma kfold_kfree_cong:
  "start_header t = start_header s \<Longrightarrow> heap_mem t = heap_mem s \<Longrightarrow> kfold kfree ps t = Inr (t\<lparr>heap_mem := m\<rparr>) \<Longrightarrow>
    kfold kfree ps s = Inr (s\<lparr>heap_mem := m\<rparr>)"
proof (induction ps arbitrary: s t)
  case Nil
  then have "t = t\<lparr>heap_mem := m\<rparr>" by (simp only: kfold.simps sum.inject)
  then have "heap_mem t = m" by (rule heap_mem_self)
  with Nil(2) show ?case by auto
next
  case (Cons p ps)
  from Cons.prems(3) obtain t1 where t1: "kfree p t = Inr t1" "kfold kfree ps t1 = Inr (t\<lparr>heap_mem := m\<rparr>)"
    by (auto simp: kres_simps)
  define m1 where "m1 = heap_mem t1"
  have e: "t1 = t\<lparr>heap_mem := m1\<rparr>" unfolding m1_def by (rule kfree_frame [OF t1(1)])
  have s: "kfree p s = Inr (s\<lparr>heap_mem := m1\<rparr>)" using kfree_cong [OF Cons.prems(1,2)] t1(1) e by simp
  have "kfold kfree ps (s\<lparr>heap_mem := m1\<rparr>) = Inr (s\<lparr>heap_mem := m1\<rparr>\<lparr>heap_mem := m\<rparr>)"
    using t1(2) Cons.prems(1) by (intro Cons.IH [of t1]) (simp_all add: e)
  with s show ?case by simp
qed

text \<open>Closing frees exactly the objects of the file, in whatever order the file system does it.\<close>

lemma file_close_frees:
  assumes "file_ok s f" "f_ops f = Some ops" "heap_inv s"
  shows "\<exists>ps. set ps = set (file_addrs s f) \<and> (distinct (file_addrs s f) \<longrightarrow> distinct ps) \<and>
    file_close ops (Some f) s = kbind (kfold kfree ps s) (\<lambda>s. Inr (VFS_OK, Some (f\<lparr>file_ctx := 0, f_ops := None, f_size := 0, f_pos := 0\<rparr>), s))"
proof -
  have c: "file_ctx f \<noteq> 0" using assms object_at_nonzero [OF assms(3)] file_ok_object [OF assms(1) file_ctx_addr [OF assms(1)]] by auto
  have last: "kbind x (kfold kfree []) = x" for x :: "('a, 'b) vfs_state_scheme kres" by (cases x) simp_all
  show ?thesis
  proof (cases "ops = PYFS_FILE_OPS")
    case True
    let ?k = "pf_cache (pyfs_file_at s (file_ctx f))"
    have "set (rev (file_addrs s f)) = set (file_addrs s f)" by simp
    moreover have "file_close ops (Some f) s = kbind (kfold kfree (rev (file_addrs s f)) s)
        (\<lambda>s. Inr (VFS_OK, Some (f\<lparr>file_ctx := 0, f_ops := None, f_size := 0, f_pos := 0\<rparr>), s))"
      using c True assms(2) by (cases "kfree ?k s") (auto simp: pyfs_file_close_def file_addrs_def Let_def last)
    ultimately show ?thesis by (intro exI [of _ "rev (file_addrs s f)"]) simp
  next
    case False
    then have "file_addrs s f = [file_ctx f]" using assms(2) by (cases ops) (simp_all add: file_addrs_def)
    moreover have "file_close ops (Some f) s = devfs_close (Some f) s" using False by (cases ops) simp_all
    ultimately show ?thesis using c by (intro exI [of _ "[file_ctx f]"]) (simp add: devfs_close_def last)
  qed
qed

lemma vfs_close_result:
  assumes inv: "vfs_inv s" and fd: "fd < 32" "o_used (g_open s ! fd)"
  shows "\<exists>s'. vfs_close fd s = Inr (VFS_OK, s') \<and> vfs_inv s' \<and> owned s' = owned s - set (slot_addrs s fd) \<and>
    released s (set (slot_addrs s fd)) s' \<and> g_open s' = (g_open s)[fd := \<lparr>o_used = False, o_file = empty_file\<rparr>] \<and>
    g_mounts s' = g_mounts s"
proof -
  let ?f = "o_file (g_open s ! fd)" and ?e = "\<lparr>o_used = False, o_file = empty_file\<rparr>"
  let ?t = "set_slot fd ?e s"
  have ok: "file_ok s ?f" and h: "heap_inv s" using inv fd by (auto simp: vfs_inv_def files_inv_def disk_inv_def)
  then obtain ops where ops: "f_ops ?f = Some ops" by (auto simp: file_ok_def split: option.splits)
  have sl: "slot_addrs s fd = file_addrs s ?f" "distinct (file_addrs s ?f)"
    using inv fd unfolding vfs_inv_def files_inv_def slot_addrs_def by auto
  obtain ps where ps: "set ps = set (file_addrs s ?f)" "distinct ps"
    "file_close ops (Some ?f) s = kbind (kfold kfree ps s) (\<lambda>s. Inr (VFS_OK, Some (?f\<lparr>file_ctx := 0, f_ops := None, f_size := 0, f_pos := 0\<rparr>), s))"
    using file_close_frees [OF ok ops h] sl(2) by blast
  have T: "vfs_inv ?t" "owned ?t = owned s - set (slot_addrs s fd)" using vfs_inv_set_slot [OF inv fd(1), of ?e] by simp_all
  have "object_at ?t p 1 \<and> p \<notin> owned ?t" if "p \<in> set ps" for p
    using that file_ok_object [OF ok] T(2) sl(1) ps(1) by (auto simp: object_at_def set_slot_simps)
  from vfs_free_list [OF T(1) ps(2) this] obtain m where m: "kfold kfree ps ?t = Inr (?t\<lparr>heap_mem := m\<rparr>)"
    "vfs_inv (?t\<lparr>heap_mem := m\<rparr>)" "owned (?t\<lparr>heap_mem := m\<rparr>) = owned ?t" "released ?t (set ps) (?t\<lparr>heap_mem := m\<rparr>)" by blast
  have "kfold kfree ps s = Inr (s\<lparr>heap_mem := m\<rparr>)" by (rule kfold_kfree_cong [OF _ _ m(1)]) (simp_all add: set_slot_def)
  moreover have "s\<lparr>heap_mem := m, g_open := (g_open s)[fd := ?e]\<rparr> = ?t\<lparr>heap_mem := m\<rparr>" by (simp add: set_slot_def)
  ultimately have run: "vfs_close fd s = Inr (VFS_OK, ?t\<lparr>heap_mem := m\<rparr>)"
    using fd ops ps(3) by (simp add: vfs_close_def)
  show ?thesis
    using run m T(2) ps(1) sl(1) by (intro exI [of _ "?t\<lparr>heap_mem := m\<rparr>"]) (simp add: released_def set_slot_simps)
qed

end
