(* ===== verification/VFS_Read.thy ===== *)
theory VFS_Read
  imports VFS_Spec
begin

text \<open>
  Reading from open files: reads keep the invariant whatever the hardware does, and what they deliver
  when the device behind the file serves an image.
\<close>

section \<open>Objects nobody owns\<close>

text \<open>The addresses of live heap objects that belong to no device, mount or open file.\<close>

definition garbage :: "('h, 'a) vfs_state_scheme \<Rightarrow> nat set" where
  "garbage s = fst ` live s - unat ` owned s"

lemma garbage_new:
  assumes "heap_inv t" "live t = insert (unat p, k) (live s)" "(unat p, k) \<notin> live s" "owned t = insert p (owned s)"
  shows "garbage t = garbage s"
proof -
  have "unat p \<notin> fst ` live s"
  proof
    assume "unat p \<in> fst ` live s"
    then obtain j where "(unat p, j) \<in> live s" by auto
    then show False using live_fst_unique [OF assms(1), of "unat p" k j] assms(2,3) by auto
  qed
  then show ?thesis using assms(2,4) by (auto simp: garbage_def)
qed

lemma garbage_same: "live t = live s \<Longrightarrow> owned t = owned s \<Longrightarrow> garbage t = garbage s"
  by (simp add: garbage_def)

lemma garbage_ata: "vfs_inv s \<Longrightarrow> vfs_inv (s\<lparr>ata := a\<rparr>) \<Longrightarrow> garbage (s\<lparr>ata := a\<rparr>) = garbage s"
  using heap_cong [of "s\<lparr>ata := a\<rparr>" s] vfs_inv_ata(2) [of s a] by (simp add: garbage_def vfs_inv_def)

section \<open>Reads keep the invariant\<close>

lemma devfs_read_sectors_result:
  assumes "vfs_inv s" "dev \<in> set (registered s)"
  shows "\<exists>rc n' buf' a. devfs_read_sectors B dev ss lba i n buf s = Inr (rc, n', buf', s\<lparr>ata := a\<rparr>) \<and>
    vfs_inv (s\<lparr>ata := a\<rparr>) \<and> rc \<in> {VFS_OK, VFS_ERR_IO}"
  using assms
proof (induction n arbitrary: i buf s)
  case 0
  show ?case by (rule exI [of _ VFS_OK], rule exI [of _ 0], rule exI [of _ buf], rule exI [of _ "ata s"]) (use 0 in simp)
next
  case (Suc n)
  have d: "disk_inv s" using Suc.prems(1) by (simp add: vfs_inv_def)
  obtain rc data a where r: "dev_read B dev (lba + i) True s = Some (rc, data, s\<lparr>ata := a\<rparr>)"
    using read_registered [OF d Suc.prems(2), of B] unfolding read_returns_def by blast
  have V: "vfs_inv (s\<lparr>ata := a\<rparr>)" using Suc.prems(1) dev_read_inv(1) [OF d Suc.prems(2) r] by (rule vfs_inv_ata)
  have m: "dev \<in> set (registered (s\<lparr>ata := a\<rparr>))" using Suc.prems(2) reg_cong(2) [of "s\<lparr>ata := a\<rparr>" s] by simp
  show ?case
  proof (cases "rc = BLOCK_SUCCESS")
    case True
    with r Suc.IH [OF V m, of "i + 1" "buf_write (unat (i * ss)) data buf"] show ?thesis by (simp add: Let_def)
  next
    case False
    with r V show ?thesis by (intro exI [of _ VFS_ERR_IO] exI [of _ "i * ss"] exI [of _ "buf_write (unat (i * ss)) data buf"] exI [of _ a])
        (simp add: Let_def)
  qed
qed

text \<open>Bytes stored into an object keep the heap and its objects.\<close>

lemma heap_store_live:
  assumes "heap_inv s" "(q, k) \<in> live s" "q \<le> unat p" "unat p + length bs \<le> q + k"
  shows "heap_inv (s\<lparr>heap_mem := heap_store p bs (heap_mem s)\<rparr>) \<and> live (s\<lparr>heap_mem := heap_store p bs (heap_mem s)\<rparr>) = live s"
  using assms
proof (induction bs arbitrary: p s)
  case (Cons b bs)
  let ?s = "s\<lparr>heap_mem := (heap_mem s)(p := b)\<rparr>"
  have st: "heap_inv ?s" "live ?s = live s"
    using heap_store_inv [OF Cons.prems(1-3), of b] Cons.prems(4) by (simp_all add: live_def)
  have "unat (p + 1) = unat p + 1"
    using live_less [OF Cons.prems(1,2)] Cons.prems(4) by (simp add: unat_plus_if_size word_size)
  with Cons.IH [of ?s "p + 1"] st Cons.prems show ?case by (simp add: fun_upd_def)
qed simp

lemma heap_store_object:
  assumes "heap_inv s" "object_at s p n" "length bs \<le> n"
  shows "heap_inv (s\<lparr>heap_mem := heap_store p bs (heap_mem s)\<rparr>)" "live (s\<lparr>heap_mem := heap_store p bs (heap_mem s)\<rparr>) = live s"
proof -
  obtain k where "n \<le> k" "(unat p, k) \<in> live s" using assms(2) by (auto simp: object_at_def)
  with heap_store_live [OF assms(1) this(2), of p bs] assms(3)
  show "heap_inv (s\<lparr>heap_mem := heap_store p bs (heap_mem s)\<rparr>)" "live (s\<lparr>heap_mem := heap_store p bs (heap_mem s)\<rparr>) = live s" by simp_all
qed

lemma vfs_inv_heap_store:
  assumes "vfs_inv s" "object_at s p n" "length bs \<le> n"
  shows "vfs_inv (s\<lparr>heap_mem := heap_store p bs (heap_mem s)\<rparr>)" "owned (s\<lparr>heap_mem := heap_store p bs (heap_mem s)\<rparr>) = owned s"
proof -
  have h: "heap_inv s" using assms(1) by (simp add: vfs_inv_def disk_inv_def)
  note H = heap_store_object [OF h assms(2,3)]
  show "vfs_inv (s\<lparr>heap_mem := heap_store p bs (heap_mem s)\<rparr>)" "owned (s\<lparr>heap_mem := heap_store p bs (heap_mem s)\<rparr>) = owned s"
    using vfs_inv_mem [OF assms(1) H(1)] H(2) by (simp_all add: object_at_def)
qed

text \<open>The sector cache of a PyFS file: a new object that the file owns from then on.\<close>

lemma set_slot_pyfs_file_at:
  "set_slot fd e (s\<lparr>pyfs_file_at := x\<rparr>) = (set_slot fd e s)\<lparr>pyfs_file_at := x\<rparr>"
  by (simp add: set_slot_def)

lemma vfs_inv_cache:
  assumes inv: "vfs_inv s" and fd: "fd < 32" "o_used (g_open s ! fd)" "f_ops (o_file (g_open s ! fd)) = Some PYFS_FILE_OPS"
    and ctx: "fctx = file_ctx (o_file (g_open s ! fd))" "pf_cache (pyfs_file_at s fctx) = 0"
    and c: "object_at s c 512" "c \<notin> owned s"
  shows "vfs_inv (set_pf_cache fctx c s)" "owned (set_pf_cache fctx c s) = insert c (owned s)"
proof -
  let ?e = "g_open s ! fd" and ?f = "o_file (g_open s ! fd)"
  define u where "u = set_slot fd \<lparr>o_used = False, o_file = empty_file\<rparr> s"
  define v where "v = u\<lparr>pyfs_file_at := (pyfs_file_at u)(fctx := (pyfs_file_at s fctx)\<lparr>pf_cache := c\<rparr>)\<rparr>"
  have h: "heap_inv s" and len: "length (g_open s) = 32" and ok: "file_ok s ?f"
    using inv fd by (auto simp: vfs_inv_def files_inv_def disk_inv_def)
  have c0: "c \<noteq> 0" using object_at_nonzero [OF h c(1)] .
  have sl: "slot_addrs s fd = [fctx]" using fd ctx by (simp add: slot_addrs_def file_addrs_def)
  have "fctx \<in> set (slot_addrs s fd)" using sl by simp
  then have own: "fctx \<in> owned s" "fctx \<notin> dev_owned s \<union> mount_owned s"
    using fd(1) inv unfolding owned_def file_owned_def vfs_inv_def files_inv_def by blast+
  have U: "vfs_inv u" "owned u = owned s - {fctx}" using vfs_inv_set_slot [OF inv fd(1), of "\<lparr>o_used = False, o_file = empty_file\<rparr>"] sl
    by (simp_all add: u_def)
  then have V: "vfs_inv v" "owned v = owned s - {fctx}" using vfs_inv_pyfs_file_at [OF U(1), of fctx "(pyfs_file_at s fctx)\<lparr>pf_cache := c\<rparr>"]
    by (simp_all add: v_def)
  have w: "set_slot fd ?e v = set_pf_cache fctx c s"
    using len fd(1) by (simp add: v_def u_def set_slot_def set_pf_cache_def)
  have lv: "live v = live s" "mount_owned v = mount_owned s" "dev_owned v = dev_owned s" "registered v = registered s"
    using disk_inv_cong [of v s] by (simp_all add: v_def u_def set_slot_def mount_owned_def dev_owned_def)
  have fa: "file_addrs v ?f = [fctx, c]" using fd(3) ctx c0 by (simp add: file_addrs_def v_def)
  have fo: "file_ok v ?f" using ok fd(3) ctx c(1) lv by (simp add: file_ok_def v_def object_at_def)
  have "slot_addrs v fd = []" using len fd(1) by (simp add: slot_addrs_def v_def u_def set_slot_def)
  moreover have "c \<noteq> fctx" using own(1) c(2) by auto
  moreover have "c \<notin> dev_owned s \<union> mount_owned s" using c(2) by (auto simp: owned_def)
  ultimately show "vfs_inv (set_pf_cache fctx c s)" "owned (set_pf_cache fctx c s) = insert c (owned s)"
    using vfs_inv_set_slot [OF V(1) fd(1), of ?e] fo fa c(2) own V(2) fd(2) lv unfolding w by auto
qed

text \<open>The first read of a file: the cache is allocated, kept, and filled from the device.\<close>

lemma pyfs_fill_cache_new:
  assumes inv: "vfs_inv s" and fd: "fd < 32" "o_used (g_open s ! fd)" "f_ops (o_file (g_open s ! fd)) = Some PYFS_FILE_OPS"
    and ctx: "fctx = file_ctx (o_file (g_open s ! fd))" "pf_cache (pyfs_file_at s fctx) = 0"
    and k: "kmalloc PYFS_BLOCK_SIZE s = Inr (c, s1)" "c \<noteq> 0"
  obtains rc data a m where "s1 = s\<lparr>heap_mem := m\<rparr>"
    "dev_read B (px_dev (pyfs_at s (pf_fs (pyfs_file_at s fctx)))) 0 True (set_pf_cache fctx c s1) =
       Some (rc, data, (set_pf_cache fctx c s1)\<lparr>ata := a\<rparr>)"
    "if rc = BLOCK_SUCCESS then length data = 512 else data = []"
    "pyfs_fill_cache B fctx s = Inr (if rc \<noteq> BLOCK_SUCCESS then VFS_ERR_IO else VFS_OK,
       (set_pf_cache fctx c s1)\<lparr>ata := a, heap_mem := heap_store c data m\<rparr>)"
    "vfs_inv ((set_pf_cache fctx c s1)\<lparr>ata := a, heap_mem := heap_store c data m\<rparr>)"
    "garbage ((set_pf_cache fctx c s1)\<lparr>ata := a, heap_mem := heap_store c data m\<rparr>) = garbage s"
proof -
  have z: "PYFS_BLOCK_SIZE \<noteq> 0" by simp
  obtain m n where new: "s1 = s\<lparr>heap_mem := m\<rparr>" "vfs_inv s1" "512 \<le> n"
      "live s1 = insert (unat c, n) (live s)" "c \<notin> owned s" "owned s1 = owned s" "(unat c, n) \<notin> live s"
    using inv z
  proof (cases rule: vfs_kmalloc)
    case none
    then show thesis using k by simp
  next
    case (new p n m)
    have e: "c = p" "s1 = s\<lparr>heap_mem := m\<rparr>" using new(1) k(1) by simp_all
    have n: "512 \<le> n" using new(4) by simp
    show thesis using new(3) n new(5,7,8,6) unfolding e(1) [symmetric] e(2) [symmetric] by (rule that [OF e(2)])
  qed
  let ?s2 = "set_pf_cache fctx c s1"
  have o: "object_at s1 c 512" using new(3,4) by (auto simp: object_at_def)
  have V2: "vfs_inv ?s2" "owned ?s2 = insert c (owned s)" using vfs_inv_cache [OF new(2) fd(1), of fctx c] fd ctx o new(1,5,6) by simp_all
  have sh: "registered ?s2 = registered s" "live ?s2 = live s1"
    using disk_inv_cong [of ?s2 s1] reg_cong(2) [of s1 s] new(1) by (simp_all add: set_pf_cache_def)
  let ?d = "px_dev (pyfs_at s (pf_fs (pyfs_file_at s fctx)))"
  have "file_ok s (o_file (g_open s ! fd))" using inv fd by (auto simp: vfs_inv_def files_inv_def)
  then have "pf_fs (pyfs_file_at s fctx) \<in> mount_owned s" using fd(3) ctx by (simp add: file_ok_def)
  then have d: "?d \<in> set (registered ?s2)" using inv sh(1) by (auto simp: vfs_inv_def pyfs_mount_ok_def)
  have D: "disk_inv ?s2" using V2(1) by (simp add: vfs_inv_def)
  obtain rc data a where r: "dev_read B ?d 0 True ?s2 = Some (rc, data, ?s2\<lparr>ata := a\<rparr>)"
    using read_registered [OF D d, of B] unfolding read_returns_def by blast
  note I = dev_read_inv [OF D d r]
  let ?s3 = "?s2\<lparr>ata := a\<rparr>"
  note V3 = vfs_inv_ata [OF V2(1) I(1)]
  have l3: "live ?s3 = live ?s2" using heap_cong [of ?s3 ?s2] by simp
  then have o3: "object_at ?s3 c 512" using o sh(2) by (simp add: object_at_def)
  have len: "if rc = BLOCK_SUCCESS then length data = 512 else data = []" using I(4) .
  then have l: "length data \<le> 512" by (auto split: if_splits)
  let ?s4 = "?s3\<lparr>heap_mem := heap_store c data (heap_mem ?s3)\<rparr>"
  note V4 = vfs_inv_heap_store [OF V3(1) o3 l]
  have h: "heap_inv ?s3" "heap_inv ?s4" using V3(1) V4(1) by (simp_all add: vfs_inv_def disk_inv_def)
  have "live ?s4 = insert (unat c, n) (live s)" using heap_store_object(2) [OF h(1) o3 l] l3 sh(2) new(4) by (simp only:)
  then have g: "garbage ?s4 = garbage s" using garbage_new [OF h(2) _ new(7)] V4(2) V3(2) V2(2) by simp
  have m: "heap_mem ?s3 = m" using new(1) by (simp add: set_pf_cache_def)
  have "pyfs_fill_cache B fctx s = Inr (if rc \<noteq> BLOCK_SUCCESS then VFS_ERR_IO else VFS_OK, ?s3\<lparr>heap_mem := heap_store c data m\<rparr>)"
    using ctx(2) k r new(1) by (simp add: pyfs_fill_cache_def Let_def set_pf_cache_def)
  then show thesis using V4(1) g unfolding m by (intro that [OF new(1) r len])
qed

lemma pyfs_fill_cache_result:
  assumes inv: "vfs_inv s" and fd: "fd < 32" "o_used (g_open s ! fd)" "f_ops (o_file (g_open s ! fd)) = Some PYFS_FILE_OPS"
    and ctx: "fctx = file_ctx (o_file (g_open s ! fd))"
  shows "\<exists>rc s'. pyfs_fill_cache B fctx s = Inr (rc, s') \<and> vfs_inv s' \<and> g_open s' = g_open s \<and> g_mounts s' = g_mounts s \<and>
    garbage s' = garbage s"
proof (cases "pf_cache (pyfs_file_at s fctx) = 0")
  case True
  have z: "PYFS_BLOCK_SIZE \<noteq> 0" by simp
  from inv z show ?thesis
  proof (cases rule: vfs_kmalloc)
    case none
    have "(pyfs_file_at s fctx)\<lparr>pf_cache := 0\<rparr> = pyfs_file_at s fctx" using True by (cases "pyfs_file_at s fctx") simp
    then have "set_pf_cache fctx 0 s = s" by (simp add: set_pf_cache_def)
    with none True inv show ?thesis by (simp add: pyfs_fill_cache_def)
  next
    case (new c k m)
    show ?thesis by (rule pyfs_fill_cache_new [OF inv fd ctx True new(1,2), of B]) (auto simp: set_pf_cache_def)
  qed
qed (use inv in \<open>simp add: pyfs_fill_cache_def\<close>)

lemma pyfs_file_read_result:
  assumes inv: "vfs_inv s" and fd: "fd < 32" "o_used (g_open s ! fd)" "f_ops (o_file (g_open s ! fd)) = Some PYFS_FILE_OPS"
  shows "\<exists>rc buf' r' s'. pyfs_file_read B (Some (o_file (g_open s ! fd))) off buffer sz (Some r) s = Inr (rc, buf', r', s') \<and>
    vfs_inv s' \<and> g_open s' = g_open s \<and> g_mounts s' = g_mounts s \<and> garbage s' = garbage s"
proof (cases buffer)
  case None
  then show ?thesis using inv by (auto simp: pyfs_file_read_def)
next
  case (Some buf)
  let ?c = "file_ctx (o_file (g_open s ! fd))"
  obtain rc s' where "pyfs_fill_cache B ?c s = Inr (rc, s')" "vfs_inv s'" "g_open s' = g_open s" "g_mounts s' = g_mounts s" "garbage s' = garbage s"
    using pyfs_fill_cache_result [OF inv fd refl] by blast
  with Some inv show ?thesis by (auto simp: pyfs_file_read_def Let_def)
qed

lemma devfs_read_block_result:
  assumes inv: "vfs_inv s" and fd: "fd < 32" "o_used (g_open s ! fd)" "f_ops (o_file (g_open s ! fd)) = Some DEVFS_BLOCK_FILE_OPS"
  shows "\<exists>rc buf' r' a. devfs_read_block B (Some (o_file (g_open s ! fd))) off buffer sz (Some r) s = Inr (rc, buf', r', s\<lparr>ata := a\<rparr>) \<and>
    vfs_inv (s\<lparr>ata := a\<rparr>)"
proof -
  let ?f = "o_file (g_open s ! fd)"
  let ?d = "blk (devfs_at s (file_ctx ?f))"
  have "file_ok s ?f" and h: "heap_inv s" and reg: "reg_inv s" using inv fd by (auto simp: vfs_inv_def files_inv_def disk_inv_def)
  then have k: "kind (devfs_at s (file_ctx ?f)) = DEVFS_KIND_BLOCK" "?d \<in> set (registered s)" "file_ctx ?f \<noteq> 0"
    using fd(3) object_at_nonzero [OF h] by (auto simp: file_ok_def)
  have u: "?d \<noteq> Null_dev" "bd_read (dev_at s ?d) \<noteq> No_read" "bd_sector_size (dev_at s ?d) \<noteq> 0"
    using reg k(2) by (auto simp: reg_inv_def usable_def)
  have same: "s\<lparr>ata := ata s\<rparr> = s" by simp
  show ?thesis
  proof (cases buffer)
    case None
    then show ?thesis using inv by (intro exI [of _ VFS_ERR_INVALID_PARAM] exI [of _ buffer] exI [of _ "Some r"] exI [of _ "ata s"])
        (simp add: devfs_read_block_def)
  next
    case (Some buf)
    let ?ss = "bd_sector_size (dev_at s ?d)"
    show ?thesis
    proof (cases "off mod ?ss = 0 \<and> sz mod ?ss = 0")
      case True
      obtain rc n' buf' a where "devfs_read_sectors B ?d ?ss (off div ?ss) 0 (unat (sz div ?ss)) buf s = Inr (rc, n', buf', s\<lparr>ata := a\<rparr>)"
        "vfs_inv (s\<lparr>ata := a\<rparr>)"
        using devfs_read_sectors_result [OF inv k(2), of B ?ss "off div ?ss" 0 "unat (sz div ?ss)" buf] by blast
      with Some True k u show ?thesis by (cases "rc = VFS_OK") (auto simp: devfs_read_block_def Let_def)
    next
      case False
      with Some k u inv same show ?thesis
        by (intro exI [of _ VFS_ERR_NOT_SUPPORTED] exI [of _ buffer] exI [of _ "Some r"] exI [of _ "ata s"])
          (auto simp: devfs_read_block_def Let_def)
    qed
  qed
qed

lemma file_read_result:
  assumes inv: "vfs_inv s" and fd: "fd < 32" "o_used (g_open s ! fd)" "f_ops (o_file (g_open s ! fd)) = Some ops"
  shows "\<exists>rc buf' r' s'. file_read B ops (Some (o_file (g_open s ! fd))) off buffer sz (Some r) s = Inr (rc, buf', r', s') \<and>
    vfs_inv s' \<and> g_open s' = g_open s \<and> g_mounts s' = g_mounts s \<and> garbage s' = garbage s"
proof (cases ops)
  case DEVFS_BLOCK_FILE_OPS
  with devfs_read_block_result [OF inv fd(1,2), of B off buffer sz r] fd(3) garbage_ata [OF inv] show ?thesis by auto
next
  case PYFS_FILE_OPS
  with pyfs_file_read_result [OF inv fd(1,2), of B off buffer sz r] fd(3) show ?thesis by auto
qed (use inv in \<open>auto simp: devfs_read_null_def devfs_read_zero_def\<close>)

lemma vfs_read_result:
  assumes inv: "vfs_inv s"
  shows "\<exists>rc buf' r' s'. vfs_read B fd buffer sz out_read s = Inr (rc, buf', r', s') \<and> vfs_inv s' \<and>
    (\<forall>i < 32. o_used (g_open s' ! i) = o_used (g_open s ! i)) \<and> (\<forall>i < 32. i \<noteq> fd \<longrightarrow> g_open s' ! i = g_open s ! i) \<and>
    g_mounts s' = g_mounts s \<and> garbage s' = garbage s"
proof (cases "fd < 32 \<and> o_used (g_open s ! fd) \<and> \<not> (sz > 0 \<and> buffer = None)")
  case False
  then show ?thesis using inv by (auto simp: vfs_read_def)
next
  case True
  let ?e = "g_open s ! fd"
  have len: "length (g_open s) = 32" and "file_ok s (o_file ?e)" using inv True by (auto simp: vfs_inv_def files_inv_def)
  then obtain ops where ops: "f_ops (o_file ?e) = Some ops" by (auto simp: file_ok_def split: option.splits)
  from file_read_result [OF inv _ _ ops, of B "f_pos (o_file ?e)" buffer sz 0] True obtain rc buf' r' s' where
    r: "file_read B ops (Some (o_file ?e)) (f_pos (o_file ?e)) buffer sz (Some 0) s = Inr (rc, buf', r', s')" "vfs_inv s'" "g_open s' = g_open s"
      "g_mounts s' = g_mounts s" "garbage s' = garbage s" by auto
  let ?n = "case r' of None \<Rightarrow> 0 | Some n \<Rightarrow> n"
  let ?e' = "?e\<lparr>o_file := (o_file ?e)\<lparr>f_pos := f_pos (o_file ?e) + ?n\<rparr>\<rparr>"
  have ok': "file_ok s' (o_file ?e)" "slot_addrs s' fd = file_addrs s' (o_file ?e)" "distinct (file_addrs s' (o_file ?e))"
    using r(2,3) True unfolding vfs_inv_def files_inv_def slot_addrs_def by auto
  have "set (file_addrs s' (o_file ?e)) \<inter> (dev_owned s' \<union> mount_owned s') = {}"
    using r(2) True ok'(2) unfolding vfs_inv_def files_inv_def file_owned_def by fastforce
  moreover have "set (file_addrs s' (o_file ?e)) \<subseteq> owned s'" using True ok'(2) by (auto simp: owned_def file_owned_def)
  ultimately have V: "vfs_inv (set_slot fd ?e' s')" "owned (set_slot fd ?e' s') = owned s'"
    using vfs_inv_set_slot [OF r(2), of fd ?e'] True ok' by (auto simp: file_addrs_pos)
  show ?thesis
  proof (cases "rc = VFS_OK \<and> \<not> ?n > sz")
    case ok: True
    have "vfs_read B fd buffer sz out_read s = Inr (VFS_OK, buf', if out_read = None then None else Some ?n, set_slot fd ?e' s')"
      using True ops r(1,3) ok by (simp add: vfs_read_def set_slot_def Let_def)
    moreover have "o_used ((g_open s)[fd := ?e'] ! i) = o_used (g_open s ! i)" for i
      using len True by (cases "i = fd") auto
    moreover have "garbage (set_slot fd ?e' s') = garbage s"
      using garbage_same [OF _ V(2)] r(5) by (simp add: set_slot_simps)
    ultimately show ?thesis using V(1) r(3,4) by (simp add: set_slot_simps)
  next
    case False
    then show ?thesis using True ops r by (auto simp: vfs_read_def Let_def)
  qed
qed

end
