(* ===== verification/VFS_Correct.thy ===== *)
theory VFS_Correct
  imports VFS_Read
begin

text \<open>
  The properties of the file layer: no sequence of calls stops the machine or breaks the ownership of
  memory, a file that is opened and closed leaves no memory behind, block files deliver the sectors of
  their device, and how the sector cache of PyFS behaves.
\<close>

section \<open>Mounting\<close>

lemma mount_owned_update:
  assumes "i < length (g_mounts s)" "\<not> m_used (g_mounts s ! i)"
  shows "mount_owned (s\<lparr>g_mounts := (g_mounts s)[i := n]\<rparr>) =
    mount_owned s \<union> (if m_used n \<and> m_ops n = Some PYFS_OPS then {m_ctx n} else {})"
proof -
  let ?P = "\<lambda>ms. {m \<in> {m \<in> set ms. m_used m}. m_ops m = Some PYFS_OPS}"
  have o: "mount_owned t = m_ctx ` ?P (g_mounts t)" for t :: "('a, 'b) vfs_state_scheme"
    by (auto simp: mount_owned_def)
  have "?P ((g_mounts s)[i := n]) = ?P (g_mounts s) \<union> (if m_used n \<and> m_ops n = Some PYFS_OPS then {n} else {})"
    unfolding set_update_used [OF assms] by auto
  then have "m_ctx ` ?P ((g_mounts s)[i := n]) = m_ctx ` ?P (g_mounts s) \<union> (if m_used n \<and> m_ops n = Some PYFS_OPS then {m_ctx n} else {})"
    by (simp only: image_Un) simp
  moreover have "g_mounts (s\<lparr>g_mounts := (g_mounts s)[i := n]\<rparr>) = (g_mounts s)[i := n]" by simp
  ultimately show ?thesis by (simp only: o)
qed

lemma vfs_inv_mounts:
  assumes inv: "vfs_inv s" and ms: "mounts_inv ms" and own: "mount_owned (s\<lparr>g_mounts := ms\<rparr>) = mount_owned s \<union> C"
    and C: "\<And>c. c \<in> C \<Longrightarrow> pyfs_mount_ok s c \<and> c \<notin> file_owned s"
  shows "vfs_inv (s\<lparr>g_mounts := ms\<rparr>)"
proof -
  let ?t = "s\<lparr>g_mounts := ms\<rparr>"
  have c: "disk_inv ?t = disk_inv s" "live ?t = live s" "registered ?t = registered s" "\<And>d. dev_addrs ?t d = dev_addrs s d"
    using disk_inv_cong [of ?t s] by simp_all
  have o: "object_at ?t q n = object_at s q n" for q n using c(2) by (simp add: object_at_def)
  have fa: "file_addrs ?t f = file_addrs s f" for f by (simp add: file_addrs_def split: option.split file_ops.split)
  then have sl: "slot_addrs ?t i = slot_addrs s i" for i by (simp add: slot_addrs_def)
  then have fo: "file_owned ?t = file_owned s" by (simp add: file_owned_def)
  have do: "dev_owned ?t = dev_owned s" using c by (simp add: dev_owned_def)
  have fok: "file_ok s f \<Longrightarrow> file_ok ?t f" for f
    using own c(3) o by (auto simp: file_ok_def split: option.splits file_ops.splits)
  have mok: "pyfs_mount_ok ?t q = pyfs_mount_ok s q" for q using c(3) o by (simp add: pyfs_mount_ok_def)
  have F: "file_owned s \<inter> (dev_owned s \<union> mount_owned s) = {}" using inv by (simp add: vfs_inv_def files_inv_def)
  have "files_inv ?t"
    using inv sl fok fo do own C F unfolding vfs_inv_def files_inv_def by auto
  then show ?thesis using inv ms c(1) own C mok by (auto simp: vfs_inv_def)
qed

lemma vfs_mount_vfs_inv:
  assumes inv: "vfs_inv s" and mp: "cstring mp" and fo: "fo = PYFS_OPS \<Longrightarrow> pyfs_mount_ok s ctx \<and> ctx \<notin> owned s"
    and r: "vfs_mount (Some mp) (Some fn) (Some fo) ctx s = (rc, s')"
  shows "vfs_inv s'"
proof -
  have m: "mounts_inv (g_mounts s)" and len: "length (g_mounts s) = 8" using inv by (auto simp: vfs_inv_def mounts_inv_def)
  have m': "mounts_inv (g_mounts s')" using m mp r by (rule vfs_mount_inv)
  from m mp r show ?thesis
  proof (cases rule: vfs_mount_result)
    case (ok i)
    let ?n = "\<lparr>m_used = True, m_mountpoint = mp, m_fs_name = fn, m_ops = Some fo, m_ctx = ctx\<rparr>"
    let ?C = "if fo = PYFS_OPS then {ctx} else {}"
    have own: "mount_owned (s\<lparr>g_mounts := (g_mounts s)[i := ?n]\<rparr>) = mount_owned s \<union> ?C"
      using mount_owned_update [of i s ?n] ok(2,3) len by simp
    have "pyfs_mount_ok s c \<and> c \<notin> file_owned s" if "c \<in> ?C" for c
      using that fo by (auto simp: owned_def split: if_splits)
    from vfs_inv_mounts [OF inv _ own this] show ?thesis using m' ok(4) by simp
  next
    case (long i n)
    have "mount_owned (s\<lparr>g_mounts := (g_mounts s)[i := n]\<rparr>) = mount_owned s \<union> {}"
      using mount_owned_update [of i s n] long(2,3,4) len by simp
    from vfs_inv_mounts [OF inv _ this] show ?thesis using m' long(6) by auto
  qed (use inv in simp_all)
qed

section \<open>Sequences of calls\<close>

text \<open>
  One call of a client: mounting a file system (PyFS with a context that is alive and not owned yet),
  opening a path, reading from or closing any descriptor.
\<close>

inductive vfs_step :: "'h bus \<Rightarrow> ('h, 'a) vfs_state_scheme \<Rightarrow> ('h, 'a) vfs_state_scheme \<Rightarrow> bool" for B where
  mount: "cstring mp \<Longrightarrow> (fo = PYFS_OPS \<Longrightarrow> pyfs_mount_ok s ctx \<and> ctx \<notin> owned s) \<Longrightarrow>
    vfs_mount (Some mp) (Some fn) (Some fo) ctx s = (rc, s') \<Longrightarrow> vfs_step B s s'"
| open_path: "cstring p \<Longrightarrow> vfs_open (Some p) flags True s = Inr (rc, fd, s') \<Longrightarrow> vfs_step B s s'"
| read: "vfs_read B fd buffer sz out_read s = Inr (rc, buffer', out_read', s') \<Longrightarrow> vfs_step B s s'"
| close: "vfs_close fd s = Inr (rc, s') \<Longrightarrow> vfs_step B s s'"

inductive_cases vfs_stepE: "vfs_step B s s'"

lemma vfs_close_inv:
  assumes "vfs_inv s"
  shows "\<exists>rc s'. vfs_close fd s = Inr (rc, s') \<and> vfs_inv s'"
proof (cases "fd < 32 \<and> o_used (g_open s ! fd)")
  case True
  then show ?thesis using vfs_close_result [OF assms] by blast
next
  case False
  then show ?thesis using assms by (auto simp: vfs_close_def)
qed

lemma vfs_step_inv: "vfs_step B s s' \<Longrightarrow> vfs_inv s \<Longrightarrow> vfs_inv s'"
proof (induction rule: vfs_step.induct)
  case (mount mp fo s ctx fn rc s')
  then show ?case using vfs_mount_vfs_inv by blast
next
  case (open_path p flags s rc fd s')
  from open_path.prems open_path.hyps(1) show ?case
    by (cases rule: vfs_open_result [where flags = flags]) (use open_path in auto)
next
  case (read fd buffer sz out_read s rc buffer' out_read' s')
  then show ?case using vfs_read_result [of s B fd buffer sz out_read] by auto
next
  case (close fd s rc s')
  then show ?case using vfs_close_inv [of s fd] by auto
qed

lemma vfs_steps_inv: "(vfs_step B)\<^sup>*\<^sup>* s s' \<Longrightarrow> vfs_inv s \<Longrightarrow> vfs_inv s'"
  by (induction rule: rtranclp_induct) (auto intro: vfs_step_inv)

section \<open>Properties\<close>

lemma sample_vfs_inv: "vfs_inv sample_vfs" "mount_owned sample_vfs = {}" "file_owned sample_vfs = {}"
proof -
  have d: "disk_inv sample_vfs"
    using sample_disk2_inv(1) disk_inv_cong(1) [of sample_vfs sample_disk2] by (simp add: sample_vfs_def disk_state.defs)
  show m: "mount_owned sample_vfs = {}" by (auto simp: mount_owned_def sample_vfs_def disk_state.defs boot_mounts_def free_mount_def)
  have sl: "slot_addrs sample_vfs i = []" if "i < 32" for i using that by (simp add: slot_addrs_def sample_vfs_def disk_state.defs)
  then show f: "file_owned sample_vfs = {}" by (simp add: file_owned_def)
  have "files_inv sample_vfs"
    unfolding files_inv_def f using sl by (simp add: sample_vfs_def disk_state.defs)
  then show "vfs_inv sample_vfs" using d m boot_mounts_inv by (simp add: vfs_inv_def) (simp add: sample_vfs_def disk_state.defs)
qed

text \<open>
  C18. However a client mounts, opens, reads and closes, in any order and with any arguments, and whatever
  the hardware answers: every call returns (no heap panic, no endless loop), and the file layer stays
  consistent. No object on the heap is owned by two open files, every object a file or a device refers
  to is allocated, and no mountpoint is used twice.
\<close>

theorem vfs_reachable_safe:
  assumes "vfs_inv s" "(vfs_step B)\<^sup>*\<^sup>* s s'"
  shows "vfs_inv s' \<and>
    (\<forall>p flags. cstring p \<longrightarrow> (\<exists>r. vfs_open (Some p) flags True s' = Inr r)) \<and>
    (\<forall>fd buffer sz out_read. \<exists>r. vfs_read B fd buffer sz out_read s' = Inr r) \<and>
    (\<forall>fd. \<exists>r. vfs_close fd s' = Inr r) \<and>
    (\<forall>i < VFS_MAX_OPEN_FILES. \<forall>j < VFS_MAX_OPEN_FILES. i \<noteq> j \<longrightarrow> set (slot_addrs s' i) \<inter> set (slot_addrs s' j) = {}) \<and>
    (\<forall>q \<in> owned s'. object_at s' q 1)"
proof -
  have inv: "vfs_inv s'" using assms(2,1) by (rule vfs_steps_inv)
  have "\<exists>r. vfs_open (Some p) flags True s' = Inr r" if "cstring p" for p flags
    using inv that by (cases rule: vfs_open_result [where flags = flags]) auto
  moreover have "\<exists>r. vfs_read B fd buffer sz out_read s' = Inr r" for fd buffer sz out_read
    using vfs_read_result [OF inv] by blast
  moreover have "\<exists>r. vfs_close fd s' = Inr r" for fd using vfs_close_inv [OF inv] by blast
  moreover have "\<forall>i < VFS_MAX_OPEN_FILES. \<forall>j < VFS_MAX_OPEN_FILES. i \<noteq> j \<longrightarrow> set (slot_addrs s' i) \<inter> set (slot_addrs s' j) = {}"
    using inv by (simp add: vfs_inv_def files_inv_def)
  ultimately show ?thesis using inv owned_object [OF inv] by blast
qed

theorem vfs_reachable_safe_witness:
  "\<exists>s'. (vfs_step sample_bus)\<^sup>*\<^sup>* sample_vfs s' \<and> vfs_inv s' \<and> (\<exists>r. vfs_close 3 s' = Inr r)"
proof -
  have c: "cstring ''/dev/disk0''" by (simp add: NUL_def)
  from sample_vfs_inv(1) c obtain rc fd s1 where "vfs_open (Some ''/dev/disk0'') 1 True sample_vfs = Inr (rc, fd, s1)"
    by (cases rule: vfs_open_result [where flags = 1]) auto
  with c have "vfs_step sample_bus sample_vfs s1" by (rule vfs_step.open_path)
  then have s1: "(vfs_step sample_bus)\<^sup>*\<^sup>* sample_vfs s1" by (rule r_into_rtranclp)
  show ?thesis using vfs_reachable_safe [OF sample_vfs_inv(1) s1] s1 by blast
qed

text \<open>
  C19. Opening a path and closing the descriptor again gives back all memory: the live objects of the heap
  are exactly the ones there were before, and so is what every other descriptor owns. In between the
  descriptor is the smallest free one and owns exactly one object that was not alive before. When opening
  fails, nothing has changed.
\<close>

theorem vfs_open_close:
  assumes "vfs_inv s" "cstring p" "vfs_open (Some p) flags True s = Inr (rc, fd, s')"
  shows "if rc = VFS_OK
    then \<exists>i. fd = Some i \<and> i < VFS_MAX_OPEN_FILES \<and> \<not> o_used (g_open s ! i) \<and> (\<forall>j < i. o_used (g_open s ! j)) \<and>
      card (live s' - live s) = 1 \<and> live s \<subseteq> live s' \<and>
      (\<exists>s''. vfs_close i s' = Inr (VFS_OK, s'') \<and> vfs_inv s'' \<and> live s'' = live s \<and> owned s'' = owned s \<and>
         (\<forall>j < VFS_MAX_OPEN_FILES. j \<noteq> i \<longrightarrow> g_open s'' ! j = g_open s ! j) \<and> \<not> o_used (g_open s'' ! i))
    else s' = s \<and> fd = None"
  using assms(1,2)
proof (cases rule: vfs_open_result [where flags = flags])
  case (error e)
  then show ?thesis using assms(3) by auto
next
  case (opened i t q k)
  have e: "rc = VFS_OK" "fd = Some i" "s' = t" using opened(1) assms(3) by auto
  obtain s'' where s'': "vfs_close i t = Inr (VFS_OK, s'')" "vfs_inv s''" "owned s'' = owned t - set (slot_addrs t i)"
    "released t (set (slot_addrs t i)) s''" "g_open s'' = (g_open t)[i := \<lparr>o_used = False, o_file = empty_file\<rparr>]"
    using vfs_close_result [OF opened(5,2,11)] by blast
  have h: "heap_inv t" using opened(5) by (simp add: vfs_inv_def disk_inv_def)
  have "(unat q, j) \<notin> live s" for j
    using live_fst_unique [OF h, of "unat q" k j] opened(9,10) by auto
  then have "live s'' = live s" using s''(4) opened(6,10) by (auto simp: released_def)
  moreover have "owned s'' = owned s" using s''(3) opened(6,7,8) by auto
  moreover have "live t - live s = {(unat q, k)}" using opened(9,10) by auto
  moreover have "length (g_open t) = 32" using opened(5) by (simp add: vfs_inv_def files_inv_def)
  ultimately show ?thesis using e opened s''(1,2,5) by auto
qed

theorem vfs_open_close_witness:
  "\<exists>rc fd s'. vfs_open (Some ''/dev/disk0'') 1 True sample_vfs = Inr (rc, fd, s') \<and>
     (rc = VFS_OK \<longrightarrow> fd = Some 0 \<and> (\<exists>s''. vfs_close 0 s' = Inr (VFS_OK, s'') \<and> live s'' = live sample_vfs))"
proof -
  have c: "cstring ''/dev/disk0''" by (simp add: NUL_def)
  have u: "\<not> o_used (g_open sample_vfs ! 0)" by (simp add: sample_vfs_def disk_state.defs)
  from sample_vfs_inv(1) c obtain rc fd s' where r: "vfs_open (Some ''/dev/disk0'') 1 True sample_vfs = Inr (rc, fd, s')"
    by (cases rule: vfs_open_result [where flags = 1]) auto
  have "fd = Some 0 \<and> (\<exists>s''. vfs_close 0 s' = Inr (VFS_OK, s'') \<and> live s'' = live sample_vfs)" if "rc = VFS_OK"
  proof -
    from vfs_open_close [OF sample_vfs_inv(1) c r, unfolded if_P [OF that]] obtain i s'' where
      i: "fd = Some i" "\<forall>j < i. o_used (g_open sample_vfs ! j)" "vfs_close i s' = Inr (VFS_OK, s'')" "live s'' = live sample_vfs" by blast
    have "i = 0" using i(2) u by (cases i) auto
    with i show ?thesis by blast
  qed
  with r show ?thesis by blast
qed

section \<open>Block files\<close>

text \<open>
  A device that serves an image, as long as the condition \<open>I\<close> on the state holds: every read below the
  limit succeeds with the sector of the image and moves only the hardware.
\<close>

definition serves ::
    "'h bus \<Rightarrow> dptr \<Rightarrow> (u32 \<Rightarrow> u8 list) \<Rightarrow> nat \<Rightarrow> (('h, 'a) disk_state_scheme \<Rightarrow> bool) \<Rightarrow> bool" where
  "serves B d img n I \<longleftrightarrow> (\<forall>l. length (img l) = 512) \<and> (\<forall>s lba. I s \<and> unat lba < n \<longrightarrow>
     (\<exists>a. dev_read B d lba True s = Some (BLOCK_SUCCESS, img lba, s\<lparr>ata := a\<rparr>) \<and> I (s\<lparr>ata := a\<rparr>)))"

lemma servesD:
  "serves B d img n I \<Longrightarrow> I s \<Longrightarrow> unat lba < n \<Longrightarrow>
    \<exists>a. dev_read B d lba True s = Some (BLOCK_SUCCESS, img lba, s\<lparr>ata := a\<rparr>) \<and> I (s\<lparr>ata := a\<rparr>)"
  by (simp add: serves_def)

lemma devfs_read_sectors_serves:
  assumes sv: "serves B d img lim I" and I: "I s" and lim: "unat lba + i + n \<le> lim"
    and ov: "unat lba + i + n < 4294967296" "512 * (i + n) < 4294967296" and len: "512 * (i + n) \<le> length buf"
  shows "\<exists>a. devfs_read_sectors B d 512 lba (of_nat i) n buf s =
      Inr (VFS_OK, 0, take (512 * i) buf @ concat (map (\<lambda>j. img (lba + of_nat j)) [i..<i + n]) @ drop (512 * (i + n)) buf, s\<lparr>ata := a\<rparr>) \<and>
    I (s\<lparr>ata := a\<rparr>)"
  using I lim ov len
proof (induction n arbitrary: i buf s)
  case 0
  have "take (512 * i) buf @ concat (map (\<lambda>j. img (lba + of_nat j)) [i..<i + 0]) @ drop (512 * (i + 0)) buf = buf" by simp
  then show ?case using 0 by (intro exI [of _ "ata s"]) simp
next
  case (Suc n)
  have u: "unat (lba + of_nat i :: u32) = unat lba + i" using Suc.prems(3) by (simp add: unat_plus_if_size word_size)
  have w: "unat (of_nat i * 512 :: u32) = 512 * i" using Suc.prems(4) by (simp add: unat_mult_lem [THEN iffD1])
  have d: "length (img (lba + of_nat i)) = 512" using sv by (simp add: serves_def)
  obtain a where a: "dev_read B d (lba + of_nat i) True s = Some (BLOCK_SUCCESS, img (lba + of_nat i), s\<lparr>ata := a\<rparr>)" "I (s\<lparr>ata := a\<rparr>)"
    using servesD [OF sv Suc.prems(1), of "lba + of_nat i"] Suc.prems(2) u by auto
  let ?buf = "buf_write (512 * i) (img (lba + of_nat i)) buf"
  have b: "take (512 * Suc i) ?buf = take (512 * i) buf @ img (lba + of_nat i)" "length ?buf = length buf"
    "drop (512 * (Suc i + n)) ?buf = drop (512 * (i + Suc n)) buf"
    using Suc.prems(5) d by (simp_all add: buf_write_def min_def algebra_simps)
  have "\<exists>a'. devfs_read_sectors B d 512 lba (of_nat (Suc i)) n ?buf (s\<lparr>ata := a\<rparr>) =
      Inr (VFS_OK, 0, take (512 * Suc i) ?buf @ concat (map (\<lambda>j. img (lba + of_nat j)) [Suc i..<Suc i + n]) @ drop (512 * (Suc i + n)) ?buf,
        s\<lparr>ata := a\<rparr>\<lparr>ata := a'\<rparr>) \<and> I (s\<lparr>ata := a\<rparr>\<lparr>ata := a'\<rparr>)"
    using Suc.prems a(2) b(2) by (intro Suc.IH) simp_all
  then obtain a' where a': "devfs_read_sectors B d 512 lba (of_nat (Suc i)) n ?buf (s\<lparr>ata := a\<rparr>) =
      Inr (VFS_OK, 0, take (512 * Suc i) ?buf @ concat (map (\<lambda>j. img (lba + of_nat j)) [Suc i..<Suc i + n]) @ drop (512 * (Suc i + n)) ?buf,
        s\<lparr>ata := a'\<rparr>)" "I (s\<lparr>ata := a'\<rparr>)" by auto
  have m: "map (\<lambda>j. img (lba + of_nat j)) [i..<i + Suc n] = img (lba + of_nat i) # map (\<lambda>j. img (lba + of_nat j)) [Suc i..<Suc i + n]"
    using upt_conv_Cons [of i "i + Suc n"] by (simp del: upt_Suc)
  have "devfs_read_sectors B d 512 lba (of_nat i) (Suc n) buf s = devfs_read_sectors B d 512 lba (of_nat (Suc i)) n ?buf (s\<lparr>ata := a\<rparr>)"
    using a(1) w by (simp add: add.commute)
  then show ?case using a' b(1,3) unfolding m by auto
qed

text \<open>
  C20. Reading from an open block file, at a position and of a size that are whole sectors, delivers the
  sectors of the device from that position on, in order and nothing else, reports the full size, and
  moves the position by it. The buffer keeps its length: nothing is written past its end.
\<close>

theorem vfs_read_block_file:
  assumes inv: "vfs_inv s" and fd: "fd < VFS_MAX_OPEN_FILES" "o_used (g_open s ! fd)"
    and f: "f = o_file (g_open s ! fd)" "f_ops f = Some DEVFS_BLOCK_FILE_OPS" "d = blk (devfs_at s (file_ctx f))"
    and ss: "bd_sector_size (dev_at s d) = 512" "unat (f_pos f) = 512 * a" "unat sz = 512 * n" "length buf = unat sz"
    and sv: "serves B d img lim I" "I s" "a + n \<le> lim"
  shows "\<exists>s'. vfs_read B fd (Some buf) sz (Some r) s =
      Inr (VFS_OK, Some (concat (map (\<lambda>j. img (of_nat (a + j))) [0..<n])), Some sz, s') \<and> vfs_inv s' \<and>
    f_pos (o_file (g_open s' ! fd)) = f_pos f + sz"
proof -
  have "file_ok s f" and h: "heap_inv s" and reg: "reg_inv s" and len: "length (g_open s) = 32"
    using inv fd f(1) by (auto simp: vfs_inv_def files_inv_def disk_inv_def)
  then have k: "kind (devfs_at s (file_ctx f)) = DEVFS_KIND_BLOCK" "d \<in> set (registered s)" "file_ctx f \<noteq> 0"
    using f(2,3) object_at_nonzero [OF h] by (auto simp: file_ok_def)
  have u: "d \<noteq> Null_dev" "bd_read (dev_at s d) \<noteq> No_read" using reg k(2) by (auto simp: reg_inv_def usable_def)
  have w: "f_pos f mod 512 = 0" "sz mod 512 = 0" "unat (sz div 512) = n" "unat (f_pos f div 512) = a"
    using ss(2,3) by (simp_all add: word_unat_eq_iff unat_mod_distrib unat_div_distrib)
  have of_a: "f_pos f div 512 = of_nat a" unfolding w(4) [symmetric] by simp
  have small: "a + n < 4294967296" "512 * n < 4294967296"
    using ss(2,3) unat_u32_less [of "f_pos f"] unat_u32_less [of sz] by linarith+
  obtain x where x: "devfs_read_sectors B d 512 (of_nat a) 0 n buf s =
      Inr (VFS_OK, 0, concat (map (\<lambda>j. img (of_nat a + of_nat j)) [0..<n]) @ drop (512 * n) buf, s\<lparr>ata := x\<rparr>)"
    using devfs_read_sectors_serves [OF sv(1,2), of "of_nat a" 0 n buf] sv(3) small ss(3,4) w(4) of_a by auto
  have "vfs_inv (s\<lparr>ata := x\<rparr>)"
  proof -
    obtain rc n' b' y where y: "devfs_read_sectors B d 512 (of_nat a) 0 n buf s = Inr (rc, n', b', s\<lparr>ata := y\<rparr>)" "vfs_inv (s\<lparr>ata := y\<rparr>)"
      using devfs_read_sectors_result [OF inv k(2), of B 512 "of_nat a" 0 n buf] by blast
    have "s\<lparr>ata := x\<rparr> = s\<lparr>ata := y\<rparr>" using trans [OF x [symmetric] y(1)] by (simp only: sum.inject prod.inject)
    then show ?thesis using y(2) by (simp only:)
  qed
  let ?out = "concat (map (\<lambda>j. img (of_nat (a + j))) [0..<n])"
  have b: "devfs_read_block B (Some f) (f_pos f) (Some buf) sz (Some 0) s = Inr (VFS_OK, Some ?out, Some sz, s\<lparr>ata := x\<rparr>)"
    using k u f(3) ss w x of_a by (simp add: devfs_read_block_def Let_def)
  let ?s' = "set_slot fd ((g_open s ! fd)\<lparr>o_file := f\<lparr>f_pos := f_pos f + sz\<rparr>\<rparr>) (s\<lparr>ata := x\<rparr>)"
  have run: "vfs_read B fd (Some buf) sz (Some r) s = Inr (VFS_OK, Some ?out, Some sz, ?s')"
    using fd f b by (simp add: vfs_read_def Let_def set_slot_def)
  have "vfs_inv ?s'" using vfs_read_result [OF inv, of B fd "Some buf" sz "Some r"] run by auto
  then show ?thesis using run len fd(1) by (simp add: set_slot_simps)
qed

text \<open>A machine with \<^verbatim>\<open>disk0\<close> and descriptor 0 open on it, at position 512.\<close>

definition sample_open :: "((u16 \<times> u8) list \<times> u16 list) vfs_state" where
  "sample_open = disk_state.extend (sample_disk1\<lparr>heap_mem := heap_mem sample_heap2\<rparr>)
     \<lparr>g_mounts = boot_mounts,
      g_open = \<lparr>o_used = True, o_file = \<lparr>f_ops = Some DEVFS_BLOCK_FILE_OPS, file_ctx = 0xD0000014, f_size = 0, f_pos = 512\<rparr>\<rparr> #
        replicate 31 \<lparr>o_used = False, o_file = empty_file\<rparr>,
      devfs_at = (\<lambda>_. \<lparr>kind = DEVFS_KIND_BLOCK, blk = G_disk0\<rparr>),
      pyfs_at = (\<lambda>_. \<lparr>px_dev = Null_dev, px_sb = \<lparr>sb_magic = 0, sb_version = 0, sb_block_size = 0, sb_reserved0 = 0\<rparr>\<rparr>),
      pyfs_file_at = (\<lambda>_. \<lparr>pf_fs = 0, pf_file_id = 0, pf_cache = 0\<rparr>)\<rparr>"

lemma sample_open_disk:
  "disk_inv sample_open" "registered sample_open = [G_disk0]" "live sample_open = {(0xD0000014, 48), (0xD0000058, 12)}"
proof -
  let ?d = "sample_disk1\<lparr>heap_mem := heap_mem sample_heap2\<rparr>"
  have h: "heap_inv ?d" "live ?d = {(0xD0000014, 48), (0xD0000058, 12)}"
    using heap_cong [of ?d sample_heap2] sample_heap2_inv
    by (simp_all add: sample_disk1_def sample_disk_def heap_state.defs sample_heap_def)
  have r: "registered ?d = [G_disk0]" "reg_inv ?d" using sample_disk1_inv reg_cong [of ?d sample_disk1] by (simp_all add: disk_inv_def)
  have l: "dev_links ?d [] G_disk0" by (simp add: dev_links_def sample_disk1_def sample_disk_def heap_state.defs sample_dev_def)
  have a: "ata_inv (ata ?d)" using sample_disk1_inv by (simp add: disk_inv_def)
  have d: "disk_inv ?d" unfolding disk_inv_def r(1) using h r(2) l a by simp
  have c: "disk_inv sample_open = disk_inv ?d" "live sample_open = live ?d" "registered sample_open = registered ?d"
    by (rule disk_inv_cong; simp add: sample_open_def disk_state.defs)+
  show "disk_inv sample_open" "registered sample_open = [G_disk0]" "live sample_open = {(0xD0000014, 48), (0xD0000058, 12)}"
    using c d r(1) h(2) by simp_all
qed

lemma sample_open_simps:
  "g_open sample_open ! 0 = \<lparr>o_used = True, o_file =
     \<lparr>f_ops = Some DEVFS_BLOCK_FILE_OPS, file_ctx = 0xD0000014, f_size = 0, f_pos = 512\<rparr>\<rparr>"
  "devfs_at sample_open 0xD0000014 = \<lparr>kind = DEVFS_KIND_BLOCK, blk = G_disk0\<rparr>"
  "bd_sector_size (dev_at sample_open G_disk0) = 512"
  by (simp_all add: sample_open_def disk_state.defs sample_disk1_def sample_disk_def heap_state.defs sample_dev_def)

lemma sample_open_inv: "vfs_inv sample_open"
proof -
  have m: "mount_owned sample_open = {}" by (auto simp: mount_owned_def sample_open_def disk_state.defs boot_mounts_def free_mount_def)
  have d: "dev_owned sample_open = {}" by (simp add: dev_owned_def sample_open_disk(2) dev_addrs_def)
  have sl: "slot_addrs sample_open i = (if i = 0 then [0xD0000014] else [])" if "i < 32" for i
    using that by (auto simp: slot_addrs_def file_addrs_def sample_open_def disk_state.defs nth_Cons')
  have ok: "file_ok sample_open (o_file (g_open sample_open ! 0))"
    by (simp add: file_ok_def object_at_def sample_open_disk sample_open_simps)
  have u: "o_used (g_open sample_open ! i) = (i = 0)" if "i < 32" for i
    using that by (auto simp: sample_open_def disk_state.defs nth_Cons')
  have "files_inv sample_open"
    unfolding files_inv_def d m using sl ok u by (auto simp: sample_open_def disk_state.defs)
  then show ?thesis using sample_open_disk(1) m boot_mounts_inv by (simp add: vfs_inv_def) (simp add: sample_open_def disk_state.defs)
qed

definition drive_ready :: "((u16 \<times> u8) list \<times> u16 list, 'a) disk_state_scheme \<Rightarrow> bool" where
  "drive_ready s \<longleftrightarrow> dev_at s G_disk0 = sample_dev G_disk0 \<and> g_ata_drive (ata s) = g_ata_drive sample_ata"

lemma sample_bus_serves: "serves sample_bus G_disk0 (\<lambda>l. le_bytes (replicate 256 (ucast l))) 2048 drive_ready"
  unfolding serves_def
proof (intro conjI allI impI)
  show "length (le_bytes (replicate 256 (ucast l))) = 512" for l :: u32 by simp
  fix s :: "((u16 \<times> u8) list \<times> u16 list, 'a) disk_state_scheme" and lba :: u32
  assume "drive_ready s \<and> unat lba < 2048"
  then have I: "dev_at s G_disk0 = sample_dev G_disk0" "g_ata_drive (ata s) = g_ata_drive sample_ata" and l: "lba < 2048"
    by (simp_all add: drive_ready_def word_less_nat_alt)
  have v: "lba \<le> ATA_LBA28_MAX" using l by (simp add: word_le_nat_alt word_less_nat_alt)
  have "ata_refusal 0 lba True (ata s) = None"
    using I(2) l v by (auto simp: ata_refusal_def sample_ata_def ata_valid_drive_def ata_is_present_def ata_get_lba28_sectors_def)
  from disk_bus_read [OF this, of "\<lambda>d l. replicate 256 (ucast l)" 2048] obtain a where
    a: "ata_read_sector sample_bus 0 lba True (ata s) = (ATA_OK, le_bytes (replicate 256 (ucast lba)), a)" unfolding sample_bus_def by auto
  have "g_ata_drive a = g_ata_drive sample_ata" using ata_read_sector_keeps(1) [OF a] I(2) by simp
  then show "\<exists>a. dev_read sample_bus G_disk0 lba True s = Some (BLOCK_SUCCESS, le_bytes (replicate 256 (ucast lba)), s\<lparr>ata := a\<rparr>) \<and>
      drive_ready (s\<lparr>ata := a\<rparr>)"
    using a I by (intro exI [of _ a]) (simp add: dev_read.simps ata_block_read_def sample_dev_def drive_ready_def)
qed

theorem vfs_read_block_file_witness:
  "\<exists>s'. vfs_read sample_bus 0 (Some (replicate 1024 9)) 1024 (Some 0) sample_open =
     Inr (VFS_OK, Some (le_bytes (replicate 256 1) @ le_bytes (replicate 256 2)), Some 1024, s') \<and>
     f_pos (o_file (g_open s' ! 0)) = 1536"
proof -
  have g: "drive_ready sample_open"
    by (simp add: sample_open_def disk_state.defs drive_ready_def sample_disk1_def sample_disk_def heap_state.defs)
  have "\<exists>s'. vfs_read sample_bus 0 (Some (replicate 1024 9)) 1024 (Some 0) sample_open =
      Inr (VFS_OK, Some (concat (map (\<lambda>j. le_bytes (replicate 256 (ucast (of_nat (1 + j) :: u32)))) [0..<2])), Some 1024, s') \<and> vfs_inv s' \<and>
    f_pos (o_file (g_open s' ! 0)) = f_pos (o_file (g_open sample_open ! 0)) + 1024"
    using g by (intro vfs_read_block_file [where d = G_disk0, OF sample_open_inv _ _ refl _ _ _ _ _ _ sample_bus_serves]) (simp_all add: sample_open_simps)
  moreover have "[0..<2] = [0, 1 :: nat]" by (simp add: upt_rec)
  ultimately show ?thesis by (auto simp: sample_open_simps)
qed

section \<open>Reads stay inside the caller's buffer\<close>

text \<open>The first \<open>k\<close> bytes may change; the rest of the buffer and its length do not.\<close>

definition within :: "nat \<Rightarrow> 'b list \<Rightarrow> 'b list \<Rightarrow> bool" where
  "within k buf buf' \<longleftrightarrow> length buf' = length buf \<and> drop k buf' = drop k buf"

lemma within_refl [simp]: "within k buf buf"
  by (simp add: within_def)

lemma within_trans: "within k a b \<Longrightarrow> within k b c \<Longrightarrow> within k a c"
  by (simp add: within_def)

lemma within_write: "off + length data \<le> k \<Longrightarrow> k \<le> length buf \<Longrightarrow> within k buf (buf_write off data buf)"
  by (simp add: within_def buf_write_def)

text \<open>The result codes that \<^verbatim>\<open>src/kernel/fs/vfs.h\<close> declares.\<close>

definition vfs_codes :: "int set" where
  "vfs_codes = {VFS_OK, VFS_ERR_INVALID_PARAM, VFS_ERR_NO_SPACE, VFS_ERR_NOT_FOUND, VFS_ERR_NOT_SUPPORTED, VFS_ERR_IO,
     VFS_ERR_NO_MOUNT, VFS_ERR_BAD_FD}"

lemma devfs_read_sectors_within:
  assumes "vfs_inv s" "dev \<in> set (registered s)" "unat i * 512 + n * 512 \<le> k" "k \<le> length buf" "k < 4294967296"
    and "devfs_read_sectors B dev 512 lba i n buf s = Inr (rc, m, buf', s')"
  shows "within k buf buf' \<and> unat m \<le> k \<and> rc \<in> {VFS_OK, VFS_ERR_IO}"
  using assms
proof (induction n arbitrary: i buf s)
  case (Suc n)
  have d: "disk_inv s" using Suc.prems(1) by (simp add: vfs_inv_def)
  obtain rc1 data a where r: "dev_read B dev (lba + i) True s = Some (rc1, data, s\<lparr>ata := a\<rparr>)" "if rc1 = BLOCK_SUCCESS then length data = 512 else data = []"
    using read_registered [OF d Suc.prems(2), of B] unfolding read_returns_def by blast
  have V: "vfs_inv (s\<lparr>ata := a\<rparr>)" using Suc.prems(1) dev_read_inv(1) [OF d Suc.prems(2) r(1)] by (rule vfs_inv_ata)
  have mem: "dev \<in> set (registered (s\<lparr>ata := a\<rparr>))" using Suc.prems(2) reg_cong(2) [of "s\<lparr>ata := a\<rparr>" s] by simp
  have i: "unat (i * 512) = unat i * 512" "unat (i + 1) = unat i + 1" using Suc.prems(3,5)
    by (auto simp: unat_mult_lem [THEN iffD1] unat_word_ariths)
  let ?buf = "buf_write (unat (i * 512)) data buf"
  have w: "within k buf ?buf" using r(2) i Suc.prems(3,4) by (intro within_write) (auto split: if_splits)
  show ?case
  proof (cases "rc1 = BLOCK_SUCCESS")
    case True
    have "within k ?buf buf' \<and> unat m \<le> k \<and> rc \<in> {VFS_OK, VFS_ERR_IO}"
      by (rule Suc.IH [OF V mem]) (use Suc.prems i w r(1) True in \<open>auto simp: Let_def within_def\<close>)
    then show ?thesis using within_trans [OF w] by blast
  next
    case False
    then show ?thesis using Suc.prems(3,6) r(1) w i by (auto simp: Let_def)
  qed
qed auto

lemma file_read_within:
  assumes inv: "vfs_inv s" "sectors_512 s" and fd: "fd < 32" "o_used (g_open s ! fd)" "f_ops (o_file (g_open s ! fd)) = Some ops"
    and sz: "unat sz \<le> length buf"
    and r: "file_read B ops (Some (o_file (g_open s ! fd))) off (Some buf) sz (Some 0) s = Inr (rc, buf', n, s')"
  shows "\<exists>b m. buf' = Some b \<and> within (unat sz) buf b \<and> n = Some m \<and> m \<le> sz \<and> rc \<in> vfs_codes - {VFS_ERR_BAD_FD}"
proof -
  let ?f = "o_file (g_open s ! fd)"
  have ok: "file_ok s ?f" and reg: "reg_inv s" and h: "heap_inv s" using inv fd by (auto simp: vfs_inv_def files_inv_def disk_inv_def)
  show ?thesis
  proof (cases ops)
    case DEVFS_NULL_FILE_OPS
    then show ?thesis using r by (auto simp: devfs_read_null_def vfs_codes_def)
  next
    case DEVFS_ZERO_FILE_OPS
    then show ?thesis using r sz within_write [of 0 "replicate (unat sz) 0" "unat sz" buf] by (auto simp: devfs_read_zero_def vfs_codes_def)
  next
    case DEVFS_BLOCK_FILE_OPS
    let ?d = "blk (devfs_at s (file_ctx ?f))"
    have k: "?d \<in> set (registered s)" using ok fd(3) DEVFS_BLOCK_FILE_OPS by (auto simp: file_ok_def)
    then have ss: "bd_sector_size (dev_at s ?d) = 512" using inv(2) by (simp add: sectors_512_def)
    have run: "devfs_read_block B (Some ?f) off (Some buf) sz (Some 0) s = Inr (rc, buf', n, s')" using r DEVFS_BLOCK_FILE_OPS by simp
    show ?thesis
    proof (cases "rc = VFS_ERR_IO \<and> buf' = Some buf \<and> n = Some 0 \<or> rc = VFS_ERR_NOT_SUPPORTED \<and> buf' = Some buf \<and> n = Some 0")
      case False
      then have m: "sz mod 512 = 0" and "off mod 512 = 0"
        using run by (auto simp: devfs_read_block_def Let_def ss split: if_splits)
      obtain rc1 dn b s1 where d: "devfs_read_sectors B ?d 512 (off div 512) 0 (unat (sz div 512)) buf s = Inr (rc1, dn, b, s1)"
        using devfs_read_sectors_result [OF inv(1) k, of B 512 "off div 512" 0 "unat (sz div 512)" buf] by blast
      have "unat sz mod 512 = 0" using arg_cong [OF m, of unat] by (simp add: unat_mod_distrib)
      then have u: "unat (sz div 512) * 512 = unat sz" by (auto simp: unat_div_distrib)
      have W: "within (unat sz) buf b" "dn \<le> sz" "rc1 \<in> {VFS_OK, VFS_ERR_IO}"
        using devfs_read_sectors_within [OF inv(1) k _ sz _ d] u unat_u32_less [of sz] by (auto simp: word_le_nat_alt simp del: unat_u32_less)
      have "(rc, buf', n) = (if rc1 \<noteq> VFS_OK then (rc1, Some b, Some dn) else (VFS_OK, Some b, Some sz))"
        using run d False by (auto simp: devfs_read_block_def Let_def ss split: if_splits)
      then show ?thesis using W by (auto simp: vfs_codes_def split: if_splits)
    qed (auto simp: vfs_codes_def)
  next
    case PYFS_FILE_OPS
    have run: "pyfs_file_read B (Some ?f) off (Some buf) sz (Some 0) s = Inr (rc, buf', n, s')" using r PYFS_FILE_OPS by simp
    obtain rc1 s1 where f: "pyfs_fill_cache B (file_ctx ?f) s = Inr (rc1, s1)"
      using pyfs_fill_cache_result [OF inv(1) fd(1,2) _ refl] fd(3) PYFS_FILE_OPS by blast
    have c: "rc1 \<in> {VFS_OK, VFS_ERR_NO_SPACE, VFS_ERR_IO}"
      using f by (auto simp: pyfs_fill_cache_def Let_def kres_simps split: if_splits option.splits)
    let ?n = "if sz < PYFS_BLOCK_SIZE - off then sz else PYFS_BLOCK_SIZE - off"
    have n: "?n \<le> sz" by (auto simp: not_less)
    have w: "within (unat sz) buf (buf_write 0 (heap_bytes hm p (unat ?n)) buf)" for hm p
      using n sz by (intro within_write) (auto simp: heap_bytes_def word_le_nat_alt)
    show ?thesis using run f c n w by (auto simp: pyfs_file_read_def Let_def vfs_codes_def split: if_splits)
  qed
qed

text \<open>
  C21. A read through the VFS is well typed: from any consistent state in which the registered devices have
  sectors of 512 bytes it returns one of the result codes of the interface, changes at most the first \<open>sz\<close> bytes
  of a buffer that holds them, keeps the length of the buffer, and reports no more than \<open>sz\<close> bytes. It returns the code
  for a bad descriptor exactly if the descriptor is out of range or not open, and then touches nothing.
\<close>

theorem vfs_read_typed:
  assumes inv: "vfs_inv s" "sectors_512 s" and sz: "unat sz \<le> length buf"
  shows "\<exists>rc buf' n s'. vfs_read B fd (Some buf) sz (Some r) s = Inr (rc, Some buf', Some n, s') \<and> rc \<in> vfs_codes \<and>
    within (unat sz) buf buf' \<and>
    (if fd < VFS_MAX_OPEN_FILES \<and> o_used (g_open s ! fd) then rc \<noteq> VFS_ERR_BAD_FD \<and> n \<le> sz
     else rc = VFS_ERR_BAD_FD \<and> buf' = buf \<and> n = r \<and> s' = s)"
proof (cases "fd < 32 \<and> o_used (g_open s ! fd)")
  case True
  then have "file_ok s (o_file (g_open s ! fd))" using inv(1) by (auto simp: vfs_inv_def files_inv_def)
  then obtain ops where ops: "f_ops (o_file (g_open s ! fd)) = Some ops" by (auto simp: file_ok_def split: option.splits)
  let ?f = "o_file (g_open s ! fd)"
  obtain rc b n s1 where r: "file_read B ops (Some ?f) (f_pos ?f) (Some buf) sz (Some 0) s = Inr (rc, b, n, s1)"
    using file_read_result [OF inv(1) _ _ ops, of B "f_pos ?f" "Some buf" sz 0] True by auto
  obtain b' m where W: "b = Some b'" "within (unat sz) buf b'" "n = Some m" "m \<le> sz" "rc \<in> vfs_codes - {VFS_ERR_BAD_FD}"
    using file_read_within [OF inv _ _ ops sz r] True by auto
  show ?thesis using True ops r W by (cases "rc = VFS_OK") (auto simp: vfs_read_def Let_def not_less)
qed (auto simp: vfs_read_def vfs_codes_def)

theorem vfs_read_typed_witness:
  "\<exists>rc buf' n s'. vfs_read sample_bus 0 (Some (replicate 600 9)) 512 (Some 0) sample_open = Inr (rc, Some buf', Some n, s') \<and>
     length buf' = 600 \<and> drop 512 buf' = replicate 88 9 \<and> rc \<noteq> VFS_ERR_BAD_FD"
proof -
  have "sectors_512 sample_open"
    by (simp add: sectors_512_def sample_open_disk(2)) (simp add: sample_open_def disk_state.defs sample_disk1_def sample_disk_def heap_state.defs sample_dev_def)
  from vfs_read_typed [OF sample_open_inv this, of 512 "replicate 600 9" sample_bus 0 0] show ?thesis
    by (auto simp: within_def) (auto simp: sample_open_def disk_state.defs)
qed

end
