(* ===== verification/PyFS_Correct.thy ===== *)
theory PyFS_Correct
  imports VFS_Correct
begin

text \<open>
  The sector cache of PyFS (\<^verbatim>\<open>src/kernel/fs/pyfs.c\<close>): what reads of the superblock file deliver when the
  device answers, and what they deliver after the device has failed.
\<close>

section \<open>Files of PyFS\<close>

lemma heap_store_other: "(\<And>i. i < length bs \<Longrightarrow> q \<noteq> p + of_nat i) \<Longrightarrow> heap_store p bs m q = m q"
proof (induction bs arbitrary: p m)
  case (Cons b bs)
  have "q \<noteq> p" using Cons.prems [of 0] by simp
  moreover have "heap_store (p + 1) bs (m(p := b)) q = (m(p := b)) q"
  proof (rule Cons.IH)
    fix i assume "i < length bs"
    then show "q \<noteq> p + 1 + of_nat i" using Cons.prems [of "Suc i"] by (simp add: ac_simps)
  qed
  ultimately show ?case by simp
qed simp

lemma of_nat_u32_inj: "i < 4294967296 \<Longrightarrow> j < 4294967296 \<Longrightarrow> (of_nat i :: u32) = of_nat j \<longleftrightarrow> i = j"
  by (simp add: word_unat_eq_iff unat_of_nat)

lemma heap_store_nth:
  assumes "length bs < 4294967296" "i < length bs"
  shows "heap_store p bs m (p + of_nat i) = bs ! i"
  using assms
proof (induction bs arbitrary: p m i)
  case (Cons b bs)
  show ?case
  proof (cases i)
    case 0
    have "heap_store (p + 1) bs (m(p := b)) p = (m(p := b)) p"
    proof (rule heap_store_other)
      fix j assume "j < length bs"
      then have "(of_nat (Suc j) :: u32) \<noteq> of_nat 0" using Cons.prems(1) by (subst of_nat_u32_inj) simp_all
      then show "p \<noteq> p + 1 + of_nat j" by (simp add: add.assoc)
    qed
    with 0 show ?thesis by simp
  next
    case (Suc k)
    have "heap_store p (b # bs) m (p + of_nat i) = heap_store (p + 1) bs (m(p := b)) (p + 1 + of_nat k)"
      by (simp add: Suc add.assoc)
    also have "\<dots> = bs ! k" by (rule Cons.IH) (use Cons.prems Suc in simp_all)
    finally show ?thesis by (simp add: Suc)
  qed
qed simp

lemma heap_bytes_store:
  assumes "length bs < 4294967296" "i + n \<le> length bs"
  shows "heap_bytes (heap_store p bs m) (p + of_nat i) n = take n (drop i bs)"
  using assms heap_store_nth [OF assms(1), of _ p m]
  by (auto simp: heap_bytes_def list_eq_iff_nth_eq add.assoc simp flip: of_nat_add)

text \<open>A descriptor that is open on a PyFS file, with its sector cache.\<close>

definition pyfs_fd :: "('h, 'a) vfs_state_scheme \<Rightarrow> nat \<Rightarrow> bool" where
  "pyfs_fd s fd \<longleftrightarrow> fd < VFS_MAX_OPEN_FILES \<and> o_used (g_open s ! fd) \<and> f_ops (o_file (g_open s ! fd)) = Some PYFS_FILE_OPS"

definition fd_pos :: "('h, 'a) vfs_state_scheme \<Rightarrow> nat \<Rightarrow> u32" where
  "fd_pos s fd = f_pos (o_file (g_open s ! fd))"

definition fd_cache :: "('h, 'a) vfs_state_scheme \<Rightarrow> nat \<Rightarrow> u32" where
  "fd_cache s fd = pf_cache (pyfs_file_at s (file_ctx (o_file (g_open s ! fd))))"

definition fd_device :: "('h, 'a) vfs_state_scheme \<Rightarrow> nat \<Rightarrow> dptr" where
  "fd_device s fd = px_dev (pyfs_at s (pf_fs (pyfs_file_at s (file_ctx (o_file (g_open s ! fd))))))"

text \<open>How many bytes a read gets from a file of one sector.\<close>

definition sector_part :: "u32 \<Rightarrow> u32 \<Rightarrow> u32" where
  "sector_part pos sz = (if pos \<ge> PYFS_BLOCK_SIZE then 0 else if sz < PYFS_BLOCK_SIZE - pos then sz else PYFS_BLOCK_SIZE - pos)"

lemma sector_part: "sector_part pos sz \<le> sz" "unat (sector_part pos sz) = min (unat sz) (512 - unat pos)"
  by (auto simp: sector_part_def word_le_nat_alt word_less_nat_alt unat_sub_if_size not_less min_def)

lemma pyfs_fd_file:
  assumes "vfs_inv s" "pyfs_fd s fd" "fctx = file_ctx (o_file (g_open s ! fd))"
  shows "fctx \<noteq> 0" "pf_fs (pyfs_file_at s fctx) \<noteq> 0" "pf_file_id (pyfs_file_at s fctx) = PYFS_FILE_SUPERBLOCK"
    "fd_device s fd \<in> set (registered s)"
proof -
  have h: "heap_inv s" and ok: "file_ok s (o_file (g_open s ! fd))"
    using assms by (auto simp: vfs_inv_def files_inv_def disk_inv_def pyfs_fd_def)
  then have o: "object_at s fctx 12" "pf_fs (pyfs_file_at s fctx) \<in> mount_owned s"
    and id: "pf_file_id (pyfs_file_at s fctx) = PYFS_FILE_SUPERBLOCK"
    using assms by (simp_all add: file_ok_def pyfs_fd_def)
  have m: "pyfs_mount_ok s (pf_fs (pyfs_file_at s fctx))" using o(2) assms(1) by (simp add: vfs_inv_def)
  show "fctx \<noteq> 0" using object_at_nonzero [OF h o(1)] .
  show "pf_fs (pyfs_file_at s fctx) \<noteq> 0" using m object_at_nonzero [OF h] by (auto simp: pyfs_mount_ok_def)
  show "pf_file_id (pyfs_file_at s fctx) = PYFS_FILE_SUPERBLOCK" by (rule id)
  show "fd_device s fd \<in> set (registered s)" using m assms(3) by (simp add: pyfs_mount_ok_def fd_device_def)
qed

lemma vfs_read_pyfs:
  assumes "vfs_inv s" "pyfs_fd s fd" "pyfs_fill_cache B (file_ctx (o_file (g_open s ! fd))) s = Inr (rc, t)" "g_open t = g_open s"
  shows "vfs_read B fd (Some buf) sz (Some r) s =
    (if rc \<noteq> VFS_OK then Inr (rc, Some buf, Some 0, t)
     else let n = sector_part (fd_pos s fd) sz in
       Inr (VFS_OK, Some (buf_write 0 (heap_bytes (heap_mem t) (fd_cache t fd + fd_pos s fd) (unat n)) buf), Some n,
         set_slot fd ((g_open s ! fd)\<lparr>o_file := (o_file (g_open s ! fd))\<lparr>f_pos := fd_pos s fd + n\<rparr>\<rparr>) t))"
proof -
  have w: "buf_write 0 (heap_bytes m p 0) buf = buf" for m p by (simp add: buf_write_def heap_bytes_def)
  let ?f = "o_file (g_open s ! fd)" and ?pos = "fd_pos s fd"
  have "pyfs_file_read B (Some ?f) ?pos (Some buf) sz (Some 0) s =
    (if rc \<noteq> VFS_OK then Inr (rc, Some buf, Some 0, t)
     else Inr (VFS_OK, Some (buf_write 0 (heap_bytes (heap_mem t) (fd_cache t fd + ?pos) (unat (sector_part ?pos sz))) buf),
            Some (sector_part ?pos sz), t))"
    using pyfs_fd_file [OF assms(1,2) refl] assms(3,4) w
    by (simp add: pyfs_file_read_def Let_def sector_part_def fd_cache_def)
  then show ?thesis
    using assms(2,4) sector_part(1) [of ?pos sz]
    by (auto simp: vfs_read_def pyfs_fd_def Let_def set_slot_def fd_pos_def not_less)
qed

lemma vfs_read_cached:
  assumes "vfs_inv s" "pyfs_fd s fd" "fd_cache s fd \<noteq> 0"
  shows "vfs_read B fd (Some buf) sz (Some r) s =
    (let n = sector_part (fd_pos s fd) sz in
       Inr (VFS_OK, Some (buf_write 0 (heap_bytes (heap_mem s) (fd_cache s fd + fd_pos s fd) (unat n)) buf), Some n,
         set_slot fd ((g_open s ! fd)\<lparr>o_file := (o_file (g_open s ! fd))\<lparr>f_pos := fd_pos s fd + n\<rparr>\<rparr>) s))"
  using vfs_read_pyfs [OF assms(1,2), of B VFS_OK s] assms(3) by (simp add: pyfs_fill_cache_def fd_cache_def)

lemma pyfs_first_read:
  assumes inv: "vfs_inv s" and fd: "pyfs_fd s fd" and c0: "fd_cache s fd = 0"
    and k: "kmalloc PYFS_BLOCK_SIZE s = Inr (c, s1)" "c \<noteq> 0"
    and d: "dev_read B (fd_device s fd) 0 True (set_pf_cache (file_ctx (o_file (g_open s ! fd))) c s1) = Some (rc, data, s2)"
  obtains t where "pyfs_fill_cache B (file_ctx (o_file (g_open s ! fd))) s = Inr (if rc \<noteq> BLOCK_SUCCESS then VFS_ERR_IO else VFS_OK, t)"
    "if rc = BLOCK_SUCCESS then length data = 512 else data = []" "vfs_inv t" "g_open t = g_open s" "fd_cache t fd = c"
    "ata t = ata s2" "heap_mem t = heap_store c data (heap_mem s1)"
proof -
  let ?f = "file_ctx (o_file (g_open s ! fd))"
  have fd': "fd < 32" "o_used (g_open s ! fd)" "f_ops (o_file (g_open s ! fd)) = Some PYFS_FILE_OPS"
    using fd by (simp_all add: pyfs_fd_def)
  show thesis
  proof (rule pyfs_fill_cache_new [OF inv fd' refl _ k, of B])
    show "pf_cache (pyfs_file_at s ?f) = 0" using c0 by (simp add: fd_cache_def)
    fix rc' data' a m
    assume *: "s1 = s\<lparr>heap_mem := m\<rparr>"
      "dev_read B (px_dev (pyfs_at s (pf_fs (pyfs_file_at s ?f)))) 0 True (set_pf_cache ?f c s1) = Some (rc', data', (set_pf_cache ?f c s1)\<lparr>ata := a\<rparr>)"
      "if rc' = BLOCK_SUCCESS then length data' = 512 else data' = []"
      "pyfs_fill_cache B ?f s = Inr (if rc' \<noteq> BLOCK_SUCCESS then VFS_ERR_IO else VFS_OK, (set_pf_cache ?f c s1)\<lparr>ata := a, heap_mem := heap_store c data' m\<rparr>)"
      "vfs_inv ((set_pf_cache ?f c s1)\<lparr>ata := a, heap_mem := heap_store c data' m\<rparr>)"
    have e: "rc' = rc" "data' = data" "s2 = (set_pf_cache ?f c s1)\<lparr>ata := a\<rparr>" using d *(2) by (simp_all add: fd_device_def)
    show thesis by (rule that [OF *(4) [unfolded e] *(3) [unfolded e] *(5) [unfolded e]])
        (simp_all add: e(3) *(1) set_pf_cache_def fd_cache_def)
  qed
qed

lemma cached_part:
  fixes pos sz :: u32
  defines "n \<equiv> sector_part pos sz"
  assumes d: "length data = 512" and p: "part = take (unat sz) (drop (unat pos) data)"
  shows "buf_write 0 (heap_bytes (heap_store c data m) (c + pos) (unat n)) buf = part @ drop (length part) buf"
    "n = of_nat (length part)" "unat (pos + n) = unat pos + length part"
proof -
  have l: "unat n = length part" using sector_part(2) [of pos sz] d p by (auto simp: n_def)
  have h: "heap_bytes (heap_store c data m) (c + pos) (unat n) = part"
  proof (cases "unat pos \<le> 512")
    case True
    then show ?thesis
      using heap_bytes_store [of data "unat pos" "unat n" c m] d l p sector_part(2) [of pos sz] by (auto simp: n_def min_def)
  next
    case False
    then show ?thesis using l d p by (simp add: heap_bytes_def)
  qed
  then show "buf_write 0 (heap_bytes (heap_store c data m) (c + pos) (unat n)) buf = part @ drop (length part) buf"
    by (simp add: buf_write_def)
  show "n = of_nat (length part)" unfolding l [symmetric] by simp
  show "unat (pos + n) = unat pos + length part"
  proof (cases "unat pos \<le> 512")
    case True
    then have "unat pos + unat n < 4294967296" using sector_part(2) [of pos sz] by (auto simp: n_def)
    then show ?thesis using l by (simp add: unat_plus_if_size word_size)
  next
    case False
    then have "unat n = 0" using sector_part(2) [of pos sz] by (simp add: n_def)
    then have "n = 0" by (simp add: unat_eq_zero)
    then show ?thesis using l by simp
  qed
qed

text \<open>
  C29. Two consecutive reads of the PyFS superblock file, the first of which finds no cached sector and
  reads the device successfully: each delivers the part of the sector from the position of the descriptor
  on, as much as fits and the sector has left, and leaves the rest of the buffer alone; the second
  continues where the first one ended and does not access the hardware.
\<close>

theorem pyfs_reads_deliver:
  assumes inv: "vfs_inv s" and fd: "pyfs_fd s fd" and c0: "fd_cache s fd = 0"
    and k: "kmalloc PYFS_BLOCK_SIZE s = Inr (c, s1)" "c \<noteq> 0"
    and d: "dev_read B (fd_device s fd) 0 True (set_pf_cache (file_ctx (o_file (g_open s ! fd))) c s1) = Some (BLOCK_SUCCESS, data, s2)"
    and p1: "part1 = take (unat sz1) (drop (unat (fd_pos s fd)) data)"
    and p2: "part2 = take (unat sz2) (drop (unat (fd_pos s fd) + length part1) data)"
  shows "\<exists>s' s''. vfs_read B fd (Some buf1) sz1 (Some r) s =
      Inr (VFS_OK, Some (part1 @ drop (length part1) buf1), Some (of_nat (length part1)), s') \<and> ata s' = ata s2 \<and>
    vfs_read B fd (Some buf2) sz2 (Some r) s' =
      Inr (VFS_OK, Some (part2 @ drop (length part2) buf2), Some (of_nat (length part2)), s'') \<and> ata s'' = ata s' \<and> vfs_inv s''"
proof -
  obtain t where t: "pyfs_fill_cache B (file_ctx (o_file (g_open s ! fd))) s = Inr (VFS_OK, t)" "length data = 512"
    "vfs_inv t" "g_open t = g_open s" "fd_cache t fd = c" "ata t = ata s2" "heap_mem t = heap_store c data (heap_mem s1)"
    by (rule pyfs_first_read [OF inv fd c0 k d]) simp
  have len: "length (g_open s) = 32" using inv by (simp add: vfs_inv_def files_inv_def)
  note P1 = cached_part [OF t(2) p1]
  let ?n = "sector_part (fd_pos s fd) sz1"
  define s' where "s' = set_slot fd ((g_open s ! fd)\<lparr>o_file := (o_file (g_open s ! fd))\<lparr>f_pos := fd_pos s fd + ?n\<rparr>\<rparr>) t"
  have one: "vfs_read B fd (Some buf1) sz1 (Some r) s = Inr (VFS_OK, Some (part1 @ drop (length part1) buf1), Some ?n, s')"
    using vfs_read_pyfs [OF inv fd t(1,4), of buf1 sz1 r] unfolding t(5,7) Let_def by (simp add: P1(1) s'_def)
  have V': "vfs_inv s'" using vfs_read_result [OF inv, of B fd "Some buf1" sz1 "Some r"] one by auto
  have f': "pyfs_fd s' fd" "fd_cache s' fd = c" "fd_pos s' fd = fd_pos s fd + ?n" "heap_mem s' = heap_mem t" "ata s' = ata t"
    using fd t(4,5) len by (auto simp: s'_def set_slot_def pyfs_fd_def fd_cache_def fd_pos_def)
  have "unat (fd_pos s' fd) = unat (fd_pos s fd) + length part1" unfolding f'(3) by (rule P1(3))
  then have "part2 = take (unat sz2) (drop (unat (fd_pos s' fd)) data)" using p2 by simp
  note P2 = cached_part [OF t(2) this]
  define s'' where "s'' = set_slot fd ((g_open s' ! fd)\<lparr>o_file := (o_file (g_open s' ! fd))\<lparr>f_pos := fd_pos s' fd + sector_part (fd_pos s' fd) sz2\<rparr>\<rparr>) s'"
  have two: "vfs_read B fd (Some buf2) sz2 (Some r) s' = Inr (VFS_OK, Some (part2 @ drop (length part2) buf2), Some (of_nat (length part2)), s'')"
    using vfs_read_cached [OF V' f'(1), of B buf2 sz2 r] k(2) unfolding f'(2,4) t(7) Let_def P2(2) [symmetric] by (simp add: P2(1) s''_def)
  have "vfs_inv s''" using vfs_read_result [OF V', of B fd "Some buf2" sz2 "Some r"] two by auto
  moreover have "ata s'' = ata s'" by (simp add: s''_def set_slot_def)
  ultimately show ?thesis using one two f'(5) t(6) unfolding P1(2) by auto
qed

text \<open>
  C31. A failed device read is not forgotten: the first read of the superblock file reports an I/O error,
  but the cache pointer stays set, so the next read reports success and delivers the bytes that the freshly
  allocated cache happened to hold, without any access to the device.
\<close>

theorem pyfs_failed_read_cached:
  assumes inv: "vfs_inv s" and fd: "pyfs_fd s fd" and c0: "fd_cache s fd = 0"
    and k: "kmalloc PYFS_BLOCK_SIZE s = Inr (c, s1)" "c \<noteq> 0"
    and d: "dev_read B (fd_device s fd) 0 True (set_pf_cache (file_ctx (o_file (g_open s ! fd))) c s1) = Some (rc, data, s2)"
      "rc \<noteq> BLOCK_SUCCESS"
    and n: "n = sector_part (fd_pos s fd) sz"
  shows "\<exists>s' s''. vfs_read B fd (Some buf) sz (Some r) s = Inr (VFS_ERR_IO, Some buf, Some 0, s') \<and>
    vfs_read B fd (Some buf) sz (Some r) s' =
      Inr (VFS_OK, Some (heap_bytes (heap_mem s1) (c + fd_pos s fd) (unat n) @ drop (unat n) buf), Some n, s'') \<and> ata s'' = ata s'"
proof -
  obtain t where t: "pyfs_fill_cache B (file_ctx (o_file (g_open s ! fd))) s = Inr (VFS_ERR_IO, t)" "data = []"
    "vfs_inv t" "g_open t = g_open s" "fd_cache t fd = c" "heap_mem t = heap_store c data (heap_mem s1)"
    by (rule pyfs_first_read [OF inv fd c0 k d(1)]) (simp add: d(2))
  have one: "vfs_read B fd (Some buf) sz (Some r) s = Inr (VFS_ERR_IO, Some buf, Some 0, t)"
    using vfs_read_pyfs [OF inv fd t(1,4), of buf sz r] by simp
  have f: "pyfs_fd t fd" "fd_pos t fd = fd_pos s fd" "heap_mem t = heap_mem s1"
    using fd t(2,4,6) by (simp_all add: pyfs_fd_def fd_pos_def)
  have l: "length (heap_bytes m p i) = i" for m p i by (simp add: heap_bytes_def)
  have "vfs_read B fd (Some buf) sz (Some r) t = Inr (VFS_OK, Some (heap_bytes (heap_mem s1) (c + fd_pos s fd) (unat n) @ drop (unat n) buf), Some n,
      set_slot fd ((g_open t ! fd)\<lparr>o_file := (o_file (g_open t ! fd))\<lparr>f_pos := fd_pos t fd + n\<rparr>\<rparr>) t)"
    using vfs_read_cached [OF t(3) f(1), of B buf sz r] k(2) unfolding t(5) f(2,3) n by (simp add: Let_def buf_write_def l)
  then show ?thesis using one by (auto simp: set_slot_def)
qed

text \<open>A machine with PyFS mounted from \<^verbatim>\<open>disk0\<close> and descriptor 0 open on its superblock file.\<close>

definition sample_pyfs :: "((u16 \<times> u8) list \<times> u16 list) vfs_state" where
  "sample_pyfs = sample_open
     \<lparr>g_mounts := boot_mounts[2 := \<lparr>m_used = True, m_mountpoint = ''/py'', m_fs_name = ''pyfs'', m_ops = Some PYFS_OPS, m_ctx = 0xD0000014\<rparr>],
      g_open := \<lparr>o_used = True, o_file = \<lparr>f_ops = Some PYFS_FILE_OPS, file_ctx = 0xD0000058, f_size = 512, f_pos = 4\<rparr>\<rparr> #
        replicate 31 \<lparr>o_used = False, o_file = empty_file\<rparr>,
      pyfs_at := (\<lambda>_. \<lparr>px_dev = G_disk0, px_sb = \<lparr>sb_magic = PYFS_MAGIC, sb_version = 1, sb_block_size = 512, sb_reserved0 = 0\<rparr>\<rparr>),
      pyfs_file_at := (\<lambda>_. \<lparr>pf_fs = 0xD0000014, pf_file_id = PYFS_FILE_SUPERBLOCK, pf_cache = 0\<rparr>)\<rparr>"

text \<open>The same machine after its disk was unplugged.\<close>

definition sample_unplugged :: "((u16 \<times> u8) list \<times> u16 list) vfs_state" where
  "sample_unplugged = sample_pyfs\<lparr>ata := (ata sample_pyfs)
     \<lparr>g_ata_drive := [\<lparr>present = False, lba28_sectors = 0\<rparr>, \<lparr>present = False, lba28_sectors = 0\<rparr>]\<rparr>\<rparr>"

lemma sample_pyfs_disk:
  "disk_inv sample_pyfs" "registered sample_pyfs = [G_disk0]" "live sample_pyfs = {(0xD0000014, 48), (0xD0000058, 12)}"
proof -
  have c: "disk_inv sample_pyfs = disk_inv sample_open" "live sample_pyfs = live sample_open" "registered sample_pyfs = registered sample_open"
    by (rule disk_inv_cong; simp add: sample_pyfs_def)+
  show "disk_inv sample_pyfs" "registered sample_pyfs = [G_disk0]" "live sample_pyfs = {(0xD0000014, 48), (0xD0000058, 12)}"
    using c sample_open_disk by simp_all
qed

lemma sample_pyfs_mounts:
  "mounts_inv (g_mounts sample_pyfs)" "mount_owned sample_pyfs = {0xD0000014}"
proof -
  let ?n = "\<lparr>m_used = True, m_mountpoint = ''/py'', m_fs_name = ''pyfs'', m_ops = Some PYFS_OPS, m_ctx = 0xD0000014\<rparr>"
  have g: "g_mounts sample_pyfs = boot_mounts[2 := ?n]" by (simp add: sample_pyfs_def)
  define ms where "ms = boot_mounts ! 0 # boot_mounts ! 1 # ?n # replicate 5 free_mount"
  have ms: "boot_mounts[2 := ?n] = ms" by (simp add: ms_def boot_mounts_def numeral_eq_Suc)
  have "\<forall>m \<in> set ms. cstring (m_mountpoint m)"
    "\<forall>m \<in> set ms. m_used m \<longrightarrow> m_mountpoint m \<noteq> [] \<and> hd (m_mountpoint m) = SLASH \<and> m_ops m \<noteq> None" "length ms = 8"
    by (auto simp: ms_def boot_mounts_def free_mount_def NUL_def)
  moreover have "i = j" if "i < 8" "j < 8" "m_used (ms ! i)" "m_used (ms ! j)" "m_mountpoint (ms ! i) = m_mountpoint (ms ! j)" for i j
    using that by (auto simp: ms_def boot_mounts_def free_mount_def nth_Cons' split: if_splits)
  ultimately show "mounts_inv (g_mounts sample_pyfs)" unfolding g ms by (simp add: mounts_inv_def)
  show "mount_owned sample_pyfs = {0xD0000014}" unfolding mount_owned_def g ms
    by (auto simp: ms_def boot_mounts_def free_mount_def intro: exI [of _ ?n])
qed

lemma sample_pyfs_inv: "vfs_inv sample_pyfs" "pyfs_fd sample_pyfs 0" "fd_cache sample_pyfs 0 = 0" "fd_device sample_pyfs 0 = G_disk0"
  "fd_pos sample_pyfs 0 = 4" "file_ctx (o_file (g_open sample_pyfs ! 0)) = 0xD0000058"
proof -
  have d: "dev_owned sample_pyfs = {}" by (simp add: dev_owned_def sample_pyfs_disk(2) dev_addrs_def)
  have sl: "slot_addrs sample_pyfs i = (if i = 0 then [0xD0000058] else [])" if "i < 32" for i
    using that by (auto simp: slot_addrs_def file_addrs_def sample_pyfs_def nth_Cons')
  have ok: "file_ok sample_pyfs (o_file (g_open sample_pyfs ! 0))"
    unfolding file_ok_def object_at_def sample_pyfs_disk sample_pyfs_mounts by (simp add: sample_pyfs_def)
  have u: "o_used (g_open sample_pyfs ! i) = (i = 0)" if "i < 32" for i
    using that by (auto simp: sample_pyfs_def nth_Cons')
  have "file_owned sample_pyfs = {0xD0000058}" using sl by (auto simp: file_owned_def split: if_splits)
  then have "files_inv sample_pyfs"
    unfolding files_inv_def d sample_pyfs_mounts using sl ok u by (auto simp: sample_pyfs_def)
  moreover have "pyfs_mount_ok sample_pyfs 0xD0000014"
    unfolding pyfs_mount_ok_def object_at_def sample_pyfs_disk by (simp add: sample_pyfs_def)
  ultimately show "vfs_inv sample_pyfs" using sample_pyfs_disk(1) sample_pyfs_mounts by (simp add: vfs_inv_def)
qed (simp_all add: pyfs_fd_def fd_cache_def fd_device_def fd_pos_def sample_pyfs_def)

lemma sample_pyfs_alloc:
  fixes s :: "('h, 'a) vfs_state_scheme"
  assumes "start_header s = start_header sample_heap2" "heap_mem s = heap_mem sample_heap2"
  shows "\<exists>m. kmalloc PYFS_BLOCK_SIZE s = Inr (0xD0000078, s\<lparr>heap_mem := m\<rparr>)"
proof -
  have h: "heap_inv s" "heap_abs s = heap_abs sample_heap2"
    using heap_cong(1) [OF assms] sample_heap2_inv(1) assms by (simp_all add: heap_abs_def)
  have n: "0 < unat PYFS_BLOCK_SIZE" "unat PYFS_BLOCK_SIZE \<le> 1048556" "round4 512 = 512" by (simp_all add: round4_def)
  show ?thesis using kmalloc_refines [OF h(1) n(1,2)] by cases (auto simp: n(3) h(2) sample_heap2_inv(4))
qed

theorem pyfs_reads_deliver_witness:
  "\<exists>s' s''. vfs_read sample_bus 0 (Some [9, 9]) 2 (Some 0) sample_pyfs = Inr (VFS_OK, Some [0, 0], Some 2, s') \<and>
     vfs_read sample_bus 0 (Some [9, 9]) 1 (Some 0) s' = Inr (VFS_OK, Some [0, 9], Some 1, s'') \<and> ata s'' = ata s'"
proof -
  obtain m where m: "kmalloc PYFS_BLOCK_SIZE sample_pyfs = Inr (0xD0000078, sample_pyfs\<lparr>heap_mem := m\<rparr>)"
    using sample_pyfs_alloc [of sample_pyfs] by (auto simp: sample_pyfs_def sample_open_def disk_state.defs sample_disk1_def sample_disk_def heap_state.defs sample_heap_def sample_heap2_inv(3))
  let ?s = "set_pf_cache 0xD0000058 0xD0000078 (sample_pyfs\<lparr>heap_mem := m\<rparr>)"
  have "drive_ready ?s"
    by (simp add: set_pf_cache_def sample_pyfs_def sample_open_def disk_state.defs drive_ready_def sample_disk1_def sample_disk_def heap_state.defs)
  then obtain a where r: "dev_read sample_bus G_disk0 0 True ?s = Some (BLOCK_SUCCESS, le_bytes (replicate 256 0), ?s\<lparr>ata := a\<rparr>)"
    using servesD [OF sample_bus_serves, of ?s 0] by auto
  have z: "le_bytes (replicate n 0) = replicate (2 * n) 0" for n
    by (induction n) (simp_all add: le_bytes_def)
  have c: "(0xD0000078 :: u32) \<noteq> 0" by simp
  have p: "[0, 0] = take (unat (2 :: u32)) (drop (unat (4 :: u32)) (replicate (2 * 256) (0 :: u8)))"
    "[0] = take (unat (1 :: u32)) (drop (unat (4 :: u32) + length [0, 0 :: u8]) (replicate (2 * 256) (0 :: u8)))"
    by (simp_all, simp_all add: numeral_2_eq_2)
  show ?thesis
    using pyfs_reads_deliver [OF sample_pyfs_inv(1-3) m c, of sample_bus "le_bytes (replicate 256 0)" "?s\<lparr>ata := a\<rparr>" "[0, 0]" 2 "[0]" 1 "[9, 9]" 0 "[9, 9]"]
    unfolding sample_pyfs_inv(4-6) z p [symmetric] by (simp add: r [unfolded z]) blast
qed

lemma sample_unplugged_inv: "vfs_inv sample_unplugged" "pyfs_fd sample_unplugged 0" "fd_cache sample_unplugged 0 = 0"
    "fd_device sample_unplugged 0 = G_disk0" "fd_pos sample_unplugged 0 = 4" "file_ctx (o_file (g_open sample_unplugged ! 0)) = 0xD0000058"
  using sample_pyfs_inv vfs_inv_ata(1) [OF sample_pyfs_inv(1) disk_inv_ata [OF sample_pyfs_disk(1)]]
  by (simp_all add: sample_unplugged_def pyfs_fd_def fd_cache_def fd_device_def fd_pos_def ata_inv_def)

theorem pyfs_failed_read_cached_witness:
  "\<exists>m s' s''. vfs_read sample_bus 0 (Some [9, 9]) 2 (Some 0) sample_unplugged = Inr (VFS_ERR_IO, Some [9, 9], Some 0, s') \<and>
     vfs_read sample_bus 0 (Some [9, 9]) 2 (Some 0) s' = Inr (VFS_OK, Some (heap_bytes m 0xD000007C 2), Some 2, s'')"
proof -
  obtain m where m: "kmalloc PYFS_BLOCK_SIZE sample_unplugged = Inr (0xD0000078, sample_unplugged\<lparr>heap_mem := m\<rparr>)"
    using sample_pyfs_alloc [of sample_unplugged] by (auto simp: sample_unplugged_def sample_pyfs_def sample_open_def disk_state.defs
        sample_disk1_def sample_disk_def heap_state.defs sample_heap_def sample_heap2_inv(3))
  let ?s = "set_pf_cache 0xD0000058 0xD0000078 (sample_unplugged\<lparr>heap_mem := m\<rparr>)"
  have r: "dev_read sample_bus G_disk0 0 True ?s = Some (BLOCK_ERROR, [], ?s)"
    by (simp add: dev_read.simps ata_block_read_def set_pf_cache_def sample_unplugged_def sample_pyfs_def sample_open_def disk_state.defs
        sample_disk1_def sample_disk_def heap_state.defs sample_dev_def ata_read_sector_def ata_valid_drive_def)
  have c: "(0xD0000078 :: u32) \<noteq> 0" by simp
  have "sector_part 4 2 = 2" by (simp add: sector_part_def)
  then show ?thesis
    using pyfs_failed_read_cached [OF sample_unplugged_inv(1-3) m c, of sample_bus BLOCK_ERROR "[]" ?s _ 2 "[9, 9]" 0]
    unfolding sample_unplugged_inv(4-6) r by simp blast
qed

end
