(* ===== verification/Interrupts_Correct.thy ===== *)
theory Interrupts_Correct
  imports Interrupts PyFS_Correct
begin

text \<open>
  The properties of the interrupt path: what the descriptor table says after initialisation, what the
  central handler does for each vector, and that a sleeping kernel wakes up on time.
\<close>

section \<open>Properties\<close>

definition gate :: "u32 \<Rightarrow> u8 \<Rightarrow> idt_entry" where
  "gate handler type = \<lparr>e_offset_low = ucast (handler AND 0xFFFF), e_selector = 0x08, e_zero = 0, e_type_attr = type,
     e_offset_high = ucast (drop_bit 16 handler AND 0xFFFF)\<rparr>"

text \<open>Where the processor continues when an interrupt goes through a gate.\<close>

definition gate_target :: "idt_entry \<Rightarrow> u32" where
  "gate_target e = ucast (e_offset_low e) OR push_bit 16 (ucast (e_offset_high e))"

lemma bit_low_half: "bit (0xFFFF :: int) k \<longleftrightarrow> k < 16"
proof -
  have "(0xFFFF :: int) = mask 16" by (simp add: mask_eq_exp_minus_1)
  then show ?thesis by (simp only: bit_mask_iff) simp
qed

lemma gate_target_gate: "gate_target (gate handler type) = handler"
proof (rule bit_word_eqI)
  fix n assume n: "n < LENGTH(32)"
  then show "bit (gate_target (gate handler type)) n = bit handler n"
    by (cases "n < 16") (auto simp: gate_target_def gate_def bit_or_iff bit_and_iff bit_unsigned_iff bit_push_bit_iff bit_drop_bit_eq bit_low_half)
qed

lemma set_gates:
  "fold (\<lambda>i. idt_set_gate (off + i) (h i) 0x08 ty) [0..<k] m =
     m\<lparr>idt := map (\<lambda>n. if off \<le> n \<and> n < off + k then gate (h (n - off)) ty else idt m ! n) [0..<length (idt m)]\<rparr>"
proof (induction k)
  case 0
  have "map (\<lambda>n. if off \<le> n \<and> n < off + 0 then gate (h (n - off)) ty else idt m ! n) [0..<length (idt m)] = idt m"
    by (rule nth_equalityI) auto
  then show ?case by simp
next
  case (Suc k)
  let ?l = "\<lambda>k. map (\<lambda>n. if off \<le> n \<and> n < off + k then gate (h (n - off)) ty else idt m ! n) [0..<length (idt m)]"
  have "(?l k)[off + k := gate (h k) ty] = ?l (Suc k)"
    by (rule nth_equalityI) (auto simp: nth_list_update less_Suc_eq)
  moreover have "fold (\<lambda>i. idt_set_gate (off + i) (h i) 0x08 ty) [0..<Suc k] m = idt_set_gate (off + k) (h k) 0x08 ty (m\<lparr>idt := ?l k\<rparr>)"
    using Suc by simp
  moreover have "idt_set_gate (off + k) (h k) 0x08 ty (m\<lparr>idt := ?l k\<rparr>) = m\<lparr>idt := (?l k)[off + k := gate (h k) ty]\<rparr>"
    by (simp add: idt_set_gate_def gate_def)
  ultimately show ?case by (simp only:)
qed

text \<open>
  C35. After \<^verbatim>\<open>idt_init\<close> the processor uses the table of 256 gates. Vector \<open>n\<close> below 48 enters the kernel code
  segment at the entry point installed for it (the exception handlers below 32, the interrupt lines above)
  through a present ring-0 interrupt gate; all other vectors have no present gate. Nothing else changes but
  for the message on the console.
\<close>

theorem idt_init_gates:
  fixes s s' :: "('h, 'g, 'a) kernel_scheme"
  assumes "length (idt (mach s)) = 256" "s' = idt_init addr isr irq s"
  shows "idtr (mach s') = \<lparr>ip_limit = 2047, ip_base = addr\<rparr> \<and> length (idt (mach s')) = 256 \<and>
    (\<forall>n < 256. let e = idt (mach s') ! n in e_selector e = 8 \<and>
       (if n < 48 then e_type_attr e = 0x8E \<and> gate_target e = (if n < 32 then isr n else irq (n - 32))
        else \<not> bit (e_type_attr e) 7)) \<and>
    (\<exists>d p. s' = s\<lparr>con_log := con_log s @ [TermPrint (''IDT Loaded. Interrupts configured.'' @ NL) 0x0F],
       mach := (mach s)\<lparr>idt := d, g_idt_ptr := p, idtr := p\<rparr>\<rparr>)"
proof -
  define m0 where "m0 = (mach s)\<lparr>g_idt_ptr := \<lparr>ip_limit = 8 * 256 - 1, ip_base = addr\<rparr>\<rparr>"
  define m1 where "m1 = fold (\<lambda>i. idt_set_gate i 0 0x08 0) [0..<256] m0"
  define m2 where "m2 = fold (\<lambda>i. idt_set_gate i (isr i) 0x08 0x8E) [0..<32] m1"
  define m3 where "m3 = fold (\<lambda>i. idt_set_gate (32 + i) (irq i) 0x08 0x8E) [0..<16] m2"
  note g1 = set_gates [of 0 "\<lambda>_. 0" 0 256 m0, simplified add_0 diff_zero, folded m1_def]
  note g2 = set_gates [of 0 isr "0x8E" 32 m1, simplified add_0 diff_zero, folded m2_def]
  note g3 = set_gates [of 32 irq "0x8E" 16 m2, folded m3_def]
  have l: "length (idt m0) = 256" "length (idt m1) = 256" "length (idt m2) = 256" "length (idt m3) = 256"
    unfolding g3 g2 g1 using assms(1) by (simp_all add: m0_def)
  have "idt m1 ! n = gate 0 0" if "n < 256" for n unfolding g1 using that l by simp
  then have "idt m2 ! n = (if n < 32 then gate (isr n) 0x8E else gate 0 0)" if "n < 256" for n unfolding g2 using that l by simp
  then have e: "idt m3 ! n = (if n < 32 then gate (isr n) 0x8E else if n < 48 then gate (irq (n - 32)) 0x8E else gate 0 0)" if "n < 256" for n
    unfolding g3 using that l by auto
  have s': "s' = s\<lparr>mach := idt_load m3, con_log := con_log s @ [TermPrint (''IDT Loaded. Interrupts configured.'' @ NL) 0x0F]\<rparr>"
    unfolding assms(2) idt_init_def Let_def on_mach_def m0_def [symmetric] m1_def [symmetric] m2_def [symmetric] m3_def [symmetric]
    by (simp add: term_call_def)
  obtain d where d: "m3 = m0\<lparr>idt := d\<rparr>" unfolding g3 g2 g1 by simp
  have x: "idt_load m3 = (mach s)\<lparr>idt := d, g_idt_ptr := \<lparr>ip_limit = 2047, ip_base = addr\<rparr>, idtr := \<lparr>ip_limit = 2047, ip_base = addr\<rparr>\<rparr>"
    unfolding idt_load_def d m0_def by simp
  have "idt (mach s') = idt m3" unfolding s' by (simp add: idt_load_def)
  moreover have "idtr (mach s') = \<lparr>ip_limit = 2047, ip_base = addr\<rparr>" unfolding s' by (simp add: x)
  moreover have "let e = idt m3 ! n in e_selector e = 8 \<and>
       (if n < 48 then e_type_attr e = 0x8E \<and> gate_target e = (if n < 32 then isr n else irq (n - 32)) else \<not> bit (e_type_attr e) 7)"
    if "n < 256" for n
    unfolding e [OF that] Let_def by (simp add: gate_target_gate) (simp add: gate_def)
  moreover have "\<exists>d p. s' = s\<lparr>con_log := con_log s @ [TermPrint (''IDT Loaded. Interrupts configured.'' @ NL) 0x0F],
       mach := (mach s)\<lparr>idt := d, g_idt_ptr := p, idtr := p\<rparr>\<rparr>"
    unfolding s' x by (intro exI [of _ d] exI [of _ "\<lparr>ip_limit = 2047, ip_base = addr\<rparr>"]) simp
  ultimately show ?thesis using l(4) by simp
qed

definition sample_machine0 :: "unit machine" where
  "sample_machine0 = \<lparr>hw = (), io_log = [], ticks = 41,
     kbd = \<lparr>kb_buffer = replicate 256 NUL_CHAR, write_ptr = 0, read_ptr = 0, shift_pressed = False, caps_lock = False, int_flag = True\<rparr>,
     idt = replicate 256 (gate 0 0), g_idt_ptr = \<lparr>ip_limit = 0, ip_base = 0\<rparr>, idtr = \<lparr>ip_limit = 0, ip_base = 0\<rparr>, halted = False\<rparr>"

definition sample_idle_bus :: "unit bus" where
  "sample_idle_bus = \<lparr>bus_in8 = (\<lambda>_ h. (0, h)), bus_out8 = (\<lambda>_ _ h. h), bus_in16 = (\<lambda>_ h. (0, h)), bus_out16 = (\<lambda>_ _ h. h)\<rparr>"

definition sample_kernel :: "((u16 \<times> u8) list \<times> u16 list, unit) kernel" where
  "sample_kernel = vfs_state.extend sample_vfs
     \<lparr>mach = sample_machine0, cmd_buffer = replicate 128 NUL_CHAR, cmd_idx = 0, pmm_test_pages = replicate 256 0\<rparr>"

theorem idt_init_gates_witness:
  "let s' = idt_init 0x3000 (\<lambda>n. 0x10000 + of_nat n) (\<lambda>n. 0x20000 + of_nat n) sample_kernel in
   gate_target (idt (mach s') ! 14) = 0x1000E \<and> gate_target (idt (mach s') ! 33) = 0x20001 \<and> \<not> bit (e_type_attr (idt (mach s') ! 48)) 7"
proof -
  have l: "length (idt (mach sample_kernel)) = 256" by (simp add: sample_kernel_def vfs_state.defs sample_machine0_def)
  let ?s = "idt_init 0x3000 (\<lambda>n. 0x10000 + of_nat n) (\<lambda>n. 0x20000 + of_nat n) sample_kernel"
  have "\<forall>n < 256. let e = idt (mach ?s) ! n in e_selector e = 8 \<and>
       (if n < 48 then e_type_attr e = 0x8E \<and> gate_target e = (if n < 32 then 0x10000 + of_nat n else 0x20000 + of_nat (n - 32))
        else \<not> bit (e_type_attr e) 7)"
    using idt_init_gates [OF l refl, of "0x3000" "\<lambda>n. 0x10000 + of_nat n" "\<lambda>n. 0x20000 + of_nat n"] by blast
  from this [rule_format, of 14] this [rule_format, of 33] this [rule_format, of 48] show ?thesis by (simp add: Let_def)
qed

text \<open>
  C34. The central handler serves an interrupt of the controllers completely and nothing else: the timer
  counts one tick, the keyboard handler gets the byte of its data port, and the end of the interrupt is
  reported to the slave (for its lines) and to the master; no other variable of the kernel changes. Every
  other vector is an exception: its message and the registers appear on the console, and the machine stops
  with interrupts off.
\<close>

theorem isr_handler_dispatch:
  fixes s s' :: "('h, 'g, 'a) kernel_scheme"
  assumes "s' = isr_handler D regs s" "n = unat (int_no regs)"
  shows "if 32 \<le> n \<and> n \<le> 47 then
      s' = s\<lparr>mach := mach s'\<rparr> \<and>
      machine.more (mach s') = machine.more (mach s) \<and> idt (mach s') = idt (mach s) \<and> idtr (mach s') = idtr (mach s) \<and>
      halted (mach s') = halted (mach s) \<and>
      ticks (mach s') = ticks (mach s) + (if n = 32 then 1 else 0) \<and>
      kbd (mach s') = (if n = 33 then keyboard_handler (fst (bus_in8 D 0x60 (hw (mach s)))) (kbd (mach s)) else kbd (mach s)) \<and>
      (\<exists>es. io_log (mach s') = io_log (mach s) @ es \<and>
         port_writes es = (if 40 \<le> n then [(PIC2_COMMAND, PIC_EOI)] else []) @ [(PIC1_COMMAND, PIC_EOI)])
    else s' = s\<lparr>con_log := con_log s @ panic_regs_calls (exception_message (int_no regs)) regs, mach := mach s'\<rparr> \<and>
      halted (mach s') \<and> \<not> int_flag (kbd (mach s')) \<and> io_log (mach s') = io_log (mach s)"
proof -
  have r: "int_no regs \<ge> 32 \<and> int_no regs \<le> 47 \<longleftrightarrow> 32 \<le> n \<and> n \<le> 47" "int_no regs = 32 \<longleftrightarrow> n = 32" "int_no regs = 33 \<longleftrightarrow> n = 33"
    using assms(2) by (auto simp: word_le_nat_alt word_unat_eq_iff)
  show ?thesis
  proof (cases "32 \<le> n \<and> n \<le> 47")
    case True
    have "unat (int_no regs - 32) = n - 32" using True assms(2) by (simp add: unat_sub_if_size word_le_nat_alt)
    moreover have "take_bit 8 (n - 32) = n - 32" using True by (intro take_bit_nat_eq_self) auto
    ultimately have "unat (ucast (int_no regs - 32) :: u8) = n - 32" by (simp add: unsigned_ucast_eq)
    then have e: "(ucast (int_no regs - 32) :: u8) \<ge> 8 \<longleftrightarrow> 40 \<le> n" using True by (auto simp: word_le_nat_alt)
    show ?thesis
      using True assms(1) r e
      by (auto simp: isr_handler_def on_mach_def Let_def timer_handler_def keyboard_interrupt_def pic_send_eoi_def inb_def outb_def case_prod_beta)
  next
    case False
    have "s' = panic_with_regs (exception_message (int_no regs)) regs s"
      unfolding assms(1) isr_handler_def r(1) if_not_P [OF False] by (rule refl)
    also have "\<dots> = s\<lparr>con_log := con_log s @ panic_regs_calls (exception_message (int_no regs)) regs,
        mach := (mach s)\<lparr>kbd := (kbd (mach s))\<lparr>int_flag := False\<rparr>, halted := True\<rparr>\<rparr>"
      by (simp add: panic_with_regs_def hang_def on_mach_def term_calls_log)
    finally show ?thesis unfolding if_not_P [OF False] by simp
  qed
qed

definition irq_frame :: "u32 \<Rightarrow> registers" where
  "irq_frame n = \<lparr>r_ds = 0x10, r_edi = 0, r_esi = 0, r_ebp = 0, r_esp = 0, r_ebx = 0, r_edx = 0, r_ecx = 0, r_eax = 0,
     int_no = n, err_code = 0, r_eip = 0x10000, r_cs = 0x08, r_eflags = 0x202, r_useresp = 0, r_ss = 0x10\<rparr>"

theorem isr_handler_dispatch_witness:
  "ticks (mach (isr_handler sample_idle_bus (irq_frame 32) sample_kernel)) = 42 \<and>
   halted (mach (isr_handler sample_idle_bus (irq_frame 14) sample_kernel))"
proof -
  have "ticks (mach sample_kernel) = 41" by (simp add: sample_kernel_def vfs_state.defs sample_machine0_def)
  then show ?thesis
    using isr_handler_dispatch [OF refl refl, where D = sample_idle_bus and regs = "irq_frame 32" and s = sample_kernel]
      isr_handler_dispatch [OF refl refl, where D = sample_idle_bus and regs = "irq_frame 14" and s = sample_kernel]
    by (simp add: irq_frame_def)
qed

section \<open>Sleeping\<close>

definition is_irq :: "registers \<Rightarrow> bool" where
  "is_irq r \<longleftrightarrow> 32 \<le> unat (int_no r) \<and> unat (int_no r) \<le> 47"

lemma cpu_idle_irq:
  assumes "is_irq r"
  shows "ticks (mach (cpu_idle D r s)) = ticks (mach s) + (if int_no r = 32 then 1 else 0)" "halted (mach (cpu_idle D r s)) = halted (mach s)"
proof -
  have "int_no r \<ge> 32 \<and> int_no r \<le> 47" using assms by (simp add: is_irq_def word_le_nat_alt)
  then show "ticks (mach (cpu_idle D r s)) = ticks (mach s) + (if int_no r = 32 then 1 else 0)" "halted (mach (cpu_idle D r s)) = halted (mach s)"
    by (simp_all add: cpu_idle_def isr_handler_def on_mach_def Let_def timer_handler_def keyboard_interrupt_def pic_send_eoi_def inb_def outb_def case_prod_beta)
qed

text \<open>
  A sleep ends with the timer interrupt that brings the tick count to its target, whatever other
  interrupts arrive in between, provided the count does not wrap around.
\<close>

lemma timer_sleep_loop_wakes:
  assumes "\<forall>r \<in> set irqs. is_irq r" "\<not> halted (mach s)" "k = length (filter (\<lambda>r. int_no r = 32) irqs)"
    and "unat (ticks (mach s)) + k < 2 ^ 64" "irqs \<noteq> [] \<Longrightarrow> int_no (last irqs) = 32"
  shows "\<exists>s'. timer_sleep_loop D (ticks (mach s) + of_nat k) (irqs @ later) s = Some (later, s') \<and>
    ticks (mach s') = ticks (mach s) + of_nat k"
  using assms
proof (induction irqs arbitrary: s k)
  case Nil
  then show ?case by (subst timer_sleep_loop.simps) simp
next
  case (Cons r irqs)
  let ?t = "cpu_idle D r s"
  have irq: "is_irq r" using Cons.prems(1) by simp
  note I = cpu_idle_irq [OF irq, of D s]
  have pos: "0 < k"
    using Cons.prems(3,5) by (cases irqs rule: rev_cases) (auto simp: filter_empty_conv split: if_splits)
  define j where "j = length (filter (\<lambda>r. int_no r = 32) irqs)"
  have k: "k = j + (if int_no r = 32 then 1 else 0)" using Cons.prems(3) by (simp add: j_def)
  have tgt: "ticks (mach s) + of_nat k = ticks (mach ?t) + of_nat j" unfolding k I(1) by simp
  have "unat (ticks (mach s) + of_nat k) = unat (ticks (mach s)) + k"
    using Cons.prems(4) by (simp add: unat_word_ariths unat_of_nat)
  then have lt: "ticks (mach s) < ticks (mach s) + of_nat k" using pos by (simp add: word_less_nat_alt)
  have "unat (ticks (mach ?t)) + j < 2 ^ 64"
  proof -
    have "unat (ticks (mach ?t)) \<le> unat (ticks (mach s)) + (if int_no r = 32 then 1 else 0)"
      unfolding I(1) by (simp add: unat_word_ariths)
    then show ?thesis using Cons.prems(4) k by linarith
  qed
  then have "\<exists>s'. timer_sleep_loop D (ticks (mach ?t) + of_nat j) (irqs @ later) ?t = Some (later, s') \<and>
      ticks (mach s') = ticks (mach ?t) + of_nat j"
    using Cons.prems(1,2,5) I(2) by (intro Cons.IH) (auto simp: j_def)
  then show ?case using lt Cons.prems(2) unfolding tgt by (subst timer_sleep_loop.simps) simp
qed

end
