(* ===== verification/Kernel_State.thy ===== *)
theory Kernel_State
  imports Boot Interrupts_Correct
begin

text \<open>
  The invariant of the running kernel, and which parts of the state it reads: components that change
  other parts keep it.
\<close>

section \<open>Views of the state\<close>

text \<open>The part that the heap, the block layer and the file layer use.\<close>

definition file_view :: "('h, 'a) vfs_state_scheme \<Rightarrow> _" where
  "file_view s = (start_header s, heap_mem s, ata s, dev_at s, part_at s, g_devices s, g_device_count s,
     g_mounts s, g_open s, devfs_at s, pyfs_at s, pyfs_file_at s)"

lemma file_view_cong:
  assumes "file_view t = file_view s"
  shows "vfs_inv t = vfs_inv s" "owned t = owned s" "live t = live s" "registered t = registered s"
proof -
  have v: "start_header t = start_header s" "heap_mem t = heap_mem s" "ata t = ata s" "dev_at t = dev_at s" "part_at t = part_at s"
    "g_devices t = g_devices s" "g_device_count t = g_device_count s" "g_mounts t = g_mounts s" "g_open t = g_open s"
    "devfs_at t = devfs_at s" "pyfs_at t = pyfs_at s" "pyfs_file_at t = pyfs_file_at s"
    using assms by (simp_all add: file_view_def)
  note c = disk_inv_cong [OF v(1-7)]
  have o: "object_at t q n = object_at s q n" for q n using c(2) by (simp add: object_at_def)
  have ow: "mount_owned t = mount_owned s" "dev_owned t = dev_owned s" using v c by (simp_all add: mount_owned_def dev_owned_def)
  have fa: "file_addrs t f = file_addrs s f" for f using v by (simp add: file_addrs_def split: option.split file_ops.split)
  then have sl: "slot_addrs t i = slot_addrs s i" for i using v by (simp add: slot_addrs_def)
  then have fo: "file_owned t = file_owned s" by (simp add: file_owned_def)
  have fok: "file_ok t f = file_ok s f" for f using v c o ow by (simp add: file_ok_def split: option.split file_ops.split)
  show "owned t = owned s" using fo ow by (simp add: owned_def)
  show "vfs_inv t = vfs_inv s" using v c o ow sl fo fok by (simp add: vfs_inv_def files_inv_def pyfs_mount_ok_def)
  show "live t = live s" "registered t = registered s" using c by simp_all
qed

text \<open>The part that the frame allocator uses.\<close>

definition frame_view :: "'a pmm_state_scheme \<Rightarrow> _" where
  "frame_view s = (phys s, total_blocks s, used_blocks s, bitmap_size s)"

lemma frame_view_cong:
  assumes "frame_view t = frame_view s"
  shows "pmm_ready t = pmm_ready s" "used_set t = used_set s" "total_blocks t = total_blocks s"
proof -
  have v: "phys t = phys s" "total_blocks t = total_blocks s" "used_blocks t = used_blocks s" "bitmap_size t = bitmap_size s"
    using assms by (simp_all add: frame_view_def)
  have f: "frame_used t f = frame_used s f" for f using v by (simp add: frame_used_def bitmap_byte_def)
  then show u: "used_set t = used_set s" using v by (simp add: used_set_def)
  show "pmm_ready t = pmm_ready s" using v u by (simp add: pmm_ready_def pmm_inv_def)
  show "total_blocks t = total_blocks s" by (rule v)
qed

text \<open>The part that paging uses.\<close>

definition page_view :: "'a vmm_state_scheme \<Rightarrow> _" where
  "page_view s = (frame_view s, page_directory s)"

lemma page_view_cong:
  assumes "page_view t = page_view s"
  shows "vmm_inv t = vmm_inv s" "walk t = walk s" "pmm_ready t = pmm_ready s" "used_set t = used_set s" "total_blocks t = total_blocks s"
    "bitmap_reserved t = bitmap_reserved s" "free_frames t = free_frames s"
proof -
  have v: "phys t = phys s" "total_blocks t = total_blocks s" "used_blocks t = used_blocks s" "bitmap_size t = bitmap_size s"
    "page_directory t = page_directory s" and f: "frame_view t = frame_view s"
    using assms by (simp_all add: page_view_def frame_view_def)
  note c = frame_view_cong [OF f]
  have b: "in_bitmap t = in_bitmap s" using v by (simp add: in_bitmap_def fun_eq_iff)
  have o: "own_page t = own_page s" using b c(2) by (simp add: own_page_def fun_eq_iff)
  show "walk t = walk s" using v(1,5) by (intro ext) (simp add: walk_def)
  show br: "bitmap_reserved t = bitmap_reserved s" using b c(2) by (simp add: bitmap_reserved_def)
  show "vmm_inv t = vmm_inv s" using v c(1) br o by (simp add: vmm_inv_def pde_present_def table_of_def)
  show "pmm_ready t = pmm_ready s" "used_set t = used_set s" "total_blocks t = total_blocks s" by (rule c)+
  show "free_frames t = free_frames s" using c by (simp add: free_frames_def)
qed

lemma term_call_views [simp]:
  "file_view (term_call c s) = file_view s" "file_view (term_calls cs s) = file_view s"
  "page_view (term_call c s') = page_view s'" "page_view (term_calls cs s') = page_view s'"
  "mach (term_call c k) = mach k" "mach (term_calls cs k) = mach k"
  "cmd_buffer (term_call c k) = cmd_buffer k" "cmd_buffer (term_calls cs k) = cmd_buffer k"
  "cmd_idx (term_call c k) = cmd_idx k" "cmd_idx (term_calls cs k) = cmd_idx k"
  "pmm_test_pages (term_call c k) = pmm_test_pages k" "pmm_test_pages (term_calls cs k) = pmm_test_pages k"
  by (simp_all add: file_view_def page_view_def frame_view_def term_call_def term_calls_log)

lemma on_mach_views [simp]:
  "file_view (on_mach f s) = file_view s" "page_view (on_mach f s) = page_view s" "mach (on_mach f s) = f (mach s)"
  "cmd_buffer (on_mach f s) = cmd_buffer s" "cmd_idx (on_mach f s) = cmd_idx s" "pmm_test_pages (on_mach f s) = pmm_test_pages s"
  by (simp_all add: file_view_def page_view_def frame_view_def on_mach_def)

section \<open>Invariant\<close>

text \<open>
  The storage and memory of the kernel are consistent: frames and page tables, heap, devices, mounts and open
  files.
\<close>

definition sys_inv :: "('h, 'g, 'a) kernel_scheme \<Rightarrow> bool" where
  "sys_inv s \<longleftrightarrow> vmm_inv s \<and> vfs_inv s \<and> length (pmm_test_pages s) = 256"

lemma sys_inv_cong:
  "file_view t = file_view s \<Longrightarrow> page_view t = page_view s \<Longrightarrow> pmm_test_pages t = pmm_test_pages s \<Longrightarrow> sys_inv t = sys_inv s"
  using file_view_cong(1) [of t s] page_view_cong(1) [of t s] by (simp add: sys_inv_def)

text \<open>
  Between \<open>s\<close> and \<open>t\<close> no frame, translation, heap object, device, mount or open file was gained or lost, and
  the small devices and the command line are as before.
\<close>

definition kept :: "('h, 'g, 'a) kernel_scheme \<Rightarrow> ('h, 'g, 'a) kernel_scheme \<Rightarrow> bool" where
  "kept s t \<longleftrightarrow> used_set t = used_set s \<and> total_blocks t = total_blocks s \<and> walk t = walk s \<and> live t = live s \<and> owned t = owned s \<and>
     dev_at t = dev_at s \<and> part_at t = part_at s \<and> pyfs_at t = pyfs_at s \<and> registered t = registered s \<and> g_mounts t = g_mounts s \<and> g_open t = g_open s \<and> mach t = mach s \<and>
     cmd_buffer t = cmd_buffer s \<and> cmd_idx t = cmd_idx s"

lemma kept_refl: "kept s s"
  by (simp add: kept_def)

lemma kept_trans: "kept s t \<Longrightarrow> kept t u \<Longrightarrow> kept s u"
  by (simp add: kept_def)

lemma keptI_views:
  assumes "file_view t = file_view s" "page_view t = page_view s" "mach t = mach s" "cmd_buffer t = cmd_buffer s" "cmd_idx t = cmd_idx s"
  shows "kept s t"
  using assms file_view_cong [OF assms(1)] page_view_cong [OF assms(2)] by (simp add: kept_def file_view_def)

section \<open>What the file layer leaves alone\<close>

definition base_view :: "('h, 'a) vfs_state_scheme \<Rightarrow> _" where
  "base_view s = (page_view s, con_log s, dev_at s, part_at s, g_devices s, g_device_count s, g_mounts s, vfs_state.more s)"

lemma base_view_update [simp]:
  "base_view (s\<lparr>heap_mem := m\<rparr>) = base_view s" "base_view (s\<lparr>ata := a\<rparr>) = base_view s" "base_view (s\<lparr>devfs_at := d\<rparr>) = base_view s"
  "base_view (s\<lparr>pyfs_at := p\<rparr>) = base_view s" "base_view (s\<lparr>pyfs_file_at := q\<rparr>) = base_view s" "base_view (s\<lparr>g_open := os\<rparr>) = base_view s"
  "base_view (set_pf_cache c v s) = base_view s"
  by (simp_all add: base_view_def page_view_def frame_view_def set_pf_cache_def)

lemma base_view_kernel:
  fixes s t :: "('h, 'g, 'a) kernel_scheme"
  assumes "base_view t = base_view s"
  shows "page_view t = page_view s" "con_log t = con_log s" "dev_at t = dev_at s" "part_at t = part_at s" "g_mounts t = g_mounts s"
    "registered t = registered s" "mach t = mach s" "cmd_buffer t = cmd_buffer s" "cmd_idx t = cmd_idx s" "pmm_test_pages t = pmm_test_pages s"
  using assms by (cases s; cases t; simp add: base_view_def registered_def)+

text \<open>
  \<open>keeps w g v m\<close>: if the computation \<open>m\<close> returns, the state that \<open>g\<close> finds in its result has the view \<open>v\<close>
  under \<open>w\<close>.
\<close>

definition keeps :: "('s \<Rightarrow> 'v) \<Rightarrow> ('r \<Rightarrow> 's) \<Rightarrow> 'v \<Rightarrow> 'r kres \<Rightarrow> bool" where
  "keeps w g v m \<longleftrightarrow> (\<forall>x. m = Inr x \<longrightarrow> w (g x) = v)"

lemma keeps_simps [simp]: "keeps w g v (Inl e)" "keeps w g v (Inr x) \<longleftrightarrow> w (g x) = v"
  by (simp_all add: keeps_def)

lemma keeps_bind:
  "keeps w g' (w s) m \<Longrightarrow> (\<And>x. keeps w g (w (g' x)) (f x)) \<Longrightarrow> keeps w g (w s) (kbind m f)"
  by (cases m) (simp_all add: keeps_def)

lemma keepsD: "keeps w g v m \<Longrightarrow> m = Inr x \<Longrightarrow> w (g x) = v"
  by (simp add: keeps_def)

lemma kmalloc_keeps_view: "(\<And>m s. w (s\<lparr>heap_mem := m\<rparr>) = w s) \<Longrightarrow> keeps w snd (w s) (kmalloc sz s)"
  unfolding keeps_def by (metis kmalloc_frame prod.collapse)

lemma kfree_keeps_view: "(\<And>m s. w (s\<lparr>heap_mem := m\<rparr>) = w s) \<Longrightarrow> keeps w id (w s) (kfree p s)"
  unfolding keeps_def by (metis kfree_frame id_apply)

lemmas kmalloc_keeps = kmalloc_keeps_view [where w = base_view, OF base_view_update(1)]
lemmas kfree_keeps = kfree_keeps_view [where w = base_view, OF base_view_update(1)]

lemma dev_read_base:
  fixes s :: "('h, 'a) vfs_state_scheme"
  assumes "dev_read B d lba buffer s = Some x"
  shows "base_view (snd (snd x)) = base_view s"
proof (rule dev_read.raw_induct [OF _ assms, where P = "\<lambda>B d lba buffer s y. base_view (snd (snd y)) = base_view s"])
    fix rd B d lba buffer and s :: "('h, 'a) vfs_state_scheme" and y
    assume IH: "\<And>B d lba buffer s y. rd B d lba buffer s = Some y \<Longrightarrow> base_view (snd (snd y)) = base_view s"
      and r: "(case bd_read (dev_at s d) of No_read \<Rightarrow> None | Ata_block_read \<Rightarrow> Some (ata_block_read B d lba buffer s)
        | Mbr_partition_read \<Rightarrow> (case mbr_partition_target d lba buffer s of None \<Rightarrow> Some (BLOCK_ERROR, [], s)
          | Some (pdev, parent_lba) \<Rightarrow> rd B pdev parent_lba buffer s)) = Some y"
    show "base_view (snd (snd y)) = base_view s"
    proof (cases "bd_read (dev_at s d)")
      case Ata_block_read
      then show ?thesis using r by (auto simp: ata_block_read_def Let_def split: prod.splits if_splits)
    next
      case Mbr_partition_read
      then show ?thesis using r IH by (auto split: option.splits prod.splits)
  qed (use r in simp)
qed

lemma dev_read_keeps:
  "(\<And>rc data t. keeps base_view g (base_view t) (f rc data t)) \<Longrightarrow>
   keeps base_view g (base_view s) (case dev_read B d lba buffer s of None \<Rightarrow> Inl e | Some (rc, data, s) \<Rightarrow> f rc data s)"
  using dev_read_base [of B d lba buffer s] by (cases "dev_read B d lba buffer s") (auto, metis)

lemma devfs_read_sectors_keeps: "keeps base_view (\<lambda>x. snd (snd (snd x))) (base_view s) (devfs_read_sectors B d ss lba i n buf s)"
proof (induction n arbitrary: i buf s)
  case (Suc n)
  show ?case unfolding devfs_read_sectors.simps
    by (rule dev_read_keeps) (simp add: Let_def Suc.IH)
qed simp

lemma fs_open_keeps: "keeps base_view (\<lambda>x. snd (snd x)) (base_view s) (fs_open fo ctx p flags f s)"
proof -
  have n: "keeps base_view (\<lambda>x. snd (snd x)) (base_view s) (devfs_new_file k b fops f s)" for k b fops f
    unfolding devfs_new_file_def by (rule keeps_bind [OF kmalloc_keeps]) (simp add: split_beta)
  have "keeps base_view (\<lambda>x. snd (snd x)) (base_view s) (pyfs_open ctx p flags f s)"
    unfolding pyfs_open_def
    by (auto intro!: keeps_bind [OF kmalloc_keeps] split: option.split)
  then show ?thesis using n by (cases fo) (auto simp: nullfs_open_def devfs_open_def Let_def split: option.split)
qed

lemma pyfs_fill_cache_keeps: "keeps base_view snd (base_view s) (pyfs_fill_cache B c s)"
proof (cases "pf_cache (pyfs_file_at s c) = 0")
  case True
  show ?thesis unfolding pyfs_fill_cache_def if_not_P [OF not_not [THEN iffD2, OF True]]
  proof (rule keeps_bind [OF kmalloc_keeps], unfold split_paired_all prod.case Let_def, unfold snd_conv)
    fix a and b :: "('a, 'b) vfs_state_scheme"
    let ?t = "set_pf_cache c a b"
    have "keeps base_view snd (base_view ?t) (case dev_read B (px_dev (pyfs_at ?t (pf_fs (pyfs_file_at ?t c)))) 0 True ?t of None \<Rightarrow> Inl Hang
        | Some (rc, data, s) \<Rightarrow> if rc \<noteq> BLOCK_SUCCESS then Inr (VFS_ERR_IO, s\<lparr>heap_mem := heap_store a data (heap_mem s)\<rparr>)
          else Inr (VFS_OK, s\<lparr>heap_mem := heap_store a data (heap_mem s)\<rparr>))"
      by (rule dev_read_keeps) simp
    then show "keeps base_view snd (base_view b) (if a = 0 then Inr (VFS_ERR_NO_SPACE, ?t)
      else case dev_read B (px_dev (pyfs_at ?t (pf_fs (pyfs_file_at ?t c)))) 0 True ?t of None \<Rightarrow> Inl Hang
        | Some (rc, data, s) \<Rightarrow> if rc \<noteq> BLOCK_SUCCESS then Inr (VFS_ERR_IO, s\<lparr>heap_mem := heap_store a data (heap_mem s)\<rparr>)
          else Inr (VFS_OK, s\<lparr>heap_mem := heap_store a data (heap_mem s)\<rparr>))" by simp
  qed
qed (simp add: pyfs_fill_cache_def)

lemma file_read_keeps: "keeps base_view (\<lambda>x. snd (snd (snd x))) (base_view s) (file_read B ops f off buffer sz r s)"
proof (cases ops)
  case DEVFS_BLOCK_FILE_OPS
  then show ?thesis
    by (auto simp: devfs_read_block_def Let_def intro!: keeps_bind [OF devfs_read_sectors_keeps] split: option.split)
next
  case PYFS_FILE_OPS
  then show ?thesis
    by (auto simp: pyfs_file_read_def Let_def intro!: keeps_bind [OF pyfs_fill_cache_keeps] split: option.split)
qed (simp_all add: devfs_read_null_def devfs_read_zero_def)

lemma file_close_keeps: "keeps base_view (\<lambda>x. snd (snd x)) (base_view s) (file_close ops f s)"
proof (cases f)
  case (Some g)
  let ?c = "file_ctx g"
  have d: "keeps base_view id (base_view s) (if q \<noteq> 0 then kfree q s else Inr s)" for q by (simp add: kfree_keeps)
  have p: "keeps base_view id (base_view s) (if ?c \<noteq> 0 then kbind (if pf_cache (pyfs_file_at s ?c) \<noteq> 0 then kfree (pf_cache (pyfs_file_at s ?c)) s else Inr s) (kfree ?c)
      else Inr s)" by (simp add: keeps_bind [OF d] kfree_keeps)
  show ?thesis using Some
    by (cases ops) (simp_all add: devfs_close_def pyfs_file_close_def Let_def keeps_bind [OF d] keeps_bind [OF p])
qed (cases ops; simp add: devfs_close_def pyfs_file_close_def)

lemma vfs_open_keeps: "keeps base_view (\<lambda>x. snd (snd x)) (base_view s) (vfs_open p flags out s)"
  unfolding vfs_open_def
  by (auto intro!: keeps_bind [OF fs_open_keeps] split: option.split prod.split)

lemma vfs_read_keeps: "keeps base_view (\<lambda>x. snd (snd (snd x))) (base_view s) (vfs_read B fd buffer sz out s)"
  unfolding vfs_read_def Let_def
  by (auto intro!: keeps_bind [OF file_read_keeps] split: option.split)

lemma vfs_close_keeps: "keeps base_view snd (base_view s) (vfs_close fd s)"
proof -
  let ?f = "o_file (g_open s ! fd)"
  have "keeps base_view (\<lambda>x. snd (snd x)) (base_view s) (case f_ops ?f of None \<Rightarrow> Inr (VFS_OK, Some ?f, s) | Some ops \<Rightarrow> file_close ops (Some ?f) s)"
    by (simp add: file_close_keeps split: option.split)
  then show ?thesis unfolding vfs_close_def Let_def
    by (auto intro!: keeps_bind)
qed

end
