(* ===== verification/Selftest_Correct.thy ===== *)
theory Selftest_Correct
  imports Kernel_State
begin

text \<open>
  The diagnostics leave the machine as they found it: every frame and every heap object they take is given
  back on every path, whatever the disk answers, and no test stops the machine. The frame test succeeds
  whenever a frame is free.
\<close>

section \<open>Frame allocator\<close>

text \<open>From \<open>s\<close> to \<open>t\<close> only the frame allocator, the table of test pages and the console changed.\<close>

definition pmm_only :: "('h, 'g, 'a) kernel_scheme \<Rightarrow> ('h, 'g, 'a) kernel_scheme \<Rightarrow> bool" where
  "pmm_only s t \<longleftrightarrow> (\<exists>u l tp. pmm_step s u \<and> t = u\<lparr>con_log := l, pmm_test_pages := tp\<rparr>)"

lemma pmm_step_log:
  fixes s t :: "('h, 'g, 'a) kernel_scheme"
  assumes "pmm_step (s\<lparr>con_log := l, pmm_test_pages := tp\<rparr>) t"
  shows "\<exists>u. pmm_step s u \<and> t = u\<lparr>con_log := l, pmm_test_pages := tp\<rparr>"
proof -
  obtain p u c cl where t: "t = s\<lparr>con_log := l, pmm_test_pages := tp\<rparr>\<lparr>phys := p, used_blocks := u, last_free_index := c, last_free_index_low := cl\<rparr>"
    "\<And>a. \<not> in_bitmap s a \<Longrightarrow> p a = phys s a"
    using assms by (auto simp: pmm_step_def in_bitmap_def)
  have "pmm_step s (s\<lparr>phys := p, used_blocks := u, last_free_index := c, last_free_index_low := cl\<rparr>)"
    by (rule pmm_stepI [where p = p and u = u and c = c and cl = cl]) (simp_all add: t(2))
  then show ?thesis using t(1) by (intro exI [of _ "s\<lparr>phys := p, used_blocks := u, last_free_index := c, last_free_index_low := cl\<rparr>"]) simp
qed

lemma pmm_only_trans: 
  assumes "pmm_only s t" "pmm_only t v"
  shows "pmm_only s v"
proof -
  obtain u l tp where t: "pmm_step s u" "t = u\<lparr>con_log := l, pmm_test_pages := tp\<rparr>" using assms(1) by (auto simp: pmm_only_def)
  obtain w l' tp' where v: "pmm_step t w" "v = w\<lparr>con_log := l', pmm_test_pages := tp'\<rparr>" using assms(2) by (auto simp: pmm_only_def)
  obtain w' where w: "pmm_step u w'" "w = w'\<lparr>con_log := l, pmm_test_pages := tp\<rparr>" using pmm_step_log [OF v(1) [unfolded t(2)]] by blast
  have "v = w'\<lparr>con_log := l', pmm_test_pages := tp'\<rparr>" using v(2) w(2) by simp
  then show ?thesis using pmm_step_trans [OF t(1) w(1)] by (auto simp: pmm_only_def)
qed

lemma pmm_only_log: "pmm_only s (s\<lparr>con_log := l\<rparr>)" "pmm_only s (set_page i p s)" "pmm_only s s"
proof -
  have "pmm_only s (s\<lparr>con_log := l, pmm_test_pages := tp\<rparr>)" for l tp
    unfolding pmm_only_def by (intro exI conjI) (rule pmm_step_refl, simp)
  from this [where l = l and tp = "pmm_test_pages s"] this [where l = "con_log s" and tp = "(pmm_test_pages s)[i := p]"]
    this [where l = "con_log s" and tp = "pmm_test_pages s"]
  show "pmm_only s (s\<lparr>con_log := l\<rparr>)" "pmm_only s (set_page i p s)" "pmm_only s s" by (simp_all add: set_page_def)
qed

lemma pmm_only_step:
  fixes s t :: "('h, 'g, 'a) kernel_scheme"
  assumes "pmm_step s t"
  shows "pmm_only s (set_page i p t)"
proof -
  have "set_page i p t = t\<lparr>con_log := con_log t, pmm_test_pages := (pmm_test_pages t)[i := p]\<rparr>" by (simp add: set_page_def)
  then show ?thesis unfolding pmm_only_def using assms by blast
qed

lemma pmm_only_fields:
  assumes "pmm_only s t"
  shows "file_view t = file_view s" "mach t = mach s" "cmd_buffer t = cmd_buffer s" "cmd_idx t = cmd_idx s" "total_blocks t = total_blocks s"
  using assms by (auto simp: pmm_only_def pmm_step_def file_view_def)

lemma pmm_only_vmm:
  assumes "pmm_only s t" "vmm_inv s" "pmm_ready t" "used_set t = used_set s"
  shows "vmm_inv t" "walk t = walk s"
proof -
  obtain u l tp where t: "pmm_step s u" "t = u\<lparr>con_log := l, pmm_test_pages := tp\<rparr>" using assms(1) by (auto simp: pmm_only_def)
  have f: "pmm_ready t = pmm_ready u" "used_set t = used_set u" using frame_view_cong [of t u] t(2) by (simp_all add: frame_view_def)
  have "vmm_inv t = vmm_inv u" "walk t = walk u"
    unfolding t(2) by (simp_all add: vmm_inv_def bitmap_reserved_def walk_def pmm_ready_def pmm_inv_def own_page_def
      pde_present_def table_of_def in_bitmap_def used_set_def frame_used_def bitmap_byte_def fun_eq_iff)
  then show "vmm_inv t" "walk t = walk s" using vmm_inv_pmm_step [OF assms(2) t(1)] assms(3,4) f by simp_all
qed

text \<open>
  The test holds the pages in its table on top of the frames \<open>U\<close> that were in use before: they are
  distinct and none of them is in \<open>U\<close>.
\<close>

definition held :: "nat \<Rightarrow> ('h, 'g, 'a) kernel_scheme \<Rightarrow> nat set" where
  "held n s = {i. i < n \<and> pmm_test_pages s ! i \<noteq> 0}"

definition pages_inv :: "nat set \<Rightarrow> nat \<Rightarrow> ('h, 'g, 'a) kernel_scheme \<Rightarrow> bool" where
  "pages_inv U n s \<longleftrightarrow> pmm_ready s \<and> length (pmm_test_pages s) = 256 \<and> n \<le> 256 \<and>
     (\<forall>i \<in> held n s. page_ptr (pmm_test_pages s ! i) \<and> page_frame (pmm_test_pages s ! i) \<notin> U) \<and>
     inj_on (\<lambda>i. page_frame (pmm_test_pages s ! i)) (held n s) \<and>
     used_set s = U \<union> (\<lambda>i. page_frame (pmm_test_pages s ! i)) ` held n s"

lemma held_finite [simp]: "finite (held n s)"
  by (simp add: held_def)

lemma pages_card:
  assumes "pages_inv U n s"
  shows "card (used_set s) = card U + card (held n s)"
proof -
  let ?f = "\<lambda>i. page_frame (pmm_test_pages s ! i)"
  have "U \<subseteq> used_set s" using assms by (auto simp: pages_inv_def)
  then have "finite U" using finite_subset [OF _ used_set_finite] by blast
  moreover have "U \<inter> ?f ` held n s = {}" using assms by (auto simp: pages_inv_def)
  ultimately show ?thesis using assms by (simp add: pages_inv_def card_Un_disjoint card_image)
qed

lemma set_page_frames [simp]: "pmm_ready (set_page i p s) = pmm_ready s" "used_set (set_page i p s) = used_set s"
  "pmm_test_pages (set_page i p s) = (pmm_test_pages s)[i := p]"
  using frame_view_cong [of "set_page i p s" s] by (simp_all add: set_page_def frame_view_def)

lemma pages_take:
  assumes inv: "pages_inv U n s" and i: "i < n" "pmm_test_pages s ! i = 0"
  shows "\<exists>p t. pmm_alloc_page s = Inr (p, t) \<and> pages_inv U n (set_page i p t) \<and> pmm_only s (set_page i p t) \<and>
    pmm_test_pages (set_page i p t) = (pmm_test_pages s)[i := p] \<and> (card U + n \<le> total_blocks s \<longrightarrow> p \<noteq> 0)"
proof -
  have r: "pmm_ready s" using inv by (simp add: pages_inv_def)
  obtain p t where a: "pmm_alloc_page s = Inr (p, t)" "pmm_ready t" "pmm_step s t"
    "if used_set s = {..<total_blocks s} then p = 0 \<and> used_set t = used_set s
     else page_ptr p \<and> page_frame p < total_blocks s \<and> page_frame p \<notin> used_set s \<and> used_set t = insert (page_frame p) (used_set s)"
    using pmm_ready_alloc [OF r] by blast
  have tp: "pmm_test_pages t = pmm_test_pages s" using a(3) by (auto simp: pmm_step_def)
  have len: "length (pmm_test_pages s) = 256" "n \<le> 256" using inv by (simp_all add: pages_inv_def)
  have "pages_inv U n (set_page i p t) \<and> (card U + n \<le> total_blocks s \<longrightarrow> p \<noteq> 0)"
  proof (cases "used_set s = {..<total_blocks s}")
    case True
    then have p: "p = 0" "used_set t = used_set s" using a(4) by simp_all
    have "(pmm_test_pages s)[i := 0] = pmm_test_pages s" using i len list_update_id [of "pmm_test_pages s" i] by simp
    then have "pages_inv U n (set_page i p t)" using inv a(2) p tp by (simp add: pages_inv_def held_def)
    moreover have "i \<notin> held n s" "held n s \<subseteq> {..<n}" using i(2) by (auto simp: held_def)
    then have "held n s \<subset> {..<n}" using i(1) by blast
    then have "card (held n s) < n" using psubset_card_mono [of "{..<n}" "held n s"] by simp
    then have "\<not> card U + n \<le> total_blocks s" using pages_card [OF inv] True by simp
    ultimately show ?thesis by simp
  next
    case False
    then have p: "page_ptr p" "page_frame p \<notin> used_set s" "used_set t = insert (page_frame p) (used_set s)" using a(4) by simp_all
    have p0: "p \<noteq> 0" using p(1) by (simp add: page_ptr_def)
    have h: "held n (set_page i p t) = insert i (held n s)" using i(1) p0 len tp by (auto simp: held_def nth_list_update)
    have nth: "(pmm_test_pages s)[i := p] ! j = pmm_test_pages s ! j" if "j \<in> held n s" for j
      using that i(2) by (cases "j = i") (auto simp: held_def)
    have img: "(\<lambda>j. page_frame ((pmm_test_pages s)[i := p] ! j)) ` held n s = (\<lambda>j. page_frame (pmm_test_pages s ! j)) ` held n s"
      using nth by (intro image_cong) simp_all
    have "inj_on (\<lambda>j. page_frame ((pmm_test_pages s)[i := p] ! j)) (held n s)"
      using inv nth by (simp add: pages_inv_def inj_on_def)
    then have "pages_inv U n (set_page i p t)"
      using inv a(2) p len i tp nth img
      by (auto simp: pages_inv_def h inj_on_insert)
    then show ?thesis using p0 by simp
  qed
  then show ?thesis using a(1) pmm_only_step [OF a(3)] tp by simp
qed

lemma pages_give:
  assumes inv: "pages_inv U n s" and i: "i \<in> held n s"
  shows "\<exists>t. selftest_release i s = Inr t \<and> pages_inv U n t \<and> pmm_only s t \<and> pmm_test_pages t = (pmm_test_pages s)[i := 0] \<and>
    held n t = held n s - {i}"
proof -
  let ?f = "\<lambda>i. page_frame (pmm_test_pages s ! i)" and ?p = "pmm_test_pages s ! i"
  have r: "pmm_inv s" "page_ptr ?p" "?f i \<in> used_set s" using inv i by (auto simp: pages_inv_def pmm_ready_def)
  then obtain t where t: "pmm_free_page ?p s = Inr t" "pmm_step s t" "used_set t = used_set s - {?f i}"
    using pmm_free_page_used [of s ?p] by (auto simp: page_ptr_def page_frame_def)
  have rt: "pmm_ready t" using pmm_alloc.release_used [of s ?p] r(2,3) inv t(1) by (auto simp: pages_inv_def)
  have tp: "pmm_test_pages t = pmm_test_pages s" using t(2) by (auto simp: pmm_step_def)
  have len: "length (pmm_test_pages s) = 256" "n \<le> 256" "i < n" using inv i by (simp_all add: pages_inv_def held_def)
  have h: "held n (set_page i 0 t) = held n s - {i}" using len tp by (auto simp: held_def nth_list_update)
  have inj: "inj_on ?f (held n s)" using inv by (simp add: pages_inv_def)
  have "?f i \<notin> U" using inv i by (simp add: pages_inv_def)
  then have "used_set t = U \<union> ?f ` (held n s - {i})"
    using inv t(3) inj_on_image_set_diff [OF inj, of "held n s" "{i}"] i by (auto simp: pages_inv_def)
  moreover have "(\<lambda>j. page_frame ((pmm_test_pages s)[i := 0] ! j)) ` (held n s - {i}) = ?f ` (held n s - {i})"
    by (intro image_cong) simp_all
  moreover have "inj_on (\<lambda>j. page_frame ((pmm_test_pages s)[i := 0] ! j)) (held n s - {i})"
    using inj by (simp add: inj_on_def)
  ultimately have "pages_inv U n (set_page i 0 t)"
    using inv rt tp len h by (simp add: pages_inv_def)
  moreover have "selftest_release i s = Inr (set_page i 0 t)" by (simp add: selftest_release_def t(1))
  ultimately show ?thesis using pmm_only_step [OF t(2)] h tp by auto
qed

lemma selftest_alloc_result:
  assumes "pages_inv U n s" "distinct is" "set is \<subseteq> {..<n} - held n s"
  shows "\<exists>ok t. selftest_alloc is s = Inr (ok, t) \<and> pages_inv U n t \<and> pmm_only s t \<and> (ok \<longrightarrow> held n t = held n s \<union> set is) \<and>
    (card U + n \<le> total_blocks s \<longrightarrow> ok)"
  using assms
proof (induction "is" arbitrary: s)
  case Nil
  then show ?case using pmm_only_log(3) by auto
next
  case (Cons i "is")
  have i: "i < n" "pmm_test_pages s ! i = 0" using Cons.prems(3) by (auto simp: held_def)
  obtain p t where p: "pmm_alloc_page s = Inr (p, t)" "pages_inv U n (set_page i p t)" "pmm_only s (set_page i p t)"
    "pmm_test_pages (set_page i p t) = (pmm_test_pages s)[i := p]" "card U + n \<le> total_blocks s \<Longrightarrow> p \<noteq> 0"
    using pages_take [OF Cons.prems(1) i] by blast
  show ?case
  proof (cases "p = 0")
    case True
    then show ?thesis using p by (auto simp: Let_def)
  next
    case False
    have "length (pmm_test_pages s) = 256" "n \<le> 256" using Cons.prems(1) by (simp_all add: pages_inv_def)
    then have h: "held n (set_page i p t) = insert i (held n s)" using False p(4) i(1) by (auto simp: held_def nth_list_update)
    have "set is \<subseteq> {..<n} - held n (set_page i p t)" using Cons.prems(2,3) h by auto
    then obtain ok u where u: "selftest_alloc is (set_page i p t) = Inr (ok, u)" "pages_inv U n u" "pmm_only (set_page i p t) u"
      "ok \<Longrightarrow> held n u = held n (set_page i p t) \<union> set is" "card U + n \<le> total_blocks (set_page i p t) \<Longrightarrow> ok"
      using Cons.IH [OF p(2)] Cons.prems(2) by auto
    have "selftest_alloc (i # is) s = Inr (ok, u)" using p(1) u(1) False by (simp add: Let_def)
    then show ?thesis using u(2,4,5) h pmm_only_trans [OF p(3) u(3)] pmm_only_fields(5) [OF p(3)] by auto
  qed
qed

lemma selftest_release_result:
  assumes "pages_inv U n s" "distinct is" "set is \<subseteq> held n s"
  shows "\<exists>t. kfold selftest_release is s = Inr t \<and> pages_inv U n t \<and> pmm_only s t \<and> held n t = held n s - set is"
  using assms
proof (induction "is" arbitrary: s)
  case Nil
  then show ?case using pmm_only_log(3) by auto
next
  case (Cons i "is")
  then obtain t where t: "selftest_release i s = Inr t" "pages_inv U n t" "pmm_only s t" "held n t = held n s - {i}"
    using pages_give [of U n s i] by auto
  have "set is \<subseteq> held n t" using Cons.prems(2,3) t(4) by auto
  then obtain u where "kfold selftest_release is t = Inr u" "pages_inv U n u" "pmm_only t u" "held n u = held n t - set is"
    using Cons.IH [OF t(2)] Cons.prems(2) by auto
  then show ?case using t pmm_only_trans [OF t(3)] by auto
qed

lemma selftest_cleanup_result:
  assumes "pages_inv U n s"
  shows "\<exists>t. selftest_cleanup n s = Inr t \<and> pages_inv U n t \<and> pmm_only s t \<and> held n t = {}"
proof -
  define f where "f = (\<lambda>i s :: ('a, 'b, 'c) kernel_scheme. if pmm_test_pages s ! i \<noteq> 0 then selftest_release i s else Inr s)"
  have "\<exists>t. kfold f is s = Inr t \<and> pages_inv U n t \<and> pmm_only s t \<and> held n t = held n s - set is"
    if "set is \<subseteq> {..<n}" "pages_inv U n s" for "is" s
    using that
  proof (induction "is" arbitrary: s)
    case Nil
    then show ?case using pmm_only_log(3) by auto
  next
    case (Cons i "is")
    have "\<exists>t. f i s = Inr t \<and> pages_inv U n t \<and> pmm_only s t \<and> held n t = held n s - {i}"
    proof (cases "i \<in> held n s")
      case True
      then show ?thesis using pages_give [OF Cons.prems(2) True] by (auto simp: f_def held_def)
    next
      case False
      then have "f i s = Inr s" using Cons.prems(1) by (auto simp: f_def held_def)
      then show ?thesis using Cons.prems(2) False pmm_only_log(3) [of s] by auto
    qed
    then obtain t where t: "f i s = Inr t" "pages_inv U n t" "pmm_only s t" "held n t = held n s - {i}" by blast
    obtain u where "kfold f is t = Inr u" "pages_inv U n u" "pmm_only t u" "held n u = held n t - set is"
      using Cons.IH [OF _ t(2)] Cons.prems(1) by auto
    then show ?case using t pmm_only_trans [OF t(3)] by auto
  qed
  from this [of "[0..<n]" s] obtain t where "kfold f [0..<n] s = Inr t" "pages_inv U n t" "pmm_only s t" "held n t = held n s - {0..<n}"
    using assms by (auto simp: atLeast0LessThan)
  moreover have "held n s - {0..<n} = {}" by (auto simp: held_def)
  ultimately show ?thesis by (auto simp: selftest_cleanup_def f_def)
qed

lemma free_memory_frames:
  assumes "pmm_ready s"
  shows "unat (pmm_get_free_memory s div 4096) = card (free_frames s)"
    "pmm_get_free_memory s = of_nat (card (free_frames s)) * 4096"
proof -
  have u: "used_blocks s = card (used_set s)" "total_blocks s \<le> 1048576" "0 \<in> used_set s" using assms by (auto simp: pmm_ready_def pmm_inv_def)
  then have "0 < card (used_set s)" by (auto simp: card_gt_0_iff)
  moreover have c: "card (free_frames s) = total_blocks s - card (used_set s)"
    unfolding free_frames_def using used_set_subset [of s] by (subst card_Diff_subset) simp_all
  ultimately have l: "card (free_frames s) < 1048576" using u by linarith
  show e: "pmm_get_free_memory s = of_nat (card (free_frames s)) * 4096"
    using u c card_used_le [of s] by (simp add: pmm_get_free_memory_def of_nat_diff)
  show "unat (pmm_get_free_memory s div 4096) = card (free_frames s)"
    using unat_page_addr [OF l] by (simp add: e unat_div)
qed

lemma selftest_pages_bound:
  "unat (selftest_pages f) \<le> unat f" "unat (selftest_pages f) \<le> 256" "selftest_pages f = 0 \<longleftrightarrow> f = 0"
  by (auto simp: selftest_pages_def Let_def word_le_nat_alt word_less_nat_alt unat_div unat_eq_0 [symmetric])

lemma clear_pages:
  assumes "length (pmm_test_pages s) = 256" "n \<le> 256"
  shows "\<exists>t. fold (\<lambda>i. set_page i 0) [0..<n] s = t \<and> pmm_only s t \<and> used_set t = used_set s \<and> pmm_ready t = pmm_ready s \<and>
    length (pmm_test_pages t) = 256 \<and> held n t = {}"
  using assms(2)
proof (induction n)
  case 0
  then show ?case using assms(1) pmm_only_log(3) by (auto simp: held_def)
next
  case (Suc n)
  then obtain t where t: "fold (\<lambda>i. set_page i 0) [0..<n] s = t" "pmm_only s t" "used_set t = used_set s" "pmm_ready t = pmm_ready s"
    "length (pmm_test_pages t) = 256" "held n t = {}" by auto
  have "held (Suc n) (set_page n 0 t) = {}"
    using t(5,6) Suc.prems by (auto simp: held_def nth_list_update less_Suc_eq)
  then show ?case using t pmm_only_trans [OF t(2) pmm_only_log(2)] by simp
qed

lemma term_calls_only: "pmm_only s (term_calls cs s)" "pmm_only s (term_call c s)"
  by (simp_all add: term_calls_log term_call_def pmm_only_log(1))

lemma term_calls_frames [simp]:
  "pmm_ready (term_calls cs s) = pmm_ready s" "used_set (term_calls cs s) = used_set s"
  "pmm_ready (term_call c s) = pmm_ready s" "used_set (term_call c s) = used_set s"
  "pmm_get_free_memory (term_calls cs s) = pmm_get_free_memory s" "pmm_get_free_memory (term_call c s) = pmm_get_free_memory s"
  using frame_view_cong [of "term_calls cs s" s] frame_view_cong [of "term_call c s" s]
  by (simp_all add: frame_view_def term_calls_log term_call_def pmm_get_free_memory_def)

lemma every_other: "distinct (every_other n)" "set (every_other n) \<subseteq> {..<n}"
  by (auto simp: every_other_def)

lemma pages_inv_ready: "pages_inv U n s \<Longrightarrow> pmm_ready s" "pages_inv U n s \<Longrightarrow> length (pmm_test_pages s) = 256"
  "pages_inv U n s \<Longrightarrow> held n s = {} \<Longrightarrow> used_set s = U"
  by (simp_all add: pages_inv_def)

lemma free_memory_cong:
  assumes "pmm_ready s" "pmm_ready t" "used_set t = used_set s" "total_blocks t = total_blocks s"
  shows "pmm_get_free_memory t = pmm_get_free_memory s"
proof -
  have "free_frames t = free_frames s" using assms by (simp add: free_frames_def)
  then show ?thesis using free_memory_frames(2) [OF assms(1)] free_memory_frames(2) [OF assms(2)] by simp
qed

lemma selftest_pmm_result:
  assumes r: "pmm_ready s" and len: "length (pmm_test_pages s) = 256"
  shows "\<exists>t. selftest_pmm s = Inr (if free_frames s = {} then 1 else 0, t) \<and> pmm_only s t \<and> pmm_ready t \<and>
    used_set t = used_set s \<and> length (pmm_test_pages t) = 256"
proof -
  define m where "m = pmm_get_free_memory s"
  define n where "n = unat (selftest_pages (m div of_nat PMM_PAGE_SIZE))"
  define s1 where "s1 = term_calls [TermPrint ''Free before: '' COLOR_WHITE, TermPrintHex m COLOR_YELLOW,
    TermPrint ('' bytes'' @ NL) COLOR_WHITE] (term_call (TermPrint (NL @ ''[SELFTEST] PMM (Next-Fit)'' @ NL) COLOR_CYAN) s)"
  have s1: "pmm_ready s1" "used_set s1 = used_set s" "length (pmm_test_pages s1) = 256" "pmm_only s s1"
    using r len pmm_only_trans [OF term_calls_only(2) term_calls_only(1)] by (simp_all add: s1_def)
  have nf: "unat (m div of_nat PMM_PAGE_SIZE) = card (free_frames s)" using free_memory_frames(1) [OF r] by (simp add: m_def)
  then have n: "n \<le> card (free_frames s)" "n \<le> 256" "n = 0 \<longleftrightarrow> free_frames s = {}"
    using selftest_pages_bound [of "m div of_nat PMM_PAGE_SIZE"] free_frames_finite [of s] by (auto simp: n_def unat_eq_0)
  show ?thesis
  proof (cases "n = 0")
    case True
    then have "selftest_pmm s = Inr (1, s1)" by (simp add: selftest_pmm_def Let_def s1_def n_def m_def)
    then show ?thesis using True n(3) s1 by auto
  next
    case False
    obtain s2 where s2: "fold (\<lambda>i. set_page i 0) [0..<n] s1 = s2" "pmm_only s1 s2" "used_set s2 = used_set s1" "pmm_ready s2"
      "length (pmm_test_pages s2) = 256" "held n s2 = {}"
      using clear_pages [OF s1(3) n(2)] s1(1) by auto
    let ?U = "used_set s"
    have o2: "pmm_only s s2" by (rule pmm_only_trans [OF s1(4) s2(2)])
    have inv2: "pages_inv ?U n s2" using s2 s1(2) n(2) by (simp add: pages_inv_def)
    have room: "card ?U + n \<le> total_blocks s"
      using n(1) used_set_subset [of s] card_used_le [of s] by (simp add: free_frames_def card_Diff_subset)
    then have room2: "card ?U + n \<le> total_blocks t" if "pmm_only s t" for t using pmm_only_fields(5) [OF that] by simp
    obtain s3 where s3: "selftest_alloc [0..<n] s2 = Inr (True, s3)" "pages_inv ?U n s3" "pmm_only s2 s3" "held n s3 = {..<n}"
      using selftest_alloc_result [OF inv2, of "[0..<n]"] s2(6) room2 [OF o2] by (auto simp: atLeast0LessThan)
    obtain s4 where s4: "kfold selftest_release (every_other n) s3 = Inr s4" "pages_inv ?U n s4" "pmm_only s3 s4"
      "held n s4 = {..<n} - set (every_other n)"
      using selftest_release_result [OF s3(2) every_other(1) [of n]] every_other(2) [of n] s3(4) by auto
    have o4: "pmm_only s s4" by (rule pmm_only_trans [OF pmm_only_trans [OF o2 s3(3)] s4(3)])
    obtain s5 where s5: "selftest_alloc (every_other n) s4 = Inr (True, s5)" "pages_inv ?U n s5" "pmm_only s4 s5"
      using selftest_alloc_result [OF s4(2) every_other(1) [of n]] s4(4) every_other(2) [of n] room2 [OF o4] by (auto simp: double_diff)
    obtain s6 where s6: "selftest_cleanup n s5 = Inr s6" "pages_inv ?U n s6" "pmm_only s5 s6" "held n s6 = {}"
      using selftest_cleanup_result [OF s5(2)] by blast
    define s7 where "s7 = term_calls [TermPrint ''Free after:  '' COLOR_WHITE, TermPrintHex (pmm_get_free_memory s6) COLOR_YELLOW,
      TermPrint ('' bytes'' @ NL) COLOR_WHITE] s6"
    have o6: "pmm_only s s6" by (rule pmm_only_trans [OF pmm_only_trans [OF o4 s5(3)] s6(3)])
    have "pmm_get_free_memory s6 = m"
      unfolding m_def using free_memory_cong [OF r pages_inv_ready(1) [OF s6(2)]] pages_inv_ready(3) [OF s6(2,4)] pmm_only_fields(5) [OF o6] by simp
    moreover have "selftest_pmm s = Inr (if pmm_get_free_memory s6 = m then 0 else 2, s7)"
      using False s2(1) s3(1) s4(1) s5(1) s6(1) by (simp add: selftest_pmm_def Let_def s7_def s1_def n_def m_def)
    ultimately have "selftest_pmm s = Inr (0, s7)" by simp
    then show ?thesis
      using False n(3) pages_inv_ready(1,2) [OF s6(2)] pages_inv_ready(3) [OF s6(2,4)] pmm_only_trans [OF o6 term_calls_only(1)]
      by (auto simp: s7_def)
  qed
qed

section \<open>Borrowing heap memory\<close>

text \<open>
  From \<open>s\<close> to \<open>t\<close> only the console, the disk hardware and the contents of the heap changed, and on top of
  the objects of \<open>s\<close> the heap has exactly the objects \<open>P\<close>, which no file, mount or device owns.
\<close>

definition borrows :: "('h, 'a) vfs_state_scheme \<Rightarrow> (nat \<times> nat) set \<Rightarrow> ('h, 'a) vfs_state_scheme \<Rightarrow> bool" where
  "borrows s P t \<longleftrightarrow> vfs_inv t \<and> owned t = owned s \<and> live t = live s \<union> P \<and> P \<inter> live s = {} \<and>
     fst ` P \<inter> unat ` owned s = {} \<and> (\<exists>l a m. t = s\<lparr>con_log := l, ata := a, heap_mem := m\<rparr>)"

lemma borrows_refl: "vfs_inv s \<Longrightarrow> borrows s {} s"
  unfolding borrows_def
  by (intro conjI exI [of _ "con_log s"] exI [of _ "ata s"] exI [of _ "heap_mem s"]) simp_all

lemma borrows_mem:
  assumes "borrows s P t" "vfs_inv (t\<lparr>heap_mem := m\<rparr>)" "owned (t\<lparr>heap_mem := m\<rparr>) = owned t"
    "live (t\<lparr>heap_mem := m\<rparr>) = live s \<union> Q" "Q \<inter> live s = {}" "fst ` Q \<inter> unat ` owned s = {}"
  shows "borrows s Q (t\<lparr>heap_mem := m\<rparr>)"
proof -
  obtain l a m' where "t = s\<lparr>con_log := l, ata := a, heap_mem := m'\<rparr>" using assms(1) by (auto simp: borrows_def)
  then have "t\<lparr>heap_mem := m\<rparr> = s\<lparr>con_log := l, ata := a, heap_mem := m\<rparr>" by simp
  then have "\<exists>l a m'. t\<lparr>heap_mem := m\<rparr> = s\<lparr>con_log := l, ata := a, heap_mem := m'\<rparr>" by blast
  then show ?thesis using assms unfolding borrows_def by (intro conjI) (simp_all only:)
qed

lemma borrows_new:
  assumes b: "borrows s P t" and sz: "sz \<noteq> 0"
  obtains (none) "kmalloc sz t = Inr (0, t)"
  | (new) p k u where "kmalloc sz t = Inr (p, u)" "p \<noteq> 0" "unat sz \<le> k" "(unat p, k) \<notin> P" "borrows s (insert (unat p, k) P) u"
proof -
  have inv: "vfs_inv t" "owned t = owned s" "live t = live s \<union> P" using b by (simp_all add: borrows_def)
  show thesis
  proof (cases rule: vfs_kmalloc [OF inv(1) sz])
    case 1
    then show ?thesis by (rule none)
  next
    case (2 p k m)
    have u: "unat p \<notin> unat ` owned s" using 2(7) inv(2) by (auto dest: word_unat_eq_iff [THEN iffD2])
    have "borrows s (insert (unat p, k) P) (t\<lparr>heap_mem := m\<rparr>)"
      using borrows_mem [OF b 2(3,8), of "insert (unat p, k) P"] 2(5,6) inv u b by (auto simp: borrows_def)
    then show ?thesis using 2 inv by (intro new) auto
  qed
qed

lemma borrows_store:
  assumes b: "borrows s P t" and p: "(unat p, k) \<in> P" "length bs \<le> k"
  shows "borrows s P (t\<lparr>heap_mem := heap_store p bs (heap_mem t)\<rparr>)"
proof -
  have inv: "vfs_inv t" "live t = live s \<union> P" "P \<inter> live s = {}" "fst ` P \<inter> unat ` owned s = {}" using b by (simp_all add: borrows_def)
  have o: "object_at t p k" using p(1) inv(2) by (auto simp: object_at_def)
  have h: "heap_inv t" using inv(1) by (simp add: vfs_inv_def disk_inv_def)
  note V = vfs_inv_heap_store [OF inv(1) o p(2)] heap_store_object [OF h o p(2)]
  show ?thesis using borrows_mem [OF b V(1,2) _ inv(3,4)] V(4) inv(2) by simp
qed

lemma borrows_give:
  assumes b: "borrows s P t" and p: "(unat p, k) \<in> P"
  obtains u where "kfree p t = Inr u" "borrows s (P - {(unat p, k)}) u"
proof -
  have inv: "vfs_inv t" "owned t = owned s" "live t = live s \<union> P" "P \<inter> live s = {}" "fst ` P \<inter> unat ` owned s = {}"
    using b by (simp_all add: borrows_def)
  have "fst (unat p, k) \<in> fst ` P" using p by (rule imageI)
  then have o: "object_at t p k" "p \<notin> owned t" using p inv by (auto simp: object_at_def)
  have h: "heap_inv t" using inv(1) by (simp add: vfs_inv_def disk_inv_def)
  obtain j m where m: "kfree p t = Inr (t\<lparr>heap_mem := m\<rparr>)" "vfs_inv (t\<lparr>heap_mem := m\<rparr>)" "(unat p, j) \<in> live t"
    "live (t\<lparr>heap_mem := m\<rparr>) = live t - {(unat p, j)}" "owned (t\<lparr>heap_mem := m\<rparr>) = owned t"
    by (rule vfs_kfree [OF inv(1) o])
  have "j = k" using live_fst_unique [OF h m(3)] p inv(3) by auto
  then have l: "live (t\<lparr>heap_mem := m\<rparr>) = live s \<union> (P - {(unat p, k)})" using inv(4) p by (auto simp: m(4) inv(3))
  have d: "(P - {(unat p, k)}) \<inter> live s = {}" "fst ` (P - {(unat p, k)}) \<inter> unat ` owned s = {}" using inv(4,5) by auto
  show thesis by (rule that [OF m(1) borrows_mem [OF b m(2,5) l d]])
qed

lemma borrows_log: "borrows s P t \<Longrightarrow> borrows s P (term_calls cs t)" "borrows s P t \<Longrightarrow> borrows s P (term_call c t)"
proof -
  have "borrows s P (t\<lparr>con_log := l\<rparr>)" if b: "borrows s P t" for l
  proof -
    have v: "file_view (t\<lparr>con_log := l\<rparr>) = file_view t" by (simp add: file_view_def)
    obtain l' a m where "t = s\<lparr>con_log := l', ata := a, heap_mem := m\<rparr>" using b by (auto simp: borrows_def)
    then have "t\<lparr>con_log := l\<rparr> = s\<lparr>con_log := l, ata := a, heap_mem := m\<rparr>" by simp
    then have "\<exists>l' a m. t\<lparr>con_log := l\<rparr> = s\<lparr>con_log := l', ata := a, heap_mem := m\<rparr>" by blast
    then show ?thesis using b file_view_cong [OF v] unfolding borrows_def by (intro conjI) (simp_all only:)
  qed
  then show "borrows s P t \<Longrightarrow> borrows s P (term_calls cs t)" "borrows s P t \<Longrightarrow> borrows s P (term_call c t)"
    by (simp_all add: term_calls_log term_call_def)
qed

lemma borrows_ata:
  assumes b: "borrows s P t" and a: "ata_inv a"
  shows "borrows s P (t\<lparr>ata := a\<rparr>)"
proof -
  have inv: "vfs_inv t" using b by (simp add: borrows_def)
  then have "disk_inv t" by (simp add: vfs_inv_def)
  note V = vfs_inv_ata [OF inv disk_inv_ata [OF this a]]
  have l: "live (t\<lparr>ata := a\<rparr>) = live t" using heap_cong [of "t\<lparr>ata := a\<rparr>" t] by simp
  obtain l' a' m' where "t = s\<lparr>con_log := l', ata := a', heap_mem := m'\<rparr>" using b by (auto simp: borrows_def)
  then have "t\<lparr>ata := a\<rparr> = s\<lparr>con_log := l', ata := a, heap_mem := m'\<rparr>" by simp
  then have "\<exists>l' a' m'. t\<lparr>ata := a\<rparr> = s\<lparr>con_log := l', ata := a', heap_mem := m'\<rparr>" by blast
  then show ?thesis using V l b unfolding borrows_def by (intro conjI) (simp_all only:)
qed


section \<open>Heap and disk\<close>

lemma pair_minus: "a \<notin> {b} \<Longrightarrow> {a, b} - {b} = {a}"
  by auto

lemma strcpy_length: "length (bytes_of ''Pyramid'' @ [0]) = 8"
  by (simp add: bytes_of_def)

lemma selftest_heap_result:
  assumes "vfs_inv s"
  shows "\<exists>rc t. selftest_heap s = Inr (rc, t) \<and> rc \<in> {0, 1, 2, 3} \<and> borrows s {} t"
proof -
  define s1 where "s1 = term_call (TermPrint (NL @ ''[SELFTEST] Heap'' @ NL) COLOR_CYAN) s"
  have b1: "borrows s {} s1" unfolding s1_def by (rule borrows_log(2) [OF borrows_refl [OF assms]])
  have z: "(10 :: u32) \<noteq> 0" "(4096 :: u32) \<noteq> 0" "(5 :: u32) \<noteq> 0" by simp_all
  have e0: "selftest_heap s = kbind (kmalloc 10 s1) (\<lambda>(ptr1, s).
        if ptr1 = 0 then Inr (1, s)
        else
          let s = s\<lparr>heap_mem := heap_store ptr1 (bytes_of ''Pyramid'' @ [0]) (heap_mem s)\<rparr> in
          kbind (kmalloc 4096 s) (\<lambda>(ptr2, s).
            if ptr2 = 0 then kbind (kfree ptr1 s) (\<lambda>s. Inr (2, s))
            else kbind (kfree ptr1 s) (\<lambda>s.
              kbind (kmalloc 5 s) (\<lambda>(ptr3, s).
                if ptr3 = 0 then kbind (kfree ptr2 s) (\<lambda>s. Inr (3, s))
                else kbind (kfree ptr2 s) (\<lambda>s. kbind (kfree ptr3 s) (\<lambda>s. Inr (0, s)))))))"
    by (simp only: selftest_heap_def Let_def s1_def [symmetric])
  show ?thesis
  proof (cases rule: borrows_new [OF b1 z(1), case_names none new])
    case none
    then show ?thesis using b1 e0 by simp
  next
    case (new p1 k1 t1)
    define s2 where "s2 = t1\<lparr>heap_mem := heap_store p1 (bytes_of ''Pyramid'' @ [0]) (heap_mem t1)\<rparr>"
    have "length (bytes_of ''Pyramid'' @ [0]) \<le> k1" unfolding strcpy_length using new(3) by auto
    then have b2: "borrows s {(unat p1, k1)} s2" unfolding s2_def by (intro borrows_store [OF new(5)]) simp_all
    have e1: "selftest_heap s = kbind (kmalloc 4096 s2) (\<lambda>(ptr2, s).
            if ptr2 = 0 then kbind (kfree p1 s) (\<lambda>s. Inr (2, s))
            else kbind (kfree p1 s) (\<lambda>s.
              kbind (kmalloc 5 s) (\<lambda>(ptr3, s).
                if ptr3 = 0 then kbind (kfree ptr2 s) (\<lambda>s. Inr (3, s))
                else kbind (kfree ptr2 s) (\<lambda>s. kbind (kfree ptr3 s) (\<lambda>s. Inr (0, s))))))"
      using new(1,2) e0 by (simp add: s2_def Let_def)
    show ?thesis
    proof (cases rule: borrows_new [OF b2 z(2), case_names none new])
      case none
      obtain u where "kfree p1 s2 = Inr u" "borrows s ({(unat p1, k1)} - {(unat p1, k1)}) u" by (rule borrows_give [OF b2]) simp
      then show ?thesis using none e1 by simp
    next
      case (new p2 k2 t2)
      obtain u where u: "kfree p1 t2 = Inr u" "borrows s ({(unat p2, k2), (unat p1, k1)} - {(unat p1, k1)}) u"
        by (rule borrows_give [OF new(5)]) (rule insertI2, rule singletonI)
      have bu: "borrows s {(unat p2, k2)} u" using u(2) pair_minus [OF new(4)] by (simp only:)
      show ?thesis
      proof (cases rule: borrows_new [OF bu z(3), case_names none new])
        case none
        obtain v where "kfree p2 u = Inr v" "borrows s ({(unat p2, k2)} - {(unat p2, k2)}) v" by (rule borrows_give [OF bu]) simp
        then show ?thesis using none e1 new(1,2) u(1) by simp
      next
        case n3: (new p3 k3 t3)
        obtain v where v: "kfree p2 t3 = Inr v" "borrows s ({(unat p3, k3), (unat p2, k2)} - {(unat p2, k2)}) v"
          by (rule borrows_give [OF n3(5)]) (rule insertI2, rule singletonI)
        have bv: "borrows s {(unat p3, k3)} v" using v(2) pair_minus [OF n3(4)] by (simp only:)
        obtain w where "kfree p3 v = Inr w" "borrows s ({(unat p3, k3)} - {(unat p3, k3)}) w" by (rule borrows_give [OF bv]) simp
        then show ?thesis using n3(1,2) e1 new(1,2) u(1) v(1) by simp
      qed
    qed
  qed
qed

text \<open>A sector read into a borrowed object, as in the disk test and in the shell.\<close>

lemma borrows_sector:
  assumes b: "borrows s P t" and p: "(unat p, k) \<in> P" "512 \<le> k"
    and r: "ata_read_sector B drive lba True (ata t) = (rc, data, a)"
  shows "borrows s P (t\<lparr>ata := a, heap_mem := heap_store p data (heap_mem t)\<rparr>)"
proof -
  have "ata_inv (ata t)" using b by (simp add: borrows_def vfs_inv_def disk_inv_def)
  then have a: "ata_inv a" using ata_read_sector_keeps(1) [OF r] by (simp add: ata_inv_def)
  have "length data \<le> k" using ata_read_sector_keeps(2,3) [OF r] p(2) by (cases "rc = ATA_OK") simp_all
  then show ?thesis using borrows_store [OF borrows_ata [OF b a] p(1), of data] by simp
qed

lemma selftest_ata_result:
  assumes "vfs_inv s"
  shows "\<exists>rc t. selftest_ata B s = Inr (rc, t) \<and> rc \<in> {0, 1, 2, 3} \<and> borrows s {} t"
proof -
  define s1 where "s1 = term_call (TermPrint (NL @ ''[SELFTEST] ATA (Read Sector 0)'' @ NL) COLOR_CYAN) s"
  define s2 where "s2 = s1\<lparr>ata := ata_init B (ata s1)\<rparr>"
  have b1: "borrows s {} s1" unfolding s1_def by (rule borrows_log(2) [OF borrows_refl [OF assms]])
  then have "ata_inv (ata s1)" by (simp add: borrows_def vfs_inv_def disk_inv_def)
  then have b2: "borrows s {} s2"
    unfolding s2_def using ata_init_result [of "ata s1" B] by (intro borrows_ata [OF b1]) (simp add: ata_inv_def)
  have z: "(512 :: u32) \<noteq> 0" by simp
  have e: "selftest_ata B s = kbind (kmalloc 512 s2) (\<lambda>(buffer, s).
        if buffer = 0 then Inr (1, s)
        else
          let (ret, data, a) = ata_read_sector B 0 0 True (ata s);
              s = s\<lparr>ata := a, heap_mem := heap_store buffer data (heap_mem s)\<rparr>
          in if ret \<noteq> 0 then kbind (kfree buffer s) (\<lambda>s. Inr (2, s))
          else
            let ok = heap_mem s (buffer + 510) = 0x55 \<and> heap_mem s (buffer + 511) = 0xAA
            in kbind (kfree buffer s) (\<lambda>s. Inr (if ok then 0 else 3, s)))"
    by (simp only: selftest_ata_def Let_def s1_def [symmetric] s2_def)
  show ?thesis
  proof (cases rule: borrows_new [OF b2 z, case_names none new])
    case none
    then show ?thesis using b2 e by simp
  next
    case (new p k t)
    obtain ret data a where r: "ata_read_sector B 0 0 True (ata t) = (ret, data, a)" by (cases "ata_read_sector B 0 0 True (ata t)")
    define u where "u = t\<lparr>ata := a, heap_mem := heap_store p data (heap_mem t)\<rparr>"
    have bu: "borrows s {(unat p, k)} u" unfolding u_def using new(3) by (intro borrows_sector [OF new(5) _ _ r]) simp_all
    obtain v where v: "kfree p u = Inr v" "borrows s ({(unat p, k)} - {(unat p, k)}) v" by (rule borrows_give [OF bu]) simp
    then show ?thesis using e new(1,2) by (simp add: r u_def [symmetric] Let_def)
  qed
qed

section \<open>All tests\<close>

lemma pmm_only_kept:
  assumes "pmm_only s t" "sys_inv s" "pmm_ready t" "used_set t = used_set s" "length (pmm_test_pages t) = 256"
  shows "sys_inv t" "kept s t"
proof -
  have i: "vmm_inv s" "vfs_inv s" using assms(2) by (simp_all add: sys_inv_def)
  note V = pmm_only_vmm [OF assms(1) i(1) assms(3,4)] and f = pmm_only_fields [OF assms(1)]
  note c = file_view_cong [OF f(1)]
  show "sys_inv t" using V i assms(5) c(1) by (simp add: sys_inv_def)
  show "kept s t" using V f c assms(4) by (simp add: kept_def file_view_def)
qed

lemma borrows_kept:
  assumes "borrows s {} t" "sys_inv s"
  shows "sys_inv t" "kept s t"
proof -
  have v: "page_view t = page_view s" "pmm_test_pages t = pmm_test_pages s" "dev_at t = dev_at s" "part_at t = part_at s" "pyfs_at t = pyfs_at s" "g_devices t = g_devices s"
    "g_device_count t = g_device_count s"
    "g_mounts t = g_mounts s" "g_open t = g_open s" "mach t = mach s" "cmd_buffer t = cmd_buffer s" "cmd_idx t = cmd_idx s"
    using assms(1) by (auto simp: borrows_def page_view_def frame_view_def)
  note c = page_view_cong [OF v(1)]
  show "sys_inv t" using assms c v by (simp add: sys_inv_def borrows_def)
  show "kept s t" using assms(1) c v by (simp add: kept_def borrows_def registered_def)
qed

lemma print_status_kept: "sys_inv s \<Longrightarrow> sys_inv (term_calls cs s)" "kept s (term_calls cs s)"
  "sys_inv s \<Longrightarrow> sys_inv (term_call c s)" "kept s (term_call c s)"
  using sys_inv_cong [of "term_calls cs s" s] sys_inv_cong [of "term_call c s" s] by (simp_all add: keptI_views)

definition selftest_summary :: "int \<Rightarrow> int \<Rightarrow> int \<Rightarrow> con_call list" where
  "selftest_summary rc_pmm rc_heap rc_ata =
     [TermPrint (''----------------------------'' @ NL) COLOR_WHITE, TermPrint ''Summary: failures='' COLOR_WHITE,
      TermPrintHex (word_of_int (of_bool (rc_pmm \<noteq> 0) + of_bool (rc_heap \<noteq> 0) + of_bool (rc_ata \<noteq> 0))) COLOR_YELLOW,
      TermPrint ''  ('' COLOR_WHITE, TermPrint ''PMM='' COLOR_WHITE, TermPrintHex (word_of_int rc_pmm) COLOR_YELLOW,
      TermPrint ''  HEAP='' COLOR_WHITE, TermPrintHex (word_of_int rc_heap) COLOR_YELLOW,
      TermPrint ''  ATA='' COLOR_WHITE, TermPrintHex (word_of_int rc_ata) COLOR_YELLOW, TermPrint ('')'' @ NL) COLOR_WHITE]"

lemma selftest_run_all_result:
  assumes inv: "sys_inv s"
  shows "\<exists>t cs rc_heap rc_ata. selftest_run_all B s = Inr t \<and> sys_inv t \<and> kept s t \<and>
    con_log t = cs @ selftest_summary (if free_frames s = {} then 1 else 0) rc_heap rc_ata \<and> rc_heap \<in> {0..3} \<and> rc_ata \<in> {0..3}"
proof -
  define s1 where "s1 = term_call (TermPrint (NL @ ''=== PyramidOS Diagnostics ==='' @ NL) COLOR_YELLOW) s"
  have s1: "sys_inv s1" "kept s s1" "free_frames s1 = free_frames s"
    using print_status_kept(3,4) inv page_view_cong(7) [of s1 s] by (simp_all add: s1_def)
  then have i1: "pmm_ready s1" "length (pmm_test_pages s1) = 256" by (simp_all add: sys_inv_def vmm_inv_def)
  let ?r1 = "if free_frames s = {} then 1 else 0 :: int"
  obtain s2 where s2: "selftest_pmm s1 = Inr (?r1, s2)" "pmm_only s1 s2" "pmm_ready s2" "used_set s2 = used_set s1" "length (pmm_test_pages s2) = 256"
    using selftest_pmm_result [OF i1] s1(3) by auto
  note k2 = pmm_only_kept [OF s2(2) s1(1) s2(3-5)]
  define s3 where "s3 = selftest_print_status ''Physical Memory Manager'' ?r1 s2"
  have s3: "sys_inv s3" "kept s2 s3" unfolding s3_def selftest_print_status_def by (rule print_status_kept(1) [OF k2(1)], rule print_status_kept(2))
  then have "vfs_inv s3" by (simp add: sys_inv_def)
  then obtain r2 s4 where s4: "selftest_heap s3 = Inr (r2, s4)" "r2 \<in> {0, 1, 2, 3}" "borrows s3 {} s4" using selftest_heap_result by blast
  note k4 = borrows_kept [OF s4(3) s3(1)]
  define s5 where "s5 = selftest_print_status ''Kernel Heap'' r2 s4"
  have s5: "sys_inv s5" "kept s4 s5" unfolding s5_def selftest_print_status_def by (rule print_status_kept(1) [OF k4(1)], rule print_status_kept(2))
  then have "vfs_inv s5" by (simp add: sys_inv_def)
  then obtain r3 s6 where s6: "selftest_ata B s5 = Inr (r3, s6)" "r3 \<in> {0, 1, 2, 3}" "borrows s5 {} s6" using selftest_ata_result by blast
  note k6 = borrows_kept [OF s6(3) s5(1)]
  define s7 where "s7 = selftest_print_status ''ATA Disk Controller'' r3 s6"
  have s7: "sys_inv s7" "kept s6 s7" unfolding s7_def selftest_print_status_def by (rule print_status_kept(1) [OF k6(1)], rule print_status_kept(2))
  define t where "t = term_calls (selftest_summary ?r1 r2 r3) s7"
  have "selftest_run_all B s = Inr t"
    unfolding selftest_run_all_def Let_def s1_def [symmetric] s2(1) kbind_Inr prod.case s3_def [symmetric] s4(1) s5_def [symmetric] s6(1)
      s7_def [symmetric] t_def selftest_summary_def ..
  moreover have "sys_inv t" unfolding t_def by (rule print_status_kept(1) [OF s7(1)])
  moreover have "kept s t"
    unfolding t_def
    by (rule kept_trans [OF kept_trans [OF kept_trans [OF kept_trans [OF kept_trans [OF kept_trans [OF kept_trans [OF
      s1(2) k2(2)] s3(2)] k4(2)] s5(2)] k6(2)] s7(2)] print_status_kept(2)])
  moreover have "con_log t = con_log s7 @ selftest_summary ?r1 r2 r3" by (simp add: t_def term_calls_log)
  ultimately show ?thesis using s4(2) s6(2) by (intro exI [of _ t] exI [of _ "con_log s7"] exI [of _ r2] exI [of _ r3]) auto
qed


section \<open>Properties\<close>

text \<open>
  C39. The diagnostics never stop the machine and leave no trace but their report: in any consistent state and
  whatever the disk answers, all three tests run to their end, and afterwards exactly the same frames are in
  use, the same addresses are translated, the heap has the same objects, and devices, partitions, mounts,
  volumes, open files, interrupt state and command line are as before. The report ends with the result codes; the code of the
  frame test is 0 if any frame is free and 1 otherwise.
\<close>

theorem selftest_run_all_safe:
  assumes "sys_inv s"
  shows "\<exists>t cs rc_heap rc_ata. selftest_run_all B s = Inr t \<and> sys_inv t \<and> kept s t \<and>
    con_log t = cs @ selftest_summary (if free_frames s = {} then 1 else 0) rc_heap rc_ata \<and> rc_heap \<in> {0..3} \<and> rc_ata \<in> {0..3}"
  using assms by (rule selftest_run_all_result)

text \<open>A consistent machine: the memory of a 256 KiB machine with paging on, and the files of an earlier example.\<close>

definition sample_sys :: "((u16 \<times> u8) list \<times> u16 list, unit) kernel" where
  "sample_sys = sample_kernel\<lparr>phys := phys sample_paging, total_blocks := total_blocks sample_paging,
     used_blocks := used_blocks sample_paging, bitmap_size := bitmap_size sample_paging, page_directory := page_directory sample_paging\<rparr>"

lemma sample_sys_inv: "sys_inv sample_sys" "free_frames sample_sys \<noteq> {}" "walk sample_sys = identity_4M"
proof -
  have p: "page_view sample_sys = page_view sample_paging" by (simp add: sample_sys_def page_view_def frame_view_def)
  have f: "file_view sample_sys = file_view sample_vfs"
    by (simp add: sample_sys_def sample_kernel_def vfs_state.defs file_view_def)
  have "length (pmm_test_pages sample_sys) = 256" by (simp add: sample_sys_def sample_kernel_def vfs_state.defs)
  then show "sys_inv sample_sys"
    using page_view_cong(1) [OF p] sample_paging_init(2) file_view_cong(1) [OF f] sample_vfs_inv(1) by (simp add: sys_inv_def)
  show "free_frames sample_sys \<noteq> {}" "walk sample_sys = identity_4M"
    using page_view_cong(2,7) [OF p] sample_paging_room(2) sample_paging_init(3) by simp_all
qed

theorem selftest_run_all_safe_witness:
  "\<exists>t cs rc_heap rc_ata. selftest_run_all sample_bus sample_sys = Inr t \<and> live t = live sample_sys \<and> used_set t = used_set sample_sys \<and>
    con_log t = cs @ selftest_summary 0 rc_heap rc_ata"
  using selftest_run_all_safe [OF sample_sys_inv(1), of sample_bus] unfolding kept_def if_not_P [OF sample_sys_inv(2)] by blast

end
