(* ===== verification/Shell_Correct.thy ===== *)
theory Shell_Correct
  imports Selftest_Correct
begin

text \<open>
  The shell: the line editor refines a string that keys append to and erase from, and the commands keep the
  kernel consistent. No command but the deliberate crash stops the machine with a panic; a command that
  returns leaves no frame, heap object or descriptor behind.
\<close>

section \<open>The line editor\<close>

text \<open>The line being edited, and what a key does to it.\<close>

definition line_of :: "('h, 'g, 'a) kernel_scheme \<Rightarrow> string" where
  "line_of s = take (nat (cmd_idx s)) (cmd_buffer s)"

definition editor_inv :: "('h, 'g, 'a) kernel_scheme \<Rightarrow> bool" where
  "editor_inv s \<longleftrightarrow> 0 \<le> cmd_idx s \<and> cmd_idx s < int CMD_BUF_SIZE \<and> NUL \<notin> set (line_of s) \<and>
     cmd_buffer s = line_of s @ replicate (CMD_BUF_SIZE - length (line_of s)) NUL"

definition edit :: "char \<Rightarrow> string \<Rightarrow> string" where
  "edit c l = (if c = NUL then l else if c = CHR 0x08 then butlast l else if length l < CMD_BUF_SIZE - 1 then l @ [c] else l)"

definition echo :: "char \<Rightarrow> string \<Rightarrow> con_call list" where
  "echo c l = (if c = NUL then []
     else if c = CHR 0x08 then (if l = [] then [] else [TermPrint [CHR 0x08] 0x07])
     else if length l < CMD_BUF_SIZE - 1 then [TermPrint [c] 0x0F] else [])"

text \<open>What a run of keys prints.\<close>

fun echoes :: "string \<Rightarrow> string \<Rightarrow> con_call list" where
  "echoes [] l = []"
| "echoes (c # ks) l = echo c l @ echoes ks (edit c l)"

lemma editor_length:
  assumes "editor_inv s"
  shows "length (cmd_buffer s) = 128" "nat (cmd_idx s) = length (line_of s)" "cmd_idx s = int (length (line_of s))" "length (line_of s) < 128"
proof -
  have i: "nat (cmd_idx s) < 128" "0 \<le> cmd_idx s" using assms by (simp_all add: editor_inv_def nat_less_iff)
  have le: "length (line_of s) \<le> nat (cmd_idx s)" by (simp add: line_of_def)
  have "length (cmd_buffer s) = length (line_of s) + (128 - length (line_of s))"
    using assms by (metis editor_inv_def length_append length_replicate)
  then show b: "length (cmd_buffer s) = 128" using le i by simp
  then show n: "nat (cmd_idx s) = length (line_of s)" using i by (simp add: line_of_def)
  then show "cmd_idx s = int (length (line_of s))" "length (line_of s) < 128" using i by simp_all
qed

lemma editorI:
  assumes "cmd_idx s = int (length l)" "cmd_buffer s = l @ replicate (128 - length l) NUL" "length l < 128" "NUL \<notin> set l"
  shows "editor_inv s" "line_of s = l"
proof -
  show l: "line_of s = l" using assms by (simp add: line_of_def)
  show "editor_inv s" using assms by (simp add: editor_inv_def l)
qed

lemma editor_end:
  assumes "editor_inv s"
  shows "set_cmd (cmd_idx s) NUL s = s" "cmd_text s = line_of s"
proof -
  note L = editor_length [OF assms]
  have b: "cmd_buffer s = line_of s @ replicate (128 - length (line_of s)) NUL" using assms by (simp add: editor_inv_def)
  have n: "nat (cmd_idx s) < 128" using L(2,4) by simp
  have "cmd_buffer s ! nat (cmd_idx s) = NUL" unfolding L(2) by (subst b) (use L(4) in \<open>simp add: nth_append\<close>)
  then have "(cmd_buffer s)[nat (cmd_idx s) := NUL] = cmd_buffer s" by (metis list_update_id)
  then show "set_cmd (cmd_idx s) NUL s = s" by (simp add: set_cmd_def)
  have "\<forall>c \<in> set (line_of s). c \<noteq> NUL" using assms by (auto simp: editor_inv_def)
  then show "cmd_text s = line_of s" unfolding cmd_text_def by (subst b) (simp add: takeWhile_append2)
qed

lemma shell_key_edit:
  assumes inv: "editor_inv s" and c: "c \<noteq> CHR 0x0A"
  shows "\<exists>b i. shell_key U B D c irqs s = Inr (irqs, s\<lparr>cmd_buffer := b, cmd_idx := i, con_log := con_log s @ echo c (line_of s)\<rparr>) \<and>
    editor_inv (s\<lparr>cmd_buffer := b, cmd_idx := i, con_log := con_log s @ echo c (line_of s)\<rparr>) \<and>
    line_of (s\<lparr>cmd_buffer := b, cmd_idx := i, con_log := con_log s @ echo c (line_of s)\<rparr>) = edit c (line_of s)"
proof -
  note L = editor_length [OF inv]
  let ?l = "line_of s" and ?n = "length (line_of s)"
  have b: "cmd_buffer s = ?l @ replicate (128 - ?n) NUL" and nul: "NUL \<notin> set ?l" using inv by (simp_all add: editor_inv_def)
  have self: "s\<lparr>cmd_buffer := cmd_buffer s, cmd_idx := cmd_idx s, con_log := con_log s\<rparr> = s" by simp
  have nz: "CHR 0x08 \<noteq> NUL" by code_simp
  consider (same) "edit c ?l = ?l" "echo c ?l = []" "shell_key U B D c irqs s = Inr (irqs, s)"
    | (erase) xs x where "c = CHR 0x08" "?l = xs @ [x]" | (char) "c \<noteq> NUL" "c \<noteq> CHR 0x08" "?n < 127"
  proof (cases "c = NUL \<or> c \<noteq> CHR 0x08 \<and> \<not> ?n < 127 \<or> c = CHR 0x08 \<and> ?l = []")
    case True
    then have "edit c ?l = ?l" "echo c ?l = []" using nz by (auto simp: edit_def echo_def)
    moreover have "shell_key U B D c irqs s = Inr (irqs, s)" using True c L(3) by (auto simp: shell_key_def)
    ultimately show ?thesis by (rule same)
  next
    case False
    then show ?thesis using erase char by (cases ?l rule: rev_cases) auto
  qed
  then show ?thesis
  proof cases
    case same
    then show ?thesis using inv self
      by (intro exI [of _ "cmd_buffer s"] exI [of _ "cmd_idx s"]) simp
  next
    case (erase xs x)
    have e: "(xs @ x # replicate (127 - length xs) NUL)[length xs := NUL] = xs @ replicate (128 - length xs) NUL"
      using L(4) erase(2) by (simp add: list_update_append replicate_Suc [symmetric] Suc_diff_le del: replicate_Suc)
    have n: "nat (cmd_idx s - 1) = length xs" "cmd_idx s > 0" using L(3) erase(2) by simp_all
    have bb: "cmd_buffer s = xs @ x # replicate (127 - length xs) NUL" using b erase(2) by simp
    let ?t = "s\<lparr>cmd_buffer := xs @ replicate (128 - length xs) NUL, cmd_idx := int (length xs), con_log := con_log s @ echo c ?l\<rparr>"
    have "shell_key U B D c irqs s = Inr (irqs, ?t)"
      using erase(1) n e L(3) erase(2) nz
      by (simp add: shell_key_def Let_def set_cmd_def bb term_call_def echo_def edit_def)
    moreover have "editor_inv ?t" "line_of ?t = xs" using editorI [of ?t xs] L(4) erase(2) nul by simp_all
    ultimately show ?thesis using erase nz by (intro exI [of _ "xs @ replicate (128 - length xs) NUL"] exI [of _ "int (length xs)"]) (simp add: edit_def)
  next
    case char
    have e: "(?l @ replicate (128 - ?n) NUL)[?n := c] = (?l @ [c]) @ replicate (128 - length (?l @ [c])) NUL"
    proof -
      have "128 - ?n = Suc (127 - ?n)" using char(3) by simp
      then show ?thesis by (simp add: list_update_append)
    qed
    let ?t = "s\<lparr>cmd_buffer := (?l @ [c]) @ replicate (128 - length (?l @ [c])) NUL, cmd_idx := int (length (?l @ [c])), con_log := con_log s @ echo c ?l\<rparr>"
    have "set_cmd (cmd_idx s) c s = s\<lparr>cmd_buffer := (?l @ [c]) @ replicate (128 - length (?l @ [c])) NUL\<rparr>"
      unfolding set_cmd_def L(2) by (subst b) (simp only: e)
    then have "shell_key U B D c irqs s = Inr (irqs, ?t)"
      using char c L(3) by (simp add: shell_key_def Let_def term_call_def echo_def edit_def)
    moreover have "editor_inv ?t" "line_of ?t = ?l @ [c]" using editorI [of ?t "?l @ [c]"] char nul by simp_all
    ultimately show ?thesis using char
      by (intro exI [of _ "(?l @ [c]) @ replicate (128 - length (?l @ [c])) NUL"] exI [of _ "int (length (?l @ [c]))"]) (simp add: edit_def)
  qed
qed


text \<open>A run of keys other than Enter.\<close>

definition type_keys ::
    "c_undef \<Rightarrow> 'h bus \<Rightarrow> 'g bus \<Rightarrow> string \<Rightarrow> registers list \<Rightarrow> ('h, 'g, 'a) kernel_scheme \<Rightarrow> ('h, 'g, 'a) shell_result" where
  "type_keys U B D ks irqs s = kfold (\<lambda>c (irqs, s). shell_key U B D c irqs s) ks (irqs, s)"

lemma type_keys_edit:
  assumes "editor_inv s" "CHR 0x0A \<notin> set ks"
  shows "\<exists>b i. type_keys U B D ks irqs s = Inr (irqs, s\<lparr>cmd_buffer := b, cmd_idx := i, con_log := con_log s @ echoes ks (line_of s)\<rparr>) \<and>
    editor_inv (s\<lparr>cmd_buffer := b, cmd_idx := i, con_log := con_log s @ echoes ks (line_of s)\<rparr>) \<and>
    line_of (s\<lparr>cmd_buffer := b, cmd_idx := i, con_log := con_log s @ echoes ks (line_of s)\<rparr>) = fold edit ks (line_of s)"
  using assms
proof (induction ks arbitrary: s)
  case Nil
  then show ?case by (intro exI [of _ "cmd_buffer s"] exI [of _ "cmd_idx s"]) (simp add: type_keys_def)
next
  case (Cons c ks)
  then have c: "c \<noteq> CHR 0x0A" by auto
  define l1 where "l1 = con_log s @ echo c (line_of s)"
  obtain b i where 1: "shell_key U B D c irqs s = Inr (irqs, s\<lparr>cmd_buffer := b, cmd_idx := i, con_log := l1\<rparr>)"
    "editor_inv (s\<lparr>cmd_buffer := b, cmd_idx := i, con_log := l1\<rparr>)"
    "line_of (s\<lparr>cmd_buffer := b, cmd_idx := i, con_log := l1\<rparr>) = edit c (line_of s)"
    using shell_key_edit [OF Cons.prems(1) c, of U B D irqs] unfolding l1_def by blast
  have l: "l1 @ echoes ks (edit c (line_of s)) = con_log s @ echoes (c # ks) (line_of s)" by (simp add: l1_def)
  have "CHR 0x0A \<notin> set ks" using Cons.prems(2) by simp
  from Cons.IH [OF 1(2) this] show ?case using 1(1) unfolding 1(3) by (simp add: type_keys_def l)
qed

section \<open>Commands\<close>

text \<open>
  From \<open>s\<close> to \<open>t\<close> the kernel holds the same frames, translations, devices and mounts, no heap object became
  unreachable, and the same files are open and unchanged.
\<close>

definition steady :: "('h, 'g, 'a) kernel_scheme \<Rightarrow> ('h, 'g, 'a) kernel_scheme \<Rightarrow> bool" where
  "steady s t \<longleftrightarrow> used_set t = used_set s \<and> total_blocks t = total_blocks s \<and> walk t = walk s \<and> registered t = registered s \<and>
     g_mounts t = g_mounts s \<and> garbage t = garbage s \<and>
     (\<forall>i < 32. if o_used (g_open s ! i) then g_open t ! i = g_open s ! i else \<not> o_used (g_open t ! i))"

text \<open>What a command that returns guarantees.\<close>

definition ran :: "('h, 'g, 'a) kernel_scheme \<Rightarrow> ('h, 'g, 'a) kernel_scheme \<Rightarrow> bool" where
  "ran s t \<longleftrightarrow> sys_inv t \<and> steady s t \<and> \<not> halted (mach t) \<and> cmd_buffer t = cmd_buffer s \<and> cmd_idx t = cmd_idx s"

lemma kept_steady: "kept s t \<Longrightarrow> steady s t"
  using garbage_same [of t s] by (simp add: kept_def steady_def)

lemma ran_kept: "\<not> halted (mach s) \<Longrightarrow> sys_inv t \<Longrightarrow> kept s t \<Longrightarrow> ran s t"
  using kept_steady [of s t] by (simp add: ran_def kept_def)

lemma steady_trans: "steady s t \<Longrightarrow> steady t u \<Longrightarrow> steady s u"
  unfolding steady_def by (auto split: if_splits)

lemma ran_trans: "ran s t \<Longrightarrow> ran t u \<Longrightarrow> ran s u"
  using steady_trans [of s t u] by (simp add: ran_def)

lemma ran_refl: "sys_inv s \<Longrightarrow> \<not> halted (mach s) \<Longrightarrow> ran s s"
  using ran_kept [of s s] kept_refl by blast

lemma ran_mach:
  assumes "sys_inv s" "\<not> halted m"
  shows "ran s (s\<lparr>mach := m, con_log := l\<rparr>)"
proof -
  let ?t = "s\<lparr>mach := m, con_log := l\<rparr>"
  have v: "file_view ?t = file_view s" "page_view ?t = page_view s" by (simp_all add: file_view_def page_view_def frame_view_def)
  have "garbage ?t = garbage s" using file_view_cong [OF v(1)] by (intro garbage_same) simp_all
  then have "steady s ?t" using file_view_cong [OF v(1)] page_view_cong [OF v(2)] by (simp add: steady_def)
  then show ?thesis using assms sys_inv_cong [OF v] by (simp add: ran_def)
qed

lemma ran_calls:
  assumes "ran s t"
  shows "ran s (term_calls cs t)" "ran s (term_call c t)"
proof -
  have "sys_inv t" "\<not> halted (mach t)" using assms by (simp_all add: ran_def)
  from ran_mach [OF this] have "ran t (t\<lparr>mach := mach t, con_log := l\<rparr>)" for l by blast
  then have "ran t (t\<lparr>con_log := l\<rparr>)" for l by simp
  then show "ran s (term_calls cs t)" "ran s (term_call c t)"
    using ran_trans [OF assms] by (simp_all add: term_calls_log term_call_def)
qed

lemma ran_borrows: "\<not> halted (mach s) \<Longrightarrow> sys_inv s \<Longrightarrow> borrows s {} t \<Longrightarrow> ran s t"
  using borrows_kept [of s t] ran_kept [of s t] by blast

lemma garbage_close:
  assumes "owned t = owned s - A" "released s A t" "A \<subseteq> owned s"
  shows "garbage t = garbage s"
proof -
  have "fst ` live t = fst ` live s - unat ` A" using assms(2) by (force simp: released_def)
  then show ?thesis using assms(1,3) by (auto simp: garbage_def)
qed

lemma cmd_pyfs_sb_ran:
  assumes inv: "sys_inv s" and h: "\<not> halted (mach s)"
  shows "\<exists>t. cmd_pyfs_sb U B s = Inr t \<and> ran s t"
proof -
  have v: "vfs_inv s" using inv by (simp add: sys_inv_def)
  have c: "cstring ''/py/superblock''" by (simp add: cstring_def NUL_def)
  show ?thesis
  proof (cases rule: vfs_open_result [OF v c, of 1, case_names error opened])
    case (error rc)
    then show ?thesis using ran_calls(1) [OF ran_refl [OF inv h]] by (simp add: cmd_pyfs_sb_def)
  next
    case (opened fd t q k)
    obtain rc buf n u where u: "vfs_read B fd (Some (undef_bytes U)) 64 (Some 0) t = Inr (rc, buf, n, u)" "vfs_inv u"
      "\<forall>i < 32. o_used (g_open u ! i) = o_used (g_open t ! i)" "\<forall>i < 32. i \<noteq> fd \<longrightarrow> g_open u ! i = g_open t ! i" "garbage u = garbage t"
      using vfs_read_result [OF opened(5), of B fd "Some (undef_bytes U)" 64 "Some 0"] by blast
    define m where "m = unat (case n of None \<Rightarrow> 0 | Some n \<Rightarrow> n)"
    define w where "w = (if rc \<noteq> VFS_OK then term_calls (rc_calls ''PyFS: read failed (rc='' rc) u
      else term_calls ([TermPrint (''PyFS superblock (first 64 bytes):'' @ NL) 0x0B] @ hexdump_calls (case buf of None \<Rightarrow> [] | Some b \<Rightarrow> b) m @
                         [TermPrint NL 0x07]) u)"
    obtain l where w: "w = u\<lparr>con_log := l\<rparr>" by (cases "rc = VFS_OK") (auto simp: w_def term_calls_log)
    have wv: "file_view w = file_view u" "page_view w = page_view u" by (simp_all add: w file_view_def page_view_def frame_view_def)
    note W = file_view_cong [OF wv(1)]
    have fw: "vfs_inv w" "fd < 32" "o_used (g_open w ! fd)" using W u(2,3) opened(2,11) by (simp_all add: w)
    obtain z where z: "vfs_close fd w = Inr (VFS_OK, z)" "vfs_inv z" "owned z = owned w - set (slot_addrs w fd)"
      "released w (set (slot_addrs w fd)) z" "g_open z = (g_open w)[fd := \<lparr>o_used = False, o_file = empty_file\<rparr>]"
      using vfs_close_result [OF fw] by blast
    have e: "cmd_pyfs_sb U B s = Inr z"
      by (simp only: cmd_pyfs_sb_def opened(1) kbind_Inr prod.case option.case Let_def u(1) m_def [symmetric] w_def [symmetric] z(1)
          simp_thms if_False)
    have bt: "base_view t = base_view s" using keepsD [OF vfs_open_keeps opened(1)] by simp
    have bu: "base_view u = base_view t" using keepsD [OF vfs_read_keeps u(1)] by simp
    have bz: "base_view z = base_view w" using keepsD [OF vfs_close_keeps z(1)] by simp
    note K = base_view_kernel [OF bt] base_view_kernel [OF bu] base_view_kernel [OF bz]
    have pv: "page_view z = page_view s" using K wv by simp
    have "set (slot_addrs w fd) \<subseteq> owned w" using fw(2) by (auto simp: owned_def file_owned_def)
    then have "garbage z = garbage w" using garbage_close [OF z(3,4)] by blast
    also have "\<dots> = garbage u" using W by (intro garbage_same) simp_all
    also have "\<dots> = garbage t" by (rule u(5))
    also have "\<dots> = garbage s" using opened(5) by (intro garbage_new [OF _ opened(10,9,8)]) (simp add: vfs_inv_def disk_inv_def)
    finally have g: "garbage z = garbage s" .
    have len: "length (g_open w) = 32" using fw(1) by (simp add: vfs_inv_def files_inv_def)
    have "if o_used (g_open s ! i) then g_open z ! i = g_open s ! i else \<not> o_used (g_open z ! i)" if "i < 32" for i
    proof (cases "i = fd")
      case True
      then show ?thesis using opened(2,3) z(5) len by simp
    next
      case False
      then show ?thesis using that z(5) u(4) opened(13) by (simp add: w)
    qed
    then have "steady s z" unfolding steady_def using page_view_cong [OF pv] K g W(4) [unfolded w] by (simp add: w)
    moreover have "sys_inv z" using inv z(2) page_view_cong(1) [OF pv] K by (simp add: sys_inv_def w)
    ultimately show ?thesis using e h K by (simp add: ran_def w)
  qed
qed

text \<open>Port accesses do not stop the processor.\<close>

lemma halted_ports: "halted (outb D p v m) = halted m" "inb D p m = (b, m') \<Longrightarrow> halted m' = halted m"
  by (auto simp: outb_def inb_def Let_def split: prod.splits)

lemma rtc_register_halted: "get_rtc_register D r m = (b, m') \<Longrightarrow> halted m' = halted m" for m :: "'g machine"
  by (auto simp: get_rtc_register_def halted_ports dest: halted_ports(2))

lemma rtc_wait_halted:
  fixes m :: "'g machine"
  assumes "rtc_wait D m = Some m'"
  shows "halted m' = halted m"
proof (rule rtc_wait.raw_induct [OF _ assms, where P = "\<lambda>D m m'. halted m' = halted m"])
  fix w D and m y :: "'g machine"
  assume IH: "\<And>D m y. w D m = Some y \<Longrightarrow> halted y = halted m"
    and r: "(let (busy, s) = get_update_in_progress_flag D m in if busy \<noteq> 0 then w D s else Some s) = Some y"
  obtain b s where b: "get_update_in_progress_flag D m = (b, s)" by (cases "get_update_in_progress_flag D m")
  then have "halted s = halted m"
    by (auto simp: get_update_in_progress_flag_def halted_ports dest: halted_ports(2) split: prod.splits)
  then show "halted y = halted m" using r b IH [of D s y] by (auto split: if_splits)
qed

lemma rtc_get_time_halted: "rtc_get_time D m = Some (dt, m') \<Longrightarrow> halted m' = halted m" for m :: "'g machine"
  by (auto simp: rtc_get_time_def Let_def dest!: rtc_wait_halted rtc_register_halted split: option.splits prod.splits)

lemma reboot_wait_halted:
  assumes "reboot_wait D m = Some m'"
  shows "halted m' = halted m"
proof (rule reboot_wait.raw_induct [OF _ assms, where P = "\<lambda>D m m'. halted m' = halted m"])
  fix w D and m y :: "'a machine"
  assume IH: "\<And>D m y. w D m = Some y \<Longrightarrow> halted y = halted m"
    and r: "(let (good, m) = inb D 0x64 m in if good AND 2 \<noteq> 0 then w D m else Some m) = Some y"
  obtain b s where b: "inb D 0x64 m = (b, s)" by (cases "inb D 0x64 m")
  then show "halted y = halted m" using r halted_ports(2) [OF b] IH [of D s y] by (auto split: if_splits)
qed

text \<open>An interrupt changes the small devices and the console only.\<close>

lemma isr_handler_frame: "\<exists>m l. isr_handler D r s = s\<lparr>mach := m, con_log := l\<rparr>"
proof -
  have "\<exists>m l. on_mach f s = s\<lparr>mach := m, con_log := l\<rparr>" for f
    by (intro exI [of _ "f (mach s)"] exI [of _ "con_log s"]) (simp add: on_mach_def)
  moreover have "on_mach f (on_mach g s) = on_mach (\<lambda>m. f (g m)) s" for f g by (simp add: on_mach_def)
  moreover have "\<exists>m l. panic_with_regs msg r s = s\<lparr>mach := m, con_log := l\<rparr>" for msg
    unfolding panic_with_regs_def hang_def on_mach_def term_calls_log
    by (intro exI [of _ "(mach s)\<lparr>kbd := (kbd (mach s))\<lparr>int_flag := False\<rparr>, halted := True\<rparr>"]
        exI [of _ "con_log s @ panic_regs_calls msg r"]) simp
  ultimately show ?thesis by (auto simp: isr_handler_def Let_def)
qed

lemma timer_sleep_loop_frame:
  assumes "timer_sleep_loop D target irqs s = Some (rest, t)"
  shows "\<not> halted (mach t) \<and> (\<exists>m l. t = s\<lparr>mach := m, con_log := l\<rparr>)"
  using assms
proof (induction irqs arbitrary: s)
  case Nil
  have "s = s\<lparr>mach := mach s, con_log := con_log s\<rparr>" by simp
  then have "\<exists>m l. s = s\<lparr>mach := m, con_log := l\<rparr>" by blast
  moreover have "t = s" "\<not> halted (mach s)" using Nil by (subst (asm) timer_sleep_loop.simps, auto split: if_splits)+
  ultimately show ?case by simp
next
  case (Cons r irqs)
  show ?case
  proof (cases "ticks (mach s) < target \<and> \<not> halted (mach s)")
    case True
    then have "timer_sleep_loop D target irqs (cpu_idle D r s) = Some (rest, t)"
      using Cons.prems by (subst (asm) timer_sleep_loop.simps) simp
    from Cons.IH [OF this] obtain m l where t: "\<not> halted (mach t)" "t = (cpu_idle D r s)\<lparr>mach := m, con_log := l\<rparr>" by blast
    obtain m' l' where c: "cpu_idle D r s = (on_mach (\<lambda>m. m\<lparr>kbd := (kbd m)\<lparr>int_flag := True\<rparr>\<rparr>) s)\<lparr>mach := m', con_log := l'\<rparr>"
      unfolding cpu_idle_def using isr_handler_frame by blast
    have "t = s\<lparr>mach := m, con_log := l\<rparr>" unfolding t(2) c by (simp add: on_mach_def)
    then show ?thesis using t(1) by blast
  next
    case False
    then have "\<not> halted (mach s)" "t = s" using Cons.prems by (subst (asm) timer_sleep_loop.simps, auto split: if_splits)+
    moreover have "s = s\<lparr>mach := mach s, con_log := con_log s\<rparr>" by simp
    ultimately show ?thesis by metis
  qed
qed

lemma ran_machI:
  assumes "ran s t" "u = t\<lparr>mach := m, con_log := l\<rparr>" "\<not> halted m"
  shows "ran s u"
proof -
  have "sys_inv t" using assms(1) by (simp add: ran_def)
  from ran_trans [OF assms(1) ran_mach [OF this assms(3)]] show ?thesis unfolding assms(2) .
qed

lemma cmd_time_ran:
  assumes "ran s t"
  shows "cmd_time D t = Inl Hang \<or> (\<exists>u. cmd_time D t = Inr u \<and> ran s u)"
proof (cases "rtc_get_time D (mach t)")
  case None
  then show ?thesis by (simp add: cmd_time_def)
next
  case (Some x)
  obtain dt m where x: "x = (dt, m)" by (cases x)
  have "\<not> halted m" using rtc_get_time_halted [OF Some [unfolded x]] assms by (simp add: ran_def)
  then have "ran s (t\<lparr>mach := m, con_log := con_log t\<rparr>)" by (intro ran_machI [OF assms refl])
  then show ?thesis using Some x ran_calls(1) [of s "t\<lparr>mach := m\<rparr>"] by (simp add: cmd_time_def)
qed

lemma cmd_sleep_ran:
  assumes "ran s t"
  shows "cmd_sleep D irqs t = Inl Hang \<or> (\<exists>irqs' u. cmd_sleep D irqs t = Inr (irqs', u) \<and> ran s u)"
proof -
  define t1 where "t1 = term_call (TermPrint (''Sleeping for 1 second...'' @ NL) 0x07) t"
  have r1: "ran s t1" unfolding t1_def by (rule ran_calls(2) [OF assms])
  show ?thesis
  proof (cases "timer_sleep D 1000 irqs t1")
    case None
    then show ?thesis by (simp only: cmd_sleep_def t1_def [symmetric] Let_def option.case) simp
  next
    case (Some x)
    obtain irqs' u where x: "x = (irqs', u)" by (cases x)
    obtain m l where u: "u = t1\<lparr>mach := m, con_log := l\<rparr>" "\<not> halted (mach u)"
      using timer_sleep_loop_frame Some x unfolding timer_sleep_def by blast
    have "ran s u" using u by (intro ran_machI [OF r1 u(1)]) simp
    then show ?thesis using Some x ran_calls(2) by (simp only: cmd_sleep_def t1_def [symmetric] Let_def option.case prod.case) blast
  qed
qed

lemma cmd_reboot_ran:
  assumes "ran s t"
  shows "cmd_reboot D irqs t = Inl Hang \<or> (\<exists>irqs' u. cmd_reboot D irqs t = Inr (irqs', u) \<and> ran s u)"
proof -
  define t1 where "t1 = term_call (TermPrint (''Rebooting...'' @ NL) 0x0C) t"
  have r1: "ran s t1" unfolding t1_def by (rule ran_calls(2) [OF assms])
  have e: "cmd_reboot D irqs t = (case reboot_wait D (mach t1) of None \<Rightarrow> Inl Hang
      | Some m \<Rightarrow>
          let s = t1\<lparr>mach := outb D 0x64 0xFE m\<rparr> in
          (case irqs of [] \<Rightarrow> Inl Hang
           | r # rs \<Rightarrow> let s = isr_handler D r s in if halted (mach s) then Inl Hang else Inr (rs, s)))"
    by (simp only: cmd_reboot_def t1_def [symmetric] Let_def)
  show ?thesis
  proof (cases "reboot_wait D (mach t1) = None \<or> irqs = []")
    case True
    then show ?thesis unfolding e by (auto split: option.split)
  next
    case False
    then obtain m r rs where m: "reboot_wait D (mach t1) = Some m" "irqs = r # rs" by (cases irqs) auto
    let ?t2 = "t1\<lparr>mach := outb D 0x64 0xFE m\<rparr>"
    have "\<not> halted (outb D 0x64 0xFE m)" using reboot_wait_halted [OF m(1)] r1 by (simp add: halted_ports ran_def)
    then have r2: "ran s ?t2" by (intro ran_machI [OF r1, where m = "outb D 0x64 0xFE m" and l = "con_log t1"]) simp_all
    obtain m' l' where i: "isr_handler D r ?t2 = ?t2\<lparr>mach := m', con_log := l'\<rparr>" using isr_handler_frame by blast
    have "\<not> halted (mach (isr_handler D r ?t2)) \<Longrightarrow> ran s (isr_handler D r ?t2)"
      by (rule ran_machI [OF r2 i]) (simp add: i)
    then show ?thesis unfolding e using m by (simp add: Let_def)
  qed
qed

lemma cmd_diskread_ran:
  assumes r: "ran s t"
  shows "\<exists>b u. cmd_diskread U B arg t = Inr (b, u) \<and> ran s u \<and> (case atoi arg of None \<Rightarrow> True | Some v \<Rightarrow> v < 0 \<longrightarrow> \<not> b)"
proof -
  define lba where "lba = (case atoi arg of None \<Rightarrow> undef_int U | Some v \<Rightarrow> v)"
  define t1 where "t1 = term_calls [TermPrint ''Reading Sector '' 0x07, TermPrintHex (word_of_int lba) 0x0E, TermPrint (''...'' @ NL) 0x07] t"
  have e: "cmd_diskread U B arg t = kbind (kmalloc 512 t1) (\<lambda>(buf, s).
        if buf = 0 then Inr (False, term_call (TermPrint (''Error: Out of Memory'' @ NL) 0x0C) s)
        else if lba < 0 then
          let s = term_call (TermPrint (''Error: LBA must be >= 0'' @ NL) 0x0C) s in kbind (kfree buf s) (\<lambda>s. Inr (False, s))
        else
          let (ret, data, a) = ata_read_sector B 0 (word_of_int lba) True (ata s);
              s = s\<lparr>ata := a, heap_mem := heap_store buf data (heap_mem s)\<rparr>;
              s = (if ret \<noteq> 0 then term_calls (rc_calls ''Disk Error (code: '' ret) s
                   else term_calls ([TermPrint (''Data (First 64 bytes):'' @ NL) 0x0B] @ hexdump_calls (heap_bytes (heap_mem s) buf 64) 64) s)
          in kbind (kfree buf s) (\<lambda>s. Inr (True, s)))"
    unfolding cmd_diskread_def Let_def lba_def [symmetric] t1_def [symmetric] ..
  have r1: "ran s t1" unfolding t1_def by (rule ran_calls(1) [OF r])
  then have i: "sys_inv t1" "\<not> halted (mach t1)" by (simp_all add: ran_def)
  then have b1: "borrows t1 {} t1" by (intro borrows_refl) (simp add: sys_inv_def)
  have fin: "ran s u" if "borrows t1 {} u" for u
    by (rule ran_trans [OF r1 ran_borrows [OF i(2,1) that]])
  have z: "(512 :: u32) \<noteq> 0" by simp
  have "\<exists>b u. cmd_diskread U B arg t = Inr (b, u) \<and> ran s u \<and> (lba < 0 \<longrightarrow> \<not> b)"
  proof (cases rule: borrows_new [OF b1 z, case_names none new])
    case none
    then show ?thesis unfolding e using ran_calls(2) [OF r1] by (auto intro: exI [of _ False])
  next
    case (new p k u)
    show ?thesis
    proof (cases "lba < 0")
      case True
      define u1 where "u1 = term_call (TermPrint (''Error: LBA must be >= 0'' @ NL) 0x0C) u"
      have "borrows t1 {(unat p, k)} u1" unfolding u1_def by (rule borrows_log(2) [OF new(5)])
      then obtain v where "kfree p u1 = Inr v" "borrows t1 ({(unat p, k)} - {(unat p, k)}) v" by (rule borrows_give) simp
      then show ?thesis unfolding e new(1) kbind_Inr prod.case if_not_P [OF new(2)] if_P [OF True] u1_def [symmetric] Let_def
        using fin by (simp, blast)
    next
      case False
      obtain ret data a where rd: "ata_read_sector B 0 (word_of_int lba) True (ata u) = (ret, data, a)"
        by (cases "ata_read_sector B 0 (word_of_int lba) True (ata u)")
      define u1 where "u1 = u\<lparr>ata := a, heap_mem := heap_store p data (heap_mem u)\<rparr>"
      define u2 where "u2 = (if ret \<noteq> 0 then term_calls (rc_calls ''Disk Error (code: '' ret) u1
        else term_calls ([TermPrint (''Data (First 64 bytes):'' @ NL) 0x0B] @ hexdump_calls (heap_bytes (heap_mem u1) p 64) 64) u1)"
      have k: "512 \<le> k" using new(3) by simp
      have "borrows t1 {(unat p, k)} u1" unfolding u1_def by (rule borrows_sector [OF new(5) _ k rd]) simp
      then have "borrows t1 {(unat p, k)} u2" by (simp add: u2_def borrows_log(1) del: append_Cons)
      then obtain v where "kfree p u2 = Inr v" "borrows t1 ({(unat p, k)} - {(unat p, k)}) v" by (rule borrows_give) simp
      then show ?thesis unfolding e new(1) kbind_Inr prod.case if_not_P [OF new(2)] if_not_P [OF False] rd Let_def u1_def [symmetric] u2_def [symmetric]
        using fin False by (simp, blast)
    qed
  qed
  then show ?thesis by (auto simp: lba_def split: option.split)
qed

text \<open>
  What a \<^verbatim>\<open>diskread\<close> that is refused prints: for want of memory, or because the number is negative.
\<close>

definition diskread_error :: "hblock list \<Rightarrow> string" where
  "diskread_error bs = (if first_fit 512 0xD0000000 bs = None then ''Error: Out of Memory'' else ''Error: LBA must be >= 0'')"

lemma cmd_diskread_refused:
  assumes r: "ran s t" and v: "atoi arg = Some v" and ref: "first_fit 512 0xD0000000 (heap_abs t) = None \<or> v < 0"
  shows "\<exists>u. cmd_diskread U B arg t = Inr (False, u) \<and> ran s u \<and> con_log u = con_log t @
    [TermPrint ''Reading Sector '' 0x07, TermPrintHex (word_of_int v) 0x0E, TermPrint (''...'' @ NL) 0x07,
     TermPrint (diskread_error (heap_abs t) @ NL) 0x0C]"
proof -
  define t1 where "t1 = term_calls [TermPrint ''Reading Sector '' 0x07, TermPrintHex (word_of_int v) 0x0E, TermPrint (''...'' @ NL) 0x07] t"
  have a: "heap_abs t1 = heap_abs t" by (rule heap_cong(3)) (simp_all add: t1_def term_calls_log)
  have l: "con_log t1 = con_log t @ [TermPrint ''Reading Sector '' 0x07, TermPrintHex (word_of_int v) 0x0E, TermPrint (''...'' @ NL) 0x07]"
    by (simp add: t1_def term_calls_log)
  have "ran s t1" unfolding t1_def by (rule ran_calls(1) [OF r])
  then have inv: "heap_inv t1" by (simp add: ran_def sys_inv_def vfs_inv_def disk_inv_def)
  obtain b u where u: "cmd_diskread U B arg t = Inr (b, u)" "ran s u" using cmd_diskread_ran [OF r] by blast
  obtain p s1 where k: "kmalloc 512 t1 = Inr (p, s1)" using kheap.alloc_result [OF inv, of 512] by blast
  have n: "0 < unat (512 :: u32)" "unat (512 :: u32) \<le> 1048556" "round4 (unat (512 :: u32)) = 512" by (simp_all add: round4_def)
  have p: "p = 0 \<longleftrightarrow> first_fit 512 0xD0000000 (heap_abs t) = None" using kmalloc_blocks [OF inv k n(1,2)] unfolding n(3) a by (simp split: if_splits)
  have c1: "con_log s1 = con_log t1" using arg_cong [OF kmalloc_frame [OF k], of con_log] by simp
  define m where "m = TermPrint (diskread_error (heap_abs t) @ NL) 0x0C"
  have "b = False \<and> con_log u = con_log s1 @ [m]"
  proof (cases "p = 0")
    case True
    then show ?thesis
      using u(1) k p unfolding cmd_diskread_def v t1_def [symmetric] Let_def option.case
      by (auto simp: m_def diskread_error_def term_call_def)
  next
    case False
    then have neg: "v < 0" using ref p by blast
    have ff: "first_fit 512 0xD0000000 (heap_abs t) \<noteq> None" using False p by blast
    have m: "m = TermPrint (''Error: LBA must be >= 0'' @ NL) 0x0C" unfolding m_def diskread_error_def if_not_P [OF ff] ..
    have "cmd_diskread U B arg t = kbind (kfree p (term_call m s1)) (\<lambda>s. Inr (False, s))"
      using False neg k unfolding cmd_diskread_def v t1_def [symmetric] Let_def option.case m by simp
    with u(1) have "b = False" "kfree p (term_call m s1) = Inr u" by (auto split: sum.splits simp: kbind_def)
    then show ?thesis using arg_cong [OF kfree_frame, of p "term_call m s1" u con_log] by (simp add: term_call_def)
  qed
  then show ?thesis using u c1 l by (auto simp: m_def)
qed

section \<open>Running a command\<close>

definition kernel_inv :: "('h, 'g, 'a) kernel_scheme \<Rightarrow> bool" where
  "kernel_inv s \<longleftrightarrow> sys_inv s \<and> garbage s = {} \<and> walk s 0xC0000000 = None \<and> editor_inv s \<and> \<not> halted (mach s)"

lemma prompt_inv:
  assumes "kernel_inv s" "ran s t"
  shows "kernel_inv (shell_prompt t)" "steady s (shell_prompt t)" "line_of (shell_prompt t) = []"
proof -
  let ?p = "shell_prompt t"
  have v: "file_view ?p = file_view t" "page_view ?p = page_view t" "pmm_test_pages ?p = pmm_test_pages t" "mach ?p = mach t"
    by (simp_all add: shell_prompt_def shell_reset_def file_view_def page_view_def frame_view_def term_call_def)
  note F = file_view_cong [OF v(1)] and P = page_view_cong [OF v(2)]
  have o: "g_open ?p = g_open t" "g_mounts ?p = g_mounts t" by (simp_all add: shell_prompt_def shell_reset_def term_call_def)
  have "garbage ?p = garbage t" using F by (intro garbage_same) simp_all
  then show st: "steady s ?p" using assms(2) F P o by (simp add: ran_def steady_def)
  have "editor_inv ?p" "line_of ?p = []" using editorI [of ?p "[]"] by (simp_all add: shell_prompt_def shell_reset_def)
  then show "line_of ?p = []" "kernel_inv ?p"
    using st assms sys_inv_cong [OF v(1-3)] v(4) by (simp_all add: kernel_inv_def ran_def steady_def)
qed

lemma ran_inv:
  assumes "kernel_inv s" "ran s t"
  shows "kernel_inv t" "line_of t = line_of s"
proof -
  have c: "cmd_buffer t = cmd_buffer s" "cmd_idx t = cmd_idx s" using assms(2) by (simp_all add: ran_def)
  then show l: "line_of t = line_of s" by (simp add: line_of_def)
  have "editor_inv t = editor_inv s" using c l by (simp add: editor_inv_def)
  then show "kernel_inv t" using assms by (simp add: kernel_inv_def ran_def steady_def)
qed

text \<open>How a command may end.\<close>

definition command_end :: "('h, 'g, 'a) kernel_scheme \<Rightarrow> string \<Rightarrow> ('h, 'g, 'a) shell_result \<Rightarrow> bool" where
  "command_end s cmd r \<longleftrightarrow>
     (case r of
        Inl e \<Rightarrow> e = Panic ''Page Fault'' \<and> cmd = ''crash'' \<or> e = Hang \<and> cmd \<in> {''time'', ''sleep'', ''reboot''}
      | Inr (irqs, t) \<Rightarrow> cmd \<noteq> ''crash'' \<and> kernel_inv t \<and> steady s t \<and>
          (line_of t = [] \<or> line_of t = cmd \<and> strncmp cmd ''diskread '' 9 = 0))"

lemma command_if:
  "(P \<Longrightarrow> command_end s c a) \<Longrightarrow> (\<not> P \<Longrightarrow> command_end s c b) \<Longrightarrow> command_end s c (if P then a else b)"
  by simp

lemma end_go:
  assumes "kernel_inv s" "ran s t" "cmd \<noteq> ''crash''"
  shows "command_end s cmd (kbind (Inr t) (\<lambda>s. Inr (irqs, shell_prompt s)))"
  using prompt_inv [OF assms(1,2)] assms(3) by (simp add: command_end_def)

lemma end_ran:
  assumes "kernel_inv s" "\<exists>t. r = Inr t \<and> ran s t" "cmd \<noteq> ''crash''"
  shows "command_end s cmd (kbind r (\<lambda>s. Inr (irqs, shell_prompt s)))"
  using end_go [OF assms(1) _ assms(3)] assms(2) by auto

lemma end_hang:
  assumes "kernel_inv s" "r = Inl Hang \<or> (\<exists>irqs t. r = Inr (irqs, t) \<and> ran s t)" "cmd \<in> {''time'', ''sleep'', ''reboot''}"
  shows "command_end s cmd (kbind r (\<lambda>(irqs, s). Inr (irqs, shell_prompt s)))"
proof -
  have "cmd \<noteq> ''crash''" using assms(3) by auto
  then show ?thesis using assms(2,3) prompt_inv [OF assms(1)] by (auto simp: command_end_def)
qed


lemma cmd_diagnose_ran:
  assumes "ran s t"
  shows "\<exists>u. selftest_run_all B t = Inr u \<and> ran s u"
proof -
  have i: "sys_inv t" "\<not> halted (mach t)" using assms by (simp_all add: ran_def)
  obtain u where "selftest_run_all B t = Inr u" "sys_inv u" "kept t u" using selftest_run_all_result [OF i(1)] by blast
  then show ?thesis using ran_trans [OF assms ran_kept [OF i(2)]] by blast
qed

lemma cmd_crash_panics: "walk t 0xC0000000 = None \<Longrightarrow> cmd_crash t = Inl (Panic ''Page Fault'')"
proof -
  assume w: "walk t 0xC0000000 = None"
  have "walk (term_call c t) = walk t" for c by (rule page_view_cong(2)) simp
  then show ?thesis using w by (simp add: cmd_crash_def)
qed

text \<open>The command that runs is the one whose name is the line.\<close>

lemma execute_command_line:
  assumes "editor_inv s"
  defines "s1 \<equiv> term_call (TermPrint NL 0x07) s"
  shows "execute_command U B D irqs s =
      (if line_of s = ''help'' then kbind (Inr (term_calls help_calls s1)) (\<lambda>s. Inr (irqs, shell_prompt s))
      else if line_of s = ''clear'' then kbind (Inr (term_call TermClear s1)) (\<lambda>s. Inr (irqs, shell_prompt s))
      else if line_of s = ''mem'' then kbind (Inr (term_calls (mem_calls s1) s1)) (\<lambda>s. Inr (irqs, shell_prompt s))
      else if line_of s = ''blkinfo'' then kbind (Inr (term_calls (blkinfo_calls s1) s1)) (\<lambda>s. Inr (irqs, shell_prompt s))
      else if line_of s = ''mounts'' then kbind (Inr (term_calls (mounts_calls s1) s1)) (\<lambda>s. Inr (irqs, shell_prompt s))
      else if line_of s = ''pyfs_sb'' then kbind (cmd_pyfs_sb U B s1) (\<lambda>s. Inr (irqs, shell_prompt s))
      else if line_of s = ''uptime'' then kbind (Inr (term_calls (uptime_calls (timer_get_ticks (mach s1))) s1)) (\<lambda>s. Inr (irqs, shell_prompt s))
      else if line_of s = ''time'' then kbind (cmd_time D s1) (\<lambda>s. Inr (irqs, shell_prompt s))
      else if line_of s = ''sleep'' then kbind (cmd_sleep D irqs s1) (\<lambda>(irqs, s). Inr (irqs, shell_prompt s))
      else if line_of s = ''reboot'' then kbind (cmd_reboot D irqs s1) (\<lambda>(irqs, s). Inr (irqs, shell_prompt s))
      else if line_of s = ''crash'' then kbind (cmd_crash s1) (\<lambda>s. Inr (irqs, shell_prompt s))
      else if line_of s = ''diagnose'' then kbind (selftest_run_all B s1) (\<lambda>s. Inr (irqs, shell_prompt s))
      else if strncmp (line_of s) ''diskread '' 9 = 0 then
        kbind (cmd_diskread U B (drop 9 (line_of s)) s1) (\<lambda>(prompt, s). Inr (irqs, if prompt then shell_prompt s else s))
      else if length (line_of s) > 0 then
        kbind (Inr (term_calls [TermPrint ''Unknown command: '' 0x0C, TermPrint (line_of s) 0x0C, TermPrint NL 0x0C] s1)) (\<lambda>s. Inr (irqs, shell_prompt s))
      else kbind (Inr s1) (\<lambda>s. Inr (irqs, shell_prompt s)))"
proof -
  let ?l = "line_of s"
  have cmd: "cmd_text s1 = line_of s" using editor_end(2) [OF assms(1)] by (simp add: s1_def cmd_text_def)
  have l: "cstring ?l" using assms(1) by (simp add: editor_inv_def cstring_def)
  have c: "strcmp ?l t = 0 \<longleftrightarrow> ?l = t" if "cstring t" for t using strcmp_eq_0 [OF l that] .
  have cs: "cstring ''help''" "cstring ''clear''" "cstring ''mem''" "cstring ''blkinfo''" "cstring ''mounts''" "cstring ''pyfs_sb''"
    "cstring ''uptime''" "cstring ''time''" "cstring ''sleep''" "cstring ''reboot''" "cstring ''crash''" "cstring ''diagnose''"
    by (simp_all add: cstring_def NUL_def)
  show ?thesis unfolding execute_command_def execute_more_def Let_def s1_def [symmetric] cmd cs [THEN c] ..
qed

lemma execute_command_end:
  assumes inv: "kernel_inv s"
  shows "command_end s (line_of s) (execute_command U B D irqs s)"
proof -
  define s1 where "s1 = term_call (TermPrint NL 0x07) s"
  have i: "sys_inv s" "\<not> halted (mach s)" "editor_inv s" "walk s 0xC0000000 = None" using inv by (simp_all add: kernel_inv_def)
  have r: "ran s s1" unfolding s1_def by (rule ran_calls(2) [OF ran_refl [OF i(1,2)]])
  let ?l = "line_of s"
  have pr: "command_end s ?l (kbind (Inr (term_calls cs s1)) (\<lambda>s. Inr (irqs, shell_prompt s)))" if "?l \<noteq> ''crash''" for cs
    by (rule end_go [OF inv ran_calls(1) [OF r] that])
  have go: "command_end s ?l (kbind r (\<lambda>s. Inr (irqs, shell_prompt s)))" if "\<exists>t. r = Inr t \<and> ran s t" "?l \<noteq> ''crash''" for r
    by (rule end_ran [OF inv that])
  have sys1: "sys_inv s1" "\<not> halted (mach s1)" using r by (simp_all add: ran_def)
  have time: "command_end s ''time'' (kbind (cmd_time D s1) (\<lambda>s. Inr (irqs, shell_prompt s)))"
    using cmd_time_ran [OF r, of D] prompt_inv [OF inv] by (auto simp: command_end_def)
  have disk: "command_end s ?l (kbind (cmd_diskread U B (drop 9 ?l) s1) (\<lambda>(prompt, s). Inr (irqs, if prompt then shell_prompt s else s)))"
    if "strncmp ?l ''diskread '' 9 = 0" "?l \<noteq> ''crash''"
  proof -
    obtain b u where u: "cmd_diskread U B (drop 9 ?l) s1 = Inr (b, u)" "ran s u" using cmd_diskread_ran [OF r] by blast
    then show ?thesis using that prompt_inv [OF inv u(2)] ran_inv [OF inv u(2)] u(2) by (simp add: command_end_def ran_def)
  qed
  have crash: "command_end s ''crash'' (kbind (cmd_crash s1) (\<lambda>s. Inr (irqs, shell_prompt s)))"
  proof -
    have "walk s1 = walk s" using r by (simp add: ran_def steady_def)
    then show ?thesis using cmd_crash_panics [of s1] i(4) by (simp add: command_end_def)
  qed
  have hang: "command_end s ''sleep'' (kbind (cmd_sleep D irqs s1) (\<lambda>(irqs, s). Inr (irqs, shell_prompt s)))"
    "command_end s ''reboot'' (kbind (cmd_reboot D irqs s1) (\<lambda>(irqs, s). Inr (irqs, shell_prompt s)))"
    using cmd_sleep_ran [OF r, of D irqs] cmd_reboot_ran [OF r, of D irqs] by (intro end_hang [OF inv]; simp)+
  have pyfs: "\<exists>t. cmd_pyfs_sb U B s1 = Inr t \<and> ran s t" using cmd_pyfs_sb_ran [OF sys1] ran_trans [OF r] by blast
  have clear: "\<exists>t. Inr (term_call TermClear s1) = Inr t \<and> ran s t" "\<exists>t. Inr s1 = Inr t \<and> ran s t" using ran_calls(2) [OF r] r by blast+
  show ?thesis unfolding execute_command_line [OF i(3)] s1_def [symmetric]
    apply (intro command_if)
    subgoal by (rule pr) simp
    subgoal by (rule go [OF clear(1)]) simp
    subgoal by (rule pr) simp
    subgoal by (rule pr) simp
    subgoal by (rule pr) simp
    subgoal by (rule go [OF pyfs]) simp
    subgoal by (rule pr) simp
    subgoal using time by simp
    subgoal using hang(1) by simp
    subgoal using hang(2) by simp
    subgoal using crash by simp
    subgoal by (rule go [OF cmd_diagnose_ran [OF r]]) simp
    subgoal by (rule disk)
    subgoal by (rule pr)
    subgoal by (rule go [OF clear(2)])
    done
qed

section \<open>Properties\<close>

text \<open>
  C38. The line editor is a string: whatever keys are typed before Enter, the command that Enter executes is
  the string that remains when every backspace erases the last character and characters beyond the 127th are
  ignored. The console shows exactly these changes: each character that is appended, in white, and one
  backspace for each character that is erased, and nothing for a key that changes nothing. Nothing but the
  line buffer and the console changes while typing.
\<close>

theorem shell_line_edited:
  assumes "editor_inv s" "CHR 0x0A \<notin> set ks"
  shows "\<exists>t b i. type_keys U B D ks irqs s = Inr (irqs, t) \<and>
    t = s\<lparr>cmd_buffer := b, cmd_idx := i, con_log := con_log s @ echoes ks (cmd_text s)\<rparr> \<and>
    shell_key U B D (CHR 0x0A) irqs t = execute_command U B D irqs t \<and>
    cmd_text t = fold edit ks (cmd_text s) \<and> length (cmd_text t) < CMD_BUF_SIZE"
proof -
  define l where "l = con_log s @ echoes ks (line_of s)"
  obtain b i where t: "type_keys U B D ks irqs s = Inr (irqs, s\<lparr>cmd_buffer := b, cmd_idx := i, con_log := l\<rparr>)"
    "editor_inv (s\<lparr>cmd_buffer := b, cmd_idx := i, con_log := l\<rparr>)"
    "line_of (s\<lparr>cmd_buffer := b, cmd_idx := i, con_log := l\<rparr>) = fold edit ks (line_of s)"
    using type_keys_edit [OF assms, of U B D irqs] unfolding l_def by blast
  let ?t = "s\<lparr>cmd_buffer := b, cmd_idx := i, con_log := l\<rparr>"
  have nz: "CHR 0x0A \<noteq> NUL" by code_simp
  have "shell_key U B D (CHR 0x0A) irqs ?t = execute_command U B D irqs ?t"
    unfolding shell_key_def if_not_P [OF nz] if_P [OF refl] editor_end(1) [OF t(2)] ..
  moreover have "cmd_text ?t = fold edit ks (cmd_text s)" using editor_end(2) [OF t(2)] editor_end(2) [OF assms(1)] t(3) by simp
  moreover have "length (cmd_text ?t) < CMD_BUF_SIZE" using editor_length(4) [OF t(2)] editor_end(2) [OF t(2)] by simp
  moreover have "l = con_log s @ echoes ks (cmd_text s)" by (simp add: l_def editor_end(2) [OF assms(1)])
  ultimately show ?thesis using t(1) by blast
qed

text \<open>A running kernel with a command line on its prompt.\<close>

definition sample_line :: "string \<Rightarrow> ((u16 \<times> u8) list \<times> u16 list, unit) kernel" where
  "sample_line l = sample_sys\<lparr>cmd_buffer := l @ replicate (128 - length l) NUL, cmd_idx := int (length l)\<rparr>"

lemma sample_line_inv:
  assumes "length l < 128" "cstring l"
  shows "kernel_inv (sample_line l)" "line_of (sample_line l) = l"
proof -
  let ?s = "sample_line l"
  have e: "editor_inv ?s" "line_of ?s = l" using editorI [of ?s l] assms by (simp_all add: sample_line_def cstring_def)
  have v: "file_view ?s = file_view sample_sys" "page_view ?s = page_view sample_sys" "pmm_test_pages ?s = pmm_test_pages sample_sys"
    by (simp_all add: sample_line_def file_view_def page_view_def frame_view_def)
  have f: "file_view ?s = file_view sample_vfs"
    by (simp add: sample_line_def sample_sys_def sample_kernel_def vfs_state.defs file_view_def)
  have "live sample_vfs = {(0xD0000014, 48), (0xD0000058, 12)}"
    using heap_cong [of sample_vfs sample_heap2] sample_heap2_inv(2)
    by (simp add: sample_vfs_def sample_disk2_def sample_disk_def heap_state.defs disk_state.defs sample_heap_def sample_heap2_inv(3))
  moreover have "owned sample_vfs = {0xD0000014, 0xD0000058}"
    using sample_vfs_inv(2,3) by (simp add: owned_def dev_owned_def registered_def sample_vfs_def sample_disk2_def disk_state.defs dev_addrs_def upt_rec)
  ultimately have "garbage sample_vfs = {}" by (simp add: garbage_def)
  then have "garbage ?s = {}" using file_view_cong [OF f] by (simp add: garbage_def)
  moreover have "walk ?s 0xC0000000 = None" using page_view_cong(2) [OF v(2)] sample_sys_inv(3) by (simp add: identity_4M_def)
  moreover have "\<not> halted (mach ?s)" by (simp add: sample_line_def sample_sys_def sample_kernel_def vfs_state.defs sample_machine0_def)
  ultimately show "kernel_inv ?s" "line_of ?s = l" using e sys_inv_cong [OF v] sample_sys_inv(1) by (simp_all add: kernel_inv_def)
qed

theorem shell_line_edited_witness:
  "\<exists>t. type_keys \<lparr>undef_int = 0, undef_bytes = []\<rparr> sample_bus sample_idle_bus [CHR 0x08, CHR ''m'', CHR ''e'', CHR ''x'', CHR 0x08, CHR ''m''] [] (sample_line []) = Inr ([], t) \<and>
    cmd_text t = ''mem'' \<and>
    con_log t = con_log (sample_line []) @ [TermPrint ''m'' 0x0F, TermPrint ''e'' 0x0F, TermPrint ''x'' 0x0F, TermPrint [CHR 0x08] 0x07, TermPrint ''m'' 0x0F]"
proof -
  have s: "editor_inv (sample_line [])" "cmd_text (sample_line []) = []"
    using sample_line_inv [of "[]"] editor_end(2) [of "sample_line []"] by (simp_all add: kernel_inv_def cstring_def)
  let ?ks = "[CHR 0x08, CHR ''m'', CHR ''e'', CHR ''x'', CHR 0x08, CHR ''m'']"
  have e: "fold edit ?ks [] = ''mem''"
    "echoes ?ks [] = [TermPrint ''m'' 0x0F, TermPrint ''e'' 0x0F, TermPrint ''x'' 0x0F, TermPrint [CHR 0x08] 0x07, TermPrint ''m'' 0x0F]"
    by (simp_all add: edit_def echo_def NUL_def)
  show ?thesis
    using shell_line_edited [OF s(1), of ?ks "\<lparr>undef_int = 0, undef_bytes = []\<rparr>" sample_bus sample_idle_bus "[]"]
    unfolding s(2) e by auto
qed

text \<open>
  No command breaks the kernel, whatever the disk, the clock and the interrupts do. The deliberate crash
  ends in a page fault; the commands that wait for the clock, for the timer or for a reset may wait forever;
  every other command returns. One that returns leaves the kernel consistent, with the same frames in use,
  the same devices, mounts and open files, and no heap object that nobody owns. The line is then empty again,
  except after a refused \<^verbatim>\<open>diskread\<close>.
\<close>

theorem shell_command_safe:
  assumes "kernel_inv s" "cmd = line_of s"
  shows "case execute_command U B D irqs s of
      Inl e \<Rightarrow> e = Panic ''Page Fault'' \<and> cmd = ''crash'' \<or> e = Hang \<and> cmd \<in> {''time'', ''sleep'', ''reboot''}
    | Inr (irqs', t) \<Rightarrow> cmd \<noteq> ''crash'' \<and> kernel_inv t \<and> steady s t \<and>
        (line_of t = [] \<or> line_of t = cmd \<and> strncmp cmd ''diskread '' 9 = 0)"
  using execute_command_end [OF assms(1), of U B D irqs] unfolding command_end_def assms(2) .

theorem shell_command_safe_witness:
  "(\<exists>irqs t. execute_command \<lparr>undef_int = 0, undef_bytes = []\<rparr> sample_bus sample_idle_bus [] (sample_line ''pyfs_sb'') = Inr (irqs, t) \<and>
      kernel_inv t \<and> line_of t = []) \<and>
   execute_command \<lparr>undef_int = 0, undef_bytes = []\<rparr> sample_bus sample_idle_bus [] (sample_line ''crash'') = Inl (Panic ''Page Fault'')"
proof -
  have c: "cstring ''pyfs_sb''" "cstring ''crash''" by (simp_all add: cstring_def NUL_def)
  have i1: "kernel_inv (sample_line ''pyfs_sb'')" and l1: "line_of (sample_line ''pyfs_sb'') = ''pyfs_sb''"
    by (rule sample_line_inv [OF _ c(1)]; simp)+
  have i2: "kernel_inv (sample_line ''crash'')" and l2: "line_of (sample_line ''crash'') = ''crash''"
    by (rule sample_line_inv [OF _ c(2)]; simp)+
  let ?U = "\<lparr>undef_int = 0, undef_bytes = []\<rparr>"
  have n: "strncmp ''pyfs_sb'' ''diskread '' 9 \<noteq> 0" by code_simp
  show ?thesis
    using shell_command_safe [OF i1 l1 [symmetric], of ?U sample_bus sample_idle_bus "[]"] n
      shell_command_safe [OF i2 l2 [symmetric], of ?U sample_bus sample_idle_bus "[]"]
    by (auto split: sum.splits)
qed

text \<open>
  C40. A \<^verbatim>\<open>diskread\<close> of a number that fits an \<^verbatim>\<open>int\<close> and that is refused, because no free block of the heap holds a sector or because the number
  is negative, returns early: the console shows the announcement and the error message and no prompt after
  them, and the old command stays in the line buffer. What is typed next is appended to it, so the next Enter
  executes the two lines joined. Frames, devices, mounts and open files are as before, and no heap object is
  left behind.
\<close>

theorem diskread_refused_keeps_line:
  assumes "kernel_inv s" "line_of s = ''diskread '' @ arg" "atoi arg = Some v"
    and "first_fit 512 0xD0000000 (heap_abs s) = None \<or> v < 0" "CHR 0x0A \<notin> set ks"
  shows "\<exists>t u. execute_command U B D irqs s = Inr (irqs, t) \<and> kernel_inv t \<and> steady s t \<and>
    con_log t = con_log s @ [TermPrint NL 0x07, TermPrint ''Reading Sector '' 0x07, TermPrintHex (word_of_int v) 0x0E,
      TermPrint (''...'' @ NL) 0x07,
      TermPrint ((if first_fit 512 0xD0000000 (heap_abs s) = None then ''Error: Out of Memory''
        else ''Error: LBA must be >= 0'') @ NL) 0x0C] \<and>
    line_of t = line_of s \<and>
    type_keys U B D ks irqs t = Inr (irqs, u) \<and> cmd_text u = fold edit ks (''diskread '' @ arg) \<and>
    con_log u = con_log t @ echoes ks (''diskread '' @ arg)"
proof -
  have i: "sys_inv s" "\<not> halted (mach s)" "editor_inv s" using assms(1) by (simp_all add: kernel_inv_def)
  define s1 where "s1 = term_call (TermPrint NL 0x07) s"
  have r: "ran s s1" unfolding s1_def by (rule ran_calls(2) [OF ran_refl [OF i(1,2)]])
  have a: "heap_abs s1 = heap_abs s" by (rule heap_cong(3)) (simp_all add: s1_def term_call_def)
  obtain t where t: "cmd_diskread U B arg s1 = Inr (False, t)" "ran s t" "con_log t = con_log s1 @
      [TermPrint ''Reading Sector '' 0x07, TermPrintHex (word_of_int v) 0x0E, TermPrint (''...'' @ NL) 0x07,
       TermPrint (diskread_error (heap_abs s1) @ NL) 0x0C]"
    using cmd_diskread_refused [OF r assms(3), of U B] assms(4) unfolding a by blast
  have c: "cstring (''diskread '' @ arg)" "cstring ''diskread ''"
    using i(3) assms(2) by (simp_all add: editor_inv_def cstring_def NUL_def)
  have len: "length ''diskread '' = 9" by simp
  have "strncmp (''diskread '' @ arg) ''diskread '' 9 = 0" using strncmp_prefix [OF c, unfolded len] by simp
  then have run: "execute_command U B D irqs s = Inr (irqs, t)"
    unfolding execute_command_line [OF i(3)] s1_def [symmetric] assms(2) using t(1) by simp
  note R = ran_inv [OF assms(1) t(2)]
  have e: "editor_inv t" using R(1) by (simp add: kernel_inv_def)
  define z where "z = con_log t @ echoes ks (line_of t)"
  obtain x y where u: "type_keys U B D ks irqs t = Inr (irqs, t\<lparr>cmd_buffer := x, cmd_idx := y, con_log := z\<rparr>)"
    "editor_inv (t\<lparr>cmd_buffer := x, cmd_idx := y, con_log := z\<rparr>)" "line_of (t\<lparr>cmd_buffer := x, cmd_idx := y, con_log := z\<rparr>) = fold edit ks (line_of t)"
    using type_keys_edit [OF e assms(5), of U B D irqs] unfolding z_def by blast
  have "cmd_text (t\<lparr>cmd_buffer := x, cmd_idx := y, con_log := z\<rparr>) = fold edit ks (''diskread '' @ arg)"
    using editor_end(2) [OF u(2)] u(3) R(2) assms(2) by simp
  moreover have "con_log s1 = con_log s @ [TermPrint NL 0x07]" by (simp add: s1_def term_call_def)
  moreover have "steady s t" using t(2) by (simp add: ran_def)
  ultimately show ?thesis
    using run R u(1) t(3) unfolding a diskread_error_def z_def assms(2)
    by (intro exI [of _ t] exI [of _ "t\<lparr>cmd_buffer := x, cmd_idx := y, con_log := con_log t @ echoes ks (line_of t)\<rparr>"]) (simp add: assms(2))
qed

theorem diskread_refused_keeps_line_witness:
  "\<exists>t u. execute_command \<lparr>undef_int = 0, undef_bytes = []\<rparr> sample_bus sample_idle_bus [] (sample_line ''diskread -1'') = Inr ([], t) \<and>
    con_log t = con_log (sample_line ''diskread -1'') @ [TermPrint NL 0x07, TermPrint ''Reading Sector '' 0x07, TermPrintHex 0xFFFFFFFF 0x0E,
      TermPrint (''...'' @ NL) 0x07, TermPrint (''Error: LBA must be >= 0'' @ NL) 0x0C] \<and>
    type_keys \<lparr>undef_int = 0, undef_bytes = []\<rparr> sample_bus sample_idle_bus ''mem'' [] t = Inr ([], u) \<and> cmd_text u = ''diskread -1mem''"
proof -
  have c: "cstring ''diskread -1''" by (simp add: cstring_def NUL_def)
  have i: "kernel_inv (sample_line ''diskread -1'')" and l: "line_of (sample_line ''diskread -1'') = ''diskread '' @ ''-1''"
    using sample_line_inv [OF _ c] by simp_all
  have a: "atoi ''-1'' = Some (-1)" by code_simp
  have e: "fold edit ''mem'' (''diskread '' @ ''-1'') = ''diskread -1mem''" by (simp add: edit_def NUL_def)
  have "heap_abs (sample_line ''diskread -1'') = heap_abs sample_heap2"
    by (rule heap_cong(3)) (simp_all add: sample_line_def sample_sys_def sample_kernel_def vfs_state.defs sample_vfs_def
      sample_disk2_def sample_disk_def heap_state.defs disk_state.defs sample_heap_def sample_heap2_inv(3))
  then have h: "first_fit 512 0xD0000000 (heap_abs (sample_line ''diskread -1'')) \<noteq> None" by (simp add: sample_heap2_inv(4))
  obtain t u where r: "execute_command \<lparr>undef_int = 0, undef_bytes = []\<rparr> sample_bus sample_idle_bus [] (sample_line ''diskread -1'') = Inr ([], t)"
    "con_log t = con_log (sample_line ''diskread -1'') @ [TermPrint NL 0x07, TermPrint ''Reading Sector '' 0x07,
      TermPrintHex (word_of_int (-1)) 0x0E, TermPrint (''...'' @ NL) 0x07, TermPrint (''Error: LBA must be >= 0'' @ NL) 0x0C]"
    "type_keys \<lparr>undef_int = 0, undef_bytes = []\<rparr> sample_bus sample_idle_bus ''mem'' [] t = Inr ([], u)" "cmd_text u = ''diskread -1mem''"
    using diskread_refused_keeps_line [OF i l a, of "''mem''" "\<lparr>undef_int = 0, undef_bytes = []\<rparr>" sample_bus sample_idle_bus "[]"]
    unfolding e if_not_P [OF h] by auto
  then show ?thesis by auto
qed

section \<open>The endless loop\<close>

lemma kernel_inv_views:
  assumes "file_view t = file_view s" "page_view t = page_view s" "pmm_test_pages t = pmm_test_pages s"
    "halted (mach t) = halted (mach s)" "kernel_inv s" "editor_inv t"
  shows "kernel_inv t" "steady s t"
proof -
  note F = file_view_cong [OF assms(1)] and P = page_view_cong [OF assms(2)]
  have g: "garbage t = garbage s" using F by (intro garbage_same) simp_all
  show "kernel_inv t" using assms(4-6) sys_inv_cong [OF assms(1-3)] P g by (simp add: kernel_inv_def)
  have "g_open t = g_open s" "g_mounts t = g_mounts s" using assms(1) by (simp_all add: file_view_def)
  then show "steady s t" using F P g by (simp add: steady_def)
qed

lemma shell_key_end:
  assumes inv: "kernel_inv s"
  shows "case shell_key U B D c irqs s of Inl e \<Rightarrow> e \<in> {Panic ''Page Fault'', Hang} | Inr (irqs', t) \<Rightarrow> kernel_inv t \<and> steady s t"
proof (cases "c = CHR 0x0A")
  case True
  have ed: "editor_inv s" using inv by (simp add: kernel_inv_def)
  have nz: "CHR 0x0A \<noteq> NUL" by code_simp
  have "shell_key U B D c irqs s = execute_command U B D irqs s"
    unfolding shell_key_def True if_not_P [OF nz] if_P [OF refl] editor_end(1) [OF ed] ..
  then show ?thesis using execute_command_end [OF inv, of U B D irqs] by (auto simp: command_end_def split: sum.splits)
next
  case False
  have ed: "editor_inv s" using inv by (simp add: kernel_inv_def)
  define l where "l = con_log s @ echo c (line_of s)"
  obtain b i where k: "shell_key U B D c irqs s = Inr (irqs, s\<lparr>cmd_buffer := b, cmd_idx := i, con_log := l\<rparr>)"
    "editor_inv (s\<lparr>cmd_buffer := b, cmd_idx := i, con_log := l\<rparr>)"
    using shell_key_edit [OF ed False, of U B D irqs] unfolding l_def by blast
  let ?t = "s\<lparr>cmd_buffer := b, cmd_idx := i, con_log := l\<rparr>"
  have "file_view ?t = file_view s" "page_view ?t = page_view s" "pmm_test_pages ?t = pmm_test_pages s" "halted (mach ?t) = halted (mach s)"
    by (simp_all add: file_view_def page_view_def frame_view_def)
  from kernel_inv_views [OF this inv k(2)] show ?thesis using k(1) by simp
qed

lemma shell_run_end:
  assumes "kernel_inv s"
  shows "case shell_run n U B D batches irqs s of Inl e \<Rightarrow> e \<in> {Panic ''Page Fault'', Hang} | Inr t \<Rightarrow> kernel_inv t \<and> steady s t"
  using assms
proof (induction n arbitrary: batches irqs s)
  case 0
  then show ?case by (simp add: steady_def)
next
  case (Suc n)
  show ?case
  proof (cases "keyboard_get_char batches (kbd (mach s))")
    case None
    then show ?thesis using Suc.prems by (simp add: steady_def)
  next
    case (Some x)
    obtain c bs k where x: "x = (c, bs, k)" by (cases x)
    let ?s = "on_mach (\<lambda>m. m\<lparr>kbd := k\<rparr>) s"
    have "editor_inv ?s" using Suc.prems by (simp add: kernel_inv_def editor_inv_def line_of_def)
    then have s: "kernel_inv ?s" "steady s ?s" using kernel_inv_views [of ?s s] Suc.prems by simp_all
    show ?thesis
    proof (cases "shell_key U B D c irqs ?s")
      case (Inl e)
      then show ?thesis using shell_key_end [OF s(1), of U B D c irqs] Some x by simp
    next
      case (Inr y)
      obtain irqs' t where y: "y = (irqs', t)" by (cases y)
      have t: "kernel_inv t" "steady ?s t" using shell_key_end [OF s(1), of U B D c irqs] Inr y by simp_all
      from Suc.IH [OF t(1), of bs irqs'] show ?thesis
        using Some x Inr y steady_trans [OF steady_trans [OF s(2) t(2)]] by (auto split: sum.splits)
    qed
  qed
qed

end
