(* ===== verification/Boot_Correct.thy ===== *)
theory Boot_Correct
  imports Shell_Correct
begin

text \<open>
  Bringing the kernel up: on a machine with enough memory every step of \<^verbatim>\<open>k_main\<close> succeeds, whatever disks
  are attached and whatever they answer, and the shell starts in a state that satisfies the invariant of the
  running kernel.
\<close>

section \<open>What the memory managers leave alone\<close>

text \<open>
  The fields that come after the heap in the state: devices, mounts, files, the small devices and the command
  line.
\<close>

abbreviation beyond :: "'a heap_state_scheme \<Rightarrow> 'a" where
  "beyond \<equiv> heap_state.more"

lemma keeps_then:
  "keeps w g' v m \<Longrightarrow> (\<And>x. w (g' x) = v \<Longrightarrow> keeps w g v (f x)) \<Longrightarrow> keeps w g v (kbind m f)"
  by (cases m) (simp_all add: keeps_def)

lemma kfold_keeps:
  assumes "\<And>i s. w s = v \<Longrightarrow> keeps w id v (f i s)"
  shows "w s = v \<Longrightarrow> keeps w id v (kfold f is s)"
proof (induction "is" arbitrary: s)
  case (Cons i "is")
  show ?case unfolding kfold.simps by (rule keeps_then [OF assms [OF Cons.prems] Cons.IH]) simp
qed simp

lemma bitmap_write_beyond [simp]:
  fixes s :: "'a heap_state_scheme"
  shows "beyond (bitmap_write i b s) = beyond s"
  by (simp add: bitmap_write_def)

lemma pmm_set_beyond:
  fixes s :: "'a heap_state_scheme"
  assumes "beyond s = v"
  shows "keeps beyond id v (pmm_set f s)" "keeps beyond id v (pmm_unset f s)"
  using assms by (simp_all add: pmm_set_def pmm_unset_def pmm_panic_u32_def Let_def)

lemma pmm_mark_beyond:
  fixes s :: "'a heap_state_scheme"
  assumes "beyond s = v"
  shows "keeps beyond id v (pmm_mark_region_used b l s)" "keeps beyond id v (pmm_mark_region_free b l s)"
  using assms by (auto simp: pmm_mark_region_used_def pmm_mark_region_free_def intro!: kfold_keeps [where w = beyond] pmm_set_beyond)

lemma pmm_init_beyond:
  fixes s :: "'a heap_state_scheme"
  assumes "beyond s = v"
  shows "keeps beyond id v (pmm_init p s)"
proof -
  have r: "beyond (pmm_reset h s) = v" for h using assms by (simp add: pmm_reset_def Let_def)
  have e: "keeps beyond id v (pmm_free_entry m i s)" if "beyond s = v" for m i and s :: "'a heap_state_scheme"
    using that by (simp add: pmm_free_entry_def Let_def pmm_mark_beyond)
  show ?thesis unfolding pmm_init_def Let_def
    by (intro keeps_then [where g' = id] kfold_keeps [where w = beyond] e r pmm_mark_beyond) simp_all
qed

lemma pmm_first_free_beyond:
  fixes s :: "'a heap_state_scheme"
  shows "beyond (snd (pmm_first_free s)) = beyond s" "beyond (snd (pmm_first_free_low k s)) = beyond s"
  by (simp_all add: pmm_first_free_def pmm_first_free_low_def split_beta Let_def)

lemma pmm_alloc_beyond:
  fixes s :: "'a heap_state_scheme"
  assumes "beyond s = v"
  shows "keeps beyond snd v (pmm_alloc_page s)" "keeps beyond snd v (pmm_alloc_page_low m s)"
  unfolding pmm_alloc_page_def pmm_alloc_page_low_def Let_def split_beta
  by (auto simp: pmm_first_free_beyond assms intro!: keeps_then [where g' = id] pmm_set_beyond)

lemma vmm_map_beyond:
  fixes s :: "'a heap_state_scheme"
  assumes "beyond s = v"
  shows "keeps beyond snd v (vmm_get_page_table a c s)" "keeps beyond id v (vmm_map a p s)"
proof -
  show g: "keeps beyond snd v (vmm_get_page_table a c s)" for c
    unfolding vmm_get_page_table_def Let_def
    by (auto simp: set_entry_def assms intro!: keeps_then [where g' = snd] pmm_alloc_beyond)
  show "keeps beyond id v (vmm_map a p s)"
    unfolding vmm_map_def Let_def
    by (auto simp: set_entry_def invlpg_def intro!: keeps_then [where g' = snd] g)
qed

lemma vmm_init_beyond:
  fixes s :: "'a heap_state_scheme"
  assumes "beyond s = v"
  shows "keeps beyond id v (vmm_init s)"
  unfolding vmm_init_def Let_def
  by (auto simp: set_entry_def term_call_def assms intro!: keeps_then [where g' = snd] pmm_alloc_beyond)

lemma heap_init_beyond:
  fixes s :: "'a heap_state_scheme"
  assumes "beyond s = v"
  shows "keeps beyond id v (heap_init s)"
proof -
  have m: "keeps beyond id v (heap_map_page a s)" if "beyond s = v" for a and s :: "'a heap_state_scheme"
    using that unfolding heap_map_page_def vmm_alloc_page_def
    by (auto intro!: keeps_then [where g' = snd] keeps_then [where g' = id] pmm_alloc_beyond vmm_map_beyond)
  show ?thesis unfolding heap_init_def Let_def
    by (intro keeps_then [where g' = id] kfold_keeps [where w = beyond] m assms) simp_all
qed

section \<open>Frames after the start\<close>

text \<open>
  The memory the boot loader reports suffices: the manager has less than 4 GiB to look after, and beside
  the locked frames there is room for the page directory, two page tables and the pages of the heap.
\<close>

definition boot_memory :: "mem \<Rightarrow> bool" where
  "boot_memory m \<longleftrightarrow> boot_ok m \<and> pmm_frames m \<le> 1048576 \<and> 259 \<le> card (usable_frames m - locked_frames m) \<and>
     4 \<le> card ({..<1024} \<inter> (usable_frames m - locked_frames m))"

lemma usable_frames_less: "usable_frames m \<subseteq> {..<pmm_frames m}"
  using touched_less by (fastforce simp: usable_frames_def)

lemma boot_memory_frames: "boot_memory m \<Longrightarrow> 259 \<le> pmm_frames m"
  using card_mono [of "{..<pmm_frames m}" "usable_frames m - locked_frames m"] subset_trans [OF Diff_subset usable_frames_less]
  by (fastforce simp: boot_memory_def)

lemma bitmap_frames:
  assumes "pmm_frames m = n" "259 \<le> n" "n \<le> 1048576" "k < (n + 7) div 8"
  shows "32 + k div 4096 \<in> locked_frames m"
proof -
  let ?len = "of_nat ((n + 7) div 8) :: u64"
  have l: "unat ?len = (n + 7) div 8" using assms(3) by (simp add: unat_of_nat)
  have "32 + k div 4096 < n" using assms(2-4) by linarith
  moreover have "131072 < (32 + k div 4096 + 1) * 4096" "(32 + k div 4096) * 4096 < 131072 + (n + 7) div 8"
    using assms(4) div_mult_mod_eq [of k 4096] unfolding add_mult_distrib by (simp_all del: div_mult_mod_eq)
  ultimately have "32 + k div 4096 \<in> touched 0x20000 ?len n"
    using assms(2,3) by (subst touched_iff) (simp_all add: l)
  then show ?thesis by (simp add: locked_frames_def Let_def assms(1))
qed

lemma boot_frames:
  assumes "boot_memory (phys s)"
  shows "\<exists>t. pmm_init 0x5000 s = Inr t \<and> pmm_ready t \<and> bitmap_reserved t \<and> total_blocks t = pmm_frames (phys s) \<and>
    free_frames t = usable_frames (phys s) - locked_frames (phys s)"
proof -
  let ?m = "phys s"
  define n where "n = pmm_frames ?m"
  have n: "259 \<le> n" "n \<le> 1048576" "pmm_frames ?m = n" and ok: "boot_ok ?m"
    using assms boot_memory_frames [OF assms] by (simp_all add: boot_memory_def n_def)
  obtain t where t: "pmm_init 0x5000 s = Inr t" "pmm_inv t" "total_blocks t = n"
    "used_set t = ({..<n} - usable_frames ?m) \<union> locked_frames ?m"
    using pmm_init_cases [OF ok] n(3) by auto
  have "0 \<in> touched 0 0x1000 n" using n(1) by (subst touched_iff) simp_all
  then have z: "0 \<in> used_set t" by (simp add: t(4) locked_frames_def Let_def n(3))
  have bs: "bitmap_size t = (n + 7) div 8" using t(2,3) by (simp add: pmm_inv_def)
  have "page_frame a \<in> used_set t" if "in_bitmap t a" for a
  proof -
    let ?k = "unat (a - PMM_BITMAP_BASE)"
    have k: "?k < (n + 7) div 8" using that bs by (simp add: in_bitmap_def)
    then have "?k < 200000" using n(2) by linarith
    then have "unat a = 131072 + ?k" by (auto simp: unat_sub_if_size word_size split: if_splits)
    then have "page_frame a = 32 + ?k div 4096" unfolding page_frame_def by linarith
    with bitmap_frames [OF n(3,1,2) k] t(4) show ?thesis by simp
  qed
  then have "bitmap_reserved t" by (simp add: bitmap_reserved_def)
  moreover have "free_frames t = usable_frames ?m - locked_frames ?m"
    using usable_frames_less [of ?m] by (auto simp: free_frames_def t(3,4) n(3))
  ultimately show ?thesis using t n z by (auto simp: pmm_ready_def)
qed

section \<open>Core and hardware\<close>

text \<open>
  The data segment as the linker lays it out: the two static disks, tables of their declared lengths, and a
  driver that knows of no drive. Every name is a C string. The processor runs.
\<close>

definition cold :: "('h, 'g, 'a) kernel_scheme \<Rightarrow> bool" where
  "cold s \<longleftrightarrow> ata_inv (ata s) \<and> (\<forall>d. cstring (bd_name (dev_at s d))) \<and> dev_at s G_disk0 = g_disk0 \<and> dev_at s G_disk1 = g_disk1 \<and>
     length (g_devices s) = BLOCK_MAX_DEVICES \<and> length (g_mounts s) = VFS_MAX_MOUNTS \<and> length (g_open s) = VFS_MAX_OPEN_FILES \<and>
     length (pmm_test_pages s) = 256 \<and> \<not> halted (mach s)"

lemma beyond_fields:
  fixes s t :: "('h, 'g, 'a) kernel_scheme"
  assumes "beyond t = beyond s"
  shows "ata t = ata s" "dev_at t = dev_at s" "g_devices t = g_devices s" "g_mounts t = g_mounts s" "g_open t = g_open s"
    "pmm_test_pages t = pmm_test_pages s" "mach t = mach s"
  using assms by (cases s; cases t; simp)+

lemma cold_beyond:
  fixes s t :: "('h, 'g, 'a) kernel_scheme"
  assumes "beyond t = beyond s"
  shows "cold t = cold s"
  using beyond_fields [OF assms] by (simp add: cold_def)

lemma cold_keeps: "keeps beyond id (beyond s) m \<Longrightarrow> m = Inr t \<Longrightarrow> cold t = cold s" for s :: "('h, 'g, 'a) kernel_scheme"
  by (rule cold_beyond) (simp add: keeps_def)

lemma ata_keeps: "keeps beyond id (beyond s) m \<Longrightarrow> m = Inr t \<Longrightarrow> ata t = ata s" for s :: "('h, 'g, 'a) kernel_scheme"
  by (rule beyond_fields) (simp add: keeps_def)

lemma term_call_cold [simp]: "cold (term_call c s) = cold s" "cold (term_calls cs s) = cold s"
  by (rule cold_beyond; simp add: term_call_def term_calls_log)+

lemma on_mach_cold: "halted (f (mach s)) = halted (mach s) \<Longrightarrow> cold (on_mach f s) = cold s"
  by (simp add: cold_def on_mach_def)

lemma inb_halted [simp]: "halted (snd (inb D p m)) = halted m"
  using halted_ports(2) [of D p m] by (cases "inb D p m") simp

lemma devices_halted [simp]:
  "halted (pic_remap D m) = halted m" "halted (timer_init D m) = halted m" "halted (pic_disable D m) = halted m"
  "halted (pic_clear_mask D i m) = halted m"
  by (simp_all add: pic_remap_def timer_init_def pic_disable_def pic_clear_mask_def io_wait_def halted_ports(1) Let_def split_beta)

lemma idt_init_views [simp]:
  "page_view (idt_init a f g s) = page_view s" "cold (idt_init a f g s) = cold s" "ata (idt_init a f g s) = ata s"
proof -
  have h: "halted (fold (\<lambda>i. idt_set_gate (k i) (x i) y z) is m) = halted m" for k x y z "is" and m :: "'g machine"
    by (induction "is" arbitrary: m) (simp_all add: idt_set_gate_def)
  show "page_view (idt_init a f g s) = page_view s" by (simp add: idt_init_def Let_def)
  show "ata (idt_init a f g s) = ata s" by (simp add: idt_init_def Let_def on_mach_def term_call_def)
  show "cold (idt_init a f g s) = cold s" unfolding idt_init_def Let_def term_call_cold
    by (rule on_mach_cold) (simp add: idt_load_def h)
qed

text \<open>With the core up, the heap is empty and below 4 MiB every address stands for itself.\<close>

definition core_up :: "('h, 'g, 'a) kernel_scheme \<Rightarrow> bool" where
  "core_up s \<longleftrightarrow> vmm_inv s \<and> heap_inv s \<and> heap_abs s = [(1048556, True)] \<and> live s = {} \<and> cold s \<and> (\<forall>va. unat va < 0x400000 \<longrightarrow> walk s va = Some va) \<and>
     walk s 0xC0000000 = None"

lemma heap_pages_walk:
  assumes "walk s = identity_4M" "\<forall>va. page_frame va < 0xD0000 \<or> 0xD0100 \<le> page_frame va \<longrightarrow> walk t va = walk s va"
  shows "\<forall>va. unat va < 0x400000 \<longrightarrow> walk t va = Some va" "walk t 0xC0000000 = None"
proof -
  have "page_frame va < 0xD0000" if "unat va < 0x400000" for va using that unfolding page_frame_def by linarith
  then show "\<forall>va. unat va < 0x400000 \<longrightarrow> walk t va = Some va" using assms by (simp add: identity_4M_def)
  show "walk t 0xC0000000 = None" using assms(1) assms(2) [rule_format, of "0xC0000000"] by (simp add: identity_4M_def page_frame_def)
qed

lemma low_frames: "{..<min 1024 (total_blocks s)} - used_set s = {..<1024} \<inter> free_frames s"
  by (auto simp: free_frames_def)

lemma boot_core_result:
  fixes s :: "('h, 'g, 'a) kernel_scheme"
  assumes "cold s" "boot_memory (phys s)"
  shows "\<exists>t. boot_core L D s = Inr t \<and> core_up t \<and> ata t = ata s"
proof -
  define s0 where "s0 = term_calls [TermClear, TermPrint (''PyramidOS Kernel v0.8 - Storage Test'' @ NL) COLOR_GREEN,
    TermPrint (''------------------------------------'' @ NL) COLOR_WHITE] s"
  have p0: "phys s0 = phys s" "cold s0" "ata s0 = ata s" using assms(1) by (simp add: s0_def term_calls_log, simp add: s0_def, simp add: s0_def term_calls_log)
  define F where "F = usable_frames (phys s) - locked_frames (phys s)"
  obtain s1 where s1: "pmm_init 0x5000 s0 = Inr s1" "pmm_ready s1" "bitmap_reserved s1" "free_frames s1 = F"
    using boot_frames [of s0] assms(2) by (auto simp: p0(1) F_def)
  have c1: "cold s1" "ata s1 = ata s"
    using cold_keeps [OF pmm_init_beyond [OF refl] s1(1)] ata_keeps [OF pmm_init_beyond [OF refl] s1(1)] p0(2,3) by simp_all
  define s2 where "s2 = on_mach (pic_remap D) (idt_init (idt_addr L) (isr_stub L) (irq_stub L) s1)"
  have v2: "page_view s2 = page_view s1" and c2: "cold s2" "ata s2 = ata s"
    using c1 by (simp_all add: s2_def on_mach_cold) (simp add: on_mach_def)
  note P2 = page_view_cong [OF v2]
  have r2: "pmm_ready s2" "bitmap_reserved s2" using s1 P2(3,6) by simp_all
  let ?low = "{..<min 1024 (total_blocks s2)} - used_set s2"
  have low: "?low = {..<1024} \<inter> F" unfolding low_frames P2(7) s1(4) ..
  have F: "259 \<le> card F" "4 \<le> card ({..<1024} \<inter> F)" "finite F"
    using assms(2) free_frames_finite [of s1] s1(4) by (simp_all add: boot_memory_def F_def)
  obtain s3 f g where s3: "vmm_init s2 = Inr s3" "vmm_inv s3" "walk s3 = identity_4M" "total_blocks s3 = total_blocks s2"
    "used_set s3 = used_set s2 \<union> {f, g}" 
    using vmm_init_spec [OF r2 refl, unfolded low] F(2) by auto
  have c3: "cold s3" "ata s3 = ata s"
    using cold_keeps [OF vmm_init_beyond [OF refl] s3(1)] ata_keeps [OF vmm_init_beyond [OF refl] s3(1)] c2 by simp_all
  define s4 where "s4 = say ''Initializing Heap...'' (on_mach (\<lambda>m. m\<lparr>kbd := keyboard_init (kbd m)\<rparr>) (say ''Initializing Keyboard...''
    (on_mach (timer_init D) (say ''Initializing PIT Timer...'' s3))))"
  have v4: "page_view s4 = page_view s3" and c4: "cold s4" "ata s4 = ata s"
    using c3 by (simp_all add: s4_def say_def on_mach_cold) (simp add: on_mach_def term_call_def)
  note P4 = page_view_cong [OF v4]
  have "free_frames s3 = free_frames s2 - {f, g}" unfolding free_frames_def s3(4,5) by blast
  then have f4: "free_frames s4 = F - {f, g}" "{..<min 1024 (total_blocks s4)} - used_set s4 = {..<1024} \<inter> F - {f, g}"
    unfolding low_frames P4(7) P2(7) s1(4) by blast+
  have two: "card {f, g} \<le> 2" by (simp add: card_insert_if)
  have "257 \<le> card (free_frames s4)" "2 \<le> card ({..<min 1024 (total_blocks s4)} - used_set s4)"
    using f4 F two diff_card_le_card_Diff [of "{f, g}" F] diff_card_le_card_Diff [of "{f, g}" "{..<1024} \<inter> F"] by simp_all
  then obtain t where t: "heap_init s4 = Inr t" "heap_inv t" "heap_abs t = [(1048556, True)]" "vmm_inv t"
    "\<forall>va. page_frame va < 0xD0000 \<or> 0xD0100 \<le> page_frame va \<longrightarrow> walk t va = walk s4 va"
    using heap_init_spec [of s4] P4(1) s3(2) by auto
  have "cold t" "ata t = ata s"
    using cold_keeps [OF heap_init_beyond [OF refl] t(1)] ata_keeps [OF heap_init_beyond [OF refl] t(1)] c4 by simp_all
  moreover have "live t = {}" using t(3) by (simp add: live_def)
  moreover have "boot_core L D s = Inr t"
    unfolding boot_core_def Let_def s0_def [symmetric] s1(1) kbind_Inr s2_def [symmetric] s3(1) s4_def [symmetric] t(1) ..
  ultimately show ?thesis
    using t(2-4) heap_pages_walk [OF _ t(5)] P4(2) s3(3) by (simp add: core_up_def)
qed

section \<open>Disks and partitions\<close>

text \<open>What the block layer leaves alone: frames and page tables, and all that comes after the devices.\<close>

definition disk_view :: "('h, 'a) disk_state_scheme \<Rightarrow> _" where
  "disk_view s = (page_view s, disk_state.more s)"

lemma disk_view_update [simp]:
  "disk_view (s\<lparr>heap_mem := m\<rparr>) = disk_view s" "disk_view (s\<lparr>ata := a\<rparr>) = disk_view s" "disk_view (s\<lparr>dev_at := d\<rparr>) = disk_view s"
  "disk_view (s\<lparr>part_at := p\<rparr>) = disk_view s" "disk_view (s\<lparr>g_devices := g\<rparr>) = disk_view s" "disk_view (s\<lparr>g_device_count := n\<rparr>) = disk_view s"
  by (simp_all add: disk_view_def page_view_def frame_view_def)

lemma disk_view_kernel:
  fixes s t :: "('h, 'g, 'a) kernel_scheme"
  assumes "disk_view t = disk_view s"
  shows "page_view t = page_view s" "g_mounts t = g_mounts s" "g_open t = g_open s" "pmm_test_pages t = pmm_test_pages s" "mach t = mach s"
  using assms by (cases s; cases t; simp add: disk_view_def)+

lemma keeps_at: "keeps w g (w s) m \<Longrightarrow> w s = v \<Longrightarrow> keeps w g v m"
  by simp

lemmas kmalloc_disk = keeps_at [OF kmalloc_keeps_view [where w = disk_view, OF disk_view_update(1)]]
lemmas kfree_disk = keeps_at [OF kfree_keeps_view [where w = disk_view, OF disk_view_update(1)]]

lemma block_init_disk: "disk_view (block_init s) = disk_view s" "start_header (block_init s) = start_header s" "heap_mem (block_init s) = heap_mem s"
    "ata (block_init s) = ata s" "dev_at (block_init s) = dev_at s"
proof -
  have "\<exists>g. fold (\<lambda>i s. s\<lparr>g_devices := (g_devices s)[i := Null_dev]\<rparr>) is s = s\<lparr>g_devices := g\<rparr>" for "is" and s :: "('h, 'a) disk_state_scheme"
  proof (induction "is" arbitrary: s)
    case Nil
    show ?case by (intro exI [of _ "g_devices s"]) simp
  next
    case (Cons i "is")
    from Cons [of "s\<lparr>g_devices := (g_devices s)[i := Null_dev]\<rparr>"] show ?case by auto
  qed
  from this [of "[0..<BLOCK_MAX_DEVICES]" s] obtain g where "block_init s = s\<lparr>g_devices := g, g_device_count := 0\<rparr>"
    by (auto simp: block_init_def)
  then show "disk_view (block_init s) = disk_view s" "start_header (block_init s) = start_header s" "heap_mem (block_init s) = heap_mem s"
    "ata (block_init s) = ata s" "dev_at (block_init s) = dev_at s" by simp_all
qed

lemma block_register_disk:
  "disk_view (snd (block_register d s)) = disk_view s" "start_header (snd (block_register d s)) = start_header s"
  "heap_mem (snd (block_register d s)) = heap_mem s"
  by (simp_all add: block_register_def)

lemma ata_block_register_disk:
  "disk_view (snd (ata_block_register_devices B s)) = disk_view s" "start_header (snd (ata_block_register_devices B s)) = start_header s"
  "heap_mem (snd (ata_block_register_devices B s)) = heap_mem s"
  by (simp_all add: ata_block_register_devices_def Let_def split_beta block_register_disk set_disk0_ctx_def)

lemma mbr_entries_disk: "disk_view s = v \<Longrightarrow> keeps disk_view snd v (mbr_entries disk name mbr is s)"
proof (induction "is" arbitrary: s)
  case (Cons i "is")
  have "keeps disk_view snd v (mbr_add_partition disk name i start n s)" for start n
    unfolding mbr_add_partition_def mbr_free_both_def Let_def split_beta
    by (intro keeps_then [where g' = snd] kmalloc_disk Cons.prems)
      (auto simp: block_register_disk intro!: keeps_then [where g' = snd] keeps_then [where g' = id] kmalloc_disk kfree_disk)
  then have "keeps disk_view snd v (mbr_entry disk name mbr i s)"
    using Cons.prems by (simp add: mbr_entry_def Let_def)
  then show ?case unfolding mbr_entries.simps by (rule keeps_then) (auto simp: Cons.IH split_beta split: option.split)
qed simp

lemma lookup_registered:
  assumes "reg_inv s" "cstring n" "block_get_by_name (Some n) s \<noteq> Null_dev"
  shows "block_get_by_name (Some n) s \<in> set (registered s)"
proof -
  have "dev_lookup n s = Some (block_get_by_name (Some n) s)" using assms(3) by (simp add: dev_lookup_def split: dptr.split)
  then show ?thesis using breg.lookup_iff [OF assms(1,2)] by blast
qed

text \<open>Every object on the heap belongs to a device.\<close>

definition all_dev_owned :: "('h, 'a) disk_state_scheme \<Rightarrow> bool" where
  "all_dev_owned s \<longleftrightarrow> fst ` live s \<subseteq> unat ` dev_owned s"

lemma dev_read_same:
  assumes "s' = s\<lparr>ata := ata s'\<rparr>"
  shows "disk_view s' = disk_view s" "live s' = live s" "dev_owned s' = dev_owned s"
proof -
  obtain a where a: "s' = s\<lparr>ata := a\<rparr>" using assms by blast
  show "disk_view s' = disk_view s" by (simp add: a)
  show "live s' = live s" by (rule heap_cong) (simp_all add: a)
  show "dev_owned s' = dev_owned s" by (simp add: a dev_owned_def dev_addrs_cong [OF dev_view_ata] registered_def)
qed

lemma scan_all_owned:
  assumes "scan_result disk name mbr is s rc t" "all_dev_owned s"
  shows "all_dev_owned t"
proof -
  obtain ds where ds: "registered t = registered s @ ds" "fst ` (live t - live s) \<subseteq> unat ` (\<Union>d \<in> set ds. dev_addrs t d)"
    and v: "\<And>d. d \<in> set (registered s) \<Longrightarrow> dev_view t d = dev_view s d" and l: "live s \<subseteq> live t"
    using assms(1) unfolding scan_result_def by blast
  have o: "dev_owned t = dev_owned s \<union> (\<Union>d \<in> set ds. dev_addrs t d)"
    using dev_addrs_cong [OF v] by (simp add: dev_owned_def ds(1))
  have "live t = live s \<union> (live t - live s)" using l by blast
  then have "fst ` live t = fst ` live s \<union> fst ` (live t - live s)" by (metis image_Un)
  then show ?thesis using assms(2) ds(2) by (auto simp: all_dev_owned_def o image_Un)
qed

text \<open>Devices are added after those that were there, which keep their names.\<close>

definition more_devices :: "('h, 'a) disk_state_scheme \<Rightarrow> ('h, 'a) disk_state_scheme \<Rightarrow> bool" where
  "more_devices s t \<longleftrightarrow> (\<exists>ds. registered t = registered s @ ds) \<and> (\<forall>d \<in> set (registered s). dev_name t d = dev_name s d)"

definition found :: "string \<Rightarrow> ('h, 'a) disk_state_scheme \<Rightarrow> dptr option" where
  "found n s = find (\<lambda>d. dev_name s d = n) (registered s)"

lemma find_append: "find P (xs @ ys) = (case find P xs of None \<Rightarrow> find P ys | Some x \<Rightarrow> Some x)"
  by (induction xs) simp_all

lemma found_more:
  assumes "more_devices s t" "found n s = Some d"
  shows "found n t = Some d"
proof -
  obtain ds where ds: "registered t = registered s @ ds" and n: "\<And>d. d \<in> set (registered s) \<Longrightarrow> dev_name t d = dev_name s d"
    using assms(1) by (auto simp: more_devices_def)
  have "find (\<lambda>d. dev_name t d = n) (registered s) = Some d"
    using assms(2) n unfolding found_def by (subst find_cong [where ys = "registered s" and Q = "\<lambda>d. dev_name s d = n"]) simp_all
  then show ?thesis by (simp add: found_def ds find_append)
qed

lemma get_found:
  assumes "reg_inv s" "cstring n"
  shows "block_get_by_name (Some n) s = (case found n s of None \<Rightarrow> Null_dev | Some d \<Rightarrow> d)"
proof -
  have "block_get_by_name (Some n) s = (case dev_lookup n s of None \<Rightarrow> Null_dev | Some d \<Rightarrow> d)"
    by (simp add: dev_lookup_def split: dptr.split)
  then show ?thesis using dev_lookup_find [OF assms] by (simp add: found_def)
qed

lemma mbr_scan_boot:
  fixes s :: "('h, 'a) disk_state_scheme"
  assumes "disk_inv s" "disk \<in> set (registered s)" "cstring name" "name \<noteq> []" "all_dev_owned s"
  shows "\<exists>rc t. mbr_scan_and_register B disk (Some name) s = Inr (rc, t) \<and> disk_inv t \<and> disk_view t = disk_view s \<and> all_dev_owned t \<and>
    more_devices s t \<and> (sectors_512 s \<longrightarrow> sectors_512 t)"
proof -
  obtain rc t where t: "mbr_scan_and_register B disk (Some name) s = Inr (rc, t)" "disk_inv t"
    and r: "if bd_sector_size (dev_at s disk) \<noteq> 512 then rc = MBR_ERR_NOT_SUPPORTED \<and> t = s
     else (\<exists>brc mbr s1. dev_read B disk 0 True s = Some (brc, mbr, s1) \<and>
       (if brc \<noteq> BLOCK_SUCCESS then rc = MBR_ERR_IO \<and> t = s1
        else if mbr ! 510 \<noteq> 0x55 \<or> mbr ! 511 \<noteq> 0xAA then rc = MBR_ERR_BAD_SIGNATURE \<and> t = s1
        else scan_result disk name mbr [0..<4] s1 rc t) \<and> registered s1 = registered s \<and> live s1 = live s)"
    using mbr_scan_result [OF assms(1-4), of B] by blast
  have u: "disk \<noteq> Null_dev" "bd_read (dev_at s disk) \<noteq> No_read"
    using assms(1,2) by (auto simp: disk_inv_def reg_inv_def usable_def)
  show ?thesis
  proof (cases "bd_sector_size (dev_at s disk) = 512")
    case True
    then obtain brc mbr s1 where s1: "dev_read B disk 0 True s = Some (brc, mbr, s1)" and
      c: "if brc \<noteq> BLOCK_SUCCESS then rc = MBR_ERR_IO \<and> t = s1
        else if mbr ! 510 \<noteq> 0x55 \<or> mbr ! 511 \<noteq> 0xAA then rc = MBR_ERR_BAD_SIGNATURE \<and> t = s1
        else scan_result disk name mbr [0..<4] s1 rc t" using r by auto
    note S = dev_read_same [OF dev_read_inv(2) [OF assms(1,2) s1]]
    obtain a where a: "s1 = s\<lparr>ata := a\<rparr>" using dev_read_inv(2) [OF assms(1,2) s1] by blast
    have m: "registered s1 = registered s" "dev_name s1 = dev_name s" by (simp_all add: a registered_def dev_name_def fun_eq_iff)
    have o: "all_dev_owned s1" using assms(5) S by (simp add: all_dev_owned_def)
    show ?thesis
    proof (cases "t = s1")
      case False
      then have x: "brc = BLOCK_SUCCESS" "mbr ! 510 = 0x55" "mbr ! 511 = 0xAA" "scan_result disk name mbr [0..<4] s1 rc t"
        using c by (auto split: if_splits)
      have e: "mbr_entries disk name mbr [0..<4] s1 = Inr (rc, t)"
        using t(1) u True assms(4) s1 x by (simp add: mbr_scan_and_register_def)
      have "disk_view t = disk_view s" using keepsD [OF mbr_entries_disk [OF S(1)] e] by simp
      moreover have "more_devices s t" using x(4) m by (auto simp: scan_result_def more_devices_def dev_view_def dev_name_def fun_eq_iff)
      moreover have "sectors_512 s1 = sectors_512 s" by (simp add: sectors_512_def registered_def a)
      then have "sectors_512 s \<longrightarrow> sectors_512 t" using scan_sectors [OF x(4)] assms(2) m(1) by simp
      ultimately show ?thesis using t scan_all_owned [OF x(4) o] by blast
    next
      case True
      moreover have "more_devices s s1" using m by (simp add: more_devices_def)
      moreover have "sectors_512 s1 = sectors_512 s" by (simp add: sectors_512_def registered_def a)
      ultimately show ?thesis using t S(1) o by blast
    qed
  next
    case False
    then show ?thesis using r t assms(5) by (auto simp: more_devices_def)
  qed
qed


lemma console_disk:
  fixes s :: "('h, 'g, 'a) kernel_scheme"
  shows "disk_inv (s\<lparr>con_log := l\<rparr>) = disk_inv s" "live (s\<lparr>con_log := l\<rparr>) = live s" "registered (s\<lparr>con_log := l\<rparr>) = registered s"
    "disk_view (s\<lparr>con_log := l\<rparr>) = disk_view s" "all_dev_owned (s\<lparr>con_log := l\<rparr>) = all_dev_owned s"
proof -
  show c: "disk_inv (s\<lparr>con_log := l\<rparr>) = disk_inv s" "live (s\<lparr>con_log := l\<rparr>) = live s" "registered (s\<lparr>con_log := l\<rparr>) = registered s"
    by (rule disk_inv_cong; simp)+
  show "disk_view (s\<lparr>con_log := l\<rparr>) = disk_view s" by (simp add: disk_view_def page_view_def frame_view_def)
  show "all_dev_owned (s\<lparr>con_log := l\<rparr>) = all_dev_owned s"
    by (simp add: all_dev_owned_def dev_owned_def dev_addrs_def c(2,3) cong: dptr.case_cong)
qed

lemmas console_defs = say_def warn_rc_def term_call_def term_calls_log

lemma block_init_boot:
  assumes "cold s" "heap_inv s"
  shows "disk_inv (block_init s)" "registered (block_init s) = []" "live (block_init s) = live s"
proof -
  let ?s = "block_init s"
  have h: "heap_inv ?s = heap_inv s" "live ?s = live s" by (rule heap_cong; simp add: block_init_disk)+
  have r: "reg_inv ?s" "registered ?s = []" using assms(1) by (auto intro!: block_init_inv simp: cold_def dev_name_def)
  then show "disk_inv ?s" "registered ?s = []" "live ?s = live s"
    using h assms by (simp_all add: disk_inv_def block_init_disk cold_def)
qed

text \<open>A drive answers when the controller is probed.\<close>

definition drive_found :: "'h bus \<Rightarrow> 'h ata_state \<Rightarrow> bool" where
  "drive_found B a \<longleftrightarrow> ata_is_present ATA_DRIVE_MASTER (ata_init B a) \<or> ata_is_present ATA_DRIVE_SLAVE (ata_init B a)"

text \<open>The device of the drive that becomes \<^verbatim>\<open>disk0\<close>: the master, or a slave on its own.\<close>

definition boot_disk :: "'h bus \<Rightarrow> 'h ata_state \<Rightarrow> block_device" where
  "boot_disk B a = g_disk0\<lparr>bd_ctx := if ata_is_present ATA_DRIVE_MASTER (ata_init B a) then 0 else 1\<rparr>"

lemma found_console [simp]: "found n (s\<lparr>con_log := l\<rparr>) = found n s" for s :: "('h, 'g, 'a) kernel_scheme"
  by (simp add: found_def dev_name_def registered_def)

lemma ata_register_found:
  assumes "disk_inv s" "registered s = []" "dev_at s G_disk0 = g_disk0" "dev_at s G_disk1 = g_disk1"
  shows "\<exists>rc t. ata_block_register_devices B s = (rc, t) \<and> disk_inv t \<and> ata t = ata_init B (ata s) \<and> sectors_512 t \<and>
    dev_name t ` set (registered t) \<subseteq> {''disk0'', ''disk1''} \<and> length (registered t) \<le> 2 \<and>
    found ''disk0'' t = (if drive_found B (ata s) then Some G_disk0 else None) \<and>
    (drive_found B (ata s) \<longrightarrow> dev_at t G_disk0 = boot_disk B (ata s))"
proof -
  obtain rc t where t: "ata_block_register_devices B s = (rc, t)" "disk_inv t" "ata t = ata_init B (ata s)"
    and q: "sectors_512 t"
    and r: "map (dev_name t) (registered t) = (if ata_is_present 0 (ata t) \<and> ata_is_present 1 (ata t) then [''disk0'', ''disk1'']
        else if ata_is_present 0 (ata t) \<or> ata_is_present 1 (ata t) then [''disk0''] else [])"
      "ata_is_present 0 (ata t) \<or> ata_is_present 1 (ata t) \<longrightarrow> block_get_by_name (Some ''disk0'') t = G_disk0 \<and>
        dev_at t G_disk0 = g_disk0\<lparr>bd_ctx := if ata_is_present 0 (ata t) then 0 else 1\<rparr>"
    using ata_block_devices_named [OF assms, of B] unfolding Let_def by blast
  note ns = r(1) [unfolded t(3)] and d = r(2) [unfolded t(3)]
  have n: "drive_found B (ata s) \<Longrightarrow> block_get_by_name (Some ''disk0'') t = G_disk0 \<and> dev_at t G_disk0 = boot_disk B (ata s)"
    using d by (simp add: drive_found_def boot_disk_def)
  have ns': "\<not> drive_found B (ata s) \<Longrightarrow> registered t = []" using ns by (simp add: drive_found_def)
  have "cstring ''disk0''" by (simp add: NUL_def)
  then have "block_get_by_name (Some ''disk0'') t = (case found ''disk0'' t of None \<Rightarrow> Null_dev | Some d \<Rightarrow> d)"
    using t(2) by (intro get_found) (simp_all add: disk_inv_def)
  then have "found ''disk0'' t = (if drive_found B (ata s) then Some G_disk0 else None)"
    using n ns' by (cases "drive_found B (ata s)") (auto simp: found_def split: option.splits)
  moreover have "dev_name t ` set (registered t) \<subseteq> {''disk0'', ''disk1''}" "length (registered t) \<le> 2"
    using arg_cong [OF ns, of set] arg_cong [OF ns, of length] by (auto split: if_splits)
  ultimately show ?thesis using t n q by blast
qed

text \<open>What runs before the partition table is read: the disks are registered, and the heap is as it was.\<close>

lemma boot_disks_scan:
  fixes s :: "('h, 'g, 'a) kernel_scheme"
  assumes "cold s" "heap_inv s" "live s = {}"
  obtains t d where "boot_disks B s = (if d \<noteq> Null_dev then kbind (mbr_scan_and_register B d (Some ''disk0'') t) (\<lambda>(rc, s).
      Inr (if rc \<noteq> 0 then warn_rc ''WARN: MBR scan failed (rc='' rc s else s))
    else Inr (say ''WARN: disk0 not present; skipping MBR scan'' t))"
    "disk_inv t" "all_dev_owned t" "disk_view t = disk_view s" "heap_abs t = heap_abs s" "ata t = ata_init B (ata s)"
    "found ''disk0'' t = (if drive_found B (ata s) then Some G_disk0 else None)" "d = (if drive_found B (ata s) then G_disk0 else Null_dev)"
    "drive_found B (ata s) \<longrightarrow> dev_at t G_disk0 = boot_disk B (ata s)"
    "dev_name t ` set (registered t) \<subseteq> {''disk0'', ''disk1''}" "length (registered t) \<le> 2" "sectors_512 t"
proof -
  define s1 where "s1 = say ''Registering ATA Block Devices...'' (block_init (say ''Initializing Block Layer...'' s))"
  let ?s0 = "say ''Initializing Block Layer...'' s"
  have h0: "heap_inv ?s0" using assms(2) heap_cong [of ?s0 s] by (simp add: console_defs)
  have c0: "cold ?s0" using assms(1) by (simp add: say_def)
  note I = block_init_boot [OF c0 h0]
  have s1: "disk_inv s1" "registered s1 = []" "live s1 = {}" "disk_view s1 = disk_view s" "dev_at s1 = dev_at s" "ata s1 = ata s"
    "start_header s1 = start_header s" "heap_mem s1 = heap_mem s"
    using I assms(3) by (simp_all add: s1_def console_defs console_disk block_init_disk)
  obtain rc s2 where s2: "ata_block_register_devices B s1 = (rc, s2)" "disk_inv s2" "ata s2 = ata_init B (ata s)"
    "dev_name s2 ` set (registered s2) \<subseteq> {''disk0'', ''disk1''}" "length (registered s2) \<le> 2"
    "found ''disk0'' s2 = (if drive_found B (ata s) then Some G_disk0 else None)"
    "drive_found B (ata s) \<longrightarrow> dev_at s2 G_disk0 = boot_disk B (ata s)" "sectors_512 s2"
    using ata_register_found [OF s1(1,2), of B] s1(5,6) assms(1) by (auto simp: cold_def)
  note D2 = ata_block_register_disk [of B s1, unfolded s2(1) snd_conv]
  have l2: "live s2 = {}" using D2 heap_cong [of s2 s1] s1(3) by simp
  define s3 where "s3 = say ''Scanning MBR Partitions...'' (if rc \<noteq> BLOCK_SUCCESS then warn_rc ''WARN: ATA block registration failed (rc='' rc s2 else s2)"
  have s3: "disk_inv s3" "all_dev_owned s3" "disk_view s3 = disk_view s" "found ''disk0'' s3 = found ''disk0'' s2" "ata s3 = ata s2"
    "dev_at s3 = dev_at s2" "registered s3 = registered s2" "start_header s3 = start_header s" "heap_mem s3 = heap_mem s"
    using s2(2) l2 D2 s1 by (simp_all add: s3_def console_defs console_disk all_dev_owned_def)
  define d where "d = block_get_by_name (Some ''disk0'') s3"
  have run: "boot_disks B s = (if d \<noteq> Null_dev then kbind (mbr_scan_and_register B d (Some ''disk0'') s3) (\<lambda>(rc, s).
      Inr (if rc \<noteq> 0 then warn_rc ''WARN: MBR scan failed (rc='' rc s else s))
    else Inr (say ''WARN: disk0 not present; skipping MBR scan'' s3))"
    unfolding boot_disks_def Let_def s1_def [symmetric] s2(1) prod.case s3_def [symmetric] d_def ..
  have c: "cstring ''disk0''" by (simp add: NUL_def)
  have "d = (case found ''disk0'' s3 of None \<Rightarrow> Null_dev | Some d \<Rightarrow> d)" unfolding d_def
    using s3(1) by (intro get_found [OF _ c]) (simp add: disk_inv_def)
  then have d: "d = (if drive_found B (ata s) then G_disk0 else Null_dev)" using s2(6) s3(4) by simp
  show thesis using s2 s3 by (intro that [OF run s3(1-3) _ _ _ d]) (simp_all add: heap_abs_def dev_name_def sectors_512_def)
qed

lemma boot_disks_result:
  fixes s :: "('h, 'g, 'a) kernel_scheme"
  assumes "cold s" "heap_inv s" "live s = {}"
  shows "\<exists>t. boot_disks B s = Inr t \<and> disk_inv t \<and> all_dev_owned t \<and> disk_view t = disk_view s \<and>
    found ''disk0'' t = (if drive_found B (ata s) then Some G_disk0 else None) \<and> sectors_512 t"
proof (rule boot_disks_scan [OF assms, of B])
  fix s3 d
  assume run: "boot_disks B s = (if d \<noteq> Null_dev then kbind (mbr_scan_and_register B d (Some ''disk0'') s3) (\<lambda>(rc, s).
      Inr (if rc \<noteq> 0 then warn_rc ''WARN: MBR scan failed (rc='' rc s else s))
    else Inr (say ''WARN: disk0 not present; skipping MBR scan'' s3))"
    and s3: "disk_inv s3" "all_dev_owned s3" "disk_view s3 = disk_view s"
      "found ''disk0'' s3 = (if drive_found B (ata s) then Some G_disk0 else None)"
    and q: "sectors_512 s3" and d: "d = (if drive_found B (ata s) then G_disk0 else Null_dev)"
  have con: "sectors_512 (u\<lparr>con_log := l\<rparr>) = sectors_512 u" for u :: "('h, 'g, 'a) kernel_scheme" and l
    by (simp add: sectors_512_def console_disk)
  show ?thesis
  proof (cases "d = Null_dev")
    case True
    then show ?thesis using s3 q d by (auto simp: run console_defs console_disk con split: if_splits)
  next
    case False
    then have f: "found ''disk0'' s3 = Some d" using s3(4) d by (auto split: if_splits)
    have "d \<in> set (registered s3)" using f by (auto simp: found_def find_Some_iff)
    then obtain mrc t where t: "mbr_scan_and_register B d (Some ''disk0'') s3 = Inr (mrc, t)" "disk_inv t"
      "disk_view t = disk_view s3" "all_dev_owned t" "more_devices s3 t" "sectors_512 s3 \<longrightarrow> sectors_512 t"
      using mbr_scan_boot [OF s3(1) _ _ _ s3(2), of d "''disk0''" B] by (auto simp: NUL_def)
    show ?thesis unfolding run if_P [OF False] t(1) kbind_Inr prod.case
      using t(2-4) s3(3) t(6) q found_more [OF t(5) f] d False by (auto simp: console_defs console_disk con split: if_splits)
  qed
qed

section \<open>The PyFS volume\<close>

lemma vfs_inv_pyfs_at:
  assumes "vfs_inv s" "p \<notin> owned s"
  shows "vfs_inv (s\<lparr>pyfs_at := (pyfs_at s)(p := x)\<rparr>)" "owned (s\<lparr>pyfs_at := (pyfs_at s)(p := x)\<rparr>) = owned s"
    "live (s\<lparr>pyfs_at := (pyfs_at s)(p := x)\<rparr>) = live s" "registered (s\<lparr>pyfs_at := (pyfs_at s)(p := x)\<rparr>) = registered s"
proof -
  let ?t = "s\<lparr>pyfs_at := (pyfs_at s)(p := x)\<rparr>"
  have c: "disk_inv ?t = disk_inv s" "live ?t = live s" "registered ?t = registered s" "\<And>d. dev_addrs ?t d = dev_addrs s d"
    using disk_inv_cong [of ?t s] by simp_all
  then have "same_files s ?t" using assms(2) by (auto simp: same_files_def owned_def)
  then show "vfs_inv ?t" "owned ?t = owned s"
    using vfs_inv_same [OF assms(1), of ?t] c assms(1) by (auto simp: vfs_inv_def object_at_def)
  show "live ?t = live s" "registered ?t = registered s" by (rule c)+
qed

text \<open>Probing changes the hardware and the superblock kept in the context, at most.\<close>

lemma pyfs_probe_result:
  assumes inv: "vfs_inv s" and fs: "fs \<notin> owned s" "fs \<noteq> 0" and d: "px_dev (pyfs_at s fs) \<in> set (registered s)"
  shows "\<exists>rc t. pyfs_probe B fs s = Inr (rc, t) \<and> vfs_inv t \<and> owned t = owned s \<and> live t = live s \<and>
    px_dev (pyfs_at t fs) = px_dev (pyfs_at s fs) \<and> base_view t = base_view s \<and> g_open t = g_open s"
proof -
  let ?d = "px_dev (pyfs_at s fs)"
  have disk: "disk_inv s" using inv by (simp add: vfs_inv_def)
  have u: "?d \<noteq> Null_dev" "bd_read (dev_at s ?d) \<noteq> No_read" using d disk by (auto simp: disk_inv_def reg_inv_def usable_def)
  obtain rc data a where r: "dev_read B ?d 0 True s = Some (rc, data, s\<lparr>ata := a\<rparr>)"
    using read_registered [OF disk d, of B] unfolding read_returns_def by blast
  let ?t = "s\<lparr>ata := a\<rparr>"
  note V = vfs_inv_ata [OF inv dev_read_inv(1) [OF disk d r]]
  have l: "live ?t = live s" by (rule heap_cong) simp_all
  have "fs \<notin> owned ?t" using fs(1) V(2) by simp
  note P = vfs_inv_pyfs_at [OF V(1) this]
  let ?sb = "superblock_of data"
  have "pyfs_probe B fs s = (if rc \<noteq> BLOCK_SUCCESS then Inr (PYFS_ERR_IO, ?t)
      else if sb_magic ?sb = PYFS_MAGIC \<and> sb_version ?sb = 1 \<and> sb_block_size ?sb = PYFS_BLOCK_SIZE
      then Inr (0, ?t\<lparr>pyfs_at := (pyfs_at ?t)(fs := (pyfs_at ?t fs)\<lparr>px_sb := ?sb\<rparr>)\<rparr>) else Inr (PYFS_ERR_BAD_SUPERBLOCK, ?t))"
    using r u fs(2) by (simp add: pyfs_probe_def pyfs_read_superblock_def Let_def)
  then show ?thesis using V P l by simp
qed

lemma pyfs_create_result:
  assumes inv: "vfs_inv s" and d: "d \<in> set (registered s)"
  obtains (failed) rc t where "pyfs_create B d True s = Inr (rc, None, t)" "rc \<noteq> 0" "vfs_inv t" "live t = live s" "owned t = owned s"
      "base_view t = base_view s" "g_open t = g_open s"
  | (created) c k t where "pyfs_create B d True s = Inr (0, Some c, t)" "vfs_inv t" "pyfs_mount_ok t c" "c \<notin> owned t" "owned t = owned s"
      "live t = insert (unat c, k) (live s)" "base_view t = base_view s" "g_open t = g_open s" "20 \<le> k"
proof -
  have ne: "d \<noteq> Null_dev" using inv d by (auto simp: vfs_inv_def disk_inv_def reg_inv_def usable_def)
  have z: "(20 :: u32) \<noteq> 0" by simp
  from inv z show thesis
  proof (cases rule: vfs_kmalloc)
    case none
    then show thesis using ne inv by (intro failed [of PYFS_ERR_NO_SPACE s]) (simp_all add: pyfs_create_def)
  next
    case (new c k m)
    let ?x = "\<lparr>px_dev = d, px_sb = \<lparr>sb_magic = 0, sb_version = 0, sb_block_size = 0, sb_reserved0 = 0\<rparr>\<rparr>"
    define s1 where "s1 = s\<lparr>heap_mem := m\<rparr>"
    define s2 where "s2 = s1\<lparr>pyfs_at := (pyfs_at s1)(c := ?x)\<rparr>"
    have c1: "c \<notin> owned s1" "registered s1 = registered s" using new(7,8) reg_cong(2) [of s1 s] by (simp_all add: s1_def)
    note P = vfs_inv_pyfs_at [OF new(3) [folded s1_def] c1(1), of ?x, folded s2_def]
    have c2: "c \<notin> owned s2" "px_dev (pyfs_at s2 c) \<in> set (registered s2)" using P c1 d by (simp_all add: s2_def)
    obtain rc t where t: "pyfs_probe B c s2 = Inr (rc, t)" "vfs_inv t" "owned t = owned s2" "live t = live s2"
      "px_dev (pyfs_at t c) = d" "base_view t = base_view s2" "g_open t = g_open s2"
      using pyfs_probe_result [OF P(1) c2(1) new(2) c2(2), of B] by (auto simp: s2_def)
    have l: "live t = insert (unat c, k) (live s)" "owned t = owned s" using t(3,4) P(2,3) new(5,8) by (simp_all add: s1_def)
    have v: "base_view t = base_view s" "g_open t = g_open s" using t(6,7) by (simp_all add: s2_def s1_def)
    have r: "registered t = registered s" using v(1) by (simp add: base_view_def registered_def)
    have run: "pyfs_create B d True s = (if rc \<noteq> 0 then kbind (kfree c t) (\<lambda>s. Inr (rc, None, s)) else Inr (0, Some c, t))"
      using ne new(1,2) t(1) by (simp add: pyfs_create_def s2_def s1_def)
    have o: "object_at t c 20" using l(1) new(4) by (auto simp: object_at_def)
    have c3: "c \<notin> owned t" using l(2) new(7) by simp
    show thesis
    proof (cases "rc = 0")
      case True
      then show thesis using run t(2,5) l v o d r new(4,7) by (intro created [of c t k]) (simp_all add: pyfs_mount_ok_def)
    next
      case False
      obtain j m' where f: "kfree c t = Inr (t\<lparr>heap_mem := m'\<rparr>)" "vfs_inv (t\<lparr>heap_mem := m'\<rparr>)" "(unat c, j) \<in> live t"
        "live (t\<lparr>heap_mem := m'\<rparr>) = live t - {(unat c, j)}" "owned (t\<lparr>heap_mem := m'\<rparr>) = owned t"
        using vfs_kfree [OF t(2) o] c3 by metis
      have h: "heap_inv t" using t(2) by (simp add: vfs_inv_def disk_inv_def)
      have "j = k" using live_fst_unique [OF h, of "unat c" k j] f(3) l(1) by auto
      then have "live (t\<lparr>heap_mem := m'\<rparr>) = live s" using f(4) l(1) new(6) by auto
      then show thesis using False run f(1,2,5) l(2) v by (intro failed [of rc "t\<lparr>heap_mem := m'\<rparr>"]) simp_all
    qed
  qed
qed


text \<open>Reads do not depend on the heap or on the contexts of file systems.\<close>

definition put_fs :: "mem \<Rightarrow> (u32 \<Rightarrow> pyfs_ctx) \<Rightarrow> ('h, 'a) vfs_state_scheme \<Rightarrow> ('h, 'a) vfs_state_scheme" where
  "put_fs m p s = s\<lparr>heap_mem := m, pyfs_at := p\<rparr>"

lemma put_fs_simps [simp]: "dev_at (put_fs m p s) = dev_at s" "part_at (put_fs m p s) = part_at s" "ata (put_fs m p s) = ata s"
  by (simp_all add: put_fs_def)

lemma dev_read_put_fs:
  fixes s :: "('h, 'a) vfs_state_scheme"
  shows "dev_chain s before ds \<Longrightarrow> (\<And>e l b. e \<in> set before \<Longrightarrow>
      dev_read B e l b (put_fs m p s) = map_option (apsnd (apsnd (put_fs m p))) (dev_read B e l b s)) \<Longrightarrow> d \<in> set ds \<Longrightarrow>
    dev_read B d lba buffer (put_fs m p s) = map_option (apsnd (apsnd (put_fs m p))) (dev_read B d lba buffer s)"
proof (induction ds arbitrary: before d lba buffer)
  case (Cons e ds)
  have e: "dev_read B e l b (put_fs m p s) = map_option (apsnd (apsnd (put_fs m p))) (dev_read B e l b s)" for l b
  proof (cases "bd_read (dev_at s e)")
    case Ata_block_read
    have "ata_block_read B e l b (put_fs m p s) = apsnd (apsnd (put_fs m p)) (ata_block_read B e l b s)"
      by (simp add: ata_block_read_def Let_def split_beta) (simp add: put_fs_def)
    then show ?thesis using Ata_block_read by (simp add: dev_read.simps)
  next
    case Mbr_partition_read
    have t: "mbr_partition_target e l b (put_fs m p s) = mbr_partition_target e l b s" by (simp add: mbr_partition_target_def)
    show ?thesis
    proof (cases "mbr_partition_target e l b s")
      case None
      then show ?thesis using Mbr_partition_read t by (simp add: dev_read.simps [of B e])
    next
      case (Some x)
      then have "fst x = parent (part_at s (bd_ctx (dev_at s e)))"
        by (auto simp: mbr_partition_target_def Let_def split: if_splits)
      moreover have "parent (part_at s (bd_ctx (dev_at s e))) \<in> set before"
        using Cons.prems(1) Mbr_partition_read by (auto simp: dev_links_def split: dptr.splits)
      ultimately show ?thesis using Some Mbr_partition_read t Cons.prems(2) by (simp add: dev_read.simps [of B e] split_beta)
    qed
  qed (use Cons.prems(1) in \<open>auto simp: dev_links_def split: dptr.splits\<close>)
  show ?case
  proof (cases "d = e")
    case False
    then have ds: "d \<in> set ds" "dev_chain s (before @ [e]) ds" using Cons.prems(1,3) by simp_all
    have f: "dev_read B f l b (put_fs m p s) = map_option (apsnd (apsnd (put_fs m p))) (dev_read B f l b s)"
      if "f \<in> set (before @ [e])" for f l b
    proof (cases "f = e")
      case False
      with that have "f \<in> set before" by simp
      then show ?thesis by (rule Cons.prems(2))
    qed (simp only: e)
    show ?thesis by (rule Cons.IH [OF ds(2) f ds(1)])
  qed (use e in simp)
qed simp

lemma pyfs_create_run:
  fixes s :: "('h, 'a) vfs_state_scheme"
  assumes inv: "vfs_inv s" and d: "d \<in> set (registered s)" and r: "dev_read B d 0 True s = Some (brc, data, u)"
    and k: "kmalloc 20 s = Inr (c, s1)" and sb: "sb = superblock_of data"
  shows "\<exists>rc ctx t. pyfs_create B d True s = Inr (rc, ctx, t) \<and> vfs_inv t \<and> owned t = owned s \<and>
    rc = (if c = 0 then PYFS_ERR_NO_SPACE else if brc \<noteq> BLOCK_SUCCESS then PYFS_ERR_IO
      else if sb_magic sb = PYFS_MAGIC \<and> sb_version sb = 1 \<and> sb_block_size sb = PYFS_BLOCK_SIZE then 0 else PYFS_ERR_BAD_SUPERBLOCK) \<and>
    (if rc = 0 then ctx = Some c \<and> pyfs_at t c = \<lparr>px_dev = d, px_sb = sb\<rparr> \<and> c \<notin> owned t \<and> (\<exists>n \<ge> 20. live t = insert (unat c, n) (live s))
     else ctx = None \<and> live t = live s)"
proof -
  have disk: "disk_inv s" using inv by (simp add: vfs_inv_def)
  have ne: "d \<noteq> Null_dev" "bd_read (dev_at s d) \<noteq> No_read" using d disk by (auto simp: disk_inv_def reg_inv_def usable_def)
  let ?x = "\<lparr>px_dev = d, px_sb = \<lparr>sb_magic = 0, sb_version = 0, sb_block_size = 0, sb_reserved0 = 0\<rparr>\<rparr>"
  let ?p = "(pyfs_at s)(c := ?x)"
  have s1: "s1\<lparr>pyfs_at := (pyfs_at s1)(c := ?x)\<rparr> = put_fs (heap_mem s1) ?p s" using kmalloc_frame [OF k] by (cases s; cases s1) (simp add: put_fs_def)
  have "dev_chain s [] (registered s)" using disk by (simp add: disk_inv_def)
  from dev_read_put_fs [OF this _ d, of B "heap_mem s1" ?p 0 True] r
  have r2: "dev_read B d 0 True (put_fs (heap_mem s1) ?p s) = Some (brc, data, put_fs (heap_mem s1) ?p u)" by simp
  let ?ok = "sb_magic sb = PYFS_MAGIC \<and> sb_version sb = 1 \<and> sb_block_size sb = PYFS_BLOCK_SIZE"
  let ?t = "put_fs (heap_mem s1) ((pyfs_at s)(c := \<lparr>px_dev = d, px_sb = sb\<rparr>)) u"
  have u: "put_fs (heap_mem s1) ?p u\<lparr>pyfs_at := (pyfs_at (put_fs (heap_mem s1) ?p u))(c := (pyfs_at (put_fs (heap_mem s1) ?p u) c)\<lparr>px_sb := sb\<rparr>)\<rparr> = ?t"
    by (simp add: put_fs_def)
  have x: "px_dev (pyfs_at (put_fs (heap_mem s1) ?p s) c) = d" by (simp add: put_fs_def)
  have run: "pyfs_create B d True s = (if c = 0 then Inr (PYFS_ERR_NO_SPACE, None, s1)
      else if brc = BLOCK_SUCCESS \<and> ?ok then Inr (0, Some c, ?t)
      else kbind (kfree c (put_fs (heap_mem s1) ?p u)) (\<lambda>s. Inr (if brc \<noteq> BLOCK_SUCCESS then PYFS_ERR_IO else PYFS_ERR_BAD_SUPERBLOCK, None, s)))"
    using ne k r2 u by (simp add: pyfs_create_def pyfs_probe_def pyfs_read_superblock_def Let_def s1 x sb)
  from inv d show ?thesis
  proof (cases rule: pyfs_create_result [where B = B])
    case (failed rc t)
    then show ?thesis using run by (auto simp: kres_simps split: if_splits)
  next
    case (created c' n t)
    then have "c' = c" "t = ?t" "c \<noteq> 0" "brc = BLOCK_SUCCESS" ?ok using run by (auto simp: kres_simps split: if_splits)
    moreover have "pyfs_at ?t c = \<lparr>px_dev = d, px_sb = sb\<rparr>" by (simp add: put_fs_def)
    ultimately show ?thesis using created by auto
  qed
qed

text \<open>
  C30. A PyFS volume is accepted exactly if a context can be allocated, its device delivers the first sector, and
  the superblock in that sector has the magic number, version 1 and blocks of 512 bytes; each other case has
  its error code. The context of an accepted volume records the device and the superblock and is a new object
  that nobody owns yet; a refused volume leaves the objects of the heap as they were.
\<close>

theorem pyfs_create_exact:
  fixes s :: "('h, 'a) vfs_state_scheme"
  assumes inv: "vfs_inv s" and d: "d \<in> set (registered s)" and r: "dev_read B d 0 True s = Some (brc, data, u)"
    and k: "kmalloc 20 s = Inr (c, s1)" and sb: "sb = superblock_of data"
  shows "\<exists>rc ctx t. pyfs_create B d True s = Inr (rc, ctx, t) \<and> vfs_inv t \<and> owned t = owned s \<and>
    rc = (if c = 0 then PYFS_ERR_NO_SPACE else if brc \<noteq> BLOCK_SUCCESS then PYFS_ERR_IO
      else if sb_magic sb = PYFS_MAGIC \<and> sb_version sb = 1 \<and> sb_block_size sb = PYFS_BLOCK_SIZE then 0 else PYFS_ERR_BAD_SUPERBLOCK) \<and>
    (if rc = 0 then ctx = Some c \<and> pyfs_at t c = \<lparr>px_dev = d, px_sb = sb\<rparr> \<and> c \<notin> owned t \<and> (\<exists>n \<ge> 20. live t = insert (unat c, n) (live s))
     else ctx = None \<and> live t = live s)"
  using assms by (rule pyfs_create_run)

text \<open>A disk whose partition at block 63 holds a PyFS superblock.\<close>

definition pyfs_image :: "int \<Rightarrow> u32 \<Rightarrow> u16 list" where
  "pyfs_image d l = [0x5950, 0x5346, 1, 0, 0x200, 0, 0, 0] @ replicate 248 0"

definition pyfs_bus :: "((u16 \<times> u8) list \<times> u16 list) bus" where
  "pyfs_bus = disk_bus pyfs_image 2048"

lemma pyfs_bus_read: "\<exists>u. dev_read pyfs_bus (Heap_dev 0xD0000014) 0 True sample_vfs = Some (BLOCK_SUCCESS, le_bytes (pyfs_image 0 63), u)"
proof -
  have r: "ata_refusal 0 63 True sample_ata = None"
    by (simp add: ata_refusal_def sample_ata_def ata_valid_drive_def ata_is_present_def ata_get_lba28_sectors_def)
  have "length (pyfs_image 0 63) = 256" by (simp add: pyfs_image_def)
  from disk_bus_read [where img = pyfs_image and n = 2048, OF r this] obtain a where
    "ata_read_sector pyfs_bus 0 63 True sample_ata = (ATA_OK, le_bytes (pyfs_image 0 63), a)" unfolding pyfs_bus_def by blast
  then show ?thesis
    by (simp add: dev_read.simps ata_block_read_def mbr_partition_target_def sample_vfs_def disk_state.defs sample_disk2_def sample_disk_def heap_state.defs sample_dev_def)
qed

lemma pyfs_image_superblock:
  "superblock_of (le_bytes (pyfs_image 0 63)) = \<lparr>sb_magic = PYFS_MAGIC, sb_version = 1, sb_block_size = PYFS_BLOCK_SIZE, sb_reserved0 = 0\<rparr>"
  by (simp add: superblock_of_def u32_at_def pyfs_image_def le_bytes_def)

theorem pyfs_create_exact_witness:
  "\<exists>t. pyfs_create pyfs_bus (Heap_dev 0xD0000014) True sample_vfs = Inr (0, Some 0xD0000078, t) \<and> vfs_inv t \<and>
    px_dev (pyfs_at t 0xD0000078) = Heap_dev 0xD0000014 \<and> sb_magic (px_sb (pyfs_at t 0xD0000078)) = PYFS_MAGIC"
proof -
  have h: "start_header sample_vfs = start_header sample_heap2" "heap_mem sample_vfs = heap_mem sample_heap2"
    by (simp_all add: sample_vfs_def disk_state.defs sample_disk2_def sample_disk_def heap_state.defs sample_heap_def sample_heap2_inv(3))
  have a: "heap_inv sample_vfs" "heap_abs sample_vfs = heap_abs sample_heap2"
    using heap_cong(1) [OF h] sample_heap2_inv(1) h by (simp_all add: heap_abs_def)
  have n: "0 < unat (20 :: u32)" "unat (20 :: u32) \<le> 1048556" "round4 20 = 20" by (simp_all add: round4_def)
  obtain m where k: "kmalloc 20 sample_vfs = Inr (0xD0000078, sample_vfs\<lparr>heap_mem := m\<rparr>)"
    using kmalloc_refines [OF a(1) n(1,2)] by cases (auto simp: n(3) a(2) sample_heap2_inv(4))
  have d: "Heap_dev 0xD0000014 \<in> set (registered sample_vfs)"
    by (simp add: registered_def sample_vfs_def disk_state.defs sample_disk2_def)
  obtain u where r: "dev_read pyfs_bus (Heap_dev 0xD0000014) 0 True sample_vfs = Some (BLOCK_SUCCESS, le_bytes (pyfs_image 0 63), u)"
    using pyfs_bus_read by blast
  have c: "(0xD0000078 :: u32) \<noteq> 0" by simp
  show ?thesis using pyfs_create_exact [OF sample_vfs_inv(1) d r k refl] unfolding pyfs_image_superblock if_not_P [OF c] by auto
qed

section \<open>Mounts\<close>

lemma vfs_init_boot:
  fixes s :: "('h, 'a) vfs_state_scheme"
  assumes "disk_inv s" "length (g_mounts s) = VFS_MAX_MOUNTS" "length (g_open s) = VFS_MAX_OPEN_FILES"
  shows "vfs_inv (vfs_init s)" "owned (vfs_init s) = dev_owned s" "live (vfs_init s) = live s" "\<forall>m \<in> set (g_mounts (vfs_init s)). \<not> m_used m"
    "registered (vfs_init s) = registered s"
proof -
  let ?t = "vfs_init s"
  have c: "disk_inv ?t = disk_inv s" "live ?t = live s" "registered ?t = registered s" "\<And>d. dev_addrs ?t d = dev_addrs s d"
    using disk_inv_cong [of ?t s] by (simp_all add: vfs_init_def)
  show u: "\<forall>m \<in> set (g_mounts ?t). \<not> m_used m" by (auto simp: vfs_init_def)
  have sl: "slot_addrs ?t i = []" if "i < 32" for i using that assms(3) by (simp add: slot_addrs_def vfs_init_def)
  have o: "file_owned ?t = {}" "mount_owned ?t = {}" "dev_owned ?t = dev_owned s"
    using sl u c by (auto simp: file_owned_def mount_owned_def dev_owned_def)
  have "mounts_inv (g_mounts ?t)" using assms(2) by (auto simp: mounts_inv_def vfs_init_def)
  moreover have "files_inv ?t" using sl o assms(3) by (simp add: files_inv_def) (simp add: vfs_init_def)
  ultimately show "vfs_inv ?t" using c(1) assms(1) o by (simp add: vfs_inv_def)
  show "owned ?t = dev_owned s" using o by (simp add: owned_def)
  show "live ?t = live s" "registered ?t = registered s" by (rule c)+
qed

abbreviation used_mounts :: "vfs_mount list \<Rightarrow> vfs_mount set" where
  "used_mounts ms \<equiv> {m \<in> set ms. m_used m}"

lemma mounts_room:
  assumes "mounts_inv ms" "card (used_mounts ms) < VFS_MAX_MOUNTS"
  shows "\<exists>m \<in> set ms. \<not> m_used m"
proof (rule ccontr)
  assume "\<not> (\<exists>m \<in> set ms. \<not> m_used m)"
  then have all: "used_mounts ms = set ms" "\<And>i. i < length ms \<Longrightarrow> m_used (ms ! i)" by auto
  then have "distinct ms" using assms(1) by (auto simp: mounts_inv_def distinct_conv_nth)
  then show False using assms all(1) distinct_card [of ms] by (simp add: mounts_inv_def)
qed

lemma vfs_mount_frame: "vfs_mount mp fn fo ctx s = (rc, t) \<Longrightarrow> t = s\<lparr>g_mounts := g_mounts t\<rparr>"
  by (auto simp: vfs_mount_def vfs_fill_mount_def Let_def split: option.splits if_splits prod.splits)

text \<open>A mount at a new place succeeds while the table has room; a PyFS context belongs to its mount.\<close>

lemma vfs_mount_boot:
  fixes s :: "('h, 'a) vfs_state_scheme"
  assumes inv: "vfs_inv s" and fo: "fo = PYFS_OPS \<Longrightarrow> pyfs_mount_ok s ctx \<and> ctx \<notin> owned s"
    and mp: "cstring mp" "mp \<noteq> []" "hd mp = SLASH" "length mp < 32" "length fn < 16"
    and new: "mp \<notin> m_mountpoint ` used_mounts (g_mounts s)" "card (used_mounts (g_mounts s)) < VFS_MAX_MOUNTS"
  shows "\<exists>ms. vfs_mount (Some mp) (Some fn) (Some fo) ctx s = (VFS_OK, s\<lparr>g_mounts := ms\<rparr>) \<and> vfs_inv (s\<lparr>g_mounts := ms\<rparr>) \<and>
    used_mounts ms = insert \<lparr>m_used = True, m_mountpoint = mp, m_fs_name = fn, m_ops = Some fo, m_ctx = ctx\<rparr> (used_mounts (g_mounts s)) \<and>
    owned (s\<lparr>g_mounts := ms\<rparr>) = owned s \<union> (if fo = PYFS_OPS then {ctx} else {})"
proof -
  obtain rc t where r: "vfs_mount (Some mp) (Some fn) (Some fo) ctx s = (rc, t)" by fastforce
  have m: "mounts_inv (g_mounts s)" using inv by (simp add: vfs_inv_def)
  note A = vfs_mount_adds [OF m mp(1) r]
  have rc: "rc = VFS_OK" using A mp new(1) mounts_room [OF m new(2)] by (auto simp: image_iff)
  let ?n = "\<lparr>m_used = True, m_mountpoint = mp, m_fs_name = fn, m_ops = Some fo, m_ctx = ctx\<rparr>"
  have u: "used_mounts (g_mounts t) = insert ?n (used_mounts (g_mounts s))" using A rc by simp
  obtain ms where t: "t = s\<lparr>g_mounts := ms\<rparr>" using vfs_mount_frame [OF r] by blast
  have P: "mount_owned x = m_ctx ` {m \<in> used_mounts (g_mounts x). m_ops m = Some PYFS_OPS}" for x :: "('h, 'a) vfs_state_scheme"
    by (auto simp: mount_owned_def)
  have "{m \<in> used_mounts (g_mounts t). m_ops m = Some PYFS_OPS} =
      {m \<in> used_mounts (g_mounts s). m_ops m = Some PYFS_OPS} \<union> (if fo = PYFS_OPS then {?n} else {})"
    unfolding u by auto
  then have mo: "mount_owned t = mount_owned s \<union> (if fo = PYFS_OPS then {ctx} else {})" unfolding P by (simp add: image_Un)
  have "file_addrs t f = file_addrs s f" for f by (simp add: t file_addrs_def split: option.split file_ops.split)
  then have "file_owned t = file_owned s" by (simp add: file_owned_def slot_addrs_def t)
  moreover have "dev_owned t = dev_owned s" using disk_inv_cong(3,4) [of t s] by (simp add: dev_owned_def t)
  ultimately have "owned t = owned s \<union> (if fo = PYFS_OPS then {ctx} else {})" using mo by (auto simp: owned_def)
  then show ?thesis using r rc u vfs_mount_vfs_inv [OF inv mp(1) fo r] by (intro exI [of _ ms]) (simp add: t)
qed

section \<open>The boot file systems\<close>

definition core_view :: "('h, 'g, 'a) kernel_scheme \<Rightarrow> _" where
  "core_view s = (page_view s, mach s, pmm_test_pages s, dev_at s, registered s)"

lemma core_view_base: "base_view t = base_view s \<Longrightarrow> core_view t = core_view s" for s t :: "('h, 'g, 'a) kernel_scheme"
  using base_view_kernel [of t s] by (simp add: core_view_def)

lemma core_view_update [simp]:
  "core_view (s\<lparr>con_log := l\<rparr>) = core_view s" "core_view (s\<lparr>g_mounts := ms\<rparr>) = core_view s" "core_view (vfs_init s) = core_view s"
  by (simp_all add: core_view_def vfs_init_def registered_def page_view_def frame_view_def)

lemma console_files:
  fixes s :: "('h, 'g, 'a) kernel_scheme"
  shows "vfs_inv (s\<lparr>con_log := l\<rparr>) = vfs_inv s" "owned (s\<lparr>con_log := l\<rparr>) = owned s" "live (s\<lparr>con_log := l\<rparr>) = live s"
    "registered (s\<lparr>con_log := l\<rparr>) = registered s" "garbage (s\<lparr>con_log := l\<rparr>) = garbage s"
proof -
  have "file_view (s\<lparr>con_log := l\<rparr>) = file_view s" by (simp add: file_view_def)
  note c = file_view_cong [OF this]
  show "vfs_inv (s\<lparr>con_log := l\<rparr>) = vfs_inv s" "owned (s\<lparr>con_log := l\<rparr>) = owned s" "live (s\<lparr>con_log := l\<rparr>) = live s"
    "registered (s\<lparr>con_log := l\<rparr>) = registered s" "garbage (s\<lparr>con_log := l\<rparr>) = garbage s" using c by (simp_all add: garbage_def)
qed

text \<open>The mounts of a booted kernel, and the state once the file systems are there.\<close>

definition root_mount :: vfs_mount where
  "root_mount = \<lparr>m_used = True, m_mountpoint = ''/'', m_fs_name = ''nullfs'', m_ops = Some NULLFS_OPS, m_ctx = 0\<rparr>"

definition dev_mount :: vfs_mount where
  "dev_mount = \<lparr>m_used = True, m_mountpoint = ''/dev'', m_fs_name = ''devfs'', m_ops = Some DEVFS_OPS, m_ctx = 0\<rparr>"

definition py_mount :: "u32 \<Rightarrow> vfs_mount" where
  "py_mount c = \<lparr>m_used = True, m_mountpoint = ''/py'', m_fs_name = ''pyfs'', m_ops = Some PYFS_OPS, m_ctx = c\<rparr>"

definition files_up :: "('h, 'g, 'a) kernel_scheme \<Rightarrow> bool" where
  "files_up s \<longleftrightarrow> vfs_inv s \<and> garbage s = {} \<and> (\<forall>e \<in> set (g_open s). \<not> o_used e) \<and>
     (used_mounts (g_mounts s) = {root_mount, dev_mount} \<or> (\<exists>c. used_mounts (g_mounts s) = {root_mount, dev_mount, py_mount c}))"

lemma files_up_console [simp]: "files_up (s\<lparr>con_log := l\<rparr>) = files_up s"
  by (simp add: files_up_def console_files)

text \<open>Mounting a volume that has just been accepted.\<close>

lemma boot_pyfs_mount:
  fixes t :: "('h, 'a) vfs_state_scheme"
  assumes "vfs_inv t" "pyfs_mount_ok t c" "c \<notin> owned t" "used_mounts (g_mounts t) = {root_mount, dev_mount}"
  shows "\<exists>ms. vfs_mount (Some ''/py'') (Some ''pyfs'') (Some PYFS_OPS) c t = (VFS_OK, t\<lparr>g_mounts := ms\<rparr>) \<and> vfs_inv (t\<lparr>g_mounts := ms\<rparr>) \<and>
    used_mounts ms = {root_mount, dev_mount, py_mount c} \<and> owned (t\<lparr>g_mounts := ms\<rparr>) = owned t \<union> {c}"
proof -
  have m: "cstring ''/py''" "''/py'' \<noteq> []" "hd ''/py'' = SLASH" "length ''/py'' < 32" "length ''pyfs'' < 16"
    by (simp_all add: NUL_def)
  have n: "''/py'' \<notin> m_mountpoint ` used_mounts (g_mounts t)" "card (used_mounts (g_mounts t)) < VFS_MAX_MOUNTS"
    unfolding assms(4) by (simp_all add: root_mount_def dev_mount_def)
  have p: "insert (py_mount c) {root_mount, dev_mount} = {root_mount, dev_mount, py_mount c}" by auto
  show ?thesis using vfs_mount_boot [OF assms(1) _ m n, of PYFS_OPS c] assms(2,3) p unfolding assms(4) by (simp add: py_mount_def)
qed

text \<open>What the mount table is independent of: the heap, the disks and the contexts of file systems.\<close>

definition store_view :: "('h, 'a) vfs_state_scheme \<Rightarrow> _" where
  "store_view s = (start_header s, heap_mem s, ata s, dev_at s, part_at s, g_devices s, g_device_count s, pyfs_at s)"

lemma boot_pyfs_result:
  fixes s :: "('h, 'g, 'a) kernel_scheme"
  assumes "files_up s" "used_mounts (g_mounts s) = {root_mount, dev_mount}"
  shows "\<exists>t. boot_pyfs B s = Inr t \<and> files_up t \<and> core_view t = core_view s"
proof -
  define s1 where "s1 = say ''Probing PyFS on disk0p1...'' s"
  have s1: "files_up s1" "core_view s1 = core_view s" "g_mounts s1 = g_mounts s"
    using assms(1) by (simp_all add: s1_def console_defs)
  define d where "d = block_get_by_name (Some ''disk0p1'') s1"
  define f where "f = (\<lambda>(pyfs_rc, ctx, s :: ('h, 'g, 'a) kernel_scheme).
          let pyfs = (case ctx of None \<Rightarrow> 0 | Some c \<Rightarrow> c) in
          if pyfs_rc = 0 then
            let (vfs_rc, s) = vfs_mount (Some ''/py'') (Some ''pyfs'') (Some PYFS_OPS) pyfs s
            in Inr (if vfs_rc \<noteq> VFS_OK then warn_rc ''WARN: PyFS mount failed (rc='' vfs_rc s else s) :: ('h, 'g, 'a) kernel_scheme kres
          else Inr (warn_rc ''WARN: PyFS probe failed (rc='' pyfs_rc s))"
  have run: "boot_pyfs B s = (if d \<noteq> Null_dev then kbind (pyfs_create B d True s1) f
      else Inr (say ''WARN: disk0p1 not found; skipping PyFS mount'' s1))"
    unfolding boot_pyfs_def Let_def s1_def [symmetric] d_def f_def ..
  have v: "vfs_inv s1" "garbage s1 = {}" using s1(1) by (simp_all add: files_up_def)
  show ?thesis
  proof (cases "d = Null_dev")
    case True
    then show ?thesis using s1 by (simp add: run console_defs)
  next
    case False
    have reg: "reg_inv s1" using v(1) by (simp add: vfs_inv_def disk_inv_def)
    have "d \<in> set (registered s1)" using block_get_registered [OF reg, of "''disk0p1''" d] False d_def by simp
    from v(1) this show ?thesis
    proof (cases rule: pyfs_create_result [where B = B])
      case (failed rc t)
      have g: "g_mounts t = g_mounts s1" "core_view t = core_view s1"
        using base_view_kernel(5) [OF failed(6)] core_view_base [OF failed(6)] by simp_all
      have "garbage t = {}" using v(2) failed(4,5) by (simp add: garbage_def)
      then have "files_up t" using s1(1) failed(3,7) g by (simp add: files_up_def)
      then show ?thesis unfolding run if_P [OF False] failed(1) kbind_Inr f_def prod.case Let_def if_not_P [OF failed(2)]
        using g s1(2) by (simp add: console_defs)
    next
      case (created c k t)
      have g: "g_mounts t = g_mounts s" "core_view t = core_view s1"
        using base_view_kernel(5) [OF created(7)] core_view_base [OF created(7)] s1(3) by simp_all
      have u: "used_mounts (g_mounts t) = {root_mount, dev_mount}" using g(1) assms(2) by simp
      obtain ms where ms: "vfs_mount (Some ''/py'') (Some ''pyfs'') (Some PYFS_OPS) c t = (VFS_OK, t\<lparr>g_mounts := ms\<rparr>)" "vfs_inv (t\<lparr>g_mounts := ms\<rparr>)"
        "used_mounts ms = {root_mount, dev_mount, py_mount c}" "owned (t\<lparr>g_mounts := ms\<rparr>) = owned t \<union> {c}"
        using boot_pyfs_mount [OF created(2,3,4) u] by blast
      let ?t = "t\<lparr>g_mounts := ms\<rparr>"
      have "live ?t = insert (unat c, k) (live s1)" using disk_inv_cong(2) [of ?t t] created(6) by simp
      then have "garbage ?t = {}" using v(2) ms(4) created(5) by (auto simp: garbage_def)
      moreover have "used_mounts (g_mounts ?t) = {root_mount, dev_mount, py_mount c}" using ms(3) by simp
      moreover have "\<forall>e \<in> set (g_open ?t). \<not> o_used e" using s1(1) created(8) by (simp add: files_up_def)
      ultimately have up: "files_up ?t" using ms(2) unfolding files_up_def by blast
      show ?thesis unfolding run if_P [OF False] created(1) kbind_Inr f_def prod.case Let_def if_P [OF refl] option.case ms(1)
        using up g(2) s1(2) by simp
    qed
  qed
qed

lemma boot_files_mounts:
  fixes s :: "('h, 'g, 'a) kernel_scheme"
  assumes "disk_inv s" "all_dev_owned s" "length (g_mounts s) = VFS_MAX_MOUNTS" "length (g_open s) = VFS_MAX_OPEN_FILES"
  shows "\<exists>t. boot_files B s = boot_pyfs B t \<and> files_up t \<and> used_mounts (g_mounts t) = {root_mount, dev_mount} \<and>
    core_view t = core_view s \<and> store_view t = store_view s"
proof -
  let ?s0 = "say ''Initializing VFS...'' s"
  define s1 where "s1 = vfs_init ?s0"
  have d0: "disk_inv ?s0" "length (g_mounts ?s0) = 8" "length (g_open ?s0) = 32" "all_dev_owned ?s0"
    using assms by (simp_all add: console_defs console_disk)
  note I = vfs_init_boot [OF d0(1-3), folded s1_def]
  have e1: "used_mounts (g_mounts s1) = {}" "\<forall>e \<in> set (g_open s1). \<not> o_used e"
    using I(4) by (auto simp: s1_def vfs_init_def)
  have v1: "core_view s1 = core_view s" by (simp add: s1_def console_defs)
  have g1: "garbage s1 = {}" using d0(4) I(2,3) by (simp add: garbage_def all_dev_owned_def)
  have m1: "cstring ''/''" "''/'' \<noteq> []" "hd ''/'' = SLASH" "length ''/'' < 32" "length ''nullfs'' < 16" by (simp_all add: NUL_def)
  have n1: "''/'' \<notin> m_mountpoint ` used_mounts (g_mounts s1)" "card (used_mounts (g_mounts s1)) < VFS_MAX_MOUNTS"
    unfolding e1(1) by simp_all
  obtain ms2 where r2: "vfs_mount (Some ''/'') (Some ''nullfs'') (Some NULLFS_OPS) 0 s1 = (VFS_OK, s1\<lparr>g_mounts := ms2\<rparr>)" "vfs_inv (s1\<lparr>g_mounts := ms2\<rparr>)"
    "used_mounts ms2 = {root_mount}" "owned (s1\<lparr>g_mounts := ms2\<rparr>) = owned s1"
    using vfs_mount_boot [OF I(1) _ m1 n1, of NULLFS_OPS 0] e1(1) by (auto simp: root_mount_def)
  define s2 where "s2 = s1\<lparr>g_mounts := ms2\<rparr>"
  have s2: "g_mounts s2 = ms2" "live s2 = live s1" using disk_inv_cong(2) [of s2 s1] by (simp_all add: s2_def)
  have m2: "cstring ''/dev''" "''/dev'' \<noteq> []" "hd ''/dev'' = SLASH" "length ''/dev'' < 32" "length ''devfs'' < 16" by (simp_all add: NUL_def)
  have n2: "''/dev'' \<notin> m_mountpoint ` used_mounts (g_mounts s2)" "card (used_mounts (g_mounts s2)) < VFS_MAX_MOUNTS"
    unfolding s2(1) r2(3) by (simp_all add: root_mount_def)
  obtain ms3 where r3: "vfs_mount (Some ''/dev'') (Some ''devfs'') (Some DEVFS_OPS) 0 s2 = (VFS_OK, s2\<lparr>g_mounts := ms3\<rparr>)" "vfs_inv (s2\<lparr>g_mounts := ms3\<rparr>)"
    "used_mounts ms3 = {root_mount, dev_mount}" "owned (s2\<lparr>g_mounts := ms3\<rparr>) = owned s2"
    using vfs_mount_boot [OF r2(2) [folded s2_def] _ m2 n2, of DEVFS_OPS 0] s2(1) r2(3) by (auto simp: dev_mount_def)
  define s3 where "s3 = s2\<lparr>g_mounts := ms3\<rparr>"
  have "live s3 = live s1" using disk_inv_cong(2) [of s3 s2] s2(2) by (simp add: s3_def)
  then have "garbage s3 = garbage s1" using r2(4) r3(4) by (simp add: garbage_def s3_def s2_def)
  then have up: "files_up s3" using r3(2,3) g1 e1(2) by (simp add: files_up_def s3_def s2_def)
  have u3: "used_mounts (g_mounts s3) = {root_mount, dev_mount}" using r3(3) by (simp add: s3_def)
  have "boot_files B s = boot_pyfs B s3"
    unfolding boot_files_def Let_def s1_def [symmetric] r2(1) s2_def [symmetric] prod.case r3(1) s3_def [symmetric] by simp
  moreover have "core_view s3 = core_view s" using v1 by (simp add: s3_def s2_def)
  moreover have "store_view s3 = store_view s" by (simp add: s3_def s2_def s1_def vfs_init_def store_view_def console_defs)
  ultimately show ?thesis using up u3 by blast
qed

lemma boot_files_result:
  fixes s :: "('h, 'g, 'a) kernel_scheme"
  assumes "disk_inv s" "all_dev_owned s" "length (g_mounts s) = VFS_MAX_MOUNTS" "length (g_open s) = VFS_MAX_OPEN_FILES"
  shows "\<exists>t. boot_files B s = Inr t \<and> files_up t \<and> core_view t = core_view s"
  using boot_files_mounts [OF assms, of B] boot_pyfs_result [of _ B] by metis

section \<open>The shell starts\<close>

lemma boot_finish_result:
  fixes s :: "('h, 'g, 'a) kernel_scheme"
  assumes "sys_inv s" "garbage s = {}" "walk s 0xC0000000 = None" "\<not> halted (mach s)"
  shows "\<exists>t. boot_finish B D s = Inr t \<and> kernel_inv t \<and> line_of t = [] \<and> g_mounts t = g_mounts s \<and> g_open t = g_open s \<and>
    walk t = walk s \<and> registered t = registered s \<and> dev_at t = dev_at s \<and> part_at t = part_at s \<and> pyfs_at t = pyfs_at s \<and>
    int_flag (kbd (mach t))"
proof -
  obtain s1 where s1: "selftest_run_all B s = Inr s1" "sys_inv s1" "kept s s1" using selftest_run_all_result [OF assms(1), of B] by blast
  define t where "t = shell_init (on_mach (\<lambda>m. m\<lparr>kbd := (kbd m)\<lparr>int_flag := True\<rparr>\<rparr>)
    (on_mach (\<lambda>m. pic_clear_mask D 1 (pic_clear_mask D 0 (pic_disable D m))) s1))"
  have v: "file_view t = file_view s1" "page_view t = page_view s1" "pmm_test_pages t = pmm_test_pages s1"
    by (simp_all add: t_def shell_init_def shell_reset_def term_calls_log on_mach_def file_view_def page_view_def frame_view_def)
  have h: "halted (mach t) = halted (mach s1)" "int_flag (kbd (mach t))"
    by (simp_all add: t_def shell_init_def shell_reset_def term_calls_log on_mach_def)
  have e: "editor_inv t" "line_of t = []"
    by (simp_all add: t_def shell_init_def shell_reset_def editor_inv_def line_of_def)
  note F = file_view_cong [OF v(1)] and P = page_view_cong [OF v(2)]
  have k: "live s1 = live s" "owned s1 = owned s" "walk s1 = walk s" "g_mounts s1 = g_mounts s" "g_open s1 = g_open s" "mach s1 = mach s"
    "registered s1 = registered s" "dev_at s1 = dev_at s" "part_at s1 = part_at s" "pyfs_at s1 = pyfs_at s" using s1(3) by (simp_all add: kept_def)
  have "kernel_inv t"
    using sys_inv_cong [OF v] s1(2) F(2,3) P(2) k h(1) e(1) assms(2-4) by (simp add: kernel_inv_def garbage_def)
  moreover have "boot_finish B D s = Inr t" using s1(1) by (simp add: boot_finish_def t_def)
  moreover have "g_mounts t = g_mounts s1" "g_open t = g_open s1" "dev_at t = dev_at s1" "part_at t = part_at s1" "pyfs_at t = pyfs_at s1" using v(1) by (simp_all add: file_view_def)
  ultimately show ?thesis using e(2) F P(2) k h(2) by simp
qed

text \<open>What a booted kernel offers: the invariant, an empty prompt, the boot mounts and no open file.\<close>

definition booted :: "('h, 'g, 'a) kernel_scheme \<Rightarrow> bool" where
  "booted t \<longleftrightarrow> kernel_inv t \<and> line_of t = [] \<and> (\<forall>e \<in> set (g_open t). \<not> o_used e) \<and>
     (used_mounts (g_mounts t) = {root_mount, dev_mount} \<or> (\<exists>c. used_mounts (g_mounts t) = {root_mount, dev_mount, py_mount c})) \<and>
     (\<forall>va. unat va < 0x400000 \<longrightarrow> walk t va = Some va) \<and> int_flag (kbd (mach t)) \<and> sectors_512 t"

text \<open>With the file systems up, the machine is ready for the diagnostics.\<close>

lemma files_ready:
  fixes s t u :: "('h, 'g, 'a) kernel_scheme"
  assumes "core_up s" "disk_view t = disk_view s" "files_up u" "core_view u = core_view t"
  shows "sys_inv u" "garbage u = {}" "walk u 0xC0000000 = None" "\<not> halted (mach u)" "walk u = walk s"
proof -
  have v: "page_view u = page_view s" "mach u = mach s" "pmm_test_pages u = pmm_test_pages s"
    using assms(4) disk_view_kernel [OF assms(2)] by (simp_all add: core_view_def)
  note P = page_view_cong [OF v(1)]
  show "sys_inv u" "garbage u = {}" "walk u 0xC0000000 = None" "\<not> halted (mach u)" "walk u = walk s"
    using assms(1,3) P(1,2) v by (simp_all add: sys_inv_def files_up_def cold_def core_up_def)
qed

lemma k_boot_result:
  fixes s :: "('h, 'g, 'a) kernel_scheme"
  assumes "cold s" "boot_memory (phys s)"
  shows "\<exists>t. k_boot L B D s = Inr t \<and> booted t \<and> block_get_by_name (Some ''disk0'') t = (if drive_found B (ata s) then G_disk0 else Null_dev)"
proof -
  obtain s1 where s1: "boot_core L D s = Inr s1" "core_up s1" "ata s1 = ata s" using boot_core_result [OF assms] by blast
  have c1: "cold s1" "heap_inv s1" "live s1 = {}" "vmm_inv s1" "walk s1 0xC0000000 = None" "\<forall>va. unat va < 0x400000 \<longrightarrow> walk s1 va = Some va"
    using s1(2) by (simp_all add: core_up_def)
  obtain s2 where s2: "boot_disks B s1 = Inr s2" "disk_inv s2" "all_dev_owned s2" "disk_view s2 = disk_view s1"
    "found ''disk0'' s2 = (if drive_found B (ata s) then Some G_disk0 else None)" "sectors_512 s2"
    using boot_disks_result [OF c1(1-3), of B] s1(3) by auto
  note D2 = disk_view_kernel [OF s2(4)]
  have n2: "length (g_mounts s2) = VFS_MAX_MOUNTS" "length (g_open s2) = VFS_MAX_OPEN_FILES" using D2 c1(1) by (simp_all add: cold_def)
  obtain s3 where s3: "boot_files B s2 = Inr s3" "files_up s3" "core_view s3 = core_view s2"
    using boot_files_result [OF s2(2,3) n2, of B] by blast
  note i3 = files_ready [OF s1(2) s2(4) s3(2,3)]
  obtain t where t: "boot_finish B D s3 = Inr t" "kernel_inv t" "line_of t = []" "g_mounts t = g_mounts s3" "g_open t = g_open s3"
    "walk t = walk s3" "int_flag (kbd (mach t))" "registered t = registered s3" "dev_at t = dev_at s3"
    using boot_finish_result [OF i3(1-4), of B D] by blast
  have "found ''disk0'' t = found ''disk0'' s2" using t(8,9) s3(3) by (simp add: found_def dev_name_def core_view_def)
  moreover have "reg_inv t" using t(2) by (simp add: kernel_inv_def sys_inv_def vfs_inv_def disk_inv_def)
  then have "block_get_by_name (Some ''disk0'') t = (case found ''disk0'' t of None \<Rightarrow> Null_dev | Some d \<Rightarrow> d)"
    by (rule get_found) (simp add: NUL_def)
  ultimately have "block_get_by_name (Some ''disk0'') t = (if drive_found B (ata s) then G_disk0 else Null_dev)" using s2(5) by simp
  moreover have "k_boot L B D s = Inr t" using s1(1) s2(1) s3(1) t(1) by (simp add: k_boot_def)
  moreover have "sectors_512 t" using t(8,9) s3(3) s2(6) by (simp add: sectors_512_def core_view_def)
  ultimately show ?thesis using t s3(2) i3(5) c1(6) by (auto simp: booted_def files_up_def)
qed

text \<open>A machine with 2 MiB of memory and an 8 KiB kernel, at the moment the boot loader hands over.\<close>

definition power_memory :: mem where
  "power_memory = (\<lambda>_. 0)(0x500D := 0x20, 0x5010 := 1, 0x5014 := 0x20, 0x5015 := 0x50, 0x502A := 0x20, 0x5030 := 1)"

definition sample_power :: "((u16 \<times> u8) list \<times> u16 list, unit) kernel" where
  "sample_power = sample_kernel\<lparr>phys := power_memory\<rparr>"

lemma power_info:
  "bi_mmap_addr (boot_info_at power_memory 0x5000) = 0x5020" "bi_mmap_count (boot_info_at power_memory 0x5000) = 1"
  "bi_kernel_size (boot_info_at power_memory 0x5000) = 0x2000" "e820_base (e820_at power_memory 0x5020 0) = 0"
  "e820_length (e820_at power_memory 0x5020 0) = 0x200000" "e820_type (e820_at power_memory 0x5020 0) = 1"
  by (simp_all add: boot_info_at_def e820_at_def read64_def read32_def power_memory_def)

lemma power_boot: "boot_memory power_memory"
proof -
  have n: "pmm_frames power_memory = 512" by (simp add: pmm_frames_def Let_def power_info)
  have ok: "boot_ok power_memory" by (simp add: boot_ok_def n power_info low_struct_def)
  have usable: "usable_frames power_memory = {..<512}"
    unfolding usable_frames_def n by (auto simp: e820_map_def Let_def power_info touched_iff)
  have t: "touched 0 0x1000 512 = {0}" "touched 0x10000 0x2000 512 = {0x10, 0x11}" "touched 0x20000 64 512 = {0x20}"
    "touched 0x5000 0x1000 512 = {5}" by (auto simp: touched_iff)
  have locked: "locked_frames power_memory = {0, 5, 0x10, 0x11, 0x20}"
    unfolding locked_frames_def n power_info Let_def using t by auto
  have c: "card ({..<512 :: nat} - {0, 5, 0x10, 0x11, 0x20}) = 507" by (subst card_Diff_subset) simp_all
  have "{..<1024} \<inter> ({..<512 :: nat} - {0, 5, 0x10, 0x11, 0x20}) = {..<512} - {0, 5, 0x10, 0x11, 0x20}" by auto
  then show ?thesis using ok c by (simp add: boot_memory_def n usable locked)
qed

lemma sample_power_cold: "cold sample_power" "phys sample_power = power_memory"
proof -
  have "dev_at sample_power = dev_at sample_disk2" "ata sample_power = ata sample_disk2" "g_devices sample_power = g_devices sample_disk2"
    by (simp_all add: sample_power_def sample_kernel_def vfs_state.defs sample_vfs_def disk_state.defs)
  moreover have "ata_inv (ata sample_disk2)" "\<forall>d. cstring (bd_name (dev_at sample_disk2 d))" "length (g_devices sample_disk2) = 8"
    using sample_disk2_inv(1) by (simp_all add: disk_inv_def reg_inv_def dev_name_def)
  moreover have "dev_at sample_disk2 G_disk0 = g_disk0" "dev_at sample_disk2 G_disk1 = g_disk1"
    by (simp_all add: sample_disk2_def sample_disk_def heap_state.defs sample_dev_def g_disk0_def g_disk1_def)
  moreover have "length (g_mounts sample_power) = 8" "length (g_open sample_power) = 32"
    using sample_vfs_inv(1) by (simp_all add: vfs_inv_def mounts_inv_def files_inv_def sample_power_def sample_kernel_def vfs_state.defs)
  moreover have "length (pmm_test_pages sample_power) = 256" "\<not> halted (mach sample_power)"
    by (simp_all add: sample_power_def sample_kernel_def vfs_state.defs sample_machine0_def)
  ultimately show "cold sample_power" by (simp add: cold_def)
  show "phys sample_power = power_memory" by (simp add: sample_power_def)
qed

end
