(* ===== verification/Boot_Volume.thy ===== *)
theory Boot_Volume
  imports Boot_Correct
begin

text \<open>
  From the disk to the file tree: a machine whose disk has a partition table with a PyFS volume in its first
  entry comes up with the partition registered and the volume mounted. It rests on three facts about the boot:
  the heap has room for every partition (nothing is released before the diagnostics), the scan therefore stops
  for no lack of space, and a read of the partition is a read of the disk.
\<close>

section \<open>A heap without gaps\<close>

text \<open>
  As long as nothing has been released, the heap is a run of blocks in use and one free block behind them.
\<close>

definition heap_tail :: "'a heap_state_scheme \<Rightarrow> nat \<Rightarrow> bool" where
  "heap_tail s z \<longleftrightarrow> (\<exists>xs. heap_abs s = xs @ [(z, True)] \<and> (\<forall>b \<in> set xs. \<not> snd b))"

lemma heap_tail_cong: "start_header t = start_header s \<Longrightarrow> heap_mem t = heap_mem s \<Longrightarrow> heap_tail t z = heap_tail s z"
  by (simp add: heap_tail_def heap_abs_def)

lemma tail_fit:
  assumes "\<forall>b \<in> set xs. \<not> snd b" "r + 24 < z"
  shows "\<exists>h. first_fit r a (xs @ [(z, True)]) = Some h" "alloc_blocks r (xs @ [(z, True)]) = (xs @ [(r, False)]) @ [(z - r - 20, True)]"
  using assms by (induction xs arbitrary: a) auto

lemma kmalloc_tail:
  assumes inv: "heap_inv s" and t: "heap_tail s z" and sz: "0 < unat sz" "round4 (unat sz) + 24 < z"
  shows "\<exists>p m. kmalloc sz s = Inr (p, s\<lparr>heap_mem := m\<rparr>) \<and> p \<noteq> 0 \<and> heap_tail (s\<lparr>heap_mem := m\<rparr>) (z - round4 (unat sz) - 20)"
proof -
  let ?r = "round4 (unat sz)"
  obtain xs where xs: "heap_abs s = xs @ [(z, True)]" "\<forall>b \<in> set xs. \<not> snd b" using t by (auto simp: heap_tail_def)
  note F = tail_fit [OF xs(2) sz(2)]
  have "unat sz \<le> ?r" by (simp add: round4_def)
  moreover have "z \<le> 1048556" using heap_invD(2) [OF inv] by (auto simp: heap_wf_def xs(1))
  ultimately have le: "unat sz \<le> 1048556" using sz(2) by simp
  from inv sz(1) le show ?thesis
  proof (cases rule: kmalloc_refines)
    case oom
    then show ?thesis using F(1) [of "0xD0000000"] by (simp add: xs(1))
  next
    case (block h m)
    have tail: "heap_tail (s\<lparr>heap_mem := m\<rparr>) (z - ?r - 20)"
      using F(2) xs(2) block(4) unfolding heap_tail_def by (intro exI [of _ "xs @ [(?r, False)]"]) (simp add: xs(1))
    have nz: "sz \<noteq> 0" using sz(1) by auto
    have "heap_abs (s\<lparr>heap_mem := m\<rparr>) \<noteq> heap_abs s" using block(4) F(2) by (simp add: xs(1))
    then have "of_nat (h + 20) \<noteq> (0 :: u32)" using block(2) kheap.alloc_result [OF inv, of sz] by (auto split: if_splits)
    then show ?thesis using block(2) tail by blast
  qed
qed


section \<open>Every partition finds room\<close>

text \<open>
  With enough of the heap left, a slot in the registry and a new name, the entry becomes a device.
\<close>

lemma mbr_add_partition_room:
  fixes s :: "('h, 'a) disk_state_scheme"
  assumes inv: "disk_inv s" and disk: "disk \<in> set (registered s)" and name: "cstring name" "length name \<le> 29" and i: "i < 4"
    and room: "heap_tail s z" "200 \<le> z" "length (registered s) < BLOCK_MAX_DEVICES"
    and new: "name @ [CHR ''p'', digit_char (i + 1)] \<notin> dev_name s ` set (registered s)"
  shows "\<exists>u. mbr_add_partition disk name i start count s = Inr (None, u) \<and> heap_tail u (z - 100)"
proof -
  have hinv: "heap_inv s" and reg: "reg_inv s" using inv by (simp_all add: disk_inv_def)
  have r4: "round4 (unat (48 :: u32)) = 48" "round4 (unat (12 :: u32)) = 12" "0 < unat (48 :: u32)" "0 < unat (12 :: u32)" by (simp_all add: round4_def)
  obtain p m1 where k1: "kmalloc 48 s = Inr (p, s\<lparr>heap_mem := m1\<rparr>)" "p \<noteq> 0" "heap_tail (s\<lparr>heap_mem := m1\<rparr>) (z - 68)"
    using kmalloc_tail [OF hinv room(1) r4(3)] room(2) r4(1) by auto
  have lt: "round4 (unat (12 :: u32)) + 24 < z - 68" using room(2) r4(2) by simp
  from hinv show ?thesis
  proof (cases rule: mbr_objects)
    case none
    then show ?thesis using k1 by simp
  next
    case (one q s1 m)
    have s1: "s1 = s\<lparr>heap_mem := m1\<rparr>" "q = p" using one(1) k1(1) by simp_all
    have "heap_inv s1" using kheap.alloc_result [OF hinv, of 48] one(1) by auto
    then show ?thesis using kmalloc_tail [OF _ _ r4(4) lt, of s1] k1(3) one(3) s1 by auto
  next
    case (two q c k j s1 m)
    have s1: "s1 = s\<lparr>heap_mem := m1\<rparr>" "q = p" using two(1) k1(1) by simp_all
    have "heap_inv s1" using kheap.alloc_result [OF hinv, of 48] two(1) by auto
    then have t2: "heap_tail (s\<lparr>heap_mem := m\<rparr>) (z - 100)"
      using kmalloc_tail [OF _ _ r4(4) lt, of s1] k1(3) r4(2) two(3) s1 by auto
    let ?x = "\<lparr>parent = disk, base_lba = start, sector_count = count\<rparr>"
    define D where "D = \<lparr>bd_name = name @ [CHR ''p'', digit_char (i + 1)], bd_sector_size = bd_sector_size (dev_at s disk),
          bd_ctx = c, bd_read = Mbr_partition_read, bd_write = Mbr_partition_write\<rparr>"
    define T where "T = s\<lparr>heap_mem := m, part_at := (part_at s)(c := ?x), dev_at := (dev_at s)(Heap_dev p := D)\<rparr>"
    have cD: "cstring (bd_name D)" using name cstring_digit [of "i + 1"] i by (simp add: D_def NUL_def)
    have fr: "\<forall>q n. object_at s q n \<longrightarrow> 0 < n \<longrightarrow> q \<noteq> p \<and> q \<noteq> c" using two(12) s1(2) by blast
    have sub: "live s \<subseteq> live (s\<lparr>heap_mem := m\<rparr>)" using two(6) by auto
    note F = fresh_structs [OF inv fr T_def two(5) sub cD]
    have rT: "reg_inv T" using F(1) by (simp add: disk_inv_def)
    obtain xs where "dev_links s xs disk" using dev_chain_links [of s "[]" "registered s" disk] inv disk by (auto simp: disk_inv_def)
    then have "disk = Heap_dev q \<longrightarrow> object_at s q 48" for q by (auto simp: dev_links_def)
    then have ne: "disk \<noteq> Heap_dev p" using fr [rule_format, of p 48] by auto
    have "usable s disk" using reg disk by (simp add: reg_inv_def)
    then have us: "usable T (Heap_dev p)" by (simp add: usable_def T_def D_def dev_name_def)
    have nT: "dev_name T d = dev_name s d" if "d \<in> set (registered s)" for d
      using F(4) [OF that] by (simp add: dev_view_def dev_name_def)
    have "dev_name T (Heap_dev p) \<notin> dev_name T ` set (registered T)"
      using new nT unfolding F(2) by (auto simp: T_def D_def dev_name_def image_iff)
    moreover have "block_count T < BLOCK_MAX_DEVICES"
      using length_registered [OF reg] room(3) by (simp add: block_count_def T_def)
    moreover obtain rc u where r: "block_register (Heap_dev p) T = (rc, u)" by fastforce
    ultimately have rc: "rc = BLOCK_SUCCESS" using block_register_iff [OF rT r] us by blast
    have "mbr_add_partition disk name i start count s = Inr (None, u)"
      using two(1-4) r [unfolded rc] ne name(2) s1(2)
      by (simp add: mbr_add_partition_def mbr_name [OF i] T_def D_def device_all)
    moreover have "heap_tail u (z - 100)"
      using t2 heap_tail_cong [of u "s\<lparr>heap_mem := m\<rparr>"] block_register_success(1) [OF rT r [unfolded rc]] by (simp add: T_def)
    ultimately show ?thesis by blast
  qed
qed

lemma digit_char_inj:
  assumes "i < 4" "j < 4" "digit_char (i + 1) = digit_char (j + 1)"
  shows "i = j"
proof -
  have "48 + int (i + 1) = 48 + int (j + 1)"
    using arg_cong [OF assms(3), of "of_char :: char \<Rightarrow> int"] of_char_digit [of "i + 1"] of_char_digit [of "j + 1"] assms(1,2) by linarith
  then show ?thesis by simp
qed

lemma mbr_entries_room:
  fixes s :: "('h, 'a) disk_state_scheme"
  assumes "disk_inv s" "disk \<in> set (registered s)" "cstring name" "length name \<le> 29" "set is \<subseteq> {..<4}" "distinct is"
    "heap_tail s z" "100 * length is + 100 \<le> z" "length (registered s) + length is \<le> BLOCK_MAX_DEVICES"
    "\<forall>i \<in> set is. name @ [CHR ''p'', digit_char (i + 1)] \<notin> dev_name s ` set (registered s)"
  shows "\<exists>u. mbr_entries disk name mbr is s = Inr (MBR_OK, u) \<and> (\<exists>z'. heap_tail u z' \<and> z \<le> z' + 100 * length is)"
  using assms
proof (induction "is" arbitrary: s z)
  case (Cons i "is")
  have i: "i < 4" "set is \<subseteq> {..<4}" "i \<notin> set is" "distinct is" using Cons.prems(5,6) by auto
  show ?case
  proof (cases "mbr_valid mbr i")
    case False
    have "\<exists>u. mbr_entries disk name mbr is s = Inr (MBR_OK, u) \<and> (\<exists>z'. heap_tail u z' \<and> z \<le> z' + 100 * length is)"
      using Cons.prems by (intro Cons.IH) auto
    then show ?thesis using mbr_entry_skip [OF False, of disk name s] by fastforce
  next
    case True
    let ?add = "mbr_add_partition disk name i (mbr_read_u32_le mbr (446 + i * 16 + 8)) (mbr_read_u32_le mbr (446 + i * 16 + 12)) s"
    obtain u where u: "?add = Inr (None, u)" "heap_tail u (z - 100)"
      using mbr_add_partition_room [OF Cons.prems(1-4) i(1) Cons.prems(7), of "mbr_read_u32_le mbr (446 + i * 16 + 8)" "mbr_read_u32_le mbr (446 + i * 16 + 12)"]
        Cons.prems(8-10) by auto
    have A: "entry_added disk name mbr i s u"
      by (rule mbr_add_partition_result [OF Cons.prems(1-3) i(1) refl refl, of mbr]) (use u(1) Cons.prems(4) in auto)
    then obtain d where d: "registered u = registered s @ [d]" "dev_name u d = name @ [CHR ''p'', digit_char (i + 1)]"
      "\<forall>e \<in> set (registered s). dev_name u e = dev_name s e" "disk_inv u"
      by (auto simp: entry_added_def is_partition_def dev_name_def dev_view_def)
    have "name @ [CHR ''p'', digit_char (j + 1)] \<notin> dev_name u ` set (registered u)" if "j \<in> set is" for j
    proof -
      have "digit_char (j + 1) \<noteq> digit_char (i + 1)" using digit_char_inj [of j i] i that by auto
      then show ?thesis using Cons.prems(10) that d by (auto simp: image_iff)
    qed
    then have "\<exists>v. mbr_entries disk name mbr is u = Inr (MBR_OK, v) \<and> (\<exists>z'. heap_tail v z' \<and> z - 100 \<le> z' + 100 * length is)"
      using Cons.prems d i u(2) by (intro Cons.IH) auto
    then show ?thesis using mbr_entry_add [OF True, of disk name s] u(1) by fastforce
  qed
qed auto

section \<open>A disk with a volume\<close>

text \<open>
  The drive returns the sectors of an image below \<open>n\<close>, in whatever state the controller is, as long as the driver
  knows the drives \<open>ds\<close>.
\<close>

definition drive_holds :: "'h bus \<Rightarrow> ata_drive list \<Rightarrow> int \<Rightarrow> (u32 \<Rightarrow> u8 list) \<Rightarrow> nat \<Rightarrow> bool" where
  "drive_holds B ds drive img n \<longleftrightarrow> (\<forall>(a :: 'h ata_state) lba. g_ata_drive a = ds \<and> unat lba < n \<longrightarrow>
     (\<exists>a'. ata_read_sector B drive lba True a = (ATA_OK, img lba, a')))"

text \<open>Where the first partition of the table begins, and what its first sector has to hold.\<close>

definition volume_start :: "(u32 \<Rightarrow> u8 list) \<Rightarrow> u32" where
  "volume_start img = mbr_read_u32_le (img 0) 454"

definition pyfs_volume :: "(u32 \<Rightarrow> u8 list) \<Rightarrow> nat \<Rightarrow> bool" where
  "pyfs_volume img n \<longleftrightarrow> 0 < n \<and> img 0 ! 510 = 0x55 \<and> img 0 ! 511 = 0xAA \<and> mbr_valid (img 0) 0 \<and> unat (volume_start img) < n \<and>
     sb_magic (superblock_of (img (volume_start img))) = PYFS_MAGIC \<and> sb_version (superblock_of (img (volume_start img))) = 1 \<and>
     sb_block_size (superblock_of (img (volume_start img))) = PYFS_BLOCK_SIZE"

lemma boot_disk_read:
  assumes "drive_holds B (g_ata_drive (ata s)) (sint (bd_ctx (boot_disk B a0))) img n" "dev_at s G_disk0 = boot_disk B a0" "unat lba < n"
  shows "\<exists>a. dev_read B G_disk0 lba True s = Some (BLOCK_SUCCESS, img lba, s\<lparr>ata := a\<rparr>) \<and> g_ata_drive a = g_ata_drive (ata s)"
proof -
  obtain a where a: "ata_read_sector B (sint (bd_ctx (boot_disk B a0))) lba True (ata s) = (ATA_OK, img lba, a)"
    using assms(1,3) unfolding drive_holds_def by blast
  have "bd_read (boot_disk B a0) = Ata_block_read" by (simp add: boot_disk_def g_disk0_def)
  then show ?thesis using a ata_read_sector_keeps(1) [OF a] assms(2)
    by (intro exI [of _ a]) (simp add: dev_read.simps ata_block_read_def)
qed

text \<open>Device \<open>d\<close> is the partition the first entry of the table describes, on the boot disk.\<close>

definition volume_dev :: "'h bus \<Rightarrow> 'h ata_state \<Rightarrow> (u32 \<Rightarrow> u8 list) \<Rightarrow> dptr \<Rightarrow> ('h, 'a) disk_state_scheme \<Rightarrow> bool" where
  "volume_dev B a0 img d s \<longleftrightarrow> dev_at s G_disk0 = boot_disk B a0 \<and> d \<in> set (registered s) \<and> is_partition s G_disk0 ''disk0'' (img 0) 0 d"

lemma volume_read:
  assumes inv: "disk_inv s" and v: "volume_dev B a0 img d s"
    and h: "drive_holds B (g_ata_drive (ata s)) (sint (bd_ctx (boot_disk B a0))) img n" "unat (volume_start img) < n"
  shows "\<exists>a. dev_read B d 0 True s = Some (BLOCK_SUCCESS, img (volume_start img), s\<lparr>ata := a\<rparr>)"
proof -
  have g: "dev_at s G_disk0 = boot_disk B a0" "bd_read (boot_disk B a0) = Ata_block_read" and d: "d \<in> set (registered s)"
    using v by (simp_all add: volume_dev_def boot_disk_def g_disk0_def)
  obtain p c where p: "d = Heap_dev p" "bd_read (dev_at s d) = Mbr_partition_read" "bd_ctx (dev_at s d) = c"
    "parent (part_at s c) = G_disk0" "base_lba (part_at s c) = volume_start img"
    using v by (auto simp: volume_dev_def is_partition_def volume_start_def)
  obtain xs where "dev_links s xs d" using dev_chain_links [of s "[]" "registered s" d] inv d by (auto simp: disk_inv_def)
  then have "c \<noteq> 0" using p by (simp add: dev_links_def)
  moreover have "\<not> 0xFFFFFFFF < volume_start img" using unat_u32_less [of "volume_start img"] by (simp add: word_less_nat_alt del: unat_u32_less)
  ultimately have "mbr_partition_target d 0 True s = Some (G_disk0, volume_start img)" using p g by (simp add: mbr_partition_target_def Let_def)
  then show ?thesis using boot_disk_read [OF h(1) g(1) h(2)] p(2) by (simp add: dev_read.simps [of B d]) blast
qed

lemma mbr_scan_volume:
  fixes s :: "('h, 'a) disk_state_scheme"
  assumes inv: "disk_inv s" and disk: "G_disk0 \<in> set (registered s)" "dev_at s G_disk0 = boot_disk B a0"
    and h: "drive_holds B (g_ata_drive (ata s)) (sint (bd_ctx (boot_disk B a0))) img n" "pyfs_volume img n"
    and room: "heap_tail s z" "600 \<le> z" "dev_name s ` set (registered s) \<subseteq> {''disk0'', ''disk1''}" "length (registered s) \<le> 2"
  shows "\<exists>t d. mbr_scan_and_register B G_disk0 (Some ''disk0'') s = Inr (MBR_OK, t) \<and> disk_inv t \<and> volume_dev B a0 img d t \<and>
    found ''disk0p1'' t = Some d \<and> g_ata_drive (ata t) = g_ata_drive (ata s) \<and> (\<exists>z'. heap_tail t z' \<and> z \<le> z' + 400)"
proof -
  have V: "0 < n" "img 0 ! 510 = 0x55" "img 0 ! 511 = 0xAA" "mbr_valid (img 0) 0" using h(2) by (simp_all add: pyfs_volume_def)
  obtain a where a: "dev_read B G_disk0 0 True s = Some (BLOCK_SUCCESS, img 0, s\<lparr>ata := a\<rparr>)" "g_ata_drive a = g_ata_drive (ata s)"
    using boot_disk_read [OF h(1) disk(2), of 0] V(1) by auto
  define s1 where "s1 = s\<lparr>ata := a\<rparr>"
  have s1: "disk_inv s1" "registered s1 = registered s" "dev_name s1 = dev_name s" "heap_tail s1 z" "dev_at s1 G_disk0 = boot_disk B a0"
    "g_ata_drive (ata s1) = g_ata_drive (ata s)"
    using dev_read_inv(1) [OF inv disk(1) a(1)] room(1) heap_tail_cong [of s1 s z] disk(2) a(2)
    by (simp_all add: s1_def registered_def dev_name_def fun_eq_iff)
  have b: "bd_read (boot_disk B a0) = Ata_block_read" "bd_sector_size (boot_disk B a0) = 512" by (simp_all add: boot_disk_def g_disk0_def)
  have run: "mbr_scan_and_register B G_disk0 (Some ''disk0'') s = mbr_entries G_disk0 ''disk0'' (img 0) [0..<4] s1"
    using a(1) disk(2) b V by (simp add: mbr_scan_and_register_def s1_def)
  have nm: "cstring ''disk0''" "length ''disk0'' \<le> 29" "set [0..<4] \<subseteq> {..<4 :: nat}" "distinct [0..<4]" by (auto simp: NUL_def)
  have d0: "G_disk0 \<in> set (registered s1)" using disk(1) s1(2) by simp
  have new: "\<forall>i \<in> set [0..<4]. ''disk0'' @ [CHR ''p'', digit_char (i + 1)] \<notin> dev_name s1 ` set (registered s1)"
    using room(3) unfolding s1(2,3) by fastforce
  obtain u z' where u: "mbr_entries G_disk0 ''disk0'' (img 0) [0..<4] s1 = Inr (MBR_OK, u)" "heap_tail u z'" "z \<le> z' + 100 * length [0..<4]"
    using mbr_entries_room [OF s1(1) d0 nm s1(4) _ _ new, of "img 0"] room(2,4) s1(2) by auto
  have R: "scan_result G_disk0 ''disk0'' (img 0) [0..<4] s1 MBR_OK u"
    using mbr_entries_result [OF s1(1) d0 nm(1,3), of "img 0"] u(1) by auto
  have "[0..<4] = 0 # [1..<4]" by (simp add: upt_rec)
  then have pr: "mbr_primary ''disk0'' (img 0) [0..<4] = 0 # filter (mbr_valid (img 0)) [1..<4]" using V(4) by (simp add: mbr_primary_def)
  obtain ds where ds: "registered u = registered s1 @ ds" "length ds = length (mbr_primary ''disk0'' (img 0) [0..<4])"
    "list_all2 (\<lambda>i d. is_partition u G_disk0 ''disk0'' (img 0) i d) (take (length ds) (mbr_primary ''disk0'' (img 0) [0..<4])) ds"
    and U: "disk_inv u" "ata u = ata s1" "\<forall>d \<in> set (registered s1). dev_view u d = dev_view s1 d"
    using R unfolding scan_result_def by auto
  obtain d ds' where d: "ds = d # ds'" "is_partition u G_disk0 ''disk0'' (img 0) 0 d"
    using ds(2,3) unfolding pr by (auto simp: list_all2_Cons1)
  have g: "dev_at u G_disk0 = boot_disk B a0" using U(3) d0 s1(5) by (auto simp: dev_view_def)
  have dig: "digit_char 1 = CHR ''1''" by code_simp
  have n: "dev_name u d = ''disk0p1''" using d(2) dig by (auto simp: is_partition_def dev_name_def)
  have "dev_name u e \<noteq> ''disk0p1''" if "e \<in> set (registered s1)" for e
  proof -
    have "dev_name u e = dev_name s e" using U(3) that s1(3) by (auto simp: dev_view_def dev_name_def fun_eq_iff)
    then have "dev_name u e \<in> {''disk0'', ''disk1''}" using room(3) that s1(2) by auto
    then show ?thesis by auto
  qed
  then have "find (\<lambda>e. dev_name u e = ''disk0p1'') (registered s1) = None" by (simp add: find_None_iff)
  then have "found ''disk0p1'' u = Some d" using n by (simp add: found_def ds(1) d(1) find_append)
  moreover have "volume_dev B a0 img d u" using g d ds(1) by (simp add: volume_dev_def)
  ultimately show ?thesis using run u U(1,2) s1(6) by auto
qed

section \<open>Mounting the volume\<close>

lemma volume_dev_cong:
  assumes "dev_at t = dev_at s" "part_at t = part_at s" "registered t = registered s"
  shows "volume_dev B a0 img d t = volume_dev B a0 img d s" "found nm t = found nm s" "is_partition t e nm mbr i d = is_partition s e nm mbr i d"
  using assms by (simp_all add: volume_dev_def is_partition_def found_def dev_name_def)

lemma boot_disks_volume:
  fixes s :: "('h, 'g, 'a) kernel_scheme"
  assumes cold: "cold s" "heap_inv s" "live s = {}" "heap_abs s = [(1048556, True)]" and found: "drive_found B (ata s)"
    and h: "drive_holds B (g_ata_drive (ata_init B (ata s))) (sint (bd_ctx (boot_disk B (ata s)))) img n" "pyfs_volume img n"
  shows "\<exists>t d z. boot_disks B s = Inr t \<and> disk_inv t \<and> volume_dev B (ata s) img d t \<and> found ''disk0p1'' t = Some d \<and>
    heap_tail t z \<and> 1000 \<le> z \<and> g_ata_drive (ata t) = g_ata_drive (ata_init B (ata s))"
proof (rule boot_disks_scan [OF cold(1-3), of B])
  fix s3 d
  assume run: "boot_disks B s = (if d \<noteq> Null_dev then kbind (mbr_scan_and_register B d (Some ''disk0'') s3) (\<lambda>(rc, s).
      Inr (if rc \<noteq> 0 then warn_rc ''WARN: MBR scan failed (rc='' rc s else s))
    else Inr (say ''WARN: disk0 not present; skipping MBR scan'' s3))"
    and s3: "disk_inv s3" "heap_abs s3 = heap_abs s" "ata s3 = ata_init B (ata s)"
      "found ''disk0'' s3 = (if drive_found B (ata s) then Some G_disk0 else None)"
      "drive_found B (ata s) \<longrightarrow> dev_at s3 G_disk0 = boot_disk B (ata s)"
      "dev_name s3 ` set (registered s3) \<subseteq> {''disk0'', ''disk1''}" "length (registered s3) \<le> 2"
    and d: "d = (if drive_found B (ata s) then G_disk0 else Null_dev)"
  have g: "G_disk0 \<in> set (registered s3)" "dev_at s3 G_disk0 = boot_disk B (ata s)"
    using s3(4,5) found by (auto simp: found_def find_Some_iff in_set_conv_nth)
  have tail: "heap_tail s3 1048556" using s3(2) cold(4) by (simp add: heap_tail_def)
  have z: "600 \<le> (1048556 :: nat)" by simp
  obtain t e z' where t: "mbr_scan_and_register B G_disk0 (Some ''disk0'') s3 = Inr (MBR_OK, t)" "disk_inv t" "volume_dev B (ata s) img e t"
    "found ''disk0p1'' t = Some e" "g_ata_drive (ata t) = g_ata_drive (ata s3)" "heap_tail t z'" "1048556 \<le> z' + 400"
    using mbr_scan_volume [OF s3(1) g h(1) [folded s3(3)] h(2) tail z s3(6,7)] by blast
  have "boot_disks B s = Inr t" using run t(1) d found by simp
  then show ?thesis using t s3(3) by (intro exI [of _ t] exI [of _ e] exI [of _ z']) simp
qed

lemma boot_pyfs_volume:
  fixes s :: "('h, 'g, 'a) kernel_scheme"
  assumes up: "files_up s" "used_mounts (g_mounts s) = {root_mount, dev_mount}" and d: "volume_dev B a0 img d s" "found ''disk0p1'' s = Some d"
    and room: "heap_tail s z" "100 \<le> z"
    and h: "drive_holds B (g_ata_drive (ata s)) (sint (bd_ctx (boot_disk B a0))) img n" "pyfs_volume img n"
  shows "\<exists>t c. boot_pyfs B s = Inr t \<and> used_mounts (g_mounts t) = {root_mount, dev_mount, py_mount c} \<and>
    pyfs_at t c = \<lparr>px_dev = d, px_sb = superblock_of (img (volume_start img))\<rparr> \<and> dev_at t = dev_at s \<and> part_at t = part_at s \<and>
    registered t = registered s"
proof -
  define s1 where "s1 = say ''Probing PyFS on disk0p1...'' s"
  have s1: "files_up s1" "volume_dev B a0 img d s1" "found ''disk0p1'' s1 = Some d" "heap_tail s1 z" "ata s1 = ata s" "g_mounts s1 = g_mounts s"
    "dev_at s1 = dev_at s" "part_at s1 = part_at s" "registered s1 = registered s"
    using up(1) d room(1) volume_dev_cong [of s1 s] heap_tail_cong [of s1 s z] by (simp_all add: s1_def console_defs console_files)
  have inv: "vfs_inv s1" "disk_inv s1" "heap_inv s1" "reg_inv s1" using s1(1) by (simp_all add: files_up_def vfs_inv_def disk_inv_def)
  have dd: "d \<in> set (registered s1)" using s1(2) by (simp add: volume_dev_def)
  have V: "unat (volume_start img) < n" using h(2) by (simp add: pyfs_volume_def)
  obtain a where r: "dev_read B d 0 True s1 = Some (BLOCK_SUCCESS, img (volume_start img), s1\<lparr>ata := a\<rparr>)"
    using volume_read [OF inv(2) s1(2) h(1) [folded s1(5)] V] by blast
  have r4: "0 < unat (20 :: u32)" "round4 (unat (20 :: u32)) + 24 < z" using room(2) by (simp_all add: round4_def)
  obtain c m where k: "kmalloc 20 s1 = Inr (c, s1\<lparr>heap_mem := m\<rparr>)" "c \<noteq> 0" using kmalloc_tail [OF inv(3) s1(4) r4] by blast
  obtain t where t: "pyfs_create B d True s1 = Inr (0, Some c, t)" "pyfs_at t c = \<lparr>px_dev = d, px_sb = superblock_of (img (volume_start img))\<rparr>"
    using pyfs_create_run [OF inv(1) dd r k(1) refl] h(2) k(2) unfolding pyfs_volume_def by auto
  have C: "vfs_inv t" "pyfs_mount_ok t c" "c \<notin> owned t" "base_view t = base_view s1"
    by (rule pyfs_create_result [OF inv(1) dd, of B]; use t(1) in auto)+
  have b: "g_mounts t = g_mounts s1" "dev_at t = dev_at s1" "part_at t = part_at s1" "registered t = registered s1"
    using C(4) by (simp_all add: base_view_def registered_def)
  obtain ms where ms: "vfs_mount (Some ''/py'') (Some ''pyfs'') (Some PYFS_OPS) c t = (VFS_OK, t\<lparr>g_mounts := ms\<rparr>)"
    "used_mounts ms = {root_mount, dev_mount, py_mount c}"
    using boot_pyfs_mount [OF C(1-3)] b(1) s1(6) up(2) by auto
  have nm: "cstring ''disk0p1''" by (simp add: NUL_def)
  have "block_get_by_name (Some ''disk0p1'') s1 = d" unfolding get_found [OF inv(4) nm] s1(3) by simp
  moreover have "d \<noteq> Null_dev" using dd inv(4) by (auto simp: reg_inv_def usable_def)
  ultimately have "boot_pyfs B s = Inr (t\<lparr>g_mounts := ms\<rparr>)"
    unfolding boot_pyfs_def Let_def s1_def [symmetric] using t(1) ms(1) by simp
  then show ?thesis using ms(2) t(2) b s1(7-9) by (intro exI [of _ "t\<lparr>g_mounts := ms\<rparr>"] exI [of _ c]) (simp add: registered_def)
qed

section \<open>Property\<close>

text \<open>
  C3. A disk whose first partition is a PyFS volume comes up mounted: if a drive answers, delivers the
  sectors of an image below \<open>n\<close>, and the image has a partition table whose first entry is a primary partition that
  begins, below \<open>n\<close>, with a valid superblock, then the boot ends with \<^verbatim>\<open>disk0p1\<close> registered as that partition of \<^verbatim>\<open>disk0\<close>
  and with \<^verbatim>\<open>/py\<close> mounted on a context that holds this device and the superblock of the image.
\<close>

theorem kernel_mounts_volume:
  fixes s :: "('h, 'g, 'a) kernel_scheme"
  assumes cold: "cold s" "boot_memory (phys s)" and found: "drive_found B (ata s)"
    and h: "drive_holds B (g_ata_drive (ata_init B (ata s))) (sint (bd_ctx (boot_disk B (ata s)))) img n" "pyfs_volume img n"
  shows "\<exists>t d c. k_boot L B D s = Inr t \<and> booted t \<and> block_get_by_name (Some ''disk0p1'') t = d \<and> is_partition t G_disk0 ''disk0'' (img 0) 0 d \<and>
    used_mounts (g_mounts t) = {root_mount, dev_mount, py_mount c} \<and>
    pyfs_at t c = \<lparr>px_dev = d, px_sb = superblock_of (img (volume_start img))\<rparr>"
proof -
  obtain s1 where s1: "boot_core L D s = Inr s1" "core_up s1" "ata s1 = ata s" using boot_core_result [OF cold] by blast
  have c1: "cold s1" "heap_inv s1" "live s1 = {}" "heap_abs s1 = [(1048556, True)]" using s1(2) by (simp_all add: core_up_def)
  obtain s2 d z where s2: "boot_disks B s1 = Inr s2" "disk_inv s2" "volume_dev B (ata s) img d s2" "found ''disk0p1'' s2 = Some d"
    "heap_tail s2 z" "1000 \<le> z" "g_ata_drive (ata s2) = g_ata_drive (ata_init B (ata s))"
    using boot_disks_volume [OF c1, of B img n] found h unfolding s1(3) by blast
  have D2: "all_dev_owned s2" "disk_view s2 = disk_view s1" using boot_disks_result [OF c1(1-3), of B] s2(1) by auto
  have n2: "length (g_mounts s2) = VFS_MAX_MOUNTS" "length (g_open s2) = VFS_MAX_OPEN_FILES"
    using disk_view_kernel [OF D2(2)] c1(1) by (simp_all add: cold_def)
  obtain s3 where s3: "boot_files B s2 = boot_pyfs B s3" "files_up s3" "used_mounts (g_mounts s3) = {root_mount, dev_mount}"
    "store_view s3 = store_view s2" using boot_files_mounts [OF s2(2) D2(1) n2, of B] by blast
  have v3: "dev_at s3 = dev_at s2" "part_at s3 = part_at s2" "registered s3 = registered s2" "ata s3 = ata s2"
    "start_header s3 = start_header s2" "heap_mem s3 = heap_mem s2" using s3(4) by (simp_all add: store_view_def registered_def)
  have V3: "volume_dev B (ata s) img d s3" "found ''disk0p1'' s3 = Some d" "heap_tail s3 z" "100 \<le> z"
    using volume_dev_cong(1,2) [OF v3(1-3)] heap_tail_cong [OF v3(5,6), of z] s2(3-6) by simp_all
  have h3: "drive_holds B (g_ata_drive (ata s3)) (sint (bd_ctx (boot_disk B (ata s)))) img n" using h(1) s2(7) v3(4) by simp
  obtain s4 c where s4: "boot_pyfs B s3 = Inr s4" "used_mounts (g_mounts s4) = {root_mount, dev_mount, py_mount c}"
    "pyfs_at s4 c = \<lparr>px_dev = d, px_sb = superblock_of (img (volume_start img))\<rparr>"
    "dev_at s4 = dev_at s3" "part_at s4 = part_at s3" "registered s4 = registered s3"
    using boot_pyfs_volume [OF s3(2,3) V3 h3 h(2)] by blast
  obtain t where t: "k_boot L B D s = Inr t" "booted t" using k_boot_result [OF cold, of L B D] by blast
  have f: "boot_finish B D s4 = Inr t" using t(1) s1(1) s2(1) s3(1) s4(1) by (simp add: k_boot_def)
  have "files_up s4" "core_view s4 = core_view s2" using boot_files_result [OF s2(2) D2(1) n2, of B] s3(1) s4(1) by auto
  note i4 = files_ready [OF s1(2) D2(2) this]
  obtain v where v: "boot_finish B D s4 = Inr v" "g_mounts v = g_mounts s4" "registered v = registered s4" "dev_at v = dev_at s4"
    "part_at v = part_at s4" "pyfs_at v = pyfs_at s4" using boot_finish_result [OF i4(1-4), of B D] by blast
  have e: "v = t" using f v(1) by simp
  have x: "dev_at t = dev_at s2" "part_at t = part_at s2" "registered t = registered s2" using v(3-5) s4(4-6) v3(1-3) e by simp_all
  have V: "volume_dev B (ata s) img d t" "found ''disk0p1'' t = Some d" using volume_dev_cong(1,2) [OF x] s2(3,4) by simp_all
  have reg: "reg_inv t" and nm: "cstring ''disk0p1''"
    using t(2) by (simp_all add: booted_def kernel_inv_def sys_inv_def vfs_inv_def disk_inv_def NUL_def)
  have "block_get_by_name (Some ''disk0p1'') t = d" unfolding get_found [OF reg nm] V(2) by simp
  then show ?thesis using t V(1) s4(2,3) v(2,6) e by (auto simp: volume_dev_def)
qed

text \<open>A disk of 1 MiB with a partition table and a PyFS superblock at the start of its partition.\<close>

definition volume_image :: "int \<Rightarrow> u32 \<Rightarrow> u16 list" where
  "volume_image d l = (if l = 63 then pyfs_image d l else mbr_image d l)"

lemma disk_bus_holds:
  assumes "\<And>l. length (img 0 l) = 256" "n \<le> ATA_LBA28_MAX"
  shows "drive_holds (disk_bus img n) [\<lparr>present = True, lba28_sectors = n\<rparr>, x] 0 (\<lambda>l. le_bytes (img 0 l)) (unat n)"
  unfolding drive_holds_def
proof (intro allI impI)
  fix a :: "((u16 \<times> u8) list \<times> u16 list) ata_state" and lba :: u32
  assume a: "g_ata_drive a = [\<lparr>present = True, lba28_sectors = n\<rparr>, x] \<and> unat lba < unat n"
  then have "ata_refusal 0 lba True a = None" using assms(2)
    by (auto simp: ata_refusal_def ata_valid_drive_def ata_is_present_def ata_get_lba28_sectors_def word_less_nat_alt word_le_nat_alt)
  then show "\<exists>a'. ata_read_sector (disk_bus img n) 0 lba True a = (ATA_OK, le_bytes (img 0 lba), a')"
    using assms(1) by (rule disk_bus_read)
qed

lemma volume_image_ok: "pyfs_volume (\<lambda>l. le_bytes (volume_image 0 l)) (unat (2048 :: u32))" "length (volume_image d l) = 256"
proof -
  let ?b = "le_bytes (mbr_image 0 0)"
  have n: "?b ! (2 * k) = ucast (mbr_image 0 0 ! k)" "?b ! (2 * k + 1) = ucast (drop_bit 8 (mbr_image 0 0 ! k))" if "k < 256" for k
    using le_bytes_nth [of k "mbr_image 0 0"] that by (auto simp: mbr_image_def)
  have "mbr_image 0 0 ! 227 = 63" "mbr_image 0 0 ! 228 = 0" by (simp_all add: mbr_image_def nth_append)
  then have "mbr_read_u32_le ?b 454 = 63" using n [of 227] n [of 228] by (simp add: mbr_read_u32_le_def)
  then have st: "volume_start (\<lambda>l. le_bytes (volume_image 0 l)) = 63" by (simp add: volume_start_def volume_image_def)
  have "0 \<in> set (mbr_primary ''disk0'' ?b [0..<4])" by (simp add: mbr_image_bytes(3))
  then have "mbr_valid ?b 0" by (simp add: mbr_primary_def)
  then show "pyfs_volume (\<lambda>l. le_bytes (volume_image 0 l)) (unat (2048 :: u32))"
    unfolding pyfs_volume_def st using mbr_image_bytes(1,2) pyfs_image_superblock by (simp add: volume_image_def)
  show "length (volume_image d l) = 256" by (simp add: volume_image_def pyfs_image_def mbr_image_def)
qed

theorem kernel_mounts_volume_witness:
  "\<exists>t c. k_boot \<lparr>idt_addr = 0x3000, isr_stub = (\<lambda>n. 0x10000 + of_nat n), irq_stub = (\<lambda>n. 0x11000 + of_nat n)\<rparr> (disk_bus volume_image 2048) sample_idle_bus sample_power = Inr t \<and>
     used_mounts (g_mounts t) = {root_mount, dev_mount, py_mount c} \<and> sb_magic (px_sb (pyfs_at t c)) = PYFS_MAGIC"
proof -
  let ?B = "disk_bus volume_image 2048" and ?img = "\<lambda>l. le_bytes (volume_image 0 l)"
  have "length (g_ata_drive (ata sample_power)) = 2" using sample_power_cold(1) by (simp add: cold_def ata_inv_def)
  from disk_bus_init [OF this, of volume_image 2048]
  have a: "g_ata_drive (ata_init ?B (ata sample_power)) = [\<lparr>present = True, lba28_sectors = 2048\<rparr>, \<lparr>present = True, lba28_sectors = 2048\<rparr>]" .
  then have d: "drive_found ?B (ata sample_power)" "bd_ctx (boot_disk ?B (ata sample_power)) = 0"
    by (simp_all add: drive_found_def boot_disk_def ata_is_present_def ata_valid_drive_def)
  have "drive_holds ?B (g_ata_drive (ata_init ?B (ata sample_power))) (sint (bd_ctx (boot_disk ?B (ata sample_power)))) ?img (unat (2048 :: u32))"
    unfolding a d(2) using disk_bus_holds [of volume_image 2048] volume_image_ok(2) by simp
  note M = kernel_mounts_volume [OF sample_power_cold(1) _ d(1) this volume_image_ok(1)]
  have "boot_memory (phys sample_power)" using power_boot sample_power_cold(2) by simp
  from M [OF this, of "\<lparr>idt_addr = 0x3000, isr_stub = (\<lambda>n. 0x10000 + of_nat n), irq_stub = (\<lambda>n. 0x11000 + of_nat n)\<rparr>" sample_idle_bus]
  obtain t c where t: "k_boot \<lparr>idt_addr = 0x3000, isr_stub = (\<lambda>n. 0x10000 + of_nat n), irq_stub = (\<lambda>n. 0x11000 + of_nat n)\<rparr> ?B sample_idle_bus sample_power = Inr t"
    "used_mounts (g_mounts t) = {root_mount, dev_mount, py_mount c}" "px_sb (pyfs_at t c) = superblock_of (?img (volume_start ?img))" by auto
  have "sb_magic (px_sb (pyfs_at t c)) = PYFS_MAGIC" unfolding t(3) using volume_image_ok(1) by (simp only: pyfs_volume_def)
  with t(1,2) show ?thesis by blast
qed

end
