(* ===== verification/Spec2Isabelle.thy ===== *)
theory Spec2Isabelle
  imports Terminal Boot_Volume
begin

text \<open>
  \<^bold>\<open>The PyramidOS kernel.\<close>

  PyramidOS is a small 32-bit kernel for i386 machines: a boot loader collects the memory map and
  jumps to \<^verbatim>\<open>k_main\<close>, which brings up memory management, interrupts, drivers, block devices and file
  systems, runs diagnostics and ends in an interactive shell. This library models the C code of the
  kernel under \<^verbatim>\<open>src/kernel\<close> function by function and proves what makes each part correct, and that the
  parts together bring up and keep a consistent kernel.

  \<^bold>\<open>How the parts interact, and the state.\<close> The state of the kernel is one record that grows with the
  layers of the code: \<open>kbase\<close> (the calls made to the console) is extended by \<open>pmm_state\<close> (physical memory
  and the frame manager), \<open>vmm_state\<close> (page directory, control registers, cached translations),
  \<open>heap_state\<close>, \<open>disk_state\<close> (drives, device structures, registry), \<open>vfs_state\<close> (mounts, open files, file
  system contexts) and \<open>kernel\<close> (the small devices with the interrupt table, the command line, the pages
  of the diagnostics). A function of a lower layer is polymorphic in the fields above it, so its lemmas
  hold unchanged in the whole kernel. Functions return \<open>Inr\<close> a result and the new state, or \<open>Inl\<close> the
  reason why the machine stopped: a panic with its message, or a wait that never ends. Integers are words
  of their C width; counters and indices kept in \<^verbatim>\<open>uint32_t\<close> variables are natural numbers with the
  wrap-around written out. Memory is a function from addresses to bytes. Structures on the heap that the
  code only reaches through typed pointers are kept in typed stores, indexed by the address the allocator
  returned for them; the headers of the heap itself are bytes in memory. The hardware behind the ports is
  a parameter, an arbitrary state machine (\<open>bus\<close>); so are the addresses the linker chooses (\<open>link_map\<close>) and
  the contents of uninitialised C variables (\<open>c_undef\<close>). Interrupts that arrive while the processor idles
  are explicit lists.

  \<^bold>\<open>Theories, in the order of the layers.\<close>

  \<^item> \<open>Kernel_Prelude\<close>: word types, the result type with its bind and fold, shared lemmas, the collections
    \<open>kres_simps\<close> and \<open>mem_simps\<close>.
  \<^item> \<open>CString\<close> (\<^verbatim>\<open>lib/string.c\<close>): every function on byte memory, and comparison and \<^verbatim>\<open>atoi\<close> on strings, with
    the refinement between the two. \<^verbatim>\<open>atoi\<close> inverts decimal rendering.
  \<^item> \<open>PMM\<close>, \<open>PMM_Spec\<close> (\<^verbatim>\<open>core/pmm.c\<close>, \<^verbatim>\<open>core/bootinfo.h\<close>): the bitmap of frames, its word-wise search, the
    E820 map. Shown: the frames in use after initialisation, byte by byte, exact allocation and release, the least
    free frame is found, every panic, and the wrap of addresses at 4 GiB. The locale \<open>page_allocator\<close> is
    the contract of allocation, interpreted on \<^verbatim>\<open>pmm_alloc_page\<close> and \<^verbatim>\<open>pmm_free_page\<close>.
  \<^item> \<open>VMM\<close>, \<open>VMM_Spec\<close> (\<^verbatim>\<open>core/vmm.c\<close>): page tables in memory and the walk of the processor. Shown: mapping
    changes one page and nothing else, the identity mapping after initialisation, coherence of cached
    translations, every failure. The locale \<open>page_mapper\<close> lets a client map runs of pages.
  \<^item> \<open>Heap\<close>, \<open>Heap_Blocks\<close>, \<open>Heap_Refine\<close>, \<open>Heap_Spec\<close>, \<open>Heap_Correct\<close> (\<^verbatim>\<open>core/heap.c\<close>): the doubly linked
    block list in memory refines first-fit allocation and release with full coalescing on abstract block
    lists; the locale of the allocator contract is interpreted on the code; every reachable heap is well
    formed.
  \<^item> \<open>Keyboard\<close> (\<^verbatim>\<open>drivers/keyboard.c\<close>): translation and the ring buffer between interrupt handler and
    readers, as a bounded queue; blocking reads return; an interrupt inside a read loses nothing.
  \<^item> \<open>Port_IO\<close> (\<^verbatim>\<open>arch/i386/io.h\<close>), \<open>ATA\<close> (\<^verbatim>\<open>drivers/ata.c\<close>): port traffic over any hardware, sector reads
    and drive identification with their bounded polling.
  \<^item> \<open>Block\<close>, \<open>Disk\<close>, \<open>Disk_Spec\<close>, \<open>Disk_Correct\<close> (\<^verbatim>\<open>drivers/block.c\<close>, \<^verbatim>\<open>ata_block.c\<close>, \<^verbatim>\<open>mbr.c\<close>): the
    registry as a map from names to devices (locale \<open>name_registry\<close>), reads confined to their partition,
    the exact partitions a scan registers, the memory it keeps and when it has to stop.
  \<^item> \<open>Filesystems\<close>, \<open>VFS\<close>, \<open>VFS_Mounts\<close>, \<open>VFS_Spec\<close>, \<open>VFS_Read\<close>, \<open>VFS_Correct\<close>, \<open>PyFS_Correct\<close>
    (\<^verbatim>\<open>fs/*.c\<close>): path resolution by the longest mountpoint, the ownership of heap objects by devices,
    mounts and open files as an invariant of every sequence of calls, descriptors, reads of block files and
    of the cached superblock, reads that stay inside the caller's buffer.
  \<^item> \<open>Terminal\<close> (\<^verbatim>\<open>drivers/terminal.c\<close>): the VGA text buffer refines an abstract character screen.
  \<^item> \<open>Devices\<close> (\<^verbatim>\<open>drivers/timer.c\<close>, \<^verbatim>\<open>pic.c\<close>, \<^verbatim>\<open>rtc.c\<close>), \<open>Interrupts\<close>, \<open>Interrupts_Correct\<close>
    (\<^verbatim>\<open>arch/i386/idt.c\<close>, \<^verbatim>\<open>core/debug.c\<close>): the interrupt table, the central handler, panics, sleeping.
  \<^item> \<open>Selftest\<close>, \<open>Selftest_Correct\<close> (\<^verbatim>\<open>core/selftest.c\<close>): the diagnostics give back every frame and heap
    object they take, on every path.
  \<^item> \<open>Shell\<close>, \<open>Shell_Correct\<close> (\<^verbatim>\<open>core/shell.c\<close>): the line editor refines a string; every command that
    returns keeps the invariant of the kernel.
  \<^item> \<open>Boot\<close>, \<open>Kernel_State\<close>, \<open>Boot_Correct\<close> (\<^verbatim>\<open>core/main.c\<close>): the boot sequence, the invariant of the
    running kernel and the views of the state it depends on, and that every step of the boot succeeds.
    \<open>Boot_Volume\<close>: a disk with a PyFS volume in its first partition comes up mounted.
  \<^item> This theory: the properties of the whole kernel, from power-on through any session at the shell.

  \<^bold>\<open>Loops, bounds and fuel.\<close> Loops over a range are folds or structural recursion. Loops that follow
  pointers or wait for the hardware are \<open>partial_function (option)\<close> definitions: \<open>None\<close> is a loop that
  never ends, and the theorems say when a result is returned. The polling loops of the disk driver count
  down from \<open>ATA_PIO_TIMEOUT\<close> as in the code. The only other number of turns is that of the endless loop
  of the shell: \<open>shell_run n\<close> and \<open>k_main n\<close> take \<open>n\<close> characters, and the theorems hold for every \<open>n\<close>.
  The constant 43690 in \<open>Heap_Spec\<close> bounds a walk along the block list: every block takes at least 24 of
  the \<open>0x100000\<close> bytes of the heap.

  \<^bold>\<open>Console.\<close> Components do not write to the terminal driver directly in the model; they record their
  calls (\<open>con_log\<close>), and \<open>Terminal\<close> shows what any sequence of these calls does to the screen.

  \<^bold>\<open>Not modelled.\<close> The boot loader and the assembly stubs of the kernel (entry, descriptor tables,
  interrupt entry points) are assembly; what they leave in memory and registers is a hypothesis or an
  argument here (\<open>boot_memory\<close>, \<open>cold\<close>, \<open>link_map\<close>, the \<open>registers\<close> record). The code of \<^verbatim>\<open>main.c\<close> between
  \<^verbatim>\<open>#if 0\<close> and \<^verbatim>\<open>#endif\<close> is not compiled. The Makefile and the Python generators run on the host.
  Interrupts are delivered where the processor idles and in the read of the keyboard buffer, the places
  where the code enables them around shared data; an interrupt at any other instruction would change
  only the tick counter and the keyboard buffer, which the other components do not read.
\<close>

section \<open>The whole kernel\<close>

text \<open>
  C1. The kernel boots. On a machine with enough memory, with the data segment as it is linked, every step
  of the boot sequence succeeds, whatever disks are attached and whatever they answer, and the shell starts
  with an empty line. At that point the invariant of the running kernel holds: frames, page
  tables, heap, devices, mounts and files are consistent, and no heap object is without an owner. The null
  and the device file system are mounted, at most a PyFS volume beside them, and no file is open. The device
  \<^verbatim>\<open>disk0\<close> can be looked up exactly if one of the two drives answered, and every registered device has sectors of
  512 bytes. Addresses below 4 MiB stand for
  themselves, and interrupts are enabled.
\<close>

theorem kernel_boots:
  fixes s :: "('h, 'g, 'a) kernel_scheme"
  assumes "cold s" "boot_memory (phys s)"
  shows "\<exists>t. k_boot L B D s = Inr t \<and> kernel_inv t \<and> line_of t = [] \<and>
    (\<exists>M. used_mounts (g_mounts t) = {root_mount, dev_mount} \<union> M \<and> (M = {} \<or> (\<exists>c. M = {py_mount c}))) \<and>
    (\<forall>e \<in> set (g_open t). \<not> o_used e) \<and>
    block_get_by_name (Some ''disk0'') t = (if drive_found B (ata s) then G_disk0 else Null_dev) \<and> sectors_512 t \<and>
    (\<forall>va. unat va < 0x400000 \<longrightarrow> walk t va = Some va) \<and> int_flag (kbd (mach t))"
proof -
  obtain t where t: "k_boot L B D s = Inr t" "booted t" "block_get_by_name (Some ''disk0'') t = (if drive_found B (ata s) then G_disk0 else Null_dev)"
    using k_boot_result [OF assms] by blast
  have "\<exists>M. used_mounts (g_mounts t) = {root_mount, dev_mount} \<union> M \<and> (M = {} \<or> (\<exists>c. M = {py_mount c}))"
    using t(2) by (auto simp: booted_def)
  then show ?thesis using t by (auto simp: booted_def)
qed

theorem kernel_boots_witness:
  "\<exists>t. k_boot \<lparr>idt_addr = 0x3000, isr_stub = (\<lambda>n. 0x10000 + of_nat n), irq_stub = (\<lambda>n. 0x11000 + of_nat n)\<rparr> sample_bus sample_idle_bus sample_power = Inr t \<and>
    kernel_inv t \<and> dev_mount \<in> set (g_mounts t) \<and> walk t 0xB8000 = Some 0xB8000"
proof -
  have m: "boot_memory (phys sample_power)" using power_boot sample_power_cold(2) by simp
  let ?L = "\<lparr>idt_addr = 0x3000, isr_stub = (\<lambda>n. 0x10000 + of_nat n), irq_stub = (\<lambda>n. 0x11000 + of_nat n)\<rparr>"
  show ?thesis using kernel_boots [OF sample_power_cold(1) m, of ?L sample_bus sample_idle_bus] by auto
qed

text \<open>
  C2. From power-on through any session at the shell, whatever is typed, whatever the disks and the clock
  answer and whatever interrupts arrive, the kernel stays consistent: after any number of turns of the
  shell's loop the invariant holds, with the frames, devices, mounts and open files of the booted kernel. The
  only ways to stop are the page fault of the deliberate crash and a wait that never ends; in particular no
  other panic of the kernel is reachable.
\<close>

theorem kernel_runs_safe:
  fixes s :: "('h, 'g, 'a) kernel_scheme"
  assumes "cold s" "boot_memory (phys s)"
  shows "\<exists>b. k_boot L B D s = Inr b \<and> (case k_main n U L B D batches irqs s of
      Inl e \<Rightarrow> e \<in> {Panic ''Page Fault'', Hang}
    | Inr t \<Rightarrow> kernel_inv t \<and> steady b t)"
proof -
  obtain b where b: "k_boot L B D s = Inr b" "booted b" using k_boot_result [OF assms] by blast
  have "kernel_inv b" using b(2) by (simp add: booted_def)
  from shell_run_end [OF this, of n U B D batches irqs] show ?thesis
    using b(1) by (intro exI [of _ b]) (simp add: k_main_def)
qed

theorem kernel_runs_safe_witness:
  "\<exists>b. k_boot \<lparr>idt_addr = 0x3000, isr_stub = (\<lambda>n. 0x10000 + of_nat n), irq_stub = (\<lambda>n. 0x11000 + of_nat n)\<rparr> sample_bus sample_idle_bus sample_power = Inr b \<and>
    (case k_main 2 \<lparr>undef_int = 0, undef_bytes = []\<rparr> \<lparr>idt_addr = 0x3000, isr_stub = (\<lambda>n. 0x10000 + of_nat n), irq_stub = (\<lambda>n. 0x11000 + of_nat n)\<rparr>
        sample_bus sample_idle_bus [[0x1E], [0x1C]] [] sample_power of
      Inl e \<Rightarrow> e \<in> {Panic ''Page Fault'', Hang} | Inr t \<Rightarrow> kernel_inv t \<and> steady b t)"
proof -
  have m: "boot_memory (phys sample_power)" using power_boot sample_power_cold(2) by simp
  show ?thesis by (rule kernel_runs_safe [OF sample_power_cold(1) m])
qed

end
